(* ===== verification/Prelude.thy ===== *)
theory Prelude
  imports Main "HOL-Library.Word"
begin

text \<open>
  Shared vocabulary of the development: the machine types of the build (LP64, little endian,
  as iOS uses), the combinator for C's \<^verbatim>\<open>if (!f(s)) return false; return g(s);\<close>,
  little-endian byte strings, and the generic facts on words and lists that the components use.

  C functions that return a status are modelled as state transformers into
  \<^verbatim>\<open>(bool * state) option\<close>: \<open>Some (b, s)\<close> is a return of \<open>b\<close> in state \<open>s\<close>,
  \<open>None\<close> is "no return" (a call through a NULL function pointer, or a recursion or loop that
  was given too little fuel).
\<close>

unbundle bit_operations_syntax

type_synonym byte = "8 word"
type_synonym u16 = "16 word"
type_synonym u32 = "32 word"
type_synonym u64 = "64 word"
type_synonym size_t = "64 word"
type_synonym addr = "64 word"

type_synonym 'st cfun = "'st \<Rightarrow> (bool \<times> 'st) option"

named_theorems codec_simps \<open>decoders applied to what the encoders wrote\<close>
named_theorems frame_intros \<open>rules for "nothing outside the footprint changes"\<close>

subsection \<open>Sequencing of status-returning calls\<close>

definition and_then :: "'st cfun \<Rightarrow> 'st cfun \<Rightarrow> 'st cfun" where
  "and_then f g s =
     (case f s of
        None \<Rightarrow> None
      | Some (ok, s') \<Rightarrow> if ok then g s' else Some (False, s'))"

definition c_true :: "'st cfun" where
  "c_true s = Some (True, s)"

definition no_return :: "'st cfun" where
  "no_return s = None"

text \<open>A loop over given items that stops at the first call that returns false.\<close>

primrec for_each :: "('x \<Rightarrow> 'st cfun) \<Rightarrow> 'x list \<Rightarrow> 'st cfun" where
  "for_each body [] = c_true"
| "for_each body (x # xs) = and_then (body x) (for_each body xs)"

subsection \<open>Little-endian byte strings\<close>

primrec le_word :: "byte list \<Rightarrow> 'a::len word" where
  "le_word [] = 0"
| "le_word (b # bs) = ucast b OR push_bit 8 (le_word bs)"

primrec le_bytes :: "nat \<Rightarrow> 'a::len word \<Rightarrow> byte list" where
  "le_bytes 0 w = []"
| "le_bytes (Suc n) w = ucast w # le_bytes n (drop_bit 8 w)"

lemma and_then_Some [simp]:
  "f s = Some (True, s') \<Longrightarrow> and_then f g s = g s'"
  "f s = Some (False, s') \<Longrightarrow> and_then f g s = Some (False, s')"
  "f s = None \<Longrightarrow> and_then f g s = None"
  by (simp_all add: and_then_def)

lemma and_then_True_iff:
  "and_then f g s = Some (True, s'') \<longleftrightarrow>
     (\<exists>s'. f s = Some (True, s') \<and> g s' = Some (True, s''))"
  by (auto simp: and_then_def split: option.splits if_splits)

lemma and_then_cases:
  assumes "and_then f g s = Some (ok, s'')"
  obtains (stop) "f s = Some (False, s'')" "\<not> ok"
  | (cont) s' where "f s = Some (True, s')" "g s' = Some (ok, s'')"
  using assms by (auto simp: and_then_def split: option.splits if_splits)

lemma c_true_simp [simp]: "c_true s = Some (True, s)"
  by (simp add: c_true_def)

lemma no_return_simp [simp]: "no_return s = None"
  by (simp add: no_return_def)

lemma length_le_bytes [simp]: "length (le_bytes n w) = n"
  by (induction n arbitrary: w) auto

lemma bit_le_word:
  fixes bs :: "byte list"
  shows "bit (le_word bs :: 'a::len word) k \<longleftrightarrow>
     k < LENGTH('a) \<and> k < 8 * length bs \<and> bit (bs ! (k div 8)) (k mod 8)"
proof (induction bs arbitrary: k)
  case Nil
  then show ?case by simp
next
  case (Cons b bs)
  show ?case
  proof (cases "k < 8")
    case True
    then show ?thesis
      by (auto simp: bit_simps)
  next
    case False
    then obtain j where k: "k = j + 8" by (metis add.commute le_Suc_ex not_less)
    have "bit b (j + 8) = False"
      by (auto dest: bit_imp_le_length)
    moreover have "(j + 8) div 8 - Suc 0 = j div 8" by simp
    ultimately show ?thesis
      using Cons.IH [of j] by (auto simp: k bit_simps dest: bit_imp_le_length)
  qed
qed

lemma nth_le_bytes: "i < n \<Longrightarrow> le_bytes n w ! i = ucast (drop_bit (8 * i) w)"
proof (induction n arbitrary: i w)
  case 0
  then show ?case by simp
next
  case (Suc n)
  then show ?case
    by (cases i) (simp_all add: add.commute)
qed

lemma le_word_le_bytes:
  fixes w :: "'a::len word"
  assumes "LENGTH('a) \<le> 8 * n"
  shows "le_word (le_bytes n w) = w"
proof (rule bit_word_eqI)
  fix k assume k: "k < LENGTH('a)"
  have "8 * (k div 8) + k mod 8 = k" by simp
  moreover have "k div 8 < n" using k assms by linarith
  ultimately show "bit (le_word (le_bytes n w) :: 'a word) k = bit w k"
    using k assms by (auto simp: bit_le_word nth_le_bytes bit_simps)
qed

lemma le_bytes_le_word:
  fixes bs :: "byte list"
  assumes "8 * length bs \<le> LENGTH('a::len)"
  shows "le_bytes (length bs) (le_word bs :: 'a word) = bs"
proof (rule nth_equalityI)
  show "length (le_bytes (length bs) (le_word bs :: 'a word)) = length bs" by simp
next
  fix i assume "i < length (le_bytes (length bs) (le_word bs :: 'a word))"
  then have i: "i < length bs" by simp
  show "le_bytes (length bs) (le_word bs :: 'a word) ! i = bs ! i"
  proof (rule bit_word_eqI)
    fix k assume k: "k < LENGTH(8)"
    then have "8 * i + k < 8 * length bs" "(8 * i + k) div 8 = i" "(8 * i + k) mod 8 = k"
      using i by auto
    then show "bit (le_bytes (length bs) (le_word bs :: 'a word) ! i) k = bit (bs ! i) k"
      using i k assms by (simp add: nth_le_bytes bit_simps bit_le_word add.commute)
  qed
qed

lemma unat_ucast_small:
  fixes w :: "'a::len word"
  shows "unat w < 2 ^ LENGTH('b::len) \<Longrightarrow> unat (ucast w :: 'b word) = unat w"
  by (simp add: unsigned_ucast_eq take_bit_eq_mod)

lemma unat_bound: "unat (w :: 'a::len word) < 2 ^ LENGTH('a)"
  by (rule unsigned_less)

end
