(* ===== verification/CMem.thy ===== *)
theory CMem
  imports Prelude
begin

text \<open>
  The store the C code works on: a flat map from 64-bit addresses to bytes. Message structs,
  \<^verbatim>\<open>pb_callback_t\<close> and \<^verbatim>\<open>pb_extension_t\<close> objects live in it, and all typed accesses of
  the source (\<^verbatim>\<open>*(const int32_t*)src\<close>, \<^verbatim>\<open>*(bool*)iter->pSize = true\<close>,
  \<^verbatim>\<open>memset\<close>, \<^verbatim>\<open>memcpy\<close>) are reads and writes of little-endian byte strings. The
  frame lemmas say which addresses a write leaves alone.
\<close>

type_synonym mem = "addr \<Rightarrow> byte"

primrec load_bytes :: "mem \<Rightarrow> addr \<Rightarrow> nat \<Rightarrow> byte list" where
  "load_bytes m a 0 = []"
| "load_bytes m a (Suc n) = m a # load_bytes m (a + 1) n"

primrec store_bytes :: "mem \<Rightarrow> addr \<Rightarrow> byte list \<Rightarrow> mem" where
  "store_bytes m a [] = m"
| "store_bytes m a (b # bs) = store_bytes (m(a := b)) (a + 1) bs"

definition load8 :: "mem \<Rightarrow> addr \<Rightarrow> byte" where
  "load8 m a = m a"

definition load16 :: "mem \<Rightarrow> addr \<Rightarrow> u16" where
  "load16 m a = le_word (load_bytes m a 2)"

definition load32 :: "mem \<Rightarrow> addr \<Rightarrow> u32" where
  "load32 m a = le_word (load_bytes m a 4)"

definition load64 :: "mem \<Rightarrow> addr \<Rightarrow> u64" where
  "load64 m a = le_word (load_bytes m a 8)"

definition load_bool :: "mem \<Rightarrow> addr \<Rightarrow> bool" where
  "load_bool m a = (m a \<noteq> 0)"

definition store_word :: "nat \<Rightarrow> mem \<Rightarrow> addr \<Rightarrow> 'a::len word \<Rightarrow> mem" where
  "store_word n m a w = store_bytes m a (le_bytes n w)"

definition store_bool :: "mem \<Rightarrow> addr \<Rightarrow> bool \<Rightarrow> mem" where
  "store_bool m a b = m(a := (if b then 1 else 0))"

text \<open>\<open>memset(a, 0, n)\<close>.\<close>

definition memset0 :: "mem \<Rightarrow> addr \<Rightarrow> nat \<Rightarrow> mem" where
  "memset0 m a n = store_bytes m a (replicate n 0)"

text \<open>The \<open>n\<close> addresses from \<open>a\<close> on, with the wrap-around of pointer arithmetic.\<close>

definition region :: "addr \<Rightarrow> nat \<Rightarrow> addr set" where
  "region a n = {a + of_nat i | i. i < n}"

lemma length_load_bytes [simp]: "length (load_bytes m a n) = n"
  by (induction n arbitrary: a) auto

lemma region_0 [simp]: "region a 0 = {}"
  by (simp add: region_def)

lemma region_Suc: "region a (Suc n) = insert a (region (a + 1) n)"
proof -
  have "(\<exists>i. x = a + of_nat i \<and> i < Suc n) \<longleftrightarrow> x = a \<or> (\<exists>i. x = a + 1 + of_nat i \<and> i < n)" for x
  proof
    assume "\<exists>i. x = a + of_nat i \<and> i < Suc n"
    then obtain i where "x = a + of_nat i" "i < Suc n" by blast
    then show "x = a \<or> (\<exists>i. x = a + 1 + of_nat i \<and> i < n)"
      by (cases i) (auto simp: add.assoc)
  next
    assume "x = a \<or> (\<exists>i. x = a + 1 + of_nat i \<and> i < n)"
    then show "\<exists>i. x = a + of_nat i \<and> i < Suc n"
    proof
      assume "x = a"
      then show ?thesis by (intro exI [of _ 0]) simp
    next
      assume "\<exists>i. x = a + 1 + of_nat i \<and> i < n"
      then obtain i where "x = a + 1 + of_nat i" "i < n" by blast
      then show ?thesis by (intro exI [of _ "Suc i"]) (simp add: add.assoc)
    qed
  qed
  then show ?thesis by (auto simp: region_def)
qed

lemma region_mono: "n \<le> k \<Longrightarrow> region a n \<subseteq> region a k"
  by (auto simp: region_def)

lemma region_offset: "i + n \<le> k \<Longrightarrow> region (a + of_nat i) n \<subseteq> region a k"
proof
  fix x assume le: "i + n \<le> k" and "x \<in> region (a + of_nat i) n"
  then obtain j where "x = a + of_nat i + of_nat j" "j < n" by (auto simp: region_def)
  then have "x = a + of_nat (i + j)" "i + j < k" using le by (auto simp: add.assoc)
  then show "x \<in> region a k" unfolding region_def by blast
qed

lemma store_bytes_frame: "x \<notin> region a (length bs) \<Longrightarrow> store_bytes m a bs x = m x"
  by (induction bs arbitrary: m a) (auto simp: region_Suc)

lemma store_bytes_append:
  "store_bytes m a (bs @ cs) = store_bytes (store_bytes m a bs) (a + of_nat (length bs)) cs"
  by (induction bs arbitrary: m a) (auto simp: add.assoc)

lemma load_bytes_frame:
  "(\<And>x. x \<in> region a n \<Longrightarrow> m' x = m x) \<Longrightarrow> load_bytes m' a n = load_bytes m a n"
  by (induction n arbitrary: a) (auto simp: region_Suc)

lemma nth_load_bytes: "i < n \<Longrightarrow> load_bytes m a n ! i = m (a + of_nat i)"
proof (induction n arbitrary: i a)
  case 0
  then show ?case by simp
next
  case (Suc n)
  then show ?case by (cases i) (auto simp: add.assoc)
qed

lemma notin_region_next:
  assumes "length bs < 2 ^ 64"
  shows "a \<notin> region (a + 1) (length (bs :: byte list))"
proof
  assume "a \<in> region (a + 1) (length bs)"
  then obtain i where i: "a = a + 1 + of_nat i" "i < length bs" by (auto simp: region_def)
  then have "(of_nat (Suc i) :: addr) = 0" by (simp add: algebra_simps)
  then have "2 ^ 64 dvd Suc i" by (simp only: word_of_nat_eq_0_iff) simp
  then show False using i(2) assms by (auto dest!: dvd_imp_le)
qed

lemma load_store_bytes:
  "length bs \<le> 2 ^ 64 \<Longrightarrow> load_bytes (store_bytes m a bs) a (length bs) = bs"
proof (induction bs arbitrary: m a)
  case Nil
  then show ?case by simp
next
  case (Cons b bs)
  then have "a \<notin> region (a + 1) (length bs)" by (intro notin_region_next) simp
  then have "store_bytes (m(a := b)) (a + 1) bs a = b"
    by (simp add: store_bytes_frame)
  with Cons show ?case by simp
qed

lemma store_bytes_at:
  assumes "length bs \<le> 2 ^ 64" "i < length bs"
  shows "store_bytes m a bs (a + of_nat i) = bs ! i"
  using assms load_store_bytes [of bs m a] nth_load_bytes [of i "length bs" "store_bytes m a bs" a]
  by simp

lemma store_word_frame [frame_intros]:
  "x \<notin> region a n \<Longrightarrow> store_word n m a w x = m x"
  by (simp add: store_word_def store_bytes_frame)

lemma memset0_frame [frame_intros]: "x \<notin> region a n \<Longrightarrow> memset0 m a n x = m x"
  by (simp add: memset0_def store_bytes_frame)

lemma store_bool_frame [frame_intros]: "x \<notin> region a (Suc 0) \<Longrightarrow> store_bool m a b x = m x"
  by (simp add: store_bool_def region_Suc)

lemma load_bool_store_bool [simp]: "load_bool (store_bool m a b) a = b"
  by (simp add: load_bool_def store_bool_def)

lemma load32_store_word [simp]: "load32 (store_word 4 m a w) a = w"
proof -
  have "load_bytes (store_bytes m a (le_bytes 4 w)) a 4 = le_bytes 4 w"
    using load_store_bytes [of "le_bytes 4 w" m a] by (simp del: le_bytes.simps)
  then show ?thesis
    by (simp add: load32_def store_word_def le_word_le_bytes del: le_bytes.simps)
qed

lemma load64_store_word [simp]: "load64 (store_word 8 m a w) a = w"
proof -
  have "load_bytes (store_bytes m a (le_bytes 8 w)) a 8 = le_bytes 8 w"
    using load_store_bytes [of "le_bytes 8 w" m a] by (simp del: le_bytes.simps)
  then show ?thesis
    by (simp add: load64_def store_word_def le_word_le_bytes del: le_bytes.simps)
qed

lemma load32_cong: "load_bytes m a 4 = load_bytes m' b 4 \<Longrightarrow> load32 m a = load32 m' b"
  by (simp only: load32_def)

end
