(* ===== verification/Pb.thy ===== *)
theory Pb
  imports CMem
begin

text \<open>
  \<^verbatim>\<open>nanopb/pb.h\<close>: the type codes of message fields, the field descriptor
  \<^verbatim>\<open>pb_field_t\<close>, the macros generated code uses to fill descriptors in, the wire types and
  the error-message slot of a stream.

  The build defines \<^verbatim>\<open>PB_FIELD_32BIT\<close> and \<^verbatim>\<open>PB_NO_PACKED_STRUCTS\<close> (see
  \<^verbatim>\<open>Target Support Files/nanopb/nanopb.xcconfig\<close>), so \<^verbatim>\<open>pb_size_t\<close> is
  \<^verbatim>\<open>uint32_t\<close> and \<^verbatim>\<open>pb_ssize_t\<close> is \<^verbatim>\<open>int32_t\<close>, kept as a 32-bit word that
  is sign-extended where it is added to a pointer. A \<^verbatim>\<open>pb_field_t\<close> array is the list of
  its entries; the entry past the end of the list is the terminator \<^verbatim>\<open>PB_LAST_FIELD\<close>.
  The \<^verbatim>\<open>const void *ptr\<close> of a descriptor is NULL, a default value or a nested
  descriptor array, so descriptors form finite trees: message types that contain themselves
  (possible through pointer fields only) are outside the model.
\<close>

type_synonym pb_size_t = "32 word"
type_synonym pb_ssize_t = "32 word"
type_synonym pb_type_t = "8 word"

subsection \<open>Type codes\<close>

definition PB_LTYPE_VARINT :: pb_type_t where [simp]: "PB_LTYPE_VARINT = 0x00"
definition PB_LTYPE_UVARINT :: pb_type_t where [simp]: "PB_LTYPE_UVARINT = 0x01"
definition PB_LTYPE_SVARINT :: pb_type_t where [simp]: "PB_LTYPE_SVARINT = 0x02"
definition PB_LTYPE_FIXED32 :: pb_type_t where [simp]: "PB_LTYPE_FIXED32 = 0x03"
definition PB_LTYPE_FIXED64 :: pb_type_t where [simp]: "PB_LTYPE_FIXED64 = 0x04"
definition PB_LTYPE_LAST_PACKABLE :: pb_type_t where [simp]: "PB_LTYPE_LAST_PACKABLE = 0x04"
definition PB_LTYPE_BYTES :: pb_type_t where [simp]: "PB_LTYPE_BYTES = 0x05"
definition PB_LTYPE_STRING :: pb_type_t where [simp]: "PB_LTYPE_STRING = 0x06"
definition PB_LTYPE_SUBMESSAGE :: pb_type_t where [simp]: "PB_LTYPE_SUBMESSAGE = 0x07"
definition PB_LTYPE_EXTENSION :: pb_type_t where [simp]: "PB_LTYPE_EXTENSION = 0x08"
definition PB_LTYPE_FIXED_LENGTH_BYTES :: pb_type_t where
  [simp]: "PB_LTYPE_FIXED_LENGTH_BYTES = 0x09"
definition PB_LTYPES_COUNT :: pb_type_t where [simp]: "PB_LTYPES_COUNT = 0x0A"
definition PB_LTYPE_MASK :: pb_type_t where [simp]: "PB_LTYPE_MASK = 0x0F"

definition PB_HTYPE_REQUIRED :: pb_type_t where [simp]: "PB_HTYPE_REQUIRED = 0x00"
definition PB_HTYPE_OPTIONAL :: pb_type_t where [simp]: "PB_HTYPE_OPTIONAL = 0x10"
definition PB_HTYPE_REPEATED :: pb_type_t where [simp]: "PB_HTYPE_REPEATED = 0x20"
definition PB_HTYPE_ONEOF :: pb_type_t where [simp]: "PB_HTYPE_ONEOF = 0x30"
definition PB_HTYPE_MASK :: pb_type_t where [simp]: "PB_HTYPE_MASK = 0x30"

definition PB_ATYPE_STATIC :: pb_type_t where [simp]: "PB_ATYPE_STATIC = 0x00"
definition PB_ATYPE_POINTER :: pb_type_t where [simp]: "PB_ATYPE_POINTER = 0x80"
definition PB_ATYPE_CALLBACK :: pb_type_t where [simp]: "PB_ATYPE_CALLBACK = 0x40"
definition PB_ATYPE_MASK :: pb_type_t where [simp]: "PB_ATYPE_MASK = 0xC0"

definition PB_ATYPE :: "pb_type_t \<Rightarrow> pb_type_t" where "PB_ATYPE x = x AND PB_ATYPE_MASK"
definition PB_HTYPE :: "pb_type_t \<Rightarrow> pb_type_t" where "PB_HTYPE x = x AND PB_HTYPE_MASK"
definition PB_LTYPE :: "pb_type_t \<Rightarrow> pb_type_t" where "PB_LTYPE x = x AND PB_LTYPE_MASK"

definition PB_SIZE_MAX :: pb_size_t where "PB_SIZE_MAX = -1"

definition PB_MAX_REQUIRED_FIELDS :: u32 where "PB_MAX_REQUIRED_FIELDS = 64"

subsection \<open>Field descriptors\<close>

datatype pb_field =
  Pb_field
    (tag: pb_size_t)
    (type: pb_type_t)
    (data_offset: pb_size_t)
    (size_offset: pb_ssize_t)
    (data_size: pb_size_t)
    (array_size: pb_size_t)
    (ptr: pb_ptr)
and pb_ptr = Ptr_null | Ptr_default "byte list" | Ptr_fields "pb_field list"

definition PB_LAST_FIELD :: pb_field where
  "PB_LAST_FIELD = Pb_field 0 0 0 0 0 0 Ptr_null"

definition field_at :: "pb_field list \<Rightarrow> nat \<Rightarrow> pb_field" where
  "field_at fs i = (if i < length fs then fs ! i else PB_LAST_FIELD)"

text \<open>\<open>(const pb_field_t*)field->ptr\<close>, for a descriptor whose pointer is one.\<close>

definition submsg_fields :: "pb_ptr \<Rightarrow> pb_field list" where
  "submsg_fields p = (case p of Ptr_fields fs \<Rightarrow> fs | _ \<Rightarrow> [])"

subsection \<open>Layout constants of the C structs\<close>

text \<open>
  \<open>pb_bytes_array_t\<close> is a \<open>pb_size_t\<close> followed by the bytes;
  \<open>offsetof(pb_bytes_array_t, bytes)\<close> is 4.
\<close>

definition PB_BYTES_ARRAY_OFFSET :: size_t where
  "PB_BYTES_ARRAY_OFFSET = 4"

definition PB_BYTES_ARRAY_T_ALLOCSIZE :: "pb_size_t \<Rightarrow> size_t" where
  "PB_BYTES_ARRAY_T_ALLOCSIZE n = ucast n + PB_BYTES_ARRAY_OFFSET"

definition sizeof_pointer :: size_t where
  "sizeof_pointer = 8"

text \<open>\<open>pb_callback_t\<close>: the function pointer, then \<open>arg\<close>.\<close>

definition callback_funcs :: "mem \<Rightarrow> addr \<Rightarrow> addr" where
  "callback_funcs m p = load64 m p"

definition callback_arg :: "addr \<Rightarrow> addr" where
  "callback_arg p = p + 8"

text \<open>\<open>pb_extension_t\<close>: \<open>type\<close>, \<open>dest\<close>, \<open>next\<close>, \<open>found\<close>.\<close>

definition ext_type :: "mem \<Rightarrow> addr \<Rightarrow> addr" where "ext_type m e = load64 m e"
definition ext_dest_addr :: "addr \<Rightarrow> addr" where "ext_dest_addr e = e + 8"
definition ext_dest :: "mem \<Rightarrow> addr \<Rightarrow> addr" where "ext_dest m e = load64 m (ext_dest_addr e)"
definition ext_next :: "mem \<Rightarrow> addr \<Rightarrow> addr" where "ext_next m e = load64 m (e + 16)"
definition ext_found_addr :: "addr \<Rightarrow> addr" where "ext_found_addr e = e + 24"

text \<open>
  \<open>pb_extension_type_t\<close>: constant data of generated code, with function pointers for a
  custom decoder and encoder (0 is NULL) and, as \<open>arg\<close>, the descriptor of the extension field.
\<close>

record pb_extension_type =
  ext_decode :: addr
  ext_encode :: addr
  ext_arg :: pb_field

subsection \<open>Descriptor macros of the generated code\<close>

text \<open>
  The struct \<open>st\<close> and its member \<open>m\<close> enter the macros as offsets and sizes, which
  are arguments here: \<open>fd\<close> is the data offset, \<open>delta\<close> the distance from the member to
  its \<^verbatim>\<open>has_\<close>, \<^verbatim>\<open>_count\<close> or \<^verbatim>\<open>which_\<close> companion, \<open>msize\<close> the size of
  the member or of one entry and \<open>asize\<close> the number of entries.
\<close>

definition pb_arraysize :: "pb_size_t \<Rightarrow> pb_size_t \<Rightarrow> pb_size_t" where
  "pb_arraysize membersize entrysize = membersize div entrysize"

definition pb_delta :: "u32 \<Rightarrow> u32 \<Rightarrow> pb_ssize_t" where
  "pb_delta off1 off2 = off1 - off2"

definition PB_DATAOFFSET_FIRST :: "u32 \<Rightarrow> u32 \<Rightarrow> u32 \<Rightarrow> pb_size_t" where
  "PB_DATAOFFSET_FIRST off1 off2 msize2 = off1"

definition PB_DATAOFFSET_OTHER :: "u32 \<Rightarrow> u32 \<Rightarrow> u32 \<Rightarrow> pb_size_t" where
  "PB_DATAOFFSET_OTHER off1 off2 msize2 = off1 - off2 - msize2"

definition PB_DATAOFFSET_UNION :: "u32 \<Rightarrow> u32 \<Rightarrow> u32 \<Rightarrow> pb_size_t" where
  "PB_DATAOFFSET_UNION off1 off2 msize2 = PB_SIZE_MAX"

definition PB_DATAOFFSET_CHOOSE :: "u32 \<Rightarrow> u32 \<Rightarrow> u32 \<Rightarrow> pb_size_t" where
  "PB_DATAOFFSET_CHOOSE off1 off2 msize2 =
     (if off1 = off2 then PB_DATAOFFSET_FIRST off1 off2 msize2
      else PB_DATAOFFSET_OTHER off1 off2 msize2)"

definition PB_REQUIRED_STATIC :: "u32 \<Rightarrow> u32 \<Rightarrow> u32 \<Rightarrow> pb_type_t \<Rightarrow> pb_ptr \<Rightarrow> pb_field" where
  "PB_REQUIRED_STATIC tg msize fd ltype p =
     Pb_field tg (PB_ATYPE_STATIC OR PB_HTYPE_REQUIRED OR ltype) fd 0 msize 0 p"

definition PB_OPTIONAL_STATIC ::
  "u32 \<Rightarrow> u32 \<Rightarrow> u32 \<Rightarrow> pb_ssize_t \<Rightarrow> pb_type_t \<Rightarrow> pb_ptr \<Rightarrow> pb_field" where
  "PB_OPTIONAL_STATIC tg msize fd delta ltype p =
     Pb_field tg (PB_ATYPE_STATIC OR PB_HTYPE_OPTIONAL OR ltype) fd delta msize 0 p"

definition PB_SINGULAR_STATIC :: "u32 \<Rightarrow> u32 \<Rightarrow> u32 \<Rightarrow> pb_type_t \<Rightarrow> pb_ptr \<Rightarrow> pb_field" where
  "PB_SINGULAR_STATIC tg msize fd ltype p =
     Pb_field tg (PB_ATYPE_STATIC OR PB_HTYPE_OPTIONAL OR ltype) fd 0 msize 0 p"

definition PB_REPEATED_STATIC ::
  "u32 \<Rightarrow> u32 \<Rightarrow> u32 \<Rightarrow> u32 \<Rightarrow> pb_ssize_t \<Rightarrow> pb_type_t \<Rightarrow> pb_ptr \<Rightarrow> pb_field" where
  "PB_REPEATED_STATIC tg msize asize fd delta ltype p =
     Pb_field tg (PB_ATYPE_STATIC OR PB_HTYPE_REPEATED OR ltype) fd delta msize asize p"

definition PB_REQUIRED_POINTER :: "u32 \<Rightarrow> u32 \<Rightarrow> u32 \<Rightarrow> pb_type_t \<Rightarrow> pb_ptr \<Rightarrow> pb_field" where
  "PB_REQUIRED_POINTER tg msize fd ltype p =
     Pb_field tg (PB_ATYPE_POINTER OR PB_HTYPE_REQUIRED OR ltype) fd 0 msize 0 p"

definition PB_OPTIONAL_POINTER :: "u32 \<Rightarrow> u32 \<Rightarrow> u32 \<Rightarrow> pb_type_t \<Rightarrow> pb_ptr \<Rightarrow> pb_field" where
  "PB_OPTIONAL_POINTER tg msize fd ltype p =
     Pb_field tg (PB_ATYPE_POINTER OR PB_HTYPE_OPTIONAL OR ltype) fd 0 msize 0 p"

definition PB_SINGULAR_POINTER :: "u32 \<Rightarrow> u32 \<Rightarrow> u32 \<Rightarrow> pb_type_t \<Rightarrow> pb_ptr \<Rightarrow> pb_field" where
  "PB_SINGULAR_POINTER tg msize fd ltype p =
     Pb_field tg (PB_ATYPE_POINTER OR PB_HTYPE_OPTIONAL OR ltype) fd 0 msize 0 p"

definition PB_REPEATED_POINTER ::
  "u32 \<Rightarrow> u32 \<Rightarrow> u32 \<Rightarrow> pb_ssize_t \<Rightarrow> pb_type_t \<Rightarrow> pb_ptr \<Rightarrow> pb_field" where
  "PB_REPEATED_POINTER tg msize fd delta ltype p =
     Pb_field tg (PB_ATYPE_POINTER OR PB_HTYPE_REPEATED OR ltype) fd delta msize 0 p"

definition PB_REQUIRED_CALLBACK :: "u32 \<Rightarrow> u32 \<Rightarrow> u32 \<Rightarrow> pb_type_t \<Rightarrow> pb_ptr \<Rightarrow> pb_field" where
  "PB_REQUIRED_CALLBACK tg msize fd ltype p =
     Pb_field tg (PB_ATYPE_CALLBACK OR PB_HTYPE_REQUIRED OR ltype) fd 0 msize 0 p"

definition PB_OPTIONAL_CALLBACK :: "u32 \<Rightarrow> u32 \<Rightarrow> u32 \<Rightarrow> pb_type_t \<Rightarrow> pb_ptr \<Rightarrow> pb_field" where
  "PB_OPTIONAL_CALLBACK tg msize fd ltype p =
     Pb_field tg (PB_ATYPE_CALLBACK OR PB_HTYPE_OPTIONAL OR ltype) fd 0 msize 0 p"

definition PB_SINGULAR_CALLBACK :: "u32 \<Rightarrow> u32 \<Rightarrow> u32 \<Rightarrow> pb_type_t \<Rightarrow> pb_ptr \<Rightarrow> pb_field" where
  "PB_SINGULAR_CALLBACK tg msize fd ltype p =
     Pb_field tg (PB_ATYPE_CALLBACK OR PB_HTYPE_OPTIONAL OR ltype) fd 0 msize 0 p"

definition PB_REPEATED_CALLBACK :: "u32 \<Rightarrow> u32 \<Rightarrow> u32 \<Rightarrow> pb_type_t \<Rightarrow> pb_ptr \<Rightarrow> pb_field" where
  "PB_REPEATED_CALLBACK tg msize fd ltype p =
     Pb_field tg (PB_ATYPE_CALLBACK OR PB_HTYPE_REPEATED OR ltype) fd 0 msize 0 p"

definition PB_OPTEXT_STATIC :: "u32 \<Rightarrow> u32 \<Rightarrow> u32 \<Rightarrow> pb_type_t \<Rightarrow> pb_ptr \<Rightarrow> pb_field" where
  "PB_OPTEXT_STATIC tg msize fd ltype p =
     Pb_field tg (PB_ATYPE_STATIC OR PB_HTYPE_REQUIRED OR ltype) 0 0 msize 0 p"

definition PB_OPTEXT_POINTER :: "u32 \<Rightarrow> u32 \<Rightarrow> u32 \<Rightarrow> pb_type_t \<Rightarrow> pb_ptr \<Rightarrow> pb_field" where
  "PB_OPTEXT_POINTER = PB_OPTIONAL_POINTER"

definition PB_OPTEXT_CALLBACK :: "u32 \<Rightarrow> u32 \<Rightarrow> u32 \<Rightarrow> pb_type_t \<Rightarrow> pb_ptr \<Rightarrow> pb_field" where
  "PB_OPTEXT_CALLBACK = PB_OPTIONAL_CALLBACK"

definition PB_ONEOF_STATIC ::
  "u32 \<Rightarrow> u32 \<Rightarrow> u32 \<Rightarrow> pb_ssize_t \<Rightarrow> pb_type_t \<Rightarrow> pb_ptr \<Rightarrow> pb_field" where
  "PB_ONEOF_STATIC tg msize fd delta ltype p =
     Pb_field tg (PB_ATYPE_STATIC OR PB_HTYPE_ONEOF OR ltype) fd delta msize 0 p"

definition PB_ONEOF_POINTER ::
  "u32 \<Rightarrow> u32 \<Rightarrow> u32 \<Rightarrow> pb_ssize_t \<Rightarrow> pb_type_t \<Rightarrow> pb_ptr \<Rightarrow> pb_field" where
  "PB_ONEOF_POINTER tg msize fd delta ltype p =
     Pb_field tg (PB_ATYPE_POINTER OR PB_HTYPE_ONEOF OR ltype) fd delta msize 0 p"

subsection \<open>Protobuf types\<close>

datatype pb_proto_type =
  BOOL | BYTES | DOUBLE | ENUM | UENUM | FIXED32 | FIXED64 | FLOAT | INT32 | INT64 | MESSAGE
| SFIXED32 | SFIXED64 | SINT32 | SINT64 | STRING | UINT32 | UINT64 | EXTENSION
| FIXED_LENGTH_BYTES

primrec PB_LTYPE_MAP :: "pb_proto_type \<Rightarrow> pb_type_t" where
  "PB_LTYPE_MAP BOOL = PB_LTYPE_VARINT"
| "PB_LTYPE_MAP BYTES = PB_LTYPE_BYTES"
| "PB_LTYPE_MAP DOUBLE = PB_LTYPE_FIXED64"
| "PB_LTYPE_MAP ENUM = PB_LTYPE_VARINT"
| "PB_LTYPE_MAP UENUM = PB_LTYPE_UVARINT"
| "PB_LTYPE_MAP FIXED32 = PB_LTYPE_FIXED32"
| "PB_LTYPE_MAP FIXED64 = PB_LTYPE_FIXED64"
| "PB_LTYPE_MAP FLOAT = PB_LTYPE_FIXED32"
| "PB_LTYPE_MAP INT32 = PB_LTYPE_VARINT"
| "PB_LTYPE_MAP INT64 = PB_LTYPE_VARINT"
| "PB_LTYPE_MAP MESSAGE = PB_LTYPE_SUBMESSAGE"
| "PB_LTYPE_MAP SFIXED32 = PB_LTYPE_FIXED32"
| "PB_LTYPE_MAP SFIXED64 = PB_LTYPE_FIXED64"
| "PB_LTYPE_MAP SINT32 = PB_LTYPE_SVARINT"
| "PB_LTYPE_MAP SINT64 = PB_LTYPE_SVARINT"
| "PB_LTYPE_MAP STRING = PB_LTYPE_STRING"
| "PB_LTYPE_MAP UINT32 = PB_LTYPE_UVARINT"
| "PB_LTYPE_MAP UINT64 = PB_LTYPE_UVARINT"
| "PB_LTYPE_MAP EXTENSION = PB_LTYPE_EXTENSION"
| "PB_LTYPE_MAP FIXED_LENGTH_BYTES = PB_LTYPE_FIXED_LENGTH_BYTES"

subsection \<open>Wire types and error messages\<close>

text \<open>
  \<open>pb_wire_type_t\<close> is an enum, but the decoder casts three bits of a tag to it, so it is kept
  as a number.
\<close>

type_synonym pb_wire_type = u32

definition PB_WT_VARINT :: pb_wire_type where [simp]: "PB_WT_VARINT = 0"
definition PB_WT_64BIT :: pb_wire_type where [simp]: "PB_WT_64BIT = 1"
definition PB_WT_STRING :: pb_wire_type where [simp]: "PB_WT_STRING = 2"
definition PB_WT_32BIT :: pb_wire_type where [simp]: "PB_WT_32BIT = 5"

definition PB_SET_ERROR :: "string option \<Rightarrow> string \<Rightarrow> string option" where
  "PB_SET_ERROR cur msg = (case cur of Some e \<Rightarrow> Some e | None \<Rightarrow> Some msg)"

definition PB_GET_ERROR :: "string option \<Rightarrow> string" where
  "PB_GET_ERROR cur = (case cur of Some e \<Rightarrow> e | None \<Rightarrow> ''(none)'')"

lemma PB_SET_ERROR_keeps_first: "PB_SET_ERROR (PB_SET_ERROR e a) b = PB_SET_ERROR e a"
  by (simp add: PB_SET_ERROR_def split: option.splits)

lemma field_at_mem: "tag (field_at fs i) \<noteq> 0 \<Longrightarrow> field_at fs i \<in> set fs"
  by (auto simp: field_at_def PB_LAST_FIELD_def split: if_splits)

lemma size_submsg_fields:
  "f \<in> set (submsg_fields (ptr g)) \<Longrightarrow> size f < size g"
  by (cases g; cases "ptr g")
     (auto simp: submsg_fields_def dest!: size_list_estimation' [where f = size and y = "size f"])

lemma PB_HTYPE_eq: "PB_HTYPE t = push_bit 4 (take_bit 2 (drop_bit 4 t))"
proof -
  have m: "PB_HTYPE_MASK = push_bit 4 (mask 2)" by (simp add: mask_eq_exp_minus_1 push_bit_eq_mult)
  show ?thesis
    unfolding PB_HTYPE_def m
    by (rule bit_word_eqI) (auto simp: bit_push_bit_iff bit_take_bit_iff bit_and_iff bit_mask_iff
      bit_drop_bit_eq possible_bit_word)
qed

lemma PB_HTYPE_cases:
  "PB_HTYPE t = PB_HTYPE_REQUIRED \<or> PB_HTYPE t = PB_HTYPE_OPTIONAL
   \<or> PB_HTYPE t = PB_HTYPE_REPEATED \<or> PB_HTYPE t = PB_HTYPE_ONEOF"
proof -
  define y :: byte where "y = take_bit 2 (drop_bit 4 t)"
  have "unat y < 4"
    unfolding y_def by (simp only: unsigned_take_bit_eq) (simp add: take_bit_eq_mod)
  then have "y = 0 \<or> y = 1 \<or> y = 2 \<or> y = 3"
    by (simp add: word_unat_eq_iff) arith
  then show ?thesis by (auto simp: PB_HTYPE_eq y_def [symmetric] push_bit_eq_mult)
qed

end
