(* ===== verification/PbCommon.thy ===== *)
theory PbCommon
  imports Pb
begin

text \<open>
  \<^verbatim>\<open>nanopb/pb_common.c\<close>: the iterator over the fields of a message struct. The iterator keeps the
  position in the descriptor array and the addresses of the field's data and of its
  \<^verbatim>\<open>has_\<close>, count or \<^verbatim>\<open>which_\<close> companion. The lemmas identify every iterator the
  code can reach with \<open>iter_at\<close>, the iterator after a given number of steps, and show that a
  search visits each field once and comes back to where it started.
\<close>

record pb_field_iter =
  start :: "pb_field list"
  pos :: nat
  required_field_index :: u32
  dest_struct :: addr
  pData :: addr
  pSize :: addr

text \<open>\<open>*iter->pos\<close>.\<close>

definition cur :: "pb_field_iter \<Rightarrow> pb_field" where
  "cur it = field_at (start it) (pos it)"

definition pb_field_iter_begin :: "pb_field list \<Rightarrow> addr \<Rightarrow> bool \<times> pb_field_iter" where
  "pb_field_iter_begin fds dest =
     (let f = field_at fds 0;
          d = dest + ucast (data_offset f);
          s = d + scast (size_offset f)
      in (tag f \<noteq> 0,
          \<lparr>start = fds, pos = 0, required_field_index = 0, dest_struct = dest,
           pData = d, pSize = s\<rparr>))"

definition pb_field_iter_next :: "pb_field_iter \<Rightarrow> bool \<times> pb_field_iter" where
  "pb_field_iter_next it =
     (let prev_field = cur it
      in if tag prev_field = 0 then (False, it)
      else
        let it = it\<lparr>pos := Suc (pos it)\<rparr>; f = cur it
        in if tag f = 0 then (False, snd (pb_field_iter_begin (start it) (dest_struct it)))
        else if PB_HTYPE (type prev_field) = PB_HTYPE_ONEOF \<and> PB_HTYPE (type f) = PB_HTYPE_ONEOF
                \<and> data_offset f = PB_SIZE_MAX
        then (True, it)
        else
          let prev_size = (if PB_ATYPE (type prev_field) = PB_ATYPE_STATIC
                              \<and> PB_HTYPE (type prev_field) = PB_HTYPE_REPEATED
                           then ucast (data_size prev_field) * ucast (array_size prev_field)
                           else if PB_ATYPE (type prev_field) = PB_ATYPE_POINTER then sizeof_pointer
                           else ucast (data_size prev_field));
              it = (if PB_HTYPE (type prev_field) = PB_HTYPE_REQUIRED
                    then it\<lparr>required_field_index := required_field_index it + 1\<rparr> else it);
              d = pData it + prev_size + ucast (data_offset f);
              s = d + scast (size_offset f)
          in (True, it\<lparr>pData := d, pSize := s\<rparr>))"

text \<open>
  The search loop \<^verbatim>\<open>do { if (P) return true; next; } while (iter->pos != start); return false;\<close>
  shared by \<open>pb_field_iter_find\<close> and \<open>find_extension_field\<close>. The first argument bounds the
  number of rounds; \<open>iter_search_at\<close> below shows that the bound is never the reason to stop.
\<close>

primrec iter_search_loop ::
  "nat \<Rightarrow> (pb_field \<Rightarrow> bool) \<Rightarrow> nat \<Rightarrow> pb_field_iter \<Rightarrow> bool \<times> pb_field_iter" where
  "iter_search_loop 0 P p0 it = (False, it)"
| "iter_search_loop (Suc n) P p0 it =
     (if P (cur it) then (True, it)
      else let it' = snd (pb_field_iter_next it)
           in if pos it' \<noteq> p0 then iter_search_loop n P p0 it' else (False, it'))"

definition iter_search :: "(pb_field \<Rightarrow> bool) \<Rightarrow> pb_field_iter \<Rightarrow> bool \<times> pb_field_iter" where
  "iter_search P it = iter_search_loop (Suc (length (start it))) P (pos it) it"

definition pb_field_iter_find :: "pb_field_iter \<Rightarrow> u32 \<Rightarrow> bool \<times> pb_field_iter" where
  "pb_field_iter_find it tg =
     iter_search (\<lambda>f. tag f = tg \<and> PB_LTYPE (type f) \<noteq> PB_LTYPE_EXTENSION) it"

text \<open>
  The iterators a loop \<^verbatim>\<open>do { ... } while (pb_field_iter_next(&iter));\<close> runs its body on,
  from a given iterator to the end of the array.
\<close>

primrec iter_states_n :: "nat \<Rightarrow> pb_field_iter \<Rightarrow> pb_field_iter list" where
  "iter_states_n 0 it = [it]"
| "iter_states_n (Suc n) it =
     (case pb_field_iter_next it of (ok, it') \<Rightarrow>
        if ok then it # iter_states_n n it' else [it])"

definition iter_states :: "pb_field_iter \<Rightarrow> pb_field_iter list" where
  "iter_states it = iter_states_n (length (start it)) it"

text \<open>The iterators of a whole message: none for an empty message type.\<close>

definition message_iters :: "pb_field list \<Rightarrow> addr \<Rightarrow> pb_field_iter list" where
  "message_iters fds dest =
     (case pb_field_iter_begin fds dest of (nonempty, it) \<Rightarrow>
        if nonempty then iter_states it else [])"

text \<open>Number of entries before the terminator, and the iterator after \<open>i\<close> steps.\<close>

definition nfields :: "pb_field list \<Rightarrow> nat" where
  "nfields fs = length (takeWhile (\<lambda>f. tag f \<noteq> 0) fs)"

primrec iter_at :: "pb_field list \<Rightarrow> addr \<Rightarrow> nat \<Rightarrow> pb_field_iter" where
  "iter_at fs d 0 = snd (pb_field_iter_begin fs d)"
| "iter_at fs d (Suc i) = snd (pb_field_iter_next (iter_at fs d i))"

lemma nfields_le: "nfields fs \<le> length fs"
  by (simp add: nfields_def length_takeWhile_le)

lemma tag_before_end: "i < nfields fs \<Longrightarrow> tag (field_at fs i) \<noteq> 0"
proof -
  assume i: "i < nfields fs"
  then have "fs ! i = takeWhile (\<lambda>f. tag f \<noteq> 0) fs ! i"
    by (simp add: nfields_def takeWhile_nth)
  moreover have "takeWhile (\<lambda>f. tag f \<noteq> 0) fs ! i \<in> set (takeWhile (\<lambda>f. tag f \<noteq> 0) fs)"
    using i by (simp add: nfields_def)
  then have "tag (takeWhile (\<lambda>f. tag f \<noteq> 0) fs ! i) \<noteq> 0" by (auto dest: set_takeWhileD)
  moreover have "i < length fs" using i nfields_le [of fs] by simp
  ultimately show ?thesis by (simp add: field_at_def)
qed

lemma tag_at_end: "tag (field_at fs (nfields fs)) = 0"
proof (cases "nfields fs < length fs")
  case True
  then have "\<not> tag (fs ! nfields fs) \<noteq> 0"
    unfolding nfields_def by (rule nth_length_takeWhile)
  with True show ?thesis by (simp add: field_at_def)
next
  case False
  then show ?thesis by (simp add: field_at_def PB_LAST_FIELD_def)
qed

lemma nfields_pos_iff: "0 < nfields fs \<longleftrightarrow> fst (pb_field_iter_begin fs d)"
proof
  assume "0 < nfields fs"
  then show "fst (pb_field_iter_begin fs d)"
    using tag_before_end [of 0 fs] by (simp add: pb_field_iter_begin_def Let_def)
next
  assume "fst (pb_field_iter_begin fs d)"
  then have "tag (field_at fs 0) \<noteq> 0" by (simp add: pb_field_iter_begin_def Let_def)
  then show "0 < nfields fs" using tag_at_end [of fs] by (cases "nfields fs") auto
qed

lemma begin_simps [simp]:
  "start (snd (pb_field_iter_begin fs d)) = fs"
  "pos (snd (pb_field_iter_begin fs d)) = 0"
  "dest_struct (snd (pb_field_iter_begin fs d)) = d"
  by (simp_all add: pb_field_iter_begin_def Let_def)

lemma next_base:
  assumes "start it = fs" "dest_struct it = d" "pos it = i" "i < nfields fs"
  shows "fst (pb_field_iter_next it) \<longleftrightarrow> Suc i < nfields fs"
    and "start (snd (pb_field_iter_next it)) = fs"
    and "dest_struct (snd (pb_field_iter_next it)) = d"
    and "pos (snd (pb_field_iter_next it)) = (if Suc i < nfields fs then Suc i else 0)"
    and "\<not> Suc i < nfields fs \<Longrightarrow> pb_field_iter_next it = (False, iter_at fs d 0)"
proof -
  have t: "tag (cur it) \<noteq> 0" using assms tag_before_end [of i fs] by (simp add: cur_def)
  have e: "tag (field_at fs (Suc i)) = 0 \<longleftrightarrow> \<not> Suc i < nfields fs"
    using assms(4) tag_at_end [of fs] tag_before_end [of "Suc i" fs]
    by (metis Suc_lessI)
  show "fst (pb_field_iter_next it) \<longleftrightarrow> Suc i < nfields fs"
    "start (snd (pb_field_iter_next it)) = fs"
    "dest_struct (snd (pb_field_iter_next it)) = d"
    "pos (snd (pb_field_iter_next it)) = (if Suc i < nfields fs then Suc i else 0)"
    "\<not> Suc i < nfields fs \<Longrightarrow> pb_field_iter_next it = (False, iter_at fs d 0)"
    using t e assms by (auto simp: pb_field_iter_next_def Let_def cur_def)
qed

lemma iter_at_simps:
  assumes "i < nfields fs"
  shows "start (iter_at fs d i) = fs \<and> dest_struct (iter_at fs d i) = d \<and> pos (iter_at fs d i) = i"
  using assms
proof (induction i)
  case 0
  then show ?case by simp
next
  case (Suc i)
  then have "i < nfields fs" by simp
  with Suc.IH Suc.prems show ?case
    using next_base [of "iter_at fs d i" fs d i] by simp
qed

lemma cur_iter_at [simp]: "i < nfields fs \<Longrightarrow> cur (iter_at fs d i) = fs ! i"
  using nfields_le [of fs] by (simp add: cur_def iter_at_simps field_at_def)

lemma next_iter_at:
  assumes "i < nfields fs"
  shows "pb_field_iter_next (iter_at fs d i) =
     (Suc i < nfields fs, if Suc i < nfields fs then iter_at fs d (Suc i) else iter_at fs d 0)"
  using iter_at_simps [OF assms, of d] next_base [of "iter_at fs d i" fs d i] assms
  by (auto simp: prod_eq_iff)

lemma next_iter_at_mod:
  assumes "i < nfields fs"
  shows "snd (pb_field_iter_next (iter_at fs d i)) = iter_at fs d (Suc i mod nfields fs)"
proof (cases "Suc i < nfields fs")
  case True
  then show ?thesis using assms by (simp add: next_iter_at del: iter_at.simps)
next
  case False
  then have "Suc i = nfields fs" using assms by simp
  then show ?thesis using assms by (simp add: next_iter_at del: iter_at.simps)
qed

text \<open>
  A search from field \<open>i\<close> looks at every field once, in circular order from \<open>i\<close>, stops at
  the first hit and otherwise leaves the iterator exactly where it was.
\<close>

definition search_order :: "nat \<Rightarrow> nat \<Rightarrow> nat list" where
  "search_order n i = map (\<lambda>t. (i + t) mod n) [0..<n]"

lemma mod_shift_neq:
  assumes "i < n" "0 < t" "t < n"
  shows "(i + t) mod n \<noteq> (i :: nat)"
proof (cases "i + t < n")
  case True
  then show ?thesis using assms by simp
next
  case False
  then have "(i + t) mod n = i + t - n" using assms by (simp add: mod_if)
  then show ?thesis using assms False by linarith
qed

lemma iter_search_loop_at:
  assumes "i < nfields fs" "k \<le> nfields fs" "0 < k" "k \<le> fuel"
  shows "iter_search_loop fuel P i (iter_at fs d ((i + (nfields fs - k)) mod nfields fs)) =
     (case List.find (\<lambda>j. P (fs ! j)) (map (\<lambda>t. (i + t) mod nfields fs) [nfields fs - k..<nfields fs])
      of Some j \<Rightarrow> (True, iter_at fs d j) | None \<Rightarrow> (False, iter_at fs d i))"
  using assms
proof (induction k arbitrary: fuel)
  case 0
  then show ?case by simp
next
  case (Suc k)
  let ?n = "nfields fs"
  let ?j = "(i + (?n - Suc k)) mod ?n"
  obtain fuel' where f: "fuel = Suc fuel'" using Suc.prems by (cases fuel) auto
  have j: "?j < ?n" using Suc.prems by (intro mod_less_divisor) simp
  have up: "[?n - Suc k..<?n] = (?n - Suc k) # [?n - k..<?n]"
    using Suc.prems by (subst upt_conv_Cons) (auto simp: Suc_diff_Suc)
  have step: "Suc ?j mod ?n = (i + (?n - k)) mod ?n"
    using Suc.prems by (simp add: mod_Suc_eq Suc_diff_Suc flip: add_Suc_right)
  show ?case
  proof (cases "P (fs ! ?j)")
    case True
    then show ?thesis using j by (simp add: f up del: iter_at.simps)
  next
    case False
    note nx = next_iter_at_mod [OF j, of d, unfolded step]
    show ?thesis
    proof (cases "k = 0")
      case True
      then have "(i + (?n - k)) mod ?n = i" using Suc.prems by simp
      moreover have "[?n - Suc 0..<?n] = [?n - Suc 0]" using up True by simp
      ultimately show ?thesis
        using False j nx True iter_at_simps [OF Suc.prems(1), of d]
        by (simp add: f Let_def del: iter_at.simps)
    next
      case k: False
      then have "(i + (?n - k)) mod ?n \<noteq> i"
        using Suc.prems by (intro mod_shift_neq) auto
      moreover have "(i + (?n - k)) mod ?n < ?n" using Suc.prems by simp
      ultimately show ?thesis
        using False j nx k Suc.IH [of fuel'] Suc.prems iter_at_simps
        by (simp add: f up Let_def del: iter_at.simps)
    qed
  qed
qed

lemma iter_search_at:
  assumes "i < nfields fs"
  shows "iter_search P (iter_at fs d i) =
     (case List.find (\<lambda>j. P (fs ! j)) (search_order (nfields fs) i)
      of Some j \<Rightarrow> (True, iter_at fs d j) | None \<Rightarrow> (False, iter_at fs d i))"
  using iter_search_loop_at [of i fs "nfields fs" "Suc (length fs)" P d] assms nfields_le [of fs]
    iter_at_simps [OF assms, of d]
  by (simp add: iter_search_def search_order_def del: iter_search_loop.simps)

lemma set_search_order: "i < n \<Longrightarrow> set (search_order n i) = {0..<n}"
proof
  show "i < n \<Longrightarrow> set (search_order n i) \<subseteq> {0..<n}"
    by (auto simp: search_order_def)
  assume i: "i < n"
  show "{0..<n} \<subseteq> set (search_order n i)"
  proof
    fix j assume "j \<in> {0..<n}"
    then have j: "j < n" by simp
    have "(i + (n - i + j) mod n) mod n = j"
      using i j by (simp add: mod_add_right_eq)
    then show "j \<in> set (search_order n i)"
      using i unfolding search_order_def by (auto intro!: image_eqI [of _ _ "(n - i + j) mod n"])
  qed
qed

lemma iter_search_cases:
  assumes "i < nfields fs"
  obtains (found) j where "j < nfields fs" "P (fs ! j)"
      "iter_search P (iter_at fs d i) = (True, iter_at fs d j)"
  | (absent) "\<And>j. j < nfields fs \<Longrightarrow> \<not> P (fs ! j)"
      "iter_search P (iter_at fs d i) = (False, iter_at fs d i)"
proof (cases "List.find (\<lambda>j. P (fs ! j)) (search_order (nfields fs) i)")
  case None
  then have "\<And>j. j < nfields fs \<Longrightarrow> \<not> P (fs ! j)"
    using set_search_order [OF assms] by (auto simp: find_None_iff)
  then show ?thesis using None iter_search_at [OF assms, of P d] by (intro absent) auto
next
  case (Some j)
  then have "j \<in> set (search_order (nfields fs) i)" "P (fs ! j)"
    by (auto simp: find_Some_iff)
  then show ?thesis
    using Some iter_search_at [OF assms, of P d] set_search_order [OF assms] by (intro found) auto
qed

lemma iter_states_n_at:
  assumes "i < nfields fs" "nfields fs \<le> n + Suc i"
  shows "iter_states_n n (iter_at fs d i) = map (iter_at fs d) [i..<nfields fs]"
  using assms
proof (induction n arbitrary: i)
  case 0
  then have "nfields fs = Suc i" by simp
  then show ?case by simp
next
  case (Suc n)
  show ?case
  proof (cases "Suc i < nfields fs")
    case True
    then have "iter_states_n n (iter_at fs d (Suc i)) = map (iter_at fs d) [Suc i..<nfields fs]"
      using Suc.IH [of "Suc i"] Suc.prems by simp
    then show ?thesis
      using True Suc.prems by (simp add: next_iter_at upt_conv_Cons [of i] del: iter_at.simps)
  next
    case False
    then have "nfields fs = Suc i" using Suc.prems by simp
    then show ?thesis by (simp add: next_iter_at del: iter_at.simps)
  qed
qed

lemma iter_states_at:
  "i < nfields fs \<Longrightarrow> iter_states (iter_at fs d i) = map (iter_at fs d) [i..<nfields fs]"
  using iter_states_n_at [of i fs "length fs" d] nfields_le [of fs]
  by (simp add: iter_states_def iter_at_simps)

lemma message_iters_eq: "message_iters fs d = map (iter_at fs d) [0..<nfields fs]"
proof (cases "0 < nfields fs")
  case True
  then have "fst (pb_field_iter_begin fs d)" using nfields_pos_iff by blast
  then show ?thesis using iter_states_at [OF True, of d]
    by (simp add: message_iters_def case_prod_beta)
next
  case False
  then have "\<not> fst (pb_field_iter_begin fs d)" using nfields_pos_iff [of fs d] by simp
  then show ?thesis using False by (simp add: message_iters_def case_prod_beta)
qed

lemma message_iters_field:
  "it \<in> set (message_iters fs d) \<Longrightarrow> cur it \<in> set fs \<and> start it = fs"
proof -
  assume "it \<in> set (message_iters fs d)"
  then obtain i where "i < nfields fs" "it = iter_at fs d i" by (auto simp: message_iters_eq)
  then show ?thesis using nfields_le [of fs] iter_at_simps by simp
qed

text \<open>How deeply messages nest: the depth bound that the encoder and the decoder need.\<close>

function field_depth :: "pb_field \<Rightarrow> nat" where
  "field_depth f = Suc (foldr max (map field_depth (submsg_fields (ptr f))) 0)"
  by pat_completeness auto
termination
  by (relation "measure size") (auto dest: size_submsg_fields)

declare field_depth.simps [simp del]

definition msg_depth :: "pb_field list \<Rightarrow> nat" where
  "msg_depth fds = Suc (foldr max (map field_depth fds) 0)"

lemma foldr_max_ge: "x \<in> set xs \<Longrightarrow> (x :: nat) \<le> foldr max xs 0"
  by (induction xs) auto

lemma msg_depth_sub: "f \<in> set fds \<Longrightarrow> msg_depth (submsg_fields (ptr f)) < msg_depth fds"
proof -
  assume "f \<in> set fds"
  then have "field_depth f \<le> foldr max (map field_depth fds) 0"
    by (intro foldr_max_ge) simp
  then show ?thesis by (simp add: msg_depth_def field_depth.simps [of f])
qed

end
