(* ===== verification/PbIStream.thy ===== *)
theory PbIStream
  imports PbCommon
begin

text \<open>
  Input streams of \<^verbatim>\<open>nanopb/pb_decode.h\<close> and the stream helpers of
  \<^verbatim>\<open>pb_decode.c\<close>. As for output streams, the callback and its \<^verbatim>\<open>void *state\<close> are one
  value, the source: \<open>BufRead\<close> is \<^verbatim>\<open>buf_read\<close> with the bytes from the read pointer to the
  end of the caller's array, \<open>UserRead\<close> is a callback of the application (its result is the
  status and the bytes it stored). Functions that fill an out parameter return it as
  \<open>Some v\<close>; \<open>None\<close> is a return of false.

  The locale \<open>reader\<close> is the contract of every function that consumes input: it never raises
  \<^verbatim>\<open>bytes_left\<close>, and on a memory stream the read pointer moves by exactly the number of bytes
  that \<^verbatim>\<open>bytes_left\<close> drops, so no read passes the end of the buffer.
\<close>

datatype 's source =
  BufRead "byte list"
| UserRead "'s \<Rightarrow> nat \<Rightarrow> bool \<times> byte list \<times> 's" 's

record 's pb_istream =
  source :: "'s source"
  bytes_left :: size_t
  is_errmsg :: "string option"

type_synonym ('a, 's) rd = "'s pb_istream \<Rightarrow> 'a option \<times> 's pb_istream"

definition pb_istream_from_buffer :: "byte list \<Rightarrow> size_t \<Rightarrow> 's pb_istream" where
  "pb_istream_from_buffer buf bufsize =
     \<lparr>source = BufRead buf, bytes_left = bufsize, is_errmsg = None\<rparr>"

text \<open>\<open>stream->callback(stream, buf, count)\<close>; the first case is \<open>buf_read\<close>.\<close>

fun source_read :: "'s source \<Rightarrow> nat \<Rightarrow> bool \<times> byte list \<times> 's source" where
  "source_read (BufRead bs) n = (True, take n bs, BufRead (drop n bs))"
| "source_read (UserRead f st) n = (case f st n of (ok, bs, st') \<Rightarrow> (ok, bs, UserRead f st'))"

definition is_buf :: "'s source \<Rightarrow> bool" where
  "is_buf k = (case k of BufRead bs \<Rightarrow> True | UserRead f st \<Rightarrow> False)"

text \<open>A source that never stores more bytes than it was asked for.\<close>

definition src_ok :: "'s source \<Rightarrow> bool" where
  "src_ok k = (case k of BufRead bs \<Rightarrow> True
     | UserRead f st \<Rightarrow> \<forall>st n. length (fst (snd (f st n))) \<le> n)"

definition set_error :: "string \<Rightarrow> 's pb_istream \<Rightarrow> 's pb_istream" where
  "set_error msg s = s\<lparr>is_errmsg := PB_SET_ERROR (is_errmsg s) msg\<rparr>"

text \<open>
  \<open>pb_read\<close> from its second check on: status, the bytes stored through \<open>buf\<close>, the stream.
\<close>

definition pb_read_now :: "size_t \<Rightarrow> 's pb_istream \<Rightarrow> bool \<times> byte list \<times> 's pb_istream" where
  "pb_read_now count s =
     (if bytes_left s < count then (False, [], set_error ''end-of-stream'' s)
      else
        (case source_read (source s) (unat count) of (ok, bs, k) \<Rightarrow>
           let s = s\<lparr>source := k\<rparr>
           in if \<not> ok then (False, bs, set_error ''io error'' s)
              else (True, bs, s\<lparr>bytes_left := bytes_left s - count\<rparr>)))"

text \<open>The first check of \<open>pb_read\<close>: skipping on a custom stream, 16 bytes at a time.\<close>

function pb_skip_loop :: "size_t \<Rightarrow> 's pb_istream \<Rightarrow> bool \<times> 's pb_istream" where
  "pb_skip_loop count s =
     (if count > 16 then
        (case pb_read_now 16 s of (ok, _, s') \<Rightarrow>
           if \<not> ok then (False, s') else pb_skip_loop (count - 16) s')
      else (case pb_read_now count s of (ok, _, s') \<Rightarrow> (ok, s')))"
  by pat_completeness auto
termination
  by (relation "measure (\<lambda>(count, s). unat count)")
     (auto simp: word_less_nat_alt unat_sub word_le_nat_alt)

declare pb_skip_loop.simps [simp del]

text \<open>\<open>pb_read(stream, NULL, count)\<close>.\<close>

definition pb_read_null :: "size_t \<Rightarrow> 's pb_istream \<Rightarrow> bool \<times> 's pb_istream" where
  "pb_read_null count s =
     (if \<not> is_buf (source s) then pb_skip_loop count s
      else (case pb_read_now count s of (ok, _, s') \<Rightarrow> (ok, s')))"

text \<open>The value of a byte variable after a one-byte read into it.\<close>

definition first_byte :: "byte list \<Rightarrow> byte" where
  "first_byte bs = (case bs of [] \<Rightarrow> 0 | b # _ \<Rightarrow> b)"

definition pb_readbyte :: "(byte, 's) rd" where
  "pb_readbyte s =
     (if bytes_left s = 0 then (None, set_error ''end-of-stream'' s)
      else
        (case source_read (source s) 1 of (ok, bs, k) \<Rightarrow>
           let s = s\<lparr>source := k\<rparr>
           in if \<not> ok then (None, set_error ''io error'' s)
              else (Some (first_byte bs), s\<lparr>bytes_left := bytes_left s - 1\<rparr>)))"

subsection \<open>Laws of the primitive reads\<close>

text \<open>A memory stream: the bytes from the read pointer on, and how many may be read.\<close>

definition buf_stream :: "byte list \<Rightarrow> size_t \<Rightarrow> string option \<Rightarrow> 's pb_istream" where
  "buf_stream bs n e = \<lparr>source = BufRead bs, bytes_left = n, is_errmsg = e\<rparr>"

definition consumed :: "'s pb_istream \<Rightarrow> 's pb_istream \<Rightarrow> nat" where
  "consumed s s' = unat (bytes_left s) - unat (bytes_left s')"

definition advances :: "'s pb_istream \<Rightarrow> 's pb_istream \<Rightarrow> bool" where
  "advances s s' \<longleftrightarrow>
     bytes_left s' \<le> bytes_left s \<and>
     (\<forall>bs. source s = BufRead bs \<longrightarrow> source s' = BufRead (drop (consumed s s') bs)) \<and>
     (is_buf (source s') \<longleftrightarrow> is_buf (source s)) \<and>
     (src_ok (source s) \<longrightarrow> src_ok (source s'))"

text \<open>
  What holds even where a function fails with a substream still open: the read pointer is not
  ahead of \<open>bytes_left\<close>.
\<close>

definition within :: "'s pb_istream \<Rightarrow> 's pb_istream \<Rightarrow> bool" where
  "within s s' \<longleftrightarrow>
     bytes_left s' \<le> bytes_left s \<and>
     (\<forall>bs. source s = BufRead bs \<longrightarrow> (\<exists>k \<le> consumed s s'. source s' = BufRead (drop k bs))) \<and>
     (is_buf (source s') \<longleftrightarrow> is_buf (source s)) \<and>
     (src_ok (source s) \<longrightarrow> src_ok (source s'))"

definition moved :: "bool \<Rightarrow> 's pb_istream \<Rightarrow> 's pb_istream \<Rightarrow> bool" where
  "moved ok s s' = (if ok then advances s s' else within s s')"

lemma buf_stream_simps [simp]:
  "source (buf_stream bs n e) = BufRead bs"
  "bytes_left (buf_stream bs n e) = n"
  "is_errmsg (buf_stream bs n e) = e"
  by (simp_all add: buf_stream_def)

locale reader =
  fixes f :: "'s pb_istream \<Rightarrow> 'a \<times> 's pb_istream"
  assumes advances: "f s = (r, s') \<Longrightarrow> advances s s'"
begin

lemma bytes_left_le: "f s = (r, s') \<Longrightarrow> bytes_left s' \<le> bytes_left s"
  using advances by (auto simp: advances_def)

text \<open>What is left in the buffer always covers what the stream may still read.\<close>

lemma in_bounds:
  assumes "f s = (r, s')" "source s = BufRead bs" "unat (bytes_left s) \<le> length bs"
  shows "\<exists>bs'. source s' = BufRead bs' \<and> unat (bytes_left s') \<le> length bs' \<and>
    bs = take (consumed s s') bs @ bs' \<and> consumed s s' \<le> length bs"
proof -
  have "advances s s'" using assms(1) by (rule advances)
  then have "bytes_left s' \<le> bytes_left s" "source s' = BufRead (drop (consumed s s') bs)"
    using assms(2) by (auto simp: advances_def)
  then show ?thesis
    using assms(3) by (auto simp: consumed_def word_le_nat_alt)
qed

end

lemma advances_refl [simp]: "advances s s"
  by (simp add: advances_def consumed_def)

lemma advances_trans: "advances s s' \<Longrightarrow> advances s' s'' \<Longrightarrow> advances s s''"
  by (auto simp: advances_def consumed_def word_le_nat_alt)

lemma advances_set_error [simp]:
  "advances s (set_error msg s') = advances s s'"
  "advances (set_error msg s) s' = advances s s'"
  by (simp_all add: advances_def consumed_def set_error_def)

lemma advances_within: "advances s s' \<Longrightarrow> within s s'"
  unfolding advances_def within_def by blast

lemma within_trans: "within s s' \<Longrightarrow> within s' s'' \<Longrightarrow> within s s''"
proof -
  assume a: "within s s'" "within s' s''"
  have "\<exists>k \<le> consumed s s''. source s'' = BufRead (drop k bs)" if bs: "source s = BufRead bs" for bs
  proof -
    obtain k where k: "k \<le> consumed s s'" "source s' = BufRead (drop k bs)"
      using a(1) bs by (auto simp: within_def)
    then obtain j where "j \<le> consumed s' s''" "source s'' = BufRead (drop j (drop k bs))"
      using a(2) by (auto simp: within_def)
    then show ?thesis
      using k(1) a by (intro exI [of _ "j + k"]) (auto simp: within_def consumed_def word_le_nat_alt)
  qed
  then show ?thesis using a by (auto simp: within_def)
qed

lemma within_set_error [simp]:
  "within s (set_error msg s') = within s s'"
  "within (set_error msg s) s' = within s s'"
  by (simp_all add: within_def consumed_def set_error_def)

lemma moved_refl [simp]: "moved ok s s"
  by (simp add: moved_def advances_within)

lemma moved_set_error [simp]: "moved ok s (set_error msg s') = moved ok s s'"
  by (simp add: moved_def)

lemma advances_moved: "advances s s' \<Longrightarrow> moved ok s s'"
  by (simp add: moved_def advances_within)

lemma advances_moved_trans: "advances s s' \<Longrightarrow> moved ok s' s'' \<Longrightarrow> moved ok s s''"
  by (auto simp: moved_def intro: advances_trans within_trans advances_within)

lemma moved_within: "moved ok s s' \<Longrightarrow> within s s'"
  by (auto simp: moved_def advances_within split: if_splits)

lemma within_in_bounds:
  assumes "within s s'" "source s = BufRead bs" "unat (bytes_left s) \<le> length bs"
  shows "\<exists>bs'. source s' = BufRead bs' \<and> unat (bytes_left s') \<le> length bs'"
  using assms by (auto simp: within_def consumed_def word_le_nat_alt)

lemma within_src_ok: "within s s' \<Longrightarrow> src_ok (source s) \<Longrightarrow> src_ok (source s')"
  by (simp add: within_def)

lemma advances_bytes_left: "advances s s' \<Longrightarrow> unat (bytes_left s') \<le> unat (bytes_left s)"
  by (simp add: advances_def word_le_nat_alt)

lemma is_buf_source_read: "source_read k n = (ok, bs, k') \<Longrightarrow> is_buf k' = is_buf k"
  by (cases k) (auto simp: is_buf_def split: prod.splits)

lemma source_read_buf: "source_read (BufRead bs) n = (ok, cs, k') \<Longrightarrow>
    ok \<and> cs = take n bs \<and> k' = BufRead (drop n bs)"
  by auto

lemma advances_pb_read_now: "pb_read_now count s = (ok, bs, s') \<Longrightarrow> advances s s'"
  by (cases "source s")
     (auto simp: pb_read_now_def advances_def consumed_def set_error_def is_buf_def src_ok_def Let_def unat_sub
       not_less word_le_nat_alt split: if_splits prod.splits)

lemma advances_pb_readbyte: "pb_readbyte s = (r, s') \<Longrightarrow> advances s s'"
proof -
  have "unat (bytes_left s - 1) = unat (bytes_left s) - 1" if "bytes_left s \<noteq> 0"
    using that by (simp add: unat_minus_one)
  moreover have "0 < unat (bytes_left s)" if "bytes_left s \<noteq> 0"
    using that by (simp add: unat_gt_0)
  ultimately show "pb_readbyte s = (r, s') \<Longrightarrow> advances s s'"
    by (cases "source s")
       (auto simp: pb_readbyte_def advances_def consumed_def set_error_def is_buf_def src_ok_def Let_def
         word_le_nat_alt split: if_splits prod.splits)
qed

interpretation pb_read_now: reader "\<lambda>s. case pb_read_now count s of (ok, bs, s') \<Rightarrow> ((ok, bs), s')"
  for count
  by standard (auto split: prod.splits intro: advances_pb_read_now)

interpretation pb_readbyte: reader pb_readbyte
  by standard (rule advances_pb_readbyte)

lemma advances_pb_skip_loop: "pb_skip_loop count s = (ok, s') \<Longrightarrow> advances s s'"
proof (induction count s rule: pb_skip_loop.induct)
  case (1 count s)
  show ?case
  proof (cases "16 < count")
    case True
    obtain ok1 bs s1 where r: "pb_read_now 16 s = (ok1, bs, s1)" by (cases "pb_read_now 16 s")
    then have s1: "advances s s1" by (rule advances_pb_read_now)
    show ?thesis
    proof (cases ok1)
      case ok: True
      then have "pb_skip_loop (count - 16) s1 = (ok, s')"
        using "1.prems" True r by (simp add: pb_skip_loop.simps [of count])
      then have "advances s1 s'" using "1.IH" True r ok by simp
      with s1 show ?thesis by (rule advances_trans)
    next
      case False
      then show ?thesis using "1.prems" True r s1 by (simp add: pb_skip_loop.simps [of count])
    qed
  next
    case False
    then show ?thesis
      using "1.prems" advances_pb_read_now
      by (auto simp: pb_skip_loop.simps [of count] split: prod.splits)
  qed
qed

lemma advances_pb_read_null: "pb_read_null count s = (ok, s') \<Longrightarrow> advances s s'"
  by (auto simp: pb_read_null_def split: if_splits prod.splits
      intro: advances_pb_skip_loop advances_pb_read_now)

interpretation pb_read_null: reader "pb_read_null count" for count
  by standard (rule advances_pb_read_null)

lemma pb_read_now_progress:
  assumes "pb_read_now count s = (True, bs, s')" "0 < count"
  shows "unat (bytes_left s') < unat (bytes_left s)"
proof -
  have "count \<le> bytes_left s" "bytes_left s' = bytes_left s - count"
    using assms(1) by (auto simp: pb_read_now_def Let_def not_less split: if_splits prod.splits)
  then show ?thesis using assms(2) by (simp add: unat_sub word_less_nat_alt word_le_nat_alt)
qed

lemma pb_readbyte_progress:
  assumes "pb_readbyte s = (Some b, s')"
  shows "unat (bytes_left s') < unat (bytes_left s)"
proof -
  have "bytes_left s \<noteq> 0" "bytes_left s' = bytes_left s - 1"
    using assms by (auto simp: pb_readbyte_def Let_def split: if_splits prod.splits)
  then show ?thesis using unat_gt_0 [of "bytes_left s"] by (simp add: unat_minus_one)
qed

lemma pb_readbyte_buf [simp]:
  "0 < n \<Longrightarrow> pb_readbyte (buf_stream (b # bs) n e) = (Some b, buf_stream bs (n - 1) e)"
  by (simp add: pb_readbyte_def buf_stream_def first_byte_def word_neq_0_conv)

lemma pb_read_now_buf:
  "n \<le> k \<Longrightarrow> pb_read_now n (buf_stream bs k e) =
     (True, take (unat n) bs, buf_stream (drop (unat n) bs) (k - n) e)"
  by (simp add: pb_read_now_def buf_stream_def not_less)

lemma pb_read_now_short:
  "k < n \<Longrightarrow> pb_read_now n (buf_stream bs k e) =
     (False, [], set_error ''end-of-stream'' (buf_stream bs k e))"
  by (simp add: pb_read_now_def buf_stream_def)

lemma pb_read_null_buf:
  "n \<le> k \<Longrightarrow> pb_read_null n (buf_stream bs k e) = (True, buf_stream (drop (unat n) bs) (k - n) e)"
  by (simp add: pb_read_null_def is_buf_def pb_read_now_buf)

end
