(* ===== verification/PbOStream.thy ===== *)
theory PbOStream
  imports PbCommon
begin

text \<open>
  Output streams of \<^verbatim>\<open>nanopb/pb_encode.h\<close> and \<^verbatim>\<open>pb_encode.c\<close>. The function pointer
  \<^verbatim>\<open>callback\<close> and the \<^verbatim>\<open>void *state\<close> it works on are one value, the sink:
  \<open>Sizing\<close> is the NULL callback, \<open>BufWrite\<close> is \<^verbatim>\<open>buf_write\<close> with a pointer into a
  caller's array (the array and the offset of the pointer), \<open>UserWrite\<close> is a callback of the
  application. As the header's rules ask, an application callback works on its own state only.

  The locale \<open>emitter\<close> is the contract of an encoder: on a sizing stream and on a memory
  stream with room it succeeds and appends a fixed byte string; on a memory stream without room
  it fails with an error message and touches nothing outside the space that was left.
\<close>

datatype 's sink =
  Sizing
| BufWrite "byte list" nat
| UserWrite "'s \<Rightarrow> byte list \<Rightarrow> bool \<times> 's" 's

record 's pb_ostream =
  sink :: "'s sink"
  max_size :: size_t
  bytes_written :: size_t
  os_errmsg :: "string option"

text \<open>The copy loop of \<open>buf_write\<close>: \<open>for (i = 0; i < count; i++) dest[i] = buf[i];\<close>\<close>

primrec write_at :: "byte list \<Rightarrow> nat \<Rightarrow> byte list \<Rightarrow> byte list" where
  "write_at dst p [] = dst"
| "write_at dst p (b # bs) = write_at (dst[p := b]) (Suc p) bs"

fun sink_write :: "'s sink \<Rightarrow> byte list \<Rightarrow> bool \<times> 's sink" where
  "sink_write Sizing bs = (True, Sizing)"
| "sink_write (BufWrite dst p) bs = (True, BufWrite (write_at dst p bs) (p + length bs))"
| "sink_write (UserWrite f st) bs = (case f st bs of (ok, st') \<Rightarrow> (ok, UserWrite f st'))"

definition pb_ostream_from_buffer :: "byte list \<Rightarrow> size_t \<Rightarrow> 's pb_ostream" where
  "pb_ostream_from_buffer buf bufsize =
     \<lparr>sink = BufWrite buf 0, max_size = bufsize, bytes_written = 0, os_errmsg = None\<rparr>"

definition PB_OSTREAM_SIZING :: "'s pb_ostream" where
  "PB_OSTREAM_SIZING = \<lparr>sink = Sizing, max_size = 0, bytes_written = 0, os_errmsg = None\<rparr>"

text \<open>\<open>PB_RETURN_ERROR(stream, msg)\<close>.\<close>

definition os_fail :: "string \<Rightarrow> 's pb_ostream cfun" where
  "os_fail msg s = Some (False, s\<lparr>os_errmsg := PB_SET_ERROR (os_errmsg s) msg\<rparr>)"

definition pb_write :: "byte list \<Rightarrow> size_t \<Rightarrow> 's pb_ostream cfun" where
  "pb_write buf count s =
     (case sink s of
        Sizing \<Rightarrow> Some (True, s\<lparr>bytes_written := bytes_written s + count\<rparr>)
      | k \<Rightarrow>
          if bytes_written s + count > max_size s then os_fail ''stream full'' s
          else
            (case sink_write k (take (unat count) buf) of (ok, k') \<Rightarrow>
               let s = s\<lparr>sink := k'\<rparr>
               in if \<not> ok then os_fail ''io error'' s
                  else Some (True, s\<lparr>bytes_written := bytes_written s + count\<rparr>)))"

text \<open>\<open>stream->callback == NULL\<close>.\<close>

definition is_sizing :: "'s pb_ostream \<Rightarrow> bool" where
  "is_sizing s = (case sink s of Sizing \<Rightarrow> True | _ \<Rightarrow> False)"

subsection \<open>The contract of encoders\<close>

fun sink_append :: "'s sink \<Rightarrow> byte list \<Rightarrow> 's sink" where
  "sink_append (BufWrite dst p) bs = BufWrite (write_at dst p bs) (p + length bs)"
| "sink_append k bs = k"

definition emit :: "byte list \<Rightarrow> 's pb_ostream \<Rightarrow> 's pb_ostream" where
  "emit bs s = s\<lparr>sink := sink_append (sink s) bs,
                 bytes_written := bytes_written s + of_nat (length bs)\<rparr>"

definition room :: "'s pb_ostream \<Rightarrow> nat" where
  "room s = unat (max_size s) - unat (bytes_written s)"

text \<open>
  A stream the library can be given: no pending error, and for a memory stream the space that
  \<^verbatim>\<open>max_size\<close> promises is really there.
\<close>

definition os_valid :: "'s pb_ostream \<Rightarrow> bool" where
  "os_valid s \<longleftrightarrow> os_errmsg s = None \<and>
     (case sink s of
        Sizing \<Rightarrow> True
      | BufWrite dst p \<Rightarrow> bytes_written s \<le> max_size s \<and> unat (max_size s) < 2 ^ 63
          \<and> p + room s \<le> length dst
      | UserWrite f st \<Rightarrow> False)"

definition fits :: "'s pb_ostream \<Rightarrow> nat \<Rightarrow> bool" where
  "fits s n \<longleftrightarrow> is_sizing s \<or> n \<le> room s"

text \<open>Nothing outside the free space of \<open>s\<close> differs in \<open>s'\<close>.\<close>

definition os_stays :: "'s pb_ostream \<Rightarrow> 's pb_ostream \<Rightarrow> bool" where
  "os_stays s s' \<longleftrightarrow>
     (case (sink s, sink s') of
        (BufWrite dst p, BufWrite dst' p') \<Rightarrow>
          length dst' = length dst \<and>
          (\<forall>i < length dst. i < p \<or> p + room s \<le> i \<longrightarrow> dst' ! i = dst ! i)
      | (Sizing, Sizing) \<Rightarrow> True
      | _ \<Rightarrow> False)"

lemma length_write_at [simp]: "length (write_at dst p bs) = length dst"
  by (induction bs arbitrary: dst p) auto

lemma write_at_append: "write_at dst p (bs @ cs) = write_at (write_at dst p bs) (p + length bs) cs"
  by (induction bs arbitrary: dst p) auto

lemma nth_write_at_outside:
  "i < p \<or> p + length bs \<le> i \<Longrightarrow> write_at dst p bs ! i = dst ! i"
  by (induction bs arbitrary: dst p) auto

lemma write_at_eq:
  "p + length bs \<le> length dst \<Longrightarrow> write_at dst p bs = take p dst @ bs @ drop (p + length bs) dst"
proof (induction bs arbitrary: dst p)
  case Nil
  then show ?case by simp
next
  case (Cons b bs)
  then have "write_at (dst[p := b]) (Suc p) bs =
      take (Suc p) (dst[p := b]) @ bs @ drop (Suc p + length bs) (dst[p := b])"
    by (intro Cons.IH) simp
  moreover have "take (Suc p) (dst[p := b]) = take p dst @ [b]"
    using Cons.prems by (simp add: take_Suc_conv_app_nth)
  ultimately show ?case using Cons.prems by simp
qed

lemma sink_append_Nil [simp]: "sink_append k [] = k"
  by (cases k) auto

lemma sink_append_append: "sink_append (sink_append k bs) cs = sink_append k (bs @ cs)"
  by (cases k) (auto simp: write_at_append)

lemma emit_Nil [simp]: "emit [] s = s"
  by (simp add: emit_def)

lemma emit_emit: "emit cs (emit bs s) = emit (bs @ cs) s"
  by (simp add: emit_def sink_append_append)

lemma emit_simps [simp]:
  "max_size (emit bs s) = max_size s"
  "os_errmsg (emit bs s) = os_errmsg s"
  "bytes_written (emit bs s) = bytes_written s + of_nat (length bs)"
  "sink (emit bs s) = sink_append (sink s) bs"
  by (simp_all add: emit_def)

lemma is_sizing_emit [simp]: "is_sizing (emit bs s) = is_sizing s"
  by (cases "sink s") (auto simp: is_sizing_def)

lemma is_sizing_simps [simp]:
  "sink s = Sizing \<Longrightarrow> is_sizing s" "sink s = BufWrite dst p \<Longrightarrow> \<not> is_sizing s"
  "is_sizing (s\<lparr>max_size := a, bytes_written := b\<rparr>) = is_sizing s"
  by (auto simp: is_sizing_def)

lemma os_valid_cases:
  assumes "os_valid s"
  obtains (sizing) "sink s = Sizing" "is_sizing s" "os_errmsg s = None"
  | (buffer) dst p where "sink s = BufWrite dst p" "\<not> is_sizing s" "os_errmsg s = None"
      "bytes_written s \<le> max_size s" "unat (max_size s) < 2 ^ 63" "p + room s \<le> length dst"
  using assms by (cases "sink s") (auto simp: os_valid_def is_sizing_def)

lemma unat_bw_emit:
  assumes "os_valid s" "\<not> is_sizing s" "length bs \<le> room s"
  shows "unat (bytes_written s + of_nat (length bs)) = unat (bytes_written s) + length bs"
proof -
  have "unat (bytes_written s) + length bs \<le> unat (max_size s)"
    using assms by (cases rule: os_valid_cases) (auto simp: room_def word_le_nat_alt)
  then have "unat (bytes_written s) + length bs < 2 ^ 64"
    using unsigned_less [of "max_size s", where ?'a = nat] by simp
  then show ?thesis
    by (simp add: unat_word_ariths unat_of_nat)
qed

lemma room_emit:
  assumes "os_valid s" "\<not> is_sizing s" "length bs \<le> room s"
  shows "room (emit bs s) = room s - length bs"
  using unat_bw_emit [OF assms] by (simp add: room_def)

lemma os_valid_emit:
  assumes "os_valid s" "fits s (length bs)"
  shows "os_valid (emit bs s)"
  using assms(1)
proof (cases rule: os_valid_cases)
  case sizing
  then show ?thesis by (simp add: os_valid_def)
next
  case (buffer dst p)
  then have le: "length bs \<le> room s" using assms(2) by (simp add: fits_def)
  then have "bytes_written s + of_nat (length bs) \<le> max_size s"
    using unat_bw_emit [OF assms(1) buffer(2) le] buffer(4)
    by (simp add: word_le_nat_alt room_def)
  then show ?thesis
    using buffer le room_emit [OF assms(1) buffer(2) le] by (simp add: os_valid_def)
qed

lemma fits_emit:
  assumes "os_valid s" "fits s (length bs)"
  shows "fits (emit bs s) n \<longleftrightarrow> fits s (length bs + n)"
  using assms room_emit [OF assms(1), of bs] by (cases "is_sizing s") (auto simp: fits_def)

lemma fits_mono: "fits s n \<Longrightarrow> k \<le> n \<Longrightarrow> fits s k"
  by (auto simp: fits_def)

lemma os_stays_refl: "os_valid s \<Longrightarrow> os_stays s (s\<lparr>os_errmsg := e\<rparr>)"
  by (auto simp: os_stays_def os_valid_def split: sink.splits)

lemma os_stays_emit:
  assumes "os_valid s" "fits s (length bs)" "os_stays (emit bs s) s'"
  shows "os_stays s s'"
  using assms(1)
proof (cases rule: os_valid_cases)
  case sizing
  then show ?thesis using assms(3) by (simp add: os_stays_def)
next
  case (buffer dst p)
  then have le: "length bs \<le> room s" using assms(2) by (simp add: fits_def)
  have r: "room (emit bs s) = room s - length bs"
    by (rule room_emit [OF assms(1) buffer(2) le])
  from assms(3) buffer(1) obtain dst' p' where s': "sink s' = BufWrite dst' p'"
    by (cases "sink s'") (auto simp: os_stays_def)
  then have len: "length dst' = length dst"
    and keep: "\<And>i. i < length dst \<Longrightarrow> i < p + length bs \<or> p + length bs + (room s - length bs) \<le> i
      \<Longrightarrow> dst' ! i = write_at dst p bs ! i"
    using assms(3) buffer(1) r by (auto simp: os_stays_def)
  have "dst' ! i = dst ! i" if "i < length dst" "i < p \<or> p + room s \<le> i" for i
    using keep [of i] that le nth_write_at_outside [of i p bs dst] by auto
  then show ?thesis using buffer(1) s' len by (simp add: os_stays_def)
qed

locale emitter =
  fixes f :: "'s pb_ostream cfun" and bs :: "byte list"
  assumes small: "length bs < 2 ^ 63"
    and ok: "os_valid s \<Longrightarrow> fits s (length bs) \<Longrightarrow> f s = Some (True, emit bs s)"
    and full: "os_valid s \<Longrightarrow> \<not> fits s (length bs) \<Longrightarrow>
      \<exists>s'. f s = Some (False, s') \<and> os_stays s s' \<and> os_errmsg s' \<noteq> None"
begin

lemma sizing: "f PB_OSTREAM_SIZING = Some (True, emit bs PB_OSTREAM_SIZING)"
  by (rule ok) (simp_all add: os_valid_def fits_def PB_OSTREAM_SIZING_def is_sizing_def)

lemma sized: "f PB_OSTREAM_SIZING = Some (b, s') \<Longrightarrow> b \<and> unat (bytes_written s') = length bs"
  using sizing small
  by (auto simp: PB_OSTREAM_SIZING_def unat_of_nat emit_def)

lemma buffer_ok:
  assumes "length bs \<le> unat n" "unat n \<le> length buf" "unat n < 2 ^ 63"
  shows "f (pb_ostream_from_buffer buf n) =
    Some (True, \<lparr>sink = BufWrite (bs @ drop (length bs) buf) (length bs), max_size = n,
      bytes_written = of_nat (length bs), os_errmsg = None\<rparr>)"
proof -
  have "f (pb_ostream_from_buffer buf n) = Some (True, emit bs (pb_ostream_from_buffer buf n))"
    using assms
    by (intro ok) (simp_all add: os_valid_def fits_def pb_ostream_from_buffer_def room_def)
  then show ?thesis
    using assms by (simp add: pb_ostream_from_buffer_def emit_def write_at_eq)
qed

lemma buffer_full:
  assumes "unat n < length bs" "unat n \<le> length buf" "unat n < 2 ^ 63"
  shows "\<exists>s' buf' p. f (pb_ostream_from_buffer buf n) = Some (False, s') \<and>
    sink s' = BufWrite buf' p \<and> length buf' = length buf \<and> drop (unat n) buf' = drop (unat n) buf \<and>
    os_errmsg s' \<noteq> None"
proof -
  let ?s = "pb_ostream_from_buffer buf n :: 'a pb_ostream"
  have "os_valid ?s" "\<not> fits ?s (length bs)"
    using assms
    by (simp_all add: os_valid_def fits_def pb_ostream_from_buffer_def room_def is_sizing_def)
  then obtain s' where s': "f ?s = Some (False, s')" "os_stays ?s s'" "os_errmsg s' \<noteq> None"
    using full by blast
  then obtain buf' p where b: "sink s' = BufWrite buf' p"
    by (cases "sink s'") (auto simp: os_stays_def pb_ostream_from_buffer_def)
  then have l: "length buf' = length buf"
    and k: "\<And>i. i < length buf \<Longrightarrow> unat n \<le> i \<Longrightarrow> buf' ! i = buf ! i"
    using s'(2) by (auto simp: os_stays_def pb_ostream_from_buffer_def room_def)
  have "drop (unat n) buf' = drop (unat n) buf"
    by (rule nth_equalityI) (use l k in auto)
  then show ?thesis using s' b l by auto
qed

end

lemma emitter_and_then:
  assumes "emitter f bs" "emitter g cs" "length (bs @ cs) < 2 ^ 63"
  shows "emitter (and_then f g) (bs @ cs)"
proof
  show "length (bs @ cs) < 2 ^ 63" by fact
next
  fix s :: "'a pb_ostream"
  assume v: "os_valid s" and n: "fits s (length (bs @ cs))"
  then have fb: "fits s (length bs)" by (auto elim: fits_mono)
  moreover have "fits (emit bs s) (length cs)" using v n fb by (simp add: fits_emit)
  ultimately show "and_then f g s = Some (True, emit (bs @ cs) s)"
    using v by (simp add: emitter.ok [OF assms(1)] emitter.ok [OF assms(2)] os_valid_emit emit_emit)
next
  fix s :: "'a pb_ostream"
  assume v: "os_valid s" and n: "\<not> fits s (length (bs @ cs))"
  show "\<exists>s'. and_then f g s = Some (False, s') \<and> os_stays s s' \<and> os_errmsg s' \<noteq> None"
  proof (cases "fits s (length bs)")
    case True
    then have "\<not> fits (emit bs s) (length cs)" using v n by (simp add: fits_emit)
    then obtain s' where "g (emit bs s) = Some (False, s')" "os_stays (emit bs s) s'" "os_errmsg s' \<noteq> None"
      using emitter.full [OF assms(2) os_valid_emit [OF v True]] by blast
    then show ?thesis
      using True v os_stays_emit [OF v True]
      by (auto simp: emitter.ok [OF assms(1)])
  next
    case False
    then obtain s' where "f s = Some (False, s')" "os_stays s s'" "os_errmsg s' \<noteq> None"
      using emitter.full [OF assms(1) v] by blast
    then show ?thesis by auto
  qed
qed

lemma emitter_true: "emitter c_true []"
  by standard (auto simp: fits_def)

lemma emitter_cong: "emitter f bs \<Longrightarrow> (\<And>s. f s = g s) \<Longrightarrow> emitter g bs"
  by (simp add: emitter_def)

lemma emitter_pb_write:
  assumes that: "length bs < 2 ^ 63"
  shows "emitter (pb_write bs (of_nat (length bs))) bs"
proof
  show "length bs < 2 ^ 63" by fact
next
  fix s :: "'a pb_ostream"
  assume v: "os_valid s" and fit: "fits s (length bs)"
  have u: "unat (of_nat (length bs) :: size_t) = length bs"
    using that by (simp add: unat_of_nat)
  from v show "pb_write bs (of_nat (length bs)) s = Some (True, emit bs s)"
  proof (cases rule: os_valid_cases)
    case sizing
    then show ?thesis by (simp add: pb_write_def emit_def)
  next
    case (buffer dst p)
    then have le: "length bs \<le> room s" using fit by (simp add: fits_def)
    then have "bytes_written s + of_nat (length bs) \<le> max_size s"
      using unat_bw_emit [OF v buffer(2) le] buffer(4)
      by (simp add: word_le_nat_alt room_def)
    then have "\<not> max_size s < bytes_written s + of_nat (length bs)" by simp
    then show ?thesis using buffer u by (simp add: pb_write_def emit_def Let_def)
  qed
next
  fix s :: "'a pb_ostream"
  assume v: "os_valid s" and nofit: "\<not> fits s (length bs)"
  from v show "\<exists>s'. pb_write bs (of_nat (length bs)) s = Some (False, s') \<and> os_stays s s'
      \<and> os_errmsg s' \<noteq> None"
  proof (cases rule: os_valid_cases)
    case sizing
    then show ?thesis using nofit by (simp add: fits_def)
  next
    case (buffer dst p)
    then have "unat (max_size s) < unat (bytes_written s) + length bs"
      using nofit by (simp add: fits_def room_def word_le_nat_alt)
    moreover have "unat (bytes_written s) + length bs < 2 ^ 64"
      using buffer(4,5) that by (simp add: word_le_nat_alt)
    ultimately have "max_size s < bytes_written s + of_nat (length bs)"
      by (simp add: word_less_nat_alt unat_word_ariths unat_of_nat)
    then show ?thesis
      using buffer v by (simp add: pb_write_def os_fail_def PB_SET_ERROR_def os_stays_refl)
  qed
qed

end
