(* ===== verification/Varint.thy ===== *)
theory Varint
  imports Prelude
begin

text \<open>
  The base-128 varint format that both nanopb and LevelDB use, as a function on natural
  numbers, with the facts on bytes that encoders and decoders of either library need.
\<close>

fun uvarint :: "nat \<Rightarrow> byte list" where
  "uvarint n = (if n < 128 then [of_nat n] else of_nat (128 + n mod 128) # uvarint (n div 128))"

declare uvarint.simps [simp del]

lemma uvarint_small: "n < 128 \<Longrightarrow> uvarint n = [of_nat n]"
  by (simp add: uvarint.simps)

lemma uvarint_large: "128 \<le> n \<Longrightarrow> uvarint n = of_nat (128 + n mod 128) # uvarint (n div 128)"
  by (simp add: uvarint.simps [of n])

lemma low7: "(v :: 'a::len word) AND 0x7F = take_bit 7 v"
  by (simp add: take_bit_eq_mask mask_eq_exp_minus_1)

lemma unat_low7: "7 < LENGTH('a) \<Longrightarrow> unat ((v :: 'a::len word) AND 0x7F) = unat v mod 128"
  by (simp only: low7 unsigned_take_bit_eq) (simp add: take_bit_eq_mod)

lemma bit_128: "bit (0x80 :: 'a::len word) k \<longleftrightarrow> k = 7 \<and> 7 < LENGTH('a)"
proof -
  have "(0x80 :: 'a word) = push_bit 7 1" by (simp add: push_bit_eq_mult)
  then show ?thesis by (simp only: bit_push_bit_iff) (auto simp: bit_1_iff possible_bit_word)
qed

lemma bit_255: "bit (0xFF :: 'a::len word) k \<longleftrightarrow> k < 8 \<and> k < LENGTH('a)"
proof -
  have "(0xFF :: 'a word) = mask 8" by (simp add: mask_eq_exp_minus_1)
  then show ?thesis by (simp only: bit_mask_iff) (auto simp: possible_bit_word)
qed

lemma fixed_bytes: "(ucast ((w :: 'a::len word) AND 0xFF) :: byte) = ucast w"
proof (rule bit_word_eqI)
  fix k assume "k < LENGTH(8)"
  then show "bit (ucast (w AND 0xFF) :: byte) k = bit (ucast w :: byte) k"
    by (simp only: bit_ucast_iff bit_and_iff bit_255) (auto dest: bit_imp_le_length)
qed

lemma or_128:
  assumes "7 < LENGTH('a)"
  shows "((v :: 'a::len word) AND 0x7F) OR 0x80 = (v AND 0x7F) + 0x80"
proof (rule disjunctive_add [symmetric])
  fix k
  show "\<not> bit (v AND 0x7F) k \<or> \<not> bit (0x80 :: 'a word) k"
    by (simp only: low7 bit_take_bit_iff bit_128) auto
qed

lemma cont_byte:
  "(ucast (((v :: u64) AND 0x7F) OR 0x80) :: byte) = of_nat (128 + unat v mod 128)"
proof -
  have "unat ((v AND 0x7F) OR 0x80) = unat v mod 128 + 128"
    by (subst or_128) (simp_all add: unat_word_ariths unat_low7)
  then show ?thesis
    by (metis of_nat_unat add.commute)
qed

lemma length_uvarint_pos [simp]: "0 < length (uvarint n)"
  by (subst uvarint.simps) simp

lemma length_uvarint_le: "n < 128 ^ Suc k \<Longrightarrow> length (uvarint n) \<le> Suc k"
proof (induction k arbitrary: n)
  case 0
  then show ?case by (simp add: uvarint.simps)
next
  case (Suc k)
  then have "n div 128 < 128 ^ Suc k" by (simp add: less_mult_imp_div_less)
  then have "length (uvarint (n div 128)) \<le> Suc k" by (rule Suc.IH)
  then show ?case by (subst uvarint.simps) simp
qed

lemma length_uvarint_u64: "length (uvarint (unat (w :: u64))) \<le> 10"
proof -
  have "unat w < 2 ^ 64" using unsigned_less [of w, where ?'a = nat] by simp
  then show ?thesis using length_uvarint_le [of "unat w" 9] by simp
qed

lemma length_uvarint_small: "n < 2 ^ 64 \<Longrightarrow> length (uvarint n) \<le> 10"
  using length_uvarint_le [of n 9] by simp

lemma low_bits_split:
  "(of_nat n :: 'a::len word) = of_nat (n mod 128) OR push_bit 7 (of_nat (n div 128))"
proof (rule bit_word_eqI)
  fix k assume k: "k < LENGTH('a)"
  have m: "bit (n mod 128) k \<longleftrightarrow> k < 7 \<and> bit n k"
    using bit_take_bit_iff [of 7 n k] by (simp add: take_bit_eq_mod)
  have d: "bit (n div 128) (k - 7) \<longleftrightarrow> bit n k" if "7 \<le> k"
    using bit_drop_bit_eq [of 7 n] that by (simp add: drop_bit_eq_div fun_eq_iff)
  show "bit (of_nat n :: 'a word) k =
      bit (of_nat (n mod 128) OR push_bit 7 (of_nat (n div 128)) :: 'a word) k"
    using k m d by (auto simp: bit_or_iff bit_push_bit_iff bit_of_nat_iff possible_bit_word)
qed

lemma of_nat_mod_128: "(of_nat (128 + n mod 128) :: byte) AND 0x7F = of_nat (n mod 128)"
  by (intro word_unat_eq_iff [THEN iffD2]) (simp add: unat_low7 unat_of_nat del: of_nat_add)

lemma of_nat_small_low7: "n < 128 \<Longrightarrow> (of_nat n :: byte) AND 0x7F = of_nat n"
  by (intro word_unat_eq_iff [THEN iffD2]) (simp add: unat_low7 unat_of_nat)

lemma top_bit: "(b :: byte) AND 0x80 \<noteq> 0 \<longleftrightarrow> bit b 7"
proof -
  have "b AND 0x80 = (if bit b 7 then 0x80 else 0)"
  proof (rule bit_word_eqI)
    fix k
    show "bit (b AND 0x80) k = bit (if bit b 7 then 0x80 else 0 :: byte) k"
      by (cases "bit b 7"; simp only: bit_and_iff bit_128 if_True if_False bit_0_eq; auto)
  qed
  then show ?thesis by simp
qed

lemma of_nat_top_set: "(of_nat (128 + n mod 128) :: byte) AND 0x80 \<noteq> 0"
proof -
  have "(128 + n mod 128) div 128 = Suc 0" by simp
  then have "bit (128 + n mod 128) (7 :: nat)" by (simp add: bit_iff_odd)
  then show ?thesis by (simp only: top_bit bit_of_nat_iff) simp
qed

lemma of_nat_top_clear: "n < 128 \<Longrightarrow> (of_nat n :: byte) AND 0x80 = 0"
proof -
  assume "n < 128"
  then have "\<not> bit n (7 :: nat)" by (simp add: bit_iff_odd)
  then show ?thesis using top_bit [of "of_nat n"] by (simp add: bit_of_nat_iff)
qed

lemma ucast_of_nat_byte: "n < 256 \<Longrightarrow> (ucast (of_nat n :: byte) :: 'a::len word) = of_nat n"
proof -
  assume "n < 256"
  then have "unat (of_nat n :: byte) = n" by (simp add: unat_of_nat)
  then show ?thesis by (metis of_nat_unat)
qed

lemmas varint_byte_simps =
  of_nat_mod_128 of_nat_small_low7 of_nat_top_set of_nat_top_clear ucast_of_nat_byte

end
