(* ===== verification/PbEncPrim.thy ===== *)
theory PbEncPrim
  imports PbOStream Varint
begin

text \<open>
  The helper functions of \<^verbatim>\<open>pb_encode.c\<close> that put single values on a stream: varints,
  zig-zag varints, fixed-width integers, tags and length-delimited byte strings. \<open>uvarint\<close> is
  the textbook definition of the varint format; the code's loop, which sets the continuation
  bit on every byte and clears it on the last, is shown to produce it.
\<close>

subsection \<open>The code\<close>

function varint_loop :: "u64 \<Rightarrow> byte list" where
  "varint_loop value =
     (if value = 0 then []
      else ucast ((value AND 0x7F) OR 0x80) # varint_loop (drop_bit 7 value))"
  by pat_completeness auto
termination
proof (relation "measure unat")
  fix v :: u64
  assume "v \<noteq> 0"
  then have "0 < unat v" by (simp add: unat_gt_0)
  then have "unat v div 128 < unat v" by simp
  then show "(drop_bit 7 v, v) \<in> measure unat"
    by (simp add: drop_bit_eq_div unat_div_distrib)
qed simp

declare varint_loop.simps [simp del]

definition varint_buffer :: "u64 \<Rightarrow> byte list" where
  "varint_buffer value =
     (let buffer = varint_loop value; i = length buffer
      in buffer[i - 1 := (buffer ! (i - 1)) AND 0x7F])"

definition pb_encode_varint :: "u64 \<Rightarrow> 's pb_ostream cfun" where
  "pb_encode_varint value s =
     (if value \<le> 0x7F then pb_write [ucast value] 1 s
      else let buffer = varint_buffer value in pb_write buffer (of_nat (length buffer)) s)"

definition zigzag :: "u64 \<Rightarrow> u64" where
  "zigzag value = (if sint value < 0 then NOT (push_bit 1 value) else push_bit 1 value)"

definition pb_encode_svarint :: "u64 \<Rightarrow> 's pb_ostream cfun" where
  "pb_encode_svarint value s = pb_encode_varint (zigzag value) s"

definition pb_encode_fixed32 :: "mem \<Rightarrow> addr \<Rightarrow> 's pb_ostream cfun" where
  "pb_encode_fixed32 m value s =
     (let val = load32 m value
      in pb_write
           [ucast (val AND 0xFF),
            ucast (drop_bit 8 val AND 0xFF),
            ucast (drop_bit 16 val AND 0xFF),
            ucast (drop_bit 24 val AND 0xFF)] 4 s)"

definition pb_encode_fixed64 :: "mem \<Rightarrow> addr \<Rightarrow> 's pb_ostream cfun" where
  "pb_encode_fixed64 m value s =
     (let val = load64 m value
      in pb_write
           [ucast (val AND 0xFF),
            ucast (drop_bit 8 val AND 0xFF),
            ucast (drop_bit 16 val AND 0xFF),
            ucast (drop_bit 24 val AND 0xFF),
            ucast (drop_bit 32 val AND 0xFF),
            ucast (drop_bit 40 val AND 0xFF),
            ucast (drop_bit 48 val AND 0xFF),
            ucast (drop_bit 56 val AND 0xFF)] 8 s)"

definition pb_encode_tag :: "pb_wire_type \<Rightarrow> u32 \<Rightarrow> 's pb_ostream cfun" where
  "pb_encode_tag wiretype field_number s =
     pb_encode_varint (push_bit 3 (ucast field_number) OR ucast wiretype) s"

definition pb_encode_tag_for_field :: "pb_field \<Rightarrow> 's pb_ostream cfun" where
  "pb_encode_tag_for_field f s =
     (let l = PB_LTYPE (type f)
      in if l = PB_LTYPE_VARINT \<or> l = PB_LTYPE_UVARINT \<or> l = PB_LTYPE_SVARINT
         then pb_encode_tag PB_WT_VARINT (tag f) s
         else if l = PB_LTYPE_FIXED32 then pb_encode_tag PB_WT_32BIT (tag f) s
         else if l = PB_LTYPE_FIXED64 then pb_encode_tag PB_WT_64BIT (tag f) s
         else if l = PB_LTYPE_BYTES \<or> l = PB_LTYPE_STRING \<or> l = PB_LTYPE_SUBMESSAGE
                 \<or> l = PB_LTYPE_FIXED_LENGTH_BYTES
         then pb_encode_tag PB_WT_STRING (tag f) s
         else os_fail ''invalid field type'' s)"

definition pb_encode_string :: "byte list \<Rightarrow> size_t \<Rightarrow> 's pb_ostream cfun" where
  "pb_encode_string buffer n = and_then (pb_encode_varint n) (pb_write buffer n)"

subsection \<open>The format\<close>

definition wire_tag :: "pb_wire_type \<Rightarrow> u32 \<Rightarrow> byte list" where
  "wire_tag wt n = uvarint (8 * unat n + unat wt)"

definition wire_type_of :: "pb_type_t \<Rightarrow> pb_wire_type option" where
  "wire_type_of l =
     (if l \<le> 2 then Some PB_WT_VARINT else if l = 3 then Some PB_WT_32BIT
      else if l = 4 then Some PB_WT_64BIT
      else if l = 5 \<or> l = 6 \<or> l = 7 \<or> l = 9 then Some PB_WT_STRING else None)"

definition wire_string :: "byte list \<Rightarrow> byte list" where
  "wire_string bs = uvarint (length bs) @ bs"

lemma varint_buffer_eq: "0 < v \<Longrightarrow> varint_buffer v = uvarint (unat v)"
proof (induction v rule: varint_loop.induct)
  case (1 v)
  let ?w = "drop_bit 7 v"
  have w: "unat ?w = unat v div 128" by (simp add: drop_bit_eq_div unat_div_distrib)
  have nz: "v \<noteq> 0" using "1.prems" by (simp add: word_neq_0_conv)
  have x: "(ucast ((v AND 0x7F) OR 0x80) :: byte) = of_nat (128 + unat v mod 128)"
    by (rule cont_byte)
  show ?case
  proof (cases "?w = 0")
    case True
    then have lt: "unat v < 128" using w by simp
    have "(of_nat (128 + unat v) :: byte) AND 0x7F = of_nat (unat v)"
      using lt by (intro word_unat_eq_iff [THEN iffD2])
        (simp add: unat_low7 unat_of_nat unat_word_ariths unat_ucast_small)
    then show ?thesis
      using True nz x lt by (simp add: varint_buffer_def Let_def varint_loop.simps [of v]
        varint_loop.simps [of 0] uvarint.simps [of "unat v"])
  next
    case False
    then have IH: "varint_buffer ?w = uvarint (unat ?w)"
      using "1.IH" [OF nz] by (simp add: word_neq_0_conv)
    have ge: "\<not> unat v < 128" using False w by (auto simp: unat_0_iff [symmetric] simp del: unat_0_iff)
    have ne: "varint_loop ?w \<noteq> []" using False by (simp add: varint_loop.simps [of ?w])
    then have "varint_buffer v = ucast ((v AND 0x7F) OR 0x80) # varint_buffer ?w"
      using nz by (simp add: varint_buffer_def Let_def varint_loop.simps [of v] nth_Cons'
        list_update_code(2) split: nat.split)
    then show ?thesis using IH ge w x by (simp add: uvarint.simps [of "unat v"])
  qed
qed

text \<open>The stack buffer of \<open>pb_encode_varint\<close> has 10 bytes; the loop never writes more.\<close>

lemma length_varint_loop: "length (varint_loop v) \<le> 10"
proof (cases "v = 0")
  case True
  then show ?thesis by (simp add: varint_loop.simps)
next
  case False
  then have "length (varint_loop v) = length (uvarint (unat v))"
    using varint_buffer_eq [of v]
    by (metis length_list_update varint_buffer_def word_neq_0_conv)
  then show ?thesis using length_uvarint_u64 [of v] by simp
qed

lemma pb_encode_varint_eq:
  "pb_encode_varint v = pb_write (uvarint (unat v)) (of_nat (length (uvarint (unat v))))"
proof
  fix s :: "'a pb_ostream"
  show "pb_encode_varint v s = pb_write (uvarint (unat v)) (of_nat (length (uvarint (unat v)))) s"
  proof (cases "v \<le> 0x7F")
    case True
    then have "unat v < 128" by (simp add: word_le_nat_alt)
    moreover have "(of_nat (unat v) :: byte) = ucast v"
      by simp
    ultimately show ?thesis
      using True by (simp add: pb_encode_varint_def uvarint.simps [of "unat v"])
  next
    case False
    then have "0 < v" by (simp add: word_neq_0_conv [symmetric]) auto
    then show ?thesis
      using False by (simp add: pb_encode_varint_def varint_buffer_eq Let_def)
  qed
qed

interpretation pb_encode_varint: emitter "pb_encode_varint v" "uvarint (unat v)" for v
  unfolding pb_encode_varint_eq
  by (rule emitter_pb_write) (use length_uvarint_u64 [of v] in simp)

interpretation pb_encode_svarint: emitter "pb_encode_svarint v" "uvarint (unat (zigzag v))" for v
  by (rule emitter_cong [OF pb_encode_varint.emitter_axioms]) (simp add: pb_encode_svarint_def)

lemma pb_encode_fixed32_eq:
  "pb_encode_fixed32 m a = pb_write (le_bytes 4 (load32 m a)) (of_nat (length (le_bytes 4 (load32 m a))))"
  by (rule ext) (simp add: pb_encode_fixed32_def fixed_bytes eval_nat_numeral Let_def)

lemma pb_encode_fixed64_eq:
  "pb_encode_fixed64 m a = pb_write (le_bytes 8 (load64 m a)) (of_nat (length (le_bytes 8 (load64 m a))))"
  by (rule ext) (simp add: pb_encode_fixed64_def fixed_bytes eval_nat_numeral Let_def)

interpretation pb_encode_fixed32: emitter "pb_encode_fixed32 m a" "le_bytes 4 (load32 m a)" for m a
  unfolding pb_encode_fixed32_eq by (rule emitter_pb_write) simp

interpretation pb_encode_fixed64: emitter "pb_encode_fixed64 m a" "le_bytes 8 (load64 m a)" for m a
  unfolding pb_encode_fixed64_eq by (rule emitter_pb_write) simp

lemma unat_tag_word:
  fixes n :: u32 and wt :: pb_wire_type
  assumes "wt < 8"
  shows "unat (push_bit 3 (ucast n) OR ucast wt :: u64) = 8 * unat n + unat wt"
proof -
  have "\<not> bit wt k" if "3 \<le> k" for k
  proof -
    have "wt = take_bit 3 wt"
      using assms by (intro word_unat_eq_iff [THEN iffD2], simp only: unsigned_take_bit_eq)
        (simp add: take_bit_eq_mod word_less_nat_alt)
    then show ?thesis using that by (metis bit_take_bit_iff not_le)
  qed
  then have "push_bit 3 (ucast n) OR ucast wt = (push_bit 3 (ucast n) + ucast wt :: u64)"
    by (intro disjunctive_add [symmetric]) (auto simp: bit_simps not_le)
  moreover have "unat (push_bit 3 (ucast n) :: u64) = 8 * unat n"
    using unsigned_less [of n, where ?'a = nat]
    by (simp add: push_bit_eq_mult unat_word_ariths unsigned_ucast_eq take_bit_eq_mod)
  moreover have "unat (ucast wt :: u64) = unat wt"
    using unsigned_less [of wt, where ?'a = nat]
    by (simp add: unsigned_ucast_eq take_bit_eq_mod)
  ultimately show ?thesis
    using unsigned_less [of n, where ?'a = nat] assms
    by (simp add: unat_word_ariths word_less_nat_alt)
qed

lemma emitter_pb_encode_tag: "wt < 8 \<Longrightarrow> emitter (pb_encode_tag wt n) (wire_tag wt n)"
  using pb_encode_varint.emitter_axioms [of "push_bit 3 (ucast n) OR ucast wt"]
  by (auto simp: unat_tag_word wire_tag_def pb_encode_tag_def elim: emitter_cong)

lemma PB_LTYPE_le: "PB_LTYPE t \<le> 15"
  by (simp add: PB_LTYPE_def word_and_le1)

lemma pb_encode_tag_for_field_eq:
  "pb_encode_tag_for_field f =
     (case wire_type_of (PB_LTYPE (type f)) of
        Some wt \<Rightarrow> pb_encode_tag wt (tag f) | None \<Rightarrow> os_fail ''invalid field type'')"
proof -
  have "l \<le> 2 \<longleftrightarrow> l = 0 \<or> l = 1 \<or> l = 2" for l :: byte
    by (simp add: word_le_nat_alt word_unat_eq_iff) arith
  then show ?thesis
    by (intro ext) (auto simp: pb_encode_tag_for_field_def wire_type_of_def Let_def)
qed

lemma wire_type_of_less: "wire_type_of l = Some wt \<Longrightarrow> wt < 8"
  by (auto simp: wire_type_of_def split: if_splits)

lemma emitter_pb_encode_tag_for_field:
  "wire_type_of (PB_LTYPE (type f)) = Some wt \<Longrightarrow>
   emitter (pb_encode_tag_for_field f) (wire_tag wt (tag f))"
  by (simp add: pb_encode_tag_for_field_eq emitter_pb_encode_tag wire_type_of_less)

lemma length_wire_tag: "wt < 8 \<Longrightarrow> length (wire_tag wt n) \<le> 10"
  using unsigned_less [of n, where ?'a = nat]
  by (auto simp: wire_tag_def word_less_nat_alt intro!: length_uvarint_small)

lemma emitter_pb_encode_string:
  assumes "length bs < 2 ^ 62"
  shows "emitter (pb_encode_string bs (of_nat (length bs))) (wire_string bs)"
proof -
  have u: "unat (of_nat (length bs) :: size_t) = length bs"
    using assms by (simp add: unat_of_nat)
  have "length (uvarint (length bs)) \<le> 10" using assms by (simp add: length_uvarint_small)
  then show ?thesis
    using assms u pb_encode_varint.emitter_axioms [of "of_nat (length bs)"]
    unfolding pb_encode_string_def wire_string_def
    by (intro emitter_and_then emitter_pb_write) simp_all
qed

end
