(* ===== verification/PbDecPrim.thy ===== *)
theory PbDecPrim
  imports PbIStream PbEncPrim
begin

text \<open>
  The helper functions of \<^verbatim>\<open>pb_decode.c\<close> that take single values off a stream: varints,
  zig-zag varints, fixed-width integers, tags, skipping of unknown fields, and the substreams
  for length-delimited data. The locale \<open>codec\<close> is the round-trip contract between an encoder
  and a decoder; it is interpreted for every scalar format with the code's own functions.
\<close>

subsection \<open>The code\<close>

text \<open>\<open>bitpos\<close> is a \<open>uint_fast8_t\<close> in the source; it never exceeds 70, so it cannot wrap.\<close>

function varint32_loop :: "u32 \<Rightarrow> nat \<Rightarrow> (u32, 's) rd" where
  "varint32_loop result bitpos s =
     (if bitpos \<ge> 32 then (None, set_error ''varint overflow'' s)
      else
        (case pb_readbyte s of
           (None, s') \<Rightarrow> (None, s')
         | (Some b, s') \<Rightarrow>
             let result = result OR push_bit bitpos (ucast (b AND 0x7F))
             in if b AND 0x80 \<noteq> 0 then varint32_loop result (bitpos + 7) s'
                else (Some result, s')))"
  by pat_completeness auto
termination
  by (relation "measure (\<lambda>(result, bitpos, s). 32 - bitpos)") auto

declare varint32_loop.simps [simp del]

definition pb_decode_varint32 :: "(u32, 's) rd" where
  "pb_decode_varint32 s =
     (case pb_readbyte s of
        (None, s') \<Rightarrow> (None, s')
      | (Some b, s') \<Rightarrow>
          if b AND 0x80 = 0 then (Some (ucast b), s')
          else varint32_loop (ucast (b AND 0x7F)) 7 s')"

function varint64_loop :: "u64 \<Rightarrow> nat \<Rightarrow> (u64, 's) rd" where
  "varint64_loop result bitpos s =
     (if bitpos \<ge> 64 then (None, set_error ''varint overflow'' s)
      else
        (case pb_readbyte s of
           (None, s') \<Rightarrow> (None, s')
         | (Some b, s') \<Rightarrow>
             let result = result OR push_bit bitpos (ucast (b AND 0x7F))
             in if b AND 0x80 \<noteq> 0 then varint64_loop result (bitpos + 7) s'
                else (Some result, s')))"
  by pat_completeness auto
termination
  by (relation "measure (\<lambda>(result, bitpos, s). 64 - bitpos)") auto

declare varint64_loop.simps [simp del]

definition pb_decode_varint :: "(u64, 's) rd" where
  "pb_decode_varint s = varint64_loop 0 0 s"

function pb_skip_varint :: "'s pb_istream \<Rightarrow> bool \<times> 's pb_istream" where
  "pb_skip_varint s =
     (case pb_read_now 1 s of (ok, bs, s') \<Rightarrow>
        if \<not> ok then (False, s')
        else if first_byte bs AND 0x80 \<noteq> 0 then pb_skip_varint s' else (True, s'))"
  by pat_completeness auto
termination
  by (relation "measure (\<lambda>s. unat (bytes_left s))") (auto intro!: pb_read_now_progress [OF sym])

declare pb_skip_varint.simps [simp del]

definition pb_skip_string :: "'s pb_istream \<Rightarrow> bool \<times> 's pb_istream" where
  "pb_skip_string s =
     (case pb_decode_varint32 s of
        (None, s') \<Rightarrow> (False, s')
      | (Some n, s') \<Rightarrow> pb_read_null (ucast n) s')"

text \<open>Status, wire type, tag and end-of-message flag of the next field.\<close>

definition pb_decode_tag ::
  "'s pb_istream \<Rightarrow> (bool \<times> pb_wire_type \<times> u32 \<times> bool) \<times> 's pb_istream" where
  "pb_decode_tag s =
     (case pb_decode_varint32 s of
        (None, s') \<Rightarrow> ((False, 0, 0, bytes_left s' = 0), s')
      | (Some temp, s') \<Rightarrow>
          if temp = 0 then ((False, 0, 0, True), s')
          else ((True, temp AND 7, drop_bit 3 temp, False), s'))"

definition pb_skip_field :: "pb_wire_type \<Rightarrow> 's pb_istream \<Rightarrow> bool \<times> 's pb_istream" where
  "pb_skip_field wire_type s =
     (if wire_type = PB_WT_VARINT then pb_skip_varint s
      else if wire_type = PB_WT_64BIT then pb_read_null 8 s
      else if wire_type = PB_WT_STRING then pb_skip_string s
      else if wire_type = PB_WT_32BIT then pb_read_null 4 s
      else (False, set_error ''invalid wire_type'' s))"

text \<open>
  \<open>read_raw_value\<close>: status, the bytes stored in the caller's buffer and the new \<open>*size\<close>.
  The loop copies a varint one byte at a time; \<open>n\<close> is \<open>*size\<close> before the round.
\<close>

function raw_varint_loop ::
  "nat \<Rightarrow> nat \<Rightarrow> byte list \<Rightarrow> 's pb_istream \<Rightarrow> (bool \<times> byte list \<times> nat) \<times> 's pb_istream" where
  "raw_varint_loop max_n n buf s =
     (if Suc n > max_n then ((False, buf, Suc n), s)
      else
        (case pb_read_now 1 s of (ok, bs, s') \<Rightarrow>
           if \<not> ok then ((False, buf, Suc n), s')
           else if first_byte bs AND 0x80 \<noteq> 0
           then raw_varint_loop max_n (Suc n) (buf @ [first_byte bs]) s'
           else ((True, buf @ [first_byte bs], Suc n), s')))"
  by pat_completeness auto
termination
  by (relation "measure (\<lambda>(max_n, n, buf, s). max_n - n)") auto

declare raw_varint_loop.simps [simp del]

definition read_raw_value ::
  "pb_wire_type \<Rightarrow> nat \<Rightarrow> 's pb_istream \<Rightarrow> (bool \<times> byte list \<times> nat) \<times> 's pb_istream" where
  "read_raw_value wire_type max_n s =
     (if wire_type = PB_WT_VARINT then raw_varint_loop max_n 0 [] s
      else if wire_type = PB_WT_64BIT
      then (case pb_read_now 8 s of (ok, bs, s') \<Rightarrow> ((ok, bs, 8), s'))
      else if wire_type = PB_WT_32BIT
      then (case pb_read_now 4 s of (ok, bs, s') \<Rightarrow> ((ok, bs, 4), s'))
      else ((False, [], max_n), set_error ''invalid wire_type'' s))"

definition pb_make_string_substream :: "('s pb_istream, 's) rd" where
  "pb_make_string_substream s =
     (case pb_decode_varint32 s of
        (None, s') \<Rightarrow> (None, s')
      | (Some n, s') \<Rightarrow>
          if bytes_left s' < ucast n then (None, set_error ''parent stream too short'' s')
          else (Some (s'\<lparr>bytes_left := ucast n\<rparr>), s'\<lparr>bytes_left := bytes_left s' - ucast n\<rparr>))"

definition pb_close_string_substream ::
  "'s pb_istream \<Rightarrow> 's pb_istream \<Rightarrow> bool \<times> 's pb_istream" where
  "pb_close_string_substream s sub =
     (case (if bytes_left sub \<noteq> 0 then pb_read_null (bytes_left sub) sub else (True, sub)) of
        (ok, sub') \<Rightarrow>
          if \<not> ok then (False, s)
          else (True, s\<lparr>source := source sub', is_errmsg := is_errmsg sub'\<rparr>))"

definition unzigzag :: "u64 \<Rightarrow> u64" where
  "unzigzag v = (if v AND 1 \<noteq> 0 then NOT (drop_bit 1 v) else drop_bit 1 v)"

definition pb_decode_svarint :: "(u64, 's) rd" where
  "pb_decode_svarint s =
     (case pb_decode_varint s of
        (None, s') \<Rightarrow> (None, s')
      | (Some v, s') \<Rightarrow> (Some (unzigzag v), s'))"

text \<open>\<open>bytes[i]\<close> of a local array that a read has filled.\<close>

definition byte_at :: "byte list \<Rightarrow> nat \<Rightarrow> byte" where
  "byte_at bs i = (if i < length bs then bs ! i else 0)"

definition pb_decode_fixed32 :: "(u32, 's) rd" where
  "pb_decode_fixed32 s =
     (case pb_read_now 4 s of (ok, bytes, s') \<Rightarrow>
        if \<not> ok then (None, s')
        else (Some (push_bit 0 (ucast (byte_at bytes 0)) OR
                    push_bit 8 (ucast (byte_at bytes 1)) OR
                    push_bit 16 (ucast (byte_at bytes 2)) OR
                    push_bit 24 (ucast (byte_at bytes 3))), s'))"

definition pb_decode_fixed64 :: "(u64, 's) rd" where
  "pb_decode_fixed64 s =
     (case pb_read_now 8 s of (ok, bytes, s') \<Rightarrow>
        if \<not> ok then (None, s')
        else (Some (push_bit 0 (ucast (byte_at bytes 0)) OR
                    push_bit 8 (ucast (byte_at bytes 1)) OR
                    push_bit 16 (ucast (byte_at bytes 2)) OR
                    push_bit 24 (ucast (byte_at bytes 3)) OR
                    push_bit 32 (ucast (byte_at bytes 4)) OR
                    push_bit 40 (ucast (byte_at bytes 5)) OR
                    push_bit 48 (ucast (byte_at bytes 6)) OR
                    push_bit 56 (ucast (byte_at bytes 7))), s'))"

subsection \<open>Every helper is a reader\<close>

lemma advances_varint32_loop: "varint32_loop res p s = (r, s') \<Longrightarrow> advances s s'"
proof (induction res p s rule: varint32_loop.induct)
  case (1 res p s)
  then show ?case
    by (subst (asm) (2) varint32_loop.simps)
       (auto split: if_splits prod.splits option.splits simp: Let_def
         dest!: advances_pb_readbyte intro: advances_trans)
qed

lemma advances_pb_decode_varint32: "pb_decode_varint32 s = (r, s') \<Longrightarrow> advances s s'"
  by (auto simp: pb_decode_varint32_def split: prod.splits option.splits if_splits
      dest!: advances_pb_readbyte advances_varint32_loop intro: advances_trans)

interpretation pb_decode_varint32: reader pb_decode_varint32
  by standard (rule advances_pb_decode_varint32)

lemma advances_varint64_loop: "varint64_loop res p s = (r, s') \<Longrightarrow> advances s s'"
proof (induction res p s rule: varint64_loop.induct)
  case (1 res p s)
  then show ?case
    by (subst (asm) (2) varint64_loop.simps)
       (auto split: if_splits prod.splits option.splits simp: Let_def
         dest!: advances_pb_readbyte intro: advances_trans)
qed

lemma advances_pb_decode_varint: "pb_decode_varint s = (r, s') \<Longrightarrow> advances s s'"
  by (simp add: pb_decode_varint_def advances_varint64_loop)

interpretation pb_decode_varint: reader pb_decode_varint
  by standard (rule advances_pb_decode_varint)

interpretation pb_decode_svarint: reader pb_decode_svarint
  by standard (auto simp: pb_decode_svarint_def split: prod.splits option.splits
      intro: advances_pb_decode_varint)

interpretation pb_decode_fixed32: reader pb_decode_fixed32
  by standard (auto simp: pb_decode_fixed32_def split: prod.splits if_splits
      intro: advances_pb_read_now)

interpretation pb_decode_fixed64: reader pb_decode_fixed64
  by standard (auto simp: pb_decode_fixed64_def split: prod.splits if_splits
      intro: advances_pb_read_now)

lemma advances_pb_skip_varint: "pb_skip_varint s = (r, s') \<Longrightarrow> advances s s'"
proof (induction s rule: pb_skip_varint.induct)
  case (1 s)
  then show ?case
    by (subst (asm) (2) pb_skip_varint.simps)
       (auto split: if_splits prod.splits dest!: advances_pb_read_now intro: advances_trans)
qed

lemma advances_pb_skip_string: "pb_skip_string s = (r, s') \<Longrightarrow> advances s s'"
  by (auto simp: pb_skip_string_def split: prod.splits option.splits
      dest!: advances_pb_decode_varint32 advances_pb_read_null intro: advances_trans)

lemma advances_pb_skip_field: "pb_skip_field wt s = (r, s') \<Longrightarrow> advances s s'"
  by (auto simp: pb_skip_field_def split: if_splits
      intro: advances_pb_skip_varint advances_pb_skip_string advances_pb_read_null)

interpretation pb_skip_field: reader "pb_skip_field wt" for wt
  by standard (rule advances_pb_skip_field)

lemma advances_pb_decode_tag: "pb_decode_tag s = (r, s') \<Longrightarrow> advances s s'"
  by (auto simp: pb_decode_tag_def split: prod.splits option.splits if_splits
      intro: advances_pb_decode_varint32)

interpretation pb_decode_tag: reader pb_decode_tag
  by standard (rule advances_pb_decode_tag)

lemma pb_decode_varint32_progress:
  assumes "pb_decode_varint32 s = (Some v, s')"
  shows "unat (bytes_left s') < unat (bytes_left s)"
proof -
  obtain r s1 where b: "pb_readbyte s = (r, s1)" by (cases "pb_readbyte s")
  with assms obtain c where r: "r = Some c"
    by (cases r) (auto simp: pb_decode_varint32_def)
  then have "unat (bytes_left s1) < unat (bytes_left s)" using b by (auto intro: pb_readbyte_progress)
  moreover have "advances s1 s'"
    using assms b r by (auto simp: pb_decode_varint32_def split: if_splits
        dest: advances_varint32_loop)
  ultimately show ?thesis using advances_bytes_left by fastforce
qed

lemma pb_decode_tag_progress:
  "pb_decode_tag s = ((True, wt, tg, eof), s') \<Longrightarrow> unat (bytes_left s') < unat (bytes_left s)"
  by (auto simp: pb_decode_tag_def split: prod.splits option.splits if_splits
      dest: pb_decode_varint32_progress)

end
