(* ===== verification/PbRoundtrip.thy ===== *)
theory PbRoundtrip
  imports PbDecPrim
begin

text \<open>
  Round trips of the scalar formats. The contract \<open>codec\<close> says that decoding what was encoded
  gives the value back and leaves the stream at the first byte behind it, and that a stream cut
  off inside the encoding is refused. Its consequences (the formats are prefix free, hence
  injective) are proved once in the locale, and it is interpreted on the code for varints of
  both widths, zig-zag varints, fixed-width integers and tags.
\<close>

locale codec =
  fixes enc :: "'a \<Rightarrow> byte list" and dec :: "('a, 's) rd" and dom :: "'a \<Rightarrow> bool"
  assumes small: "dom v \<Longrightarrow> length (enc v) < 2 ^ 32"
    and dec_enc: "dom v \<Longrightarrow> length (enc v) \<le> unat n \<Longrightarrow>
      dec (buf_stream (enc v @ rest) n e) = (Some v, buf_stream rest (n - of_nat (length (enc v))) e)"
    and dec_short: "dom v \<Longrightarrow> unat n < length (enc v) \<Longrightarrow>
      fst (dec (buf_stream (enc v @ rest) n e)) = None"
begin

lemma prefix_free:
  assumes "dom v" "dom w" "enc v @ r = enc w @ r'"
  shows "v = w \<and> r = r'"
proof -
  let ?n = "2 ^ 32 :: size_t"
  have "unat ?n = 2 ^ 32" by simp
  then have "dec (buf_stream (enc v @ r) ?n None) = (Some v, buf_stream r (?n - of_nat (length (enc v))) None)"
    "dec (buf_stream (enc w @ r') ?n None) = (Some w, buf_stream r' (?n - of_nat (length (enc w))) None)"
    using small [OF assms(1)] small [OF assms(2)] dec_enc [OF assms(1), of ?n r None]
      dec_enc [OF assms(2), of ?n r' None] by (simp_all del: of_nat_numeral)
  then show ?thesis using assms(3) by (simp add: buf_stream_def)
qed

lemma enc_inj: "dom v \<Longrightarrow> dom w \<Longrightarrow> enc v = enc w \<Longrightarrow> v = w"
  using prefix_free [of v w "[]" "[]"] by simp

lemma whole_buffer:
  "dom v \<Longrightarrow> dec (pb_istream_from_buffer (enc v) (of_nat (length (enc v)))) =
     (Some v, pb_istream_from_buffer [] 0)"
  using dec_enc [of v "of_nat (length (enc v))" "[]" None] small [of v]
  by (simp add: unat_of_nat buf_stream_def pb_istream_from_buffer_def)

end

subsection \<open>Varints\<close>

lemma varint64_loop_uvarint:
  assumes "p < 64" "n * 2 ^ p < 2 ^ 64" "length (uvarint n) \<le> unat k"
  shows "varint64_loop acc p (buf_stream (uvarint n @ rest) k e) =
    (Some (acc OR push_bit p (of_nat n)), buf_stream rest (k - of_nat (length (uvarint n))) e)"
  using assms
proof (induction n arbitrary: acc p k rule: uvarint.induct)
  case (1 n)
  have k: "0 < k" using "1.prems"(3) length_uvarint_pos [of n]
    by (metis gr_implies_not0 le_zero_eq unat_0 word_neq_0_conv)
  show ?case
  proof (cases "n < 128")
    case True
    then show ?thesis
      using "1.prems" k
      by (simp add: varint64_loop.simps uvarint.simps [of n] varint_byte_simps Let_def)
  next
    case False
    have p7: "p + 7 < 64"
    proof (rule ccontr)
      assume "\<not> p + 7 < 64"
      then have "(2 :: nat) ^ 64 \<le> 2 ^ (p + 7)" by (intro power_increasing) auto
      also have "\<dots> = 128 * 2 ^ p" by (simp add: power_add)
      also have "\<dots> \<le> n * 2 ^ p" using False by simp
      finally show False using "1.prems"(2) by simp
    qed
    have "n div 128 * 2 ^ (p + 7) \<le> n * 2 ^ p"
      by (simp add: power_add flip: mult.assoc)
    then have small: "n div 128 * 2 ^ (p + 7) < 2 ^ 64" using "1.prems"(2) by simp
    have len: "length (uvarint (n div 128)) \<le> unat (k - 1)"
      using "1.prems"(3) False k by (simp add: uvarint.simps [of n] unat_minus_one word_neq_0_conv)
    have "push_bit p (of_nat n :: u64) =
        push_bit p (of_nat (n mod 128)) OR push_bit (p + 7) (of_nat (n div 128))"
      by (subst low_bits_split [of n]) (simp add: push_bit_or add.commute)
    then show ?thesis
      using False k "1.prems"(1)
        "1.IH" [OF False p7 small len, of "acc OR push_bit p (of_nat (n mod 128))"]
      by (simp add: varint64_loop.simps [of acc] uvarint.simps [of n] varint_byte_simps Let_def
          or.assoc algebra_simps del: of_nat_add)
  qed
qed

lemma varint64_loop_short:
  "unat k < length (uvarint n) \<Longrightarrow>
   fst (varint64_loop acc p (buf_stream (uvarint n @ rest) k e)) = None"
proof (induction n arbitrary: acc p k rule: uvarint.induct)
  case (1 n)
  show ?case
  proof (cases "k = 0 \<or> 64 \<le> p")
    case True
    then show ?thesis
      by (auto simp: varint64_loop.simps [of acc] pb_readbyte_def)
  next
    case False
    then have k: "0 < k" "0 < unat k" by (simp_all add: word_neq_0_conv unat_gt_0)
    then have n: "\<not> n < 128" using "1.prems" by (auto simp: uvarint.simps [of n])
    then have "unat (k - 1) < length (uvarint (n div 128))"
      using "1.prems" k by (simp add: uvarint.simps [of n] unat_minus_one word_neq_0_conv)
    then show ?thesis
      using n k False "1.IH" [OF n]
      by (simp add: varint64_loop.simps [of acc] uvarint.simps [of n] varint_byte_simps Let_def
          del: of_nat_add)
  qed
qed

interpretation varint64: codec "\<lambda>v. uvarint (unat v)" pb_decode_varint "\<lambda>_. True"
proof
  show "length (uvarint (unat v)) < 2 ^ 32" for v :: u64
    using length_uvarint_u64 [of v] by simp
next
  fix v :: u64 and n :: size_t and rest and e :: "string option"
  assume "length (uvarint (unat v)) \<le> unat n"
  then show "pb_decode_varint (buf_stream (uvarint (unat v) @ rest) n e) =
      (Some v, buf_stream rest (n - of_nat (length (uvarint (unat v)))) e)"
    using varint64_loop_uvarint [of 0 "unat v" n 0 rest e] unat_bound [of v]
    by (simp add: pb_decode_varint_def)
next
  fix v :: u64 and n :: size_t and rest and e :: "string option"
  assume "unat n < length (uvarint (unat v))"
  then show "fst (pb_decode_varint (buf_stream (uvarint (unat v) @ rest) n e)) = None"
    by (simp add: pb_decode_varint_def varint64_loop_short)
qed

lemma varint32_loop_uvarint:
  assumes "p < 32" "n * 2 ^ p < 2 ^ 32" "length (uvarint n) \<le> unat k"
  shows "varint32_loop acc p (buf_stream (uvarint n @ rest) k e) =
    (Some (acc OR push_bit p (of_nat n)), buf_stream rest (k - of_nat (length (uvarint n))) e)"
  using assms
proof (induction n arbitrary: acc p k rule: uvarint.induct)
  case (1 n)
  have k: "0 < k" using "1.prems"(3) length_uvarint_pos [of n]
    by (metis gr_implies_not0 le_zero_eq unat_0 word_neq_0_conv)
  show ?case
  proof (cases "n < 128")
    case True
    then show ?thesis
      using "1.prems" k
      by (simp add: varint32_loop.simps uvarint.simps [of n] varint_byte_simps Let_def)
  next
    case False
    have p7: "p + 7 < 32"
    proof (rule ccontr)
      assume "\<not> p + 7 < 32"
      then have "(2 :: nat) ^ 32 \<le> 2 ^ (p + 7)" by (intro power_increasing) auto
      also have "\<dots> = 128 * 2 ^ p" by (simp add: power_add)
      also have "\<dots> \<le> n * 2 ^ p" using False by simp
      finally show False using "1.prems"(2) by simp
    qed
    have "n div 128 * 2 ^ (p + 7) \<le> n * 2 ^ p"
      by (simp add: power_add flip: mult.assoc)
    then have small: "n div 128 * 2 ^ (p + 7) < 2 ^ 32" using "1.prems"(2) by simp
    have len: "length (uvarint (n div 128)) \<le> unat (k - 1)"
      using "1.prems"(3) False k by (simp add: uvarint.simps [of n] unat_minus_one word_neq_0_conv)
    have "push_bit p (of_nat n :: u32) =
        push_bit p (of_nat (n mod 128)) OR push_bit (p + 7) (of_nat (n div 128))"
      by (subst low_bits_split [of n]) (simp add: push_bit_or add.commute)
    then show ?thesis
      using False k "1.prems"(1)
        "1.IH" [OF False p7 small len, of "acc OR push_bit p (of_nat (n mod 128))"]
      by (simp add: varint32_loop.simps [of acc] uvarint.simps [of n] varint_byte_simps Let_def
          or.assoc algebra_simps del: of_nat_add)
  qed
qed

lemma varint32_loop_short:
  "unat k < length (uvarint n) \<Longrightarrow>
   fst (varint32_loop acc p (buf_stream (uvarint n @ rest) k e)) = None"
proof (induction n arbitrary: acc p k rule: uvarint.induct)
  case (1 n)
  show ?case
  proof (cases "k = 0 \<or> 32 \<le> p")
    case True
    then show ?thesis
      by (auto simp: varint32_loop.simps [of acc] pb_readbyte_def)
  next
    case False
    then have k: "0 < k" "0 < unat k" by (simp_all add: word_neq_0_conv unat_gt_0)
    then have n: "\<not> n < 128" using "1.prems" by (auto simp: uvarint.simps [of n])
    then have "unat (k - 1) < length (uvarint (n div 128))"
      using "1.prems" k by (simp add: uvarint.simps [of n] unat_minus_one word_neq_0_conv)
    then show ?thesis
      using n k False "1.IH" [OF n]
      by (simp add: varint32_loop.simps [of acc] uvarint.simps [of n] varint_byte_simps Let_def
          del: of_nat_add)
  qed
qed

text \<open>
  The quick case of \<open>pb_decode_varint32\<close> is the general loop started at bit 0.
\<close>

lemma pb_decode_varint32_eq: "pb_decode_varint32 s = varint32_loop 0 0 s"
proof -
  have "b AND 0x7F = b" if "\<not> bit b 7" for b :: byte
  proof (rule bit_word_eqI)
    fix k assume "k < LENGTH(8)"
    then show "bit (b AND 0x7F) k = bit b k"
      using that by (simp only: low7 bit_take_bit_iff) (auto simp: less_Suc_eq numeral_eq_Suc)
  qed
  then show ?thesis
    using top_bit
    by (auto simp: pb_decode_varint32_def varint32_loop.simps [of 0 0] Let_def
        split: option.splits prod.splits)
qed

interpretation varint32: codec "\<lambda>v. uvarint (unat v)" pb_decode_varint32 "\<lambda>_. True"
proof
  show "length (uvarint (unat v)) < 2 ^ 32" for v :: u32
    using length_uvarint_le [of "unat v" 4] unat_bound [of v] by simp
next
  fix v :: u32 and n :: size_t and rest and e :: "string option"
  assume "length (uvarint (unat v)) \<le> unat n"
  then show "pb_decode_varint32 (buf_stream (uvarint (unat v) @ rest) n e) =
      (Some v, buf_stream rest (n - of_nat (length (uvarint (unat v)))) e)"
    using varint32_loop_uvarint [of 0 "unat v" n 0 rest e] unat_bound [of v]
    by (simp add: pb_decode_varint32_eq)
next
  fix v :: u32 and n :: size_t and rest and e :: "string option"
  assume "unat n < length (uvarint (unat v))"
  then show "fst (pb_decode_varint32 (buf_stream (uvarint (unat v) @ rest) n e)) = None"
    by (simp add: pb_decode_varint32_eq varint32_loop_short)
qed

lemma varint32_enc_nat:
  "unat (t :: u32) = k \<Longrightarrow> length (uvarint k) \<le> unat n \<Longrightarrow>
   pb_decode_varint32 (buf_stream (uvarint k @ rest) n e) =
     (Some t, buf_stream rest (n - of_nat (length (uvarint k))) e)"
  using varint32.dec_enc by blast

lemma varint32_short_nat:
  "unat (t :: u32) = k \<Longrightarrow> unat n < length (uvarint k) \<Longrightarrow>
   fst (pb_decode_varint32 (buf_stream (uvarint k @ rest) n e)) = None"
  by (drule sym) (simp add: varint32.dec_short)

subsection \<open>Zig-zag varints\<close>

lemma shift_bits:
  "bit (NOT (drop_bit 1 (NOT (push_bit 1 (v :: u64))))) k \<longleftrightarrow> k < 64 \<and> (k = 63 \<or> bit v k)"
  "bit (drop_bit 1 (push_bit 1 (v :: u64))) k \<longleftrightarrow> k < 63 \<and> bit v k"
  by (simp_all only: bit_not_iff bit_drop_bit_eq bit_push_bit_iff possible_bit_word o_def) auto

lemma unzigzag_zigzag [simp]: "unzigzag (zigzag v) = v"
proof -
  have neg: "sint v < 0 \<longleftrightarrow> bit v 63" using bit_last_iff [of v] by simp
  show ?thesis
  proof (cases "bit v 63")
    case True
    then have "NOT (drop_bit 1 (NOT (push_bit 1 v))) = v"
      by (intro bit_word_eqI, simp only: shift_bits) auto
    moreover have "bit (NOT (push_bit 1 v)) 0"
      by (simp only: bit_not_iff bit_push_bit_iff possible_bit_word) simp
    then have "NOT (push_bit 1 v) AND 1 \<noteq> 0" by (simp only: and_one_eq bit_0 odd_iff_mod_2_eq_one) simp
    ultimately show ?thesis using True neg by (simp only: zigzag_def unzigzag_def if_True not_False_eq_True)
  next
    case False
    have "k < 63" if "k < LENGTH(64)" "bit v k" for k
      using that False by (cases "k = 63") auto
    then have "drop_bit 1 (push_bit 1 v) = v"
      by (intro bit_word_eqI) (auto simp only: shift_bits)
    moreover have "\<not> bit (push_bit 1 v) 0"
      by (simp only: bit_push_bit_iff possible_bit_word) simp
    then have "push_bit 1 v AND 1 = 0" by (simp only: and_one_eq bit_0 not_not even_iff_mod_2_eq_zero)
    ultimately show ?thesis
      using False neg by (simp only: zigzag_def unzigzag_def if_False simp_thms)
  qed
qed

lemma fst_pb_decode_svarint:
  "fst (pb_decode_svarint s) = map_option unzigzag (fst (pb_decode_varint s))"
  by (simp add: pb_decode_svarint_def split: prod.splits option.splits)

interpretation svarint: codec "\<lambda>v. uvarint (unat (zigzag v))" pb_decode_svarint "\<lambda>_. True"
proof
  show "length (uvarint (unat (zigzag v))) < 2 ^ 32" for v
    using length_uvarint_u64 [of "zigzag v"] by simp
next
  fix v :: u64 and n :: size_t and rest and e :: "string option"
  assume "length (uvarint (unat (zigzag v))) \<le> unat n"
  then show "pb_decode_svarint (buf_stream (uvarint (unat (zigzag v)) @ rest) n e) =
      (Some v, buf_stream rest (n - of_nat (length (uvarint (unat (zigzag v))))) e)"
    by (simp add: pb_decode_svarint_def varint64.dec_enc)
next
  fix v :: u64 and n :: size_t and rest and e :: "string option"
  assume "unat n < length (uvarint (unat (zigzag v)))"
  then show "fst (pb_decode_svarint (buf_stream (uvarint (unat (zigzag v)) @ rest) n e)) = None"
    by (simp add: fst_pb_decode_svarint varint64.dec_short)
qed

subsection \<open>Fixed-width integers\<close>

lemma list_of_length_4: "length bs = 4 \<Longrightarrow> bs = [bs ! 0, bs ! 1, bs ! 2, bs ! 3]"
  by (rule nth_equalityI) (auto simp: less_Suc_eq numeral_eq_Suc)

lemma list_of_length_8:
  "length bs = 8 \<Longrightarrow> bs = [bs ! 0, bs ! 1, bs ! 2, bs ! 3, bs ! 4, bs ! 5, bs ! 6, bs ! 7]"
  by (rule nth_equalityI) (auto simp: less_Suc_eq numeral_eq_Suc)

lemma fixed32_value:
  assumes "length bs = 4"
  shows "push_bit 0 (ucast (byte_at bs 0)) OR push_bit 8 (ucast (byte_at bs 1)) OR
    push_bit 16 (ucast (byte_at bs 2)) OR push_bit 24 (ucast (byte_at bs 3)) = (le_word bs :: u32)"
proof -
  obtain b0 b1 b2 b3 where "bs = [b0, b1, b2, b3]" using list_of_length_4 [OF assms] by blast
  then show ?thesis by (simp add: byte_at_def push_bit_or)
qed

lemma fixed64_value:
  assumes "length bs = 8"
  shows "push_bit 0 (ucast (byte_at bs 0)) OR push_bit 8 (ucast (byte_at bs 1)) OR
    push_bit 16 (ucast (byte_at bs 2)) OR push_bit 24 (ucast (byte_at bs 3)) OR
    push_bit 32 (ucast (byte_at bs 4)) OR push_bit 40 (ucast (byte_at bs 5)) OR
    push_bit 48 (ucast (byte_at bs 6)) OR push_bit 56 (ucast (byte_at bs 7)) = (le_word bs :: u64)"
proof -
  obtain b0 b1 b2 b3 b4 b5 b6 b7 where "bs = [b0, b1, b2, b3, b4, b5, b6, b7]"
    using list_of_length_8 [OF assms] by blast
  then show ?thesis by (simp add: byte_at_def push_bit_or)
qed

interpretation fixed32: codec "le_bytes 4" pb_decode_fixed32 "\<lambda>_. True"
proof
  show "length (le_bytes 4 v) < 2 ^ 32" for v :: u32 by simp
next
  fix v :: u32 and n :: size_t and rest and e :: "string option"
  assume "length (le_bytes 4 v) \<le> unat n"
  then have "4 \<le> n" by (simp add: word_le_nat_alt)
  then show "pb_decode_fixed32 (buf_stream (le_bytes 4 v @ rest) n e) =
      (Some v, buf_stream rest (n - of_nat (length (le_bytes 4 v))) e)"
    by (simp add: pb_decode_fixed32_def pb_read_now_buf fixed32_value le_word_le_bytes
        del: push_bit_0_id le_bytes.simps One_nat_def)
next
  fix v :: u32 and n :: size_t and rest and e :: "string option"
  assume "unat n < length (le_bytes 4 v)"
  then have "n < 4" by (simp add: word_less_nat_alt)
  then show "fst (pb_decode_fixed32 (buf_stream (le_bytes 4 v @ rest) n e)) = None"
    by (simp add: pb_decode_fixed32_def pb_read_now_short)
qed

interpretation fixed64: codec "le_bytes 8" pb_decode_fixed64 "\<lambda>_. True"
proof
  show "length (le_bytes 8 v) < 2 ^ 32" for v :: u64 by simp
next
  fix v :: u64 and n :: size_t and rest and e :: "string option"
  assume "length (le_bytes 8 v) \<le> unat n"
  then have "8 \<le> n" by (simp add: word_le_nat_alt)
  then show "pb_decode_fixed64 (buf_stream (le_bytes 8 v @ rest) n e) =
      (Some v, buf_stream rest (n - of_nat (length (le_bytes 8 v))) e)"
    by (simp add: pb_decode_fixed64_def pb_read_now_buf fixed64_value le_word_le_bytes
        del: push_bit_0_id le_bytes.simps One_nat_def)
next
  fix v :: u64 and n :: size_t and rest and e :: "string option"
  assume "unat n < length (le_bytes 8 v)"
  then have "n < 8" by (simp add: word_less_nat_alt)
  then show "fst (pb_decode_fixed64 (buf_stream (le_bytes 8 v @ rest) n e)) = None"
    by (simp add: pb_decode_fixed64_def pb_read_now_short)
qed

subsection \<open>Tags\<close>

text \<open>\<open>pb_decode_tag\<close> as a decoder of pairs (wire type, field number).\<close>

definition decode_tag_pair :: "(pb_wire_type \<times> u32, 's) rd" where
  "decode_tag_pair s =
     (case pb_decode_tag s of ((ok, wt, tg, eof), s') \<Rightarrow> (if ok then Some (wt, tg) else None, s'))"

definition valid_tag :: "pb_wire_type \<times> u32 \<Rightarrow> bool" where
  "valid_tag p \<longleftrightarrow> fst p < 8 \<and> 0 < snd p \<and> snd p < 2 ^ 29"

lemma tag_word:
  assumes "valid_tag (wt, tg)"
  defines "t \<equiv> (of_nat (8 * unat tg + unat wt) :: u32)"
  shows "unat t = 8 * unat tg + unat wt" "t \<noteq> 0" "t AND 7 = wt" "drop_bit 3 t = tg"
proof -
  have b: "unat wt < 8" "0 < unat tg" "unat tg < 2 ^ 29"
    using assms(1) by (simp_all add: valid_tag_def word_less_nat_alt)
  show u: "unat t = 8 * unat tg + unat wt"
    using b by (simp add: t_def unat_of_nat del: of_nat_add of_nat_mult)
  show "t \<noteq> 0" using u b by auto
  have "t AND 7 = take_bit 3 t" by (simp add: take_bit_eq_mask mask_eq_exp_minus_1)
  moreover have "unat (take_bit 3 t) = unat wt"
    by (simp only: unsigned_take_bit_eq u) (use b in \<open>simp add: take_bit_eq_mod\<close>)
  ultimately show "t AND 7 = wt" by (simp add: word_unat_eq_iff)
  have "unat (drop_bit 3 t) = unat tg"
    by (simp only: unat_drop_bit_eq u) (use b in \<open>simp add: drop_bit_eq_div\<close>)
  then show "drop_bit 3 t = tg" by (simp only: word_unat_eq_iff)
qed

lemma fst_decode_tag_pair: "fst (pb_decode_varint32 s) = None \<Longrightarrow> fst (decode_tag_pair s) = None"
  by (auto simp: decode_tag_pair_def pb_decode_tag_def split: prod.splits)

lemma decode_tag_pair_Some:
  "decode_tag_pair s = (Some (wt, tg), s') \<Longrightarrow> pb_decode_tag s = ((True, wt, tg, False), s')"
  by (auto simp: decode_tag_pair_def pb_decode_tag_def split: prod.splits if_splits option.splits)

interpretation tag: codec "\<lambda>(wt, tg). wire_tag wt tg" decode_tag_pair valid_tag
proof
  fix v :: "pb_wire_type \<times> u32" assume "valid_tag v"
  then show "length (case v of (wt, tg) \<Rightarrow> wire_tag wt tg) < 2 ^ 32"
    using length_wire_tag [of "fst v" "snd v"] by (auto simp: valid_tag_def case_prod_beta)
next
  fix v :: "pb_wire_type \<times> u32" and n :: size_t and rest and e :: "string option"
  assume v: "valid_tag v" and n: "length (case v of (wt, tg) \<Rightarrow> wire_tag wt tg) \<le> unat n"
  obtain wt tg where p: "v = (wt, tg)" by (cases v)
  note t = tag_word [OF v [unfolded p]]
  then show "decode_tag_pair (buf_stream ((case v of (wt, tg) \<Rightarrow> wire_tag wt tg) @ rest) n e) =
      (Some v, buf_stream rest (n - of_nat (length (case v of (wt, tg) \<Rightarrow> wire_tag wt tg))) e)"
    using n by (simp add: p decode_tag_pair_def pb_decode_tag_def wire_tag_def
        varint32_enc_nat [OF t(1)] del: of_nat_add of_nat_mult)
next
  fix v :: "pb_wire_type \<times> u32" and n :: size_t and rest and e :: "string option"
  assume v: "valid_tag v" and n: "unat n < length (case v of (wt, tg) \<Rightarrow> wire_tag wt tg)"
  obtain wt tg where p: "v = (wt, tg)" by (cases v)
  note t = tag_word [OF v [unfolded p]]
  then show "fst (decode_tag_pair
      (buf_stream ((case v of (wt, tg) \<Rightarrow> wire_tag wt tg) @ rest) n e)) = None"
    using n by (simp add: p fst_decode_tag_pair wire_tag_def varint32_short_nat [OF t(1)]
        del: of_nat_add of_nat_mult)
qed

subsection \<open>Through a buffer\<close>

text \<open>
  An encoder and a decoder of the same format: what one puts into a buffer, the other takes out.
\<close>

locale stream_codec = codec enc dec dom
  for enc :: "'a \<Rightarrow> byte list" and dec :: "('a, 's) rd" and dom :: "'a \<Rightarrow> bool" +
  fixes put :: "'b \<Rightarrow> 't pb_ostream cfun" and val :: "'b \<Rightarrow> 'a"
  assumes emits: "dom (val x) \<Longrightarrow> emitter (put x) (enc (val x))"
begin

lemma roundtrip:
  assumes "dom (val x)" "length (enc (val x)) \<le> unat n" "unat n \<le> length buf" "unat n < 2 ^ 63"
  shows "\<exists>out p. put x (pb_ostream_from_buffer buf n) =
      Some (True, \<lparr>sink = BufWrite out p, max_size = n, bytes_written = of_nat p, os_errmsg = None\<rparr>) \<and>
    p = length (enc (val x)) \<and> drop p out = drop p buf \<and>
    dec (pb_istream_from_buffer out (of_nat p)) = (Some (val x), pb_istream_from_buffer (drop p buf) 0)"
proof -
  let ?p = "length (enc (val x))" and ?bs = "enc (val x)"
  have "put x (pb_ostream_from_buffer buf n) =
      Some (True, \<lparr>sink = BufWrite (?bs @ drop ?p buf) ?p, max_size = n,
        bytes_written = of_nat ?p, os_errmsg = None\<rparr>)"
    using assms by (intro emitter.buffer_ok emits)
  moreover have "dec (buf_stream (?bs @ drop ?p buf) (of_nat ?p) None) =
      (Some (val x), buf_stream (drop ?p buf) 0 None)"
    using dec_enc [OF assms(1), of "of_nat ?p" "drop ?p buf" None] small [OF assms(1)]
    by (simp add: unat_of_nat)
  ultimately show ?thesis
    by (intro exI [of _ "?bs @ drop ?p buf"] exI [of _ ?p])
       (simp add: buf_stream_def pb_istream_from_buffer_def)
qed

end

interpretation varint64_stream: stream_codec "\<lambda>v. uvarint (unat v)" pb_decode_varint "\<lambda>_. True"
  pb_encode_varint "\<lambda>v. v"
  by unfold_locales

interpretation svarint_stream: stream_codec "\<lambda>v. uvarint (unat (zigzag v))" pb_decode_svarint "\<lambda>_. True"
  pb_encode_svarint "\<lambda>v. v"
  by unfold_locales

interpretation fixed32_stream: stream_codec "le_bytes 4" pb_decode_fixed32 "\<lambda>_. True"
  "\<lambda>(m, a). pb_encode_fixed32 m a" "\<lambda>(m, a). load32 m a"
proof (rule stream_codec.intro, rule fixed32.codec_axioms, rule stream_codec_axioms.intro)
  show "emitter (case x of (m, a) \<Rightarrow> pb_encode_fixed32 m a) (le_bytes 4 (case x of (m, a) \<Rightarrow> load32 m a))" for x
    using pb_encode_fixed32.emitter_axioms [of "fst x" "snd x"] by (simp add: case_prod_beta)
qed

interpretation fixed64_stream: stream_codec "le_bytes 8" pb_decode_fixed64 "\<lambda>_. True"
  "\<lambda>(m, a). pb_encode_fixed64 m a" "\<lambda>(m, a). load64 m a"
proof (rule stream_codec.intro, rule fixed64.codec_axioms, rule stream_codec_axioms.intro)
  show "emitter (case x of (m, a) \<Rightarrow> pb_encode_fixed64 m a) (le_bytes 8 (case x of (m, a) \<Rightarrow> load64 m a))" for x
    using pb_encode_fixed64.emitter_axioms [of "fst x" "snd x"] by (simp add: case_prod_beta)
qed

interpretation tag_stream: stream_codec "\<lambda>(wt, tg). wire_tag wt tg" decode_tag_pair valid_tag
  "\<lambda>(wt, tg). pb_encode_tag wt tg" "\<lambda>v. v"
proof (rule stream_codec.intro, rule tag.codec_axioms, rule stream_codec_axioms.intro)
  show "emitter (case x of (wt, tg) \<Rightarrow> pb_encode_tag wt tg) (case x of (wt, tg) \<Rightarrow> wire_tag wt tg)"
    if "valid_tag x" for x
    using emitter_pb_encode_tag [of "fst x" "snd x"] that by (simp add: valid_tag_def case_prod_beta)
qed

subsection \<open>Skipping\<close>

text \<open>The payloads that may follow a tag with the given wire type.\<close>

inductive payload :: "pb_wire_type \<Rightarrow> byte list \<Rightarrow> bool" where
  payload_varint: "payload PB_WT_VARINT (uvarint n)"
| payload_64: "length bs = 8 \<Longrightarrow> payload PB_WT_64BIT bs"
| payload_string: "length bs < 2 ^ 32 \<Longrightarrow> payload PB_WT_STRING (wire_string bs)"
| payload_32: "length bs = 4 \<Longrightarrow> payload PB_WT_32BIT bs"

lemma pb_skip_varint_uvarint:
  "length (uvarint n) \<le> unat k \<Longrightarrow> pb_skip_varint (buf_stream (uvarint n @ rest) k e) =
     (True, buf_stream rest (k - of_nat (length (uvarint n))) e)"
proof (induction n arbitrary: k rule: uvarint.induct)
  case (1 n)
  have len: "0 < length (uvarint n)" by (simp add: uvarint.simps [of n])
  then have pos: "0 < unat k" using "1.prems" by linarith
  then have "k \<noteq> 0" by auto
  then have k: "1 \<le> k" "unat (k - 1) = unat k - 1"
    using pos unat_minus_one [of k] by (simp_all add: word_le_nat_alt Suc_le_eq)
  show ?case
  proof (cases "n < 128")
    case True
    then show ?thesis
      using k by (simp add: uvarint.simps [of n] pb_skip_varint.simps [of "buf_stream (_ # _) _ _"]
          pb_read_now_buf first_byte_def of_nat_top_clear)
  next
    case False
    then have "length (uvarint (n div 128)) \<le> unat (k - 1)"
      using "1.prems" k by (simp add: uvarint.simps [of n])
    from "1.IH" [OF False this] show ?thesis
      using k False of_nat_top_set [of n]
      by (simp add: uvarint.simps [of n] pb_skip_varint.simps [of "buf_stream (_ # _) _ _"]
          pb_read_now_buf first_byte_def diff_diff_eq)
  qed
qed

lemma pb_skip_string_wire_string:
  assumes "length bs < 2 ^ 32" "length (wire_string bs) \<le> unat k"
  shows "pb_skip_string (buf_stream (wire_string bs @ rest) k e) =
     (True, buf_stream rest (k - of_nat (length (wire_string bs))) e)"
proof -
  let ?n = "of_nat (length bs) :: u32" and ?u = "length (uvarint (length bs))"
  have u: "unat ?n = length bs" using assms(1) by (simp add: unat_of_nat)
  have c: "(ucast ?n :: size_t) = of_nat (length bs)" "unat (of_nat (length bs) :: size_t) = length bs"
    using assms(1) u by (simp_all add: word_unat_eq_iff unat_of_nat unat_ucast_small)
  have "unat (k - of_nat ?u) = unat k - ?u"
    using assms(2) unat_bound [of k]
    by (subst unat_sub) (auto simp: wire_string_def word_le_nat_alt unat_of_nat)
  then have "of_nat (length bs) \<le> k - of_nat ?u"
    using assms(2) c by (simp add: word_le_nat_alt wire_string_def)
  then show ?thesis
    using assms(2) c
    by (simp add: wire_string_def pb_skip_string_def varint32_enc_nat [OF u] pb_read_null_buf diff_diff_eq)
qed

lemma pb_skip_field_payload:
  "payload wt bs \<Longrightarrow> length bs \<le> unat k \<Longrightarrow>
   pb_skip_field wt (buf_stream (bs @ rest) k e) = (True, buf_stream rest (k - of_nat (length bs)) e)"
proof (induction rule: payload.induct)
  case (payload_varint n)
  then show ?case by (simp add: pb_skip_field_def pb_skip_varint_uvarint)
next
  case (payload_64 bs)
  then have "8 \<le> k" by (simp add: word_le_nat_alt)
  then show ?case using payload_64
    by (simp add: pb_skip_field_def PB_WT_VARINT_def PB_WT_64BIT_def pb_read_null_buf)
next
  case (payload_string bs)
  then show ?case
    by (simp add: pb_skip_field_def PB_WT_VARINT_def PB_WT_64BIT_def PB_WT_STRING_def
        pb_skip_string_wire_string)
next
  case (payload_32 bs)
  then have "4 \<le> k" by (simp add: word_le_nat_alt)
  then show ?case using payload_32
    by (simp add: pb_skip_field_def PB_WT_VARINT_def PB_WT_64BIT_def PB_WT_STRING_def PB_WT_32BIT_def
        pb_read_null_buf)
qed

end
