(* ===== verification/PbEncode.thy ===== *)
theory PbEncode
  imports PbEncPrim
begin

text \<open>
  The message encoder of \<^verbatim>\<open>pb_encode.c\<close>: field encoders, arrays, optional and one-of fields,
  callbacks, extensions, submessages. The source struct is read from the byte store, the output
  goes to a stream; the source message and the output buffer are distinct objects.

  The functions of the source are mutually recursive (a submessage is encoded by
  \<^verbatim>\<open>pb_encode\<close>). Each is one definition that takes the encoder for nested messages as an
  argument, and \<open>pb_encode\<close> ties the knot; its first argument bounds the nesting depth and
  \<open>None\<close> means that the bound was too small (or a NULL function pointer was called).

  Application callbacks are reached through function pointers. The record \<open>enc_env\<close> gives the
  function behind each pointer and the constant extension types behind theirs.
\<close>

record 's enc_env =
  encode_fn :: "addr \<Rightarrow> mem \<Rightarrow> pb_field \<Rightarrow> addr \<Rightarrow> 's pb_ostream cfun"
  ext_encode_fn :: "addr \<Rightarrow> mem \<Rightarrow> addr \<Rightarrow> 's pb_ostream cfun"
  enc_ext_type :: "addr \<Rightarrow> pb_extension_type"

type_synonym 's msg_encoder = "pb_field list \<Rightarrow> addr \<Rightarrow> 's pb_ostream cfun"
type_synonym 's pb_encoder_t = "pb_field \<Rightarrow> addr \<Rightarrow> 's pb_ostream cfun"

subsection \<open>Field encoders\<close>

text \<open>Reads of an integer field of 1, 2, 4 or 8 bytes, sign- or zero-extended to 64 bits.\<close>

definition load_signed :: "mem \<Rightarrow> pb_size_t \<Rightarrow> addr \<Rightarrow> u64 option" where
  "load_signed m n src =
     (if n = 1 then Some (scast (load8 m src))
      else if n = 2 then Some (scast (load16 m src))
      else if n = 4 then Some (scast (load32 m src))
      else if n = 8 then Some (load64 m src)
      else None)"

definition load_unsigned :: "mem \<Rightarrow> pb_size_t \<Rightarrow> addr \<Rightarrow> u64 option" where
  "load_unsigned m n src =
     (if n = 1 then Some (ucast (load8 m src))
      else if n = 2 then Some (ucast (load16 m src))
      else if n = 4 then Some (ucast (load32 m src))
      else if n = 8 then Some (load64 m src)
      else None)"

definition pb_enc_varint :: "mem \<Rightarrow> 's pb_encoder_t" where
  "pb_enc_varint m f src s =
     (case load_signed m (data_size f) src of
        None \<Rightarrow> os_fail ''invalid data_size'' s
      | Some v \<Rightarrow> pb_encode_varint v s)"

definition pb_enc_uvarint :: "mem \<Rightarrow> 's pb_encoder_t" where
  "pb_enc_uvarint m f src s =
     (case load_unsigned m (data_size f) src of
        None \<Rightarrow> os_fail ''invalid data_size'' s
      | Some v \<Rightarrow> pb_encode_varint v s)"

definition pb_enc_svarint :: "mem \<Rightarrow> 's pb_encoder_t" where
  "pb_enc_svarint m f src s =
     (case load_signed m (data_size f) src of
        None \<Rightarrow> os_fail ''invalid data_size'' s
      | Some v \<Rightarrow> pb_encode_svarint v s)"

definition pb_enc_fixed64 :: "mem \<Rightarrow> 's pb_encoder_t" where
  "pb_enc_fixed64 m f src s = pb_encode_fixed64 m src s"

definition pb_enc_fixed32 :: "mem \<Rightarrow> 's pb_encoder_t" where
  "pb_enc_fixed32 m f src s = pb_encode_fixed32 m src s"

definition pb_enc_bytes :: "mem \<Rightarrow> 's pb_encoder_t" where
  "pb_enc_bytes m f src s =
     (if src = 0 then pb_encode_string [] 0 s
      else
        let n = load32 m src
        in if PB_ATYPE (type f) = PB_ATYPE_STATIC
              \<and> PB_BYTES_ARRAY_T_ALLOCSIZE n > ucast (data_size f)
           then os_fail ''bytes size exceeded'' s
           else pb_encode_string (load_bytes m (src + PB_BYTES_ARRAY_OFFSET) (unat n)) (ucast n) s)"

text \<open>
  The length loop of \<open>pb_enc_string\<close>: count up to the terminator or \<open>max_n\<close>. For a
  static field the bound is \<open>data_size\<close>; for a pointer field it is \<open>SIZE_MAX\<close>, i.e. the loop
  runs until it meets a zero byte.
\<close>

primrec str_len :: "nat \<Rightarrow> mem \<Rightarrow> addr \<Rightarrow> nat" where
  "str_len 0 m p = 0"
| "str_len (Suc n) m p = (if m p = 0 then 0 else Suc (str_len n m (p + 1)))"

definition pb_enc_string :: "mem \<Rightarrow> 's pb_encoder_t" where
  "pb_enc_string m f src s =
     (let max_n = (if PB_ATYPE (type f) = PB_ATYPE_POINTER then 2 ^ 64 - 1 else unat (data_size f));
          n = (if src = 0 then 0 else str_len max_n m src)
      in pb_encode_string (load_bytes m src n) (of_nat n) s)"

definition pb_enc_fixed_length_bytes :: "mem \<Rightarrow> 's pb_encoder_t" where
  "pb_enc_fixed_length_bytes m f src s =
     pb_encode_string (load_bytes m src (unat (data_size f))) (ucast (data_size f)) s"

subsection \<open>Submessages\<close>

definition pb_encode_submessage :: "'s msg_encoder \<Rightarrow> 's msg_encoder" where
  "pb_encode_submessage enc fds src s =
     (case enc fds src PB_OSTREAM_SIZING of
        None \<Rightarrow> None
      | Some (ok, sub) \<Rightarrow>
          if \<not> ok then Some (False, s\<lparr>os_errmsg := os_errmsg sub\<rparr>)
          else
            let n = bytes_written sub
            in and_then (pb_encode_varint n)
                 (\<lambda>s. if is_sizing s then pb_write [] n s
                      else if bytes_written s + n > max_size s then os_fail ''stream full'' s
                      else
                        (case enc fds src (s\<lparr>max_size := n, bytes_written := 0, os_errmsg := None\<rparr>) of
                           None \<Rightarrow> None
                         | Some (status, sub) \<Rightarrow>
                             let s = s\<lparr>bytes_written := bytes_written s + bytes_written sub,
                                       sink := sink sub, os_errmsg := os_errmsg sub\<rparr>
                             in if bytes_written sub \<noteq> n then os_fail ''submsg size changed'' s
                                else Some (status, s))) s)"

definition pb_enc_submessage :: "'s msg_encoder \<Rightarrow> 's pb_encoder_t" where
  "pb_enc_submessage enc f src s =
     (if ptr f = Ptr_null then os_fail ''invalid field descriptor'' s
      else pb_encode_submessage enc (submsg_fields (ptr f)) src s)"

text \<open>\<open>PB_ENCODERS[l]\<close>: the entry for extensions is NULL, entries past the end do not exist.\<close>

definition PB_ENCODERS :: "'s msg_encoder \<Rightarrow> mem \<Rightarrow> pb_type_t \<Rightarrow> 's pb_encoder_t" where
  "PB_ENCODERS enc m l =
     (if l = 0 then pb_enc_varint m
      else if l = 1 then pb_enc_uvarint m
      else if l = 2 then pb_enc_svarint m
      else if l = 3 then pb_enc_fixed32 m
      else if l = 4 then pb_enc_fixed64 m
      else if l = 5 then pb_enc_bytes m
      else if l = 6 then pb_enc_string m
      else if l = 7 then pb_enc_submessage enc
      else if l = 9 then pb_enc_fixed_length_bytes m
      else (\<lambda>f src. no_return))"

subsection \<open>Arrays\<close>

text \<open>\<open>for (i = 0; i < count; i++) { body(p); p += data_size; }\<close>\<close>

primrec array_loop :: "(addr \<Rightarrow> 'st cfun) \<Rightarrow> size_t \<Rightarrow> nat \<Rightarrow> addr \<Rightarrow> 'st cfun" where
  "array_loop body dsize 0 p = c_true"
| "array_loop body dsize (Suc n) p = and_then (body p) (array_loop body dsize n (p + dsize))"

definition encode_array ::
  "mem \<Rightarrow> pb_field \<Rightarrow> addr \<Rightarrow> size_t \<Rightarrow> 's pb_encoder_t \<Rightarrow> 's pb_ostream cfun" where
  "encode_array m f p_data count func s =
     (if count = 0 then Some (True, s)
      else if PB_ATYPE (type f) \<noteq> PB_ATYPE_POINTER \<and> count > ucast (array_size f)
      then os_fail ''array max size exceeded'' s
      else
        let loop = (\<lambda>body. array_loop body (ucast (data_size f)) (unat count) p_data)
        in if PB_LTYPE (type f) \<le> PB_LTYPE_LAST_PACKABLE
           then and_then (pb_encode_tag PB_WT_STRING (tag f))
             (\<lambda>s.
               let sized =
                 (if PB_LTYPE (type f) = PB_LTYPE_FIXED32 then Some (True, 4 * count)
                  else if PB_LTYPE (type f) = PB_LTYPE_FIXED64 then Some (True, 8 * count)
                  else map_option (\<lambda>(ok, z). (ok, bytes_written z))
                         (loop (func f) PB_OSTREAM_SIZING))
               in (case sized of
                     None \<Rightarrow> None
                   | Some (ok, n) \<Rightarrow>
                       if \<not> ok then Some (False, s)
                       else and_then (pb_encode_varint n)
                              (\<lambda>s. if is_sizing s then pb_write [] n s else loop (func f) s) s)) s
           else loop
             (\<lambda>p. and_then (pb_encode_tag_for_field f)
               (func f
                 (if PB_ATYPE (type f) = PB_ATYPE_POINTER
                     \<and> (PB_LTYPE (type f) = PB_LTYPE_STRING \<or> PB_LTYPE (type f) = PB_LTYPE_BYTES)
                  then load64 m p else p))) s)"

subsection \<open>Presence\<close>

text \<open>
  In proto3, fields without a \<^verbatim>\<open>has_\<close> flag are encoded only if their value is not zero.
\<close>

function pb_check_proto3_default_value :: "mem \<Rightarrow> pb_field \<Rightarrow> addr \<Rightarrow> bool" where
  "pb_check_proto3_default_value m f p_data =
     (if PB_ATYPE (type f) = PB_ATYPE_STATIC \<and> PB_LTYPE (type f) = PB_LTYPE_BYTES
      then load32 m p_data = 0
      else if PB_ATYPE (type f) = PB_ATYPE_STATIC \<and> PB_LTYPE (type f) = PB_LTYPE_STRING
      then m p_data = 0
      else if PB_ATYPE (type f) = PB_ATYPE_STATIC
              \<and> PB_LTYPE (type f) = PB_LTYPE_FIXED_LENGTH_BYTES
      then data_size f = 0
      else if PB_ATYPE (type f) = PB_ATYPE_STATIC \<and> PB_LTYPE (type f) = PB_LTYPE_SUBMESSAGE
      then list_all (\<lambda>it. pb_check_proto3_default_value m (cur it) (pData it))
             (message_iters (submsg_fields (ptr f)) p_data)
      else list_all (\<lambda>b. b = 0) (load_bytes m p_data (unat (data_size f))))"
  by pat_completeness auto
termination
  by (relation "measure (\<lambda>(m, f, a). size f)")
     (auto dest: message_iters_field size_submsg_fields)

declare pb_check_proto3_default_value.simps [simp del]

subsection \<open>Single fields\<close>

definition encode_basic_field :: "'s msg_encoder \<Rightarrow> mem \<Rightarrow> 's pb_encoder_t" where
  "encode_basic_field enc m f p_data0 s =
     (let func = PB_ENCODERS enc m (PB_LTYPE (type f));
          is_ptr = (PB_ATYPE (type f) = PB_ATYPE_POINTER);
          p_data = (if is_ptr then load64 m p_data0 else p_data0);
          implicit_has =
            (if is_ptr then p_data \<noteq> 0
             else if PB_HTYPE (type f) = PB_HTYPE_OPTIONAL
             then \<not> pb_check_proto3_default_value m f p_data0
             else True);
          p_size = p_data0 + scast (size_offset f);
          has_size = (size_offset f \<noteq> 0);
          put = and_then (pb_encode_tag_for_field f) (func f p_data);
          h = PB_HTYPE (type f)
      in if h = PB_HTYPE_REQUIRED
         then (if p_data = 0 then os_fail ''missing required field'' s else put s)
         else if h = PB_HTYPE_OPTIONAL
         then (if (if has_size then load_bool m p_size else implicit_has) then put s
               else Some (True, s))
         else if h = PB_HTYPE_REPEATED
         then encode_array m f p_data
                (if has_size then ucast (load32 m p_size) else of_bool implicit_has) func s
         else if h = PB_HTYPE_ONEOF
         then (if (if has_size then load32 m p_size else of_bool implicit_has) = tag f then put s
               else Some (True, s))
         else os_fail ''invalid field type'' s)"

definition encode_callback_field :: "'s enc_env \<Rightarrow> mem \<Rightarrow> 's pb_encoder_t" where
  "encode_callback_field env m f p_data s =
     (let fn = callback_funcs m p_data
      in if fn \<noteq> 0
         then (case encode_fn env fn m f (callback_arg p_data) s of
                 None \<Rightarrow> None
               | Some (ok, s') \<Rightarrow> if ok then Some (True, s') else os_fail ''callback error'' s')
         else Some (True, s))"

definition encode_field :: "'s msg_encoder \<Rightarrow> 's enc_env \<Rightarrow> mem \<Rightarrow> 's pb_encoder_t" where
  "encode_field enc env m f p_data s =
     (let a = PB_ATYPE (type f)
      in if a = PB_ATYPE_STATIC \<or> a = PB_ATYPE_POINTER then encode_basic_field enc m f p_data s
         else if a = PB_ATYPE_CALLBACK then encode_callback_field env m f p_data s
         else os_fail ''invalid field type'' s)"

definition default_extension_encoder ::
  "'s msg_encoder \<Rightarrow> 's enc_env \<Rightarrow> mem \<Rightarrow> addr \<Rightarrow> 's pb_ostream cfun" where
  "default_extension_encoder enc env m extension s =
     (let f = ext_arg (enc_ext_type env (ext_type m extension))
      in if PB_ATYPE (type f) = PB_ATYPE_POINTER
         then encode_field enc env m f (ext_dest_addr extension) s
         else encode_field enc env m f (ext_dest m extension) s)"

text \<open>The walk along \<open>extension->next\<close>, for lists of at most \<open>n\<close> extensions.\<close>

primrec encode_extension_loop ::
  "nat \<Rightarrow> 's msg_encoder \<Rightarrow> 's enc_env \<Rightarrow> mem \<Rightarrow> addr \<Rightarrow> 's pb_ostream cfun" where
  "encode_extension_loop 0 enc env m extension =
     (if extension = 0 then c_true else no_return)"
| "encode_extension_loop (Suc n) enc env m extension =
     (if extension = 0 then c_true
      else
        let ty = enc_ext_type env (ext_type m extension)
        in and_then
             (if ext_encode ty \<noteq> 0 then ext_encode_fn env (ext_encode ty) m extension
              else default_extension_encoder enc env m extension)
             (encode_extension_loop n enc env m (ext_next m extension)))"

definition encode_extension_field ::
  "nat \<Rightarrow> 's msg_encoder \<Rightarrow> 's enc_env \<Rightarrow> mem \<Rightarrow> 's pb_encoder_t" where
  "encode_extension_field n enc env m f p_data =
     encode_extension_loop n enc env m (load64 m p_data)"

subsection \<open>Whole messages\<close>

primrec pb_encode :: "nat \<Rightarrow> 's enc_env \<Rightarrow> mem \<Rightarrow> 's msg_encoder" where
  "pb_encode 0 env m fds src = no_return"
| "pb_encode (Suc n) env m fds src =
     for_each
       (\<lambda>it. if PB_LTYPE (type (cur it)) = PB_LTYPE_EXTENSION
             then encode_extension_field n (pb_encode n env m) env m (cur it) (pData it)
             else encode_field (pb_encode n env m) env m (cur it) (pData it))
       (message_iters fds src)"

definition pb_encode_delimited :: "nat \<Rightarrow> 's enc_env \<Rightarrow> mem \<Rightarrow> 's msg_encoder" where
  "pb_encode_delimited n env m fds src = pb_encode_submessage (pb_encode n env m) fds src"

definition pb_get_encoded_size ::
  "nat \<Rightarrow> 's enc_env \<Rightarrow> mem \<Rightarrow> pb_field list \<Rightarrow> addr \<Rightarrow> size_t option option" where
  "pb_get_encoded_size n env m fds src =
     map_option (\<lambda>(ok, s). if ok then Some (bytes_written s) else None)
       (pb_encode n env m fds src PB_OSTREAM_SIZING)"

end
