(* ===== verification/PbWire.thy ===== *)
theory PbWire
  imports PbEncode
begin

text \<open>
  A reference serializer and the refinement of the encoder to it. \<open>wire_message\<close> computes the
  protobuf bytes of a message struct directly, with no streams, no size pass and no buffer:
  \<open>None\<close> stands for messages the encoder refuses (or leaves to application code: callbacks and
  extensions). The main lemma \<open>emitter_pb_encode\<close> shows that the two-pass, stream-based encoder
  is an emitter of exactly these bytes.
\<close>

subsection \<open>The reference serializer\<close>

type_synonym msg_wire = "pb_field list \<Rightarrow> addr \<Rightarrow> byte list option"

definition wire_bytes :: "mem \<Rightarrow> pb_field \<Rightarrow> addr \<Rightarrow> byte list option" where
  "wire_bytes m f src =
     (if src = 0 then Some (wire_string [])
      else if PB_ATYPE (type f) = PB_ATYPE_STATIC
              \<and> PB_BYTES_ARRAY_T_ALLOCSIZE (load32 m src) > ucast (data_size f)
      then None
      else Some (wire_string (load_bytes m (src + PB_BYTES_ARRAY_OFFSET) (unat (load32 m src)))))"

definition wire_cstring :: "mem \<Rightarrow> pb_field \<Rightarrow> addr \<Rightarrow> byte list" where
  "wire_cstring m f src =
     (if src = 0 then wire_string []
      else wire_string (load_bytes m src
        (str_len (if PB_ATYPE (type f) = PB_ATYPE_POINTER then 2 ^ 64 - 1 else unat (data_size f))
           m src)))"

definition wire_item :: "msg_wire \<Rightarrow> mem \<Rightarrow> pb_field \<Rightarrow> addr \<Rightarrow> byte list option" where
  "wire_item rec m f src =
     (let l = PB_LTYPE (type f)
      in if l = 0 then map_option (\<lambda>v. uvarint (unat v)) (load_signed m (data_size f) src)
         else if l = 1 then map_option (\<lambda>v. uvarint (unat v)) (load_unsigned m (data_size f) src)
         else if l = 2 then map_option (\<lambda>v. uvarint (unat (zigzag v))) (load_signed m (data_size f) src)
         else if l = 3 then Some (le_bytes 4 (load32 m src))
         else if l = 4 then Some (le_bytes 8 (load64 m src))
         else if l = 5 then wire_bytes m f src
         else if l = 6 then Some (wire_cstring m f src)
         else if l = 7
         then (if ptr f = Ptr_null then None
               else map_option wire_string (rec (submsg_fields (ptr f)) src))
         else if l = 9 then Some (wire_string (load_bytes m src (unat (data_size f))))
         else None)"

primrec array_addrs :: "size_t \<Rightarrow> nat \<Rightarrow> addr \<Rightarrow> addr list" where
  "array_addrs d 0 p = []"
| "array_addrs d (Suc n) p = p # array_addrs d n (p + d)"

definition wire_tagged :: "msg_wire \<Rightarrow> mem \<Rightarrow> pb_field \<Rightarrow> addr \<Rightarrow> byte list option" where
  "wire_tagged rec m f src =
     (case wire_type_of (PB_LTYPE (type f)) of
        None \<Rightarrow> None
      | Some wt \<Rightarrow> map_option (\<lambda>bs. wire_tag wt (tag f) @ bs) (wire_item rec m f src))"

definition wire_concat :: "byte list option list \<Rightarrow> byte list option" where
  "wire_concat xs = map_option concat (those xs)"

definition wire_array :: "msg_wire \<Rightarrow> mem \<Rightarrow> pb_field \<Rightarrow> addr \<Rightarrow> nat \<Rightarrow> byte list option" where
  "wire_array rec m f p count =
     (if count = 0 then Some []
      else if PB_ATYPE (type f) \<noteq> PB_ATYPE_POINTER \<and> count > unat (array_size f) then None
      else
        let addrs = array_addrs (ucast (data_size f)) count p
        in if PB_LTYPE (type f) \<le> PB_LTYPE_LAST_PACKABLE
           then map_option (\<lambda>bs. wire_tag PB_WT_STRING (tag f) @ wire_string bs)
                  (wire_concat (map (wire_item rec m f) addrs))
           else wire_concat
                  (map (\<lambda>a. wire_tagged rec m f
                     (if PB_ATYPE (type f) = PB_ATYPE_POINTER
                         \<and> (PB_LTYPE (type f) = PB_LTYPE_STRING \<or> PB_LTYPE (type f) = PB_LTYPE_BYTES)
                      then load64 m a else a)) addrs))"

definition wire_field :: "msg_wire \<Rightarrow> mem \<Rightarrow> pb_field \<Rightarrow> addr \<Rightarrow> byte list option" where
  "wire_field rec m f p0 =
     (let is_ptr = (PB_ATYPE (type f) = PB_ATYPE_POINTER);
          p = (if is_ptr then load64 m p0 else p0);
          p_size = p0 + scast (size_offset f);
          has_size = (size_offset f \<noteq> 0);
          h = PB_HTYPE (type f);
          implicit_has = (if is_ptr then p \<noteq> 0
                          else if h = PB_HTYPE_OPTIONAL then \<not> pb_check_proto3_default_value m f p0
                          else True)
      in if PB_LTYPE (type f) = PB_LTYPE_EXTENSION
            \<or> (PB_ATYPE (type f) \<noteq> PB_ATYPE_STATIC \<and> \<not> is_ptr) then None
         else if h = PB_HTYPE_REQUIRED
         then (if p = 0 then None else wire_tagged rec m f p)
         else if h = PB_HTYPE_OPTIONAL
         then (if (if has_size then load_bool m p_size else implicit_has)
               then wire_tagged rec m f p else Some [])
         else if h = PB_HTYPE_REPEATED
         then wire_array rec m f p
                (if has_size then unat (load32 m p_size) else of_bool implicit_has)
         else (if (if has_size then load32 m p_size else of_bool implicit_has) = tag f
               then wire_tagged rec m f p else Some []))"

lemma wire_item_cong:
  "(\<And>a. rec (submsg_fields (ptr f)) a = rec' (submsg_fields (ptr f)) a) \<Longrightarrow>
   wire_item rec m f = wire_item rec' m f"
  by (intro ext) (simp add: wire_item_def Let_def cong: if_cong)

lemma wire_tagged_cong:
  "(\<And>a. rec (submsg_fields (ptr f)) a = rec' (submsg_fields (ptr f)) a) \<Longrightarrow>
   wire_tagged rec m f = wire_tagged rec' m f"
  using wire_item_cong [of rec f rec' m] by (intro ext) (simp add: wire_tagged_def cong: option.case_cong)

lemma wire_array_cong:
  assumes "\<And>a. rec (submsg_fields (ptr f)) a = rec' (submsg_fields (ptr f)) a"
  shows "wire_array rec m f = wire_array rec' m f"
proof -
  have "wire_item rec m f = wire_item rec' m f" by (rule wire_item_cong) (rule assms)
  moreover have "wire_tagged rec m f = wire_tagged rec' m f" by (rule wire_tagged_cong) (rule assms)
  ultimately show ?thesis by (intro ext) (simp add: wire_array_def Let_def cong: if_cong)
qed

lemma wire_field_cong [fundef_cong]:
  assumes "m = m'" "f = f'" "p = p'"
    and "\<And>fs a. fs = submsg_fields (ptr f') \<Longrightarrow> rec fs a = rec' fs a"
  shows "wire_field rec m f p = wire_field rec' m' f' p'"
proof -
  have "\<And>a. rec (submsg_fields (ptr f)) a = rec' (submsg_fields (ptr f)) a"
    using assms(2,4) by simp
  then have "wire_array rec m f = wire_array rec' m f" "wire_tagged rec m f = wire_tagged rec' m f"
    by (rule wire_array_cong, rule wire_tagged_cong)
  then show ?thesis using assms(1-3) by (simp add: wire_field_def Let_def cong: if_cong)
qed

function wire_message :: "mem \<Rightarrow> pb_field list \<Rightarrow> addr \<Rightarrow> byte list option" where
  "wire_message m fds src =
     wire_concat (map (\<lambda>it. wire_field (\<lambda>fs a. wire_message m fs a) m (cur it) (pData it))
       (message_iters fds src))"
  by pat_completeness auto
termination
proof (relation "measure (\<lambda>(m, fds, src). size_list size fds)")
  fix m fds src it fs a
  assume "it \<in> set (message_iters fds src)" and fs: "fs = submsg_fields (ptr (cur it))"
  then have c: "cur it \<in> set fds" by (simp add: message_iters_field)
  have "size_list size (submsg_fields p) \<le> size p" for p
    by (cases p) (auto simp: submsg_fields_def)
  moreover have "size (ptr f) < size f" for f by (cases f) simp
  ultimately have "size_list size fs < size (cur it)"
    using fs le_less_trans by blast
  also have "\<dots> \<le> size_list size fds"
    using c by (intro size_list_estimation') auto
  finally show "((m, fs, a), m, fds, src) \<in> measure (\<lambda>(m, fds, src). size_list size fds)"
    by simp
qed simp

declare wire_message.simps [simp del]

subsection \<open>Emitters of the pieces\<close>

lemma wire_concat_Nil [simp]: "wire_concat [] = Some []"
  by (simp add: wire_concat_def)

lemma wire_concat_Cons:
  "wire_concat (x # xs) = Some bs \<longleftrightarrow>
     (\<exists>b cs. x = Some b \<and> wire_concat xs = Some cs \<and> bs = b @ cs)"
  by (auto simp: wire_concat_def split: option.splits)

lemma emitter_concat:
  assumes "wire_concat (map w xs) = Some bs" "length bs < 2 ^ 62"
    and "\<And>a b. a \<in> set xs \<Longrightarrow> w a = Some b \<Longrightarrow> length b \<le> length bs \<Longrightarrow> emitter (body a) b"
  shows "emitter (for_each body xs) bs"
  using assms
proof (induction xs arbitrary: bs)
  case Nil
  then show ?case using emitter_true by (auto simp: c_true_def [abs_def])
next
  case (Cons a xs)
  from Cons.prems(1) obtain b cs where
    b: "w a = Some b" "wire_concat (map w xs) = Some cs" "bs = b @ cs"
    by (auto simp: wire_concat_Cons)
  have "emitter (body a) b" using Cons.prems(3) [of a b] b by simp
  moreover have "emitter (for_each body xs) cs"
    using b Cons.prems by (intro Cons.IH) auto
  ultimately show ?case
    using b Cons.prems(2) by (simp add: emitter_and_then)
qed

lemma array_loop_eq: "array_loop body d n p = for_each body (array_addrs d n p)"
  by (induction n arbitrary: p) auto

lemma emitter_sizing_shortcut:
  assumes "emitter g bs" "n = of_nat (length bs)"
  shows "emitter (\<lambda>s. if is_sizing s then pb_write [] n s else g s) bs"
proof
  show "length bs < 2 ^ 63" by (rule emitter.small [OF assms(1)])
next
  fix s :: "'a pb_ostream"
  assume v: "os_valid s" and "fits s (length bs)"
  then show "(if is_sizing s then pb_write [] n s else g s) = Some (True, emit bs s)"
    by (cases rule: os_valid_cases [OF v])
       (auto simp: pb_write_def emit_def assms(2) emitter.ok [OF assms(1)])
next
  fix s :: "'a pb_ostream"
  assume "os_valid s" "\<not> fits s (length bs)"
  moreover then have "\<not> is_sizing s" by (simp add: fits_def)
  ultimately show "\<exists>s'. (if is_sizing s then pb_write [] n s else g s) = Some (False, s') \<and>
      os_stays s s' \<and> os_errmsg s' \<noteq> None"
    using emitter.full [OF assms(1)] by simp
qed

lemma substream_room:
  assumes "sink s = BufWrite dst p" "os_valid s" "k \<le> room s"
  shows "os_valid (s\<lparr>max_size := of_nat k, bytes_written := 0, os_errmsg := None\<rparr>)"
    "fits (s\<lparr>max_size := of_nat k, bytes_written := 0, os_errmsg := None\<rparr>) k"
    "bytes_written s + of_nat k \<le> max_size s"
proof -
  have "unat (max_size s) < 2 ^ 63" "bytes_written s \<le> max_size s" "p + room s \<le> length dst"
    using assms(1,2) by (simp_all add: os_valid_def)
  moreover have "k \<le> unat (max_size s)" using assms(3) by (simp add: room_def)
  ultimately have k: "unat (of_nat k :: size_t) = k" "k < 2 ^ 63"
    by (simp_all add: unat_of_nat)
  then show "os_valid (s\<lparr>max_size := of_nat k, bytes_written := 0, os_errmsg := None\<rparr>)"
    "fits (s\<lparr>max_size := of_nat k, bytes_written := 0, os_errmsg := None\<rparr>) k"
    using assms \<open>p + room s \<le> length dst\<close> by (simp_all add: os_valid_def fits_def room_def)
  have "unat (bytes_written s) + k \<le> unat (max_size s)"
    using assms(3) \<open>bytes_written s \<le> max_size s\<close> by (simp add: room_def word_le_nat_alt)
  then show "bytes_written s + of_nat k \<le> max_size s"
    using k \<open>unat (max_size s) < 2 ^ 63\<close> by (simp add: word_le_nat_alt unat_word_ariths)
qed

lemma stream_full:
  assumes "sink s = BufWrite dst p" "os_valid s" "room s < k" "k < 2 ^ 63"
  shows "max_size s < bytes_written s + of_nat k"
proof -
  have "bytes_written s \<le> max_size s" "unat (max_size s) < 2 ^ 63"
    using assms(1,2) by (simp_all add: os_valid_def)
  moreover have "unat (max_size s) < unat (bytes_written s) + k"
    using assms(3) \<open>bytes_written s \<le> max_size s\<close> by (simp add: room_def word_le_nat_alt)
  ultimately show ?thesis
    using assms(4) by (simp add: word_less_nat_alt word_le_nat_alt unat_word_ariths unat_of_nat)
qed

lemma emitter_second_pass:
  fixes enc :: "'s pb_ostream cfun"
  assumes e: "emitter enc bs" and n: "n = of_nat (length bs)"
  shows "emitter
    (\<lambda>s. if is_sizing s then pb_write [] n s
         else if bytes_written s + n > max_size s then os_fail ''stream full'' s
         else (case enc (s\<lparr>max_size := n, bytes_written := 0, os_errmsg := None\<rparr>) of
                 None \<Rightarrow> None
               | Some (status, sub) \<Rightarrow>
                   let s = s\<lparr>bytes_written := bytes_written s + bytes_written sub,
                             sink := sink sub, os_errmsg := os_errmsg sub\<rparr>
                   in if bytes_written sub \<noteq> n then os_fail ''submsg size changed'' s
                      else Some (status, s))) bs" (is "emitter ?f bs")
proof
  show "length bs < 2 ^ 63" by (rule emitter.small [OF e])
next
  fix s :: "'s pb_ostream"
  assume v: "os_valid s" and fit: "fits s (length bs)"
  from v show "?f s = Some (True, emit bs s)"
  proof (cases rule: os_valid_cases)
    case sizing
    then show ?thesis by (simp add: pb_write_def emit_def n)
  next
    case (buffer dst p)
    then have "length bs \<le> room s" using fit by (simp add: fits_def)
    note sub = substream_room [OF buffer(1) v this, folded n]
    have "\<not> max_size s < bytes_written s + n" using sub(3) by (simp add: not_less)
    then show ?thesis
      using buffer emitter.ok [OF e sub(1,2)] by (simp add: n emit_def)
  qed
next
  fix s :: "'s pb_ostream"
  assume v: "os_valid s" and nofit: "\<not> fits s (length bs)"
  from v show "\<exists>s'. ?f s = Some (False, s') \<and> os_stays s s' \<and> os_errmsg s' \<noteq> None"
  proof (cases rule: os_valid_cases)
    case sizing
    then show ?thesis using nofit by (simp add: fits_def)
  next
    case (buffer dst p)
    then have "room s < length bs" using nofit by (simp add: fits_def)
    note stream_full [OF buffer(1) v this emitter.small [OF e]]
    then show ?thesis using buffer v
      by (simp add: n os_fail_def PB_SET_ERROR_def os_stays_refl)
  qed
qed

lemma emitter_pb_encode_submessage:
  assumes e: "emitter (enc fds src) bs" and "length bs < 2 ^ 62"
  shows "emitter (pb_encode_submessage enc fds src) (wire_string bs)"
proof -
  let ?n = "of_nat (length bs) :: size_t"
  have u: "unat ?n = length bs" using assms(2) by (simp add: unat_of_nat)
  have bw: "bytes_written (emit bs PB_OSTREAM_SIZING) = ?n"
    by (simp add: PB_OSTREAM_SIZING_def emit_def)
  have "length (uvarint (unat ?n) @ bs) < 2 ^ 63"
    using length_uvarint_u64 [of ?n] assms(2) by simp
  note emitter_and_then [OF pb_encode_varint.emitter_axioms emitter_second_pass [OF e refl] this]
  then show ?thesis
    unfolding wire_string_def u
    by (rule emitter_cong)
       (simp add: pb_encode_submessage_def emitter.sizing [OF e] bw del: emit_simps, simp only: Let_def)
qed

lemma emitter_pb_encode_string_load:
  assumes "n < 2 ^ 62"
  shows "emitter (pb_encode_string (load_bytes m a n) (of_nat n)) (wire_string (load_bytes m a n))"
  using emitter_pb_encode_string [of "load_bytes m a n"] assms by simp

lemma length_wire_string: "length bs \<le> length (wire_string bs)"
  by (simp add: wire_string_def)

lemma emitter_pb_enc_bytes:
  assumes "wire_bytes m f src = Some bs" "length bs < 2 ^ 62"
  shows "emitter (pb_enc_bytes m f src) bs"
proof (cases "src = 0")
  case True
  then have "bs = wire_string []" using assms(1) by (simp add: wire_bytes_def)
  then show ?thesis using emitter_pb_encode_string [of "[]"] True
    by (auto simp: pb_enc_bytes_def elim: emitter_cong)
next
  case False
  let ?n = "load32 m src"
  from assms(1) False have
    ok: "\<not> (PB_ATYPE (type f) = PB_ATYPE_STATIC \<and> PB_BYTES_ARRAY_T_ALLOCSIZE ?n > ucast (data_size f))"
    and bs: "bs = wire_string (load_bytes m (src + PB_BYTES_ARRAY_OFFSET) (unat ?n))"
    by (auto simp: wire_bytes_def split: if_splits)
  have "(of_nat (unat ?n) :: size_t) = ucast ?n" by simp
  moreover have "unat ?n < 2 ^ 62" using unsigned_less [of ?n, where ?'a = nat] by simp
  ultimately show ?thesis
    using emitter_pb_encode_string_load [of "unat ?n" m "src + PB_BYTES_ARRAY_OFFSET"] ok False bs
    by (auto simp: pb_enc_bytes_def Let_def simp del: of_nat_unat elim!: emitter_cong)
qed

lemma emitter_pb_enc_string:
  assumes "bs = wire_cstring m f src" "length bs < 2 ^ 62"
  shows "emitter (pb_enc_string m f src) bs"
proof -
  let ?k = "if PB_ATYPE (type f) = PB_ATYPE_POINTER then 2 ^ 64 - 1 else unat (data_size f)"
  let ?n = "if src = 0 then 0 else str_len ?k m src"
  have bs: "bs = wire_string (load_bytes m src ?n)"
    using assms(1) by (simp add: wire_cstring_def)
  then have "?n < 2 ^ 62"
    using assms(2) length_wire_string [of "load_bytes m src ?n"] by simp
  from emitter_pb_encode_string_load [OF this, of m src] show ?thesis
    unfolding bs by (rule emitter_cong) (simp add: pb_enc_string_def Let_def)
qed

lemma emitter_pb_enc_fixed_length_bytes:
  "emitter (pb_enc_fixed_length_bytes m f src) (wire_string (load_bytes m src (unat (data_size f))))"
proof -
  have "unat (data_size f) < 2 ^ 62" using unsigned_less [of "data_size f", where ?'a = nat] by simp
  from emitter_pb_encode_string_load [OF this, of m src] show ?thesis
    by (auto simp: pb_enc_fixed_length_bytes_def elim!: emitter_cong)
qed

lemma emitter_pb_enc_submessage:
  assumes "ptr f \<noteq> Ptr_null" "emitter (enc (submsg_fields (ptr f)) src) bs" "length bs < 2 ^ 62"
  shows "emitter (pb_enc_submessage enc f src) (wire_string bs)"
  using emitter_pb_encode_submessage [where enc = enc, OF assms(2,3)]
  by (rule emitter_cong) (simp add: pb_enc_submessage_def assms(1))

lemma emitter_item:
  fixes enc :: "'s msg_encoder"
  assumes w: "wire_item rec m f src = Some bs" and "length bs < 2 ^ 62"
    and sub: "\<And>b. rec (submsg_fields (ptr f)) src = Some b \<Longrightarrow> length b < 2 ^ 62
      \<Longrightarrow> emitter (enc (submsg_fields (ptr f)) src) b"
  shows "emitter (PB_ENCODERS enc m (PB_LTYPE (type f)) f src) bs"
proof -
  let ?l = "PB_LTYPE (type f)"
  consider (varint) "?l = 0" | (uvarint) "?l = 1" | (svarint) "?l = 2" | (f32) "?l = 3"
    | (f64) "?l = 4" | (bytes) "?l = 5" | (str) "?l = 6" | (sub) "?l = 7" | (fixlen) "?l = 9"
    using w by (auto simp: wire_item_def Let_def split: if_splits)
  then show ?thesis
  proof cases
    case varint
    then obtain v where "load_signed m (data_size f) src = Some v" "bs = uvarint (unat v)"
      using w by (auto simp: wire_item_def)
    then show ?thesis using pb_encode_varint.emitter_axioms [of v] varint
      by (auto simp: PB_ENCODERS_def pb_enc_varint_def elim: emitter_cong)
  next
    case uvarint
    then obtain v where "load_unsigned m (data_size f) src = Some v" "bs = uvarint (unat v)"
      using w by (auto simp: wire_item_def)
    then show ?thesis using pb_encode_varint.emitter_axioms [of v] uvarint
      by (auto simp: PB_ENCODERS_def pb_enc_uvarint_def elim: emitter_cong)
  next
    case svarint
    then obtain v where "load_signed m (data_size f) src = Some v" "bs = uvarint (unat (zigzag v))"
      using w by (auto simp: wire_item_def)
    then show ?thesis using pb_encode_svarint.emitter_axioms [of v] svarint
      by (auto simp: PB_ENCODERS_def pb_enc_svarint_def elim: emitter_cong)
  next
    case f32
    then show ?thesis using w pb_encode_fixed32.emitter_axioms [of m src]
      by (auto simp: wire_item_def PB_ENCODERS_def pb_enc_fixed32_def elim: emitter_cong)
  next
    case f64
    then show ?thesis using w pb_encode_fixed64.emitter_axioms [of m src]
      by (auto simp: wire_item_def PB_ENCODERS_def pb_enc_fixed64_def elim: emitter_cong)
  next
    case bytes
    then show ?thesis using w assms(2) by (simp add: wire_item_def PB_ENCODERS_def emitter_pb_enc_bytes)
  next
    case str
    then show ?thesis using w assms(2)
      by (auto simp: wire_item_def PB_ENCODERS_def intro: emitter_pb_enc_string)
  next
    case sub
    then obtain b where b: "ptr f \<noteq> Ptr_null" "rec (submsg_fields (ptr f)) src = Some b" "bs = wire_string b"
      using w by (auto simp: wire_item_def split: if_splits)
    then have "length b < 2 ^ 62" using assms(2) length_wire_string [of b] by simp
    then show ?thesis using b sub assms(3)
      by (auto simp: PB_ENCODERS_def intro!: emitter_pb_enc_submessage)
  next
    case fixlen
    then show ?thesis using w
      by (auto simp: wire_item_def PB_ENCODERS_def emitter_pb_enc_fixed_length_bytes)
  qed
qed

lemma wire_concat_bound:
  "wire_concat (map w xs) = Some bs \<Longrightarrow> a \<in> set xs \<Longrightarrow> \<exists>b. w a = Some b \<and> length b \<le> length bs"
  by (induction xs arbitrary: bs) (fastforce simp: wire_concat_Cons)+

lemma emitter_tagged:
  assumes w: "wire_tagged rec m f src = Some bs" and "length bs < 2 ^ 62"
    and sub: "\<And>b. rec (submsg_fields (ptr f)) src = Some b \<Longrightarrow> length b < 2 ^ 62
      \<Longrightarrow> emitter (enc (submsg_fields (ptr f)) src) b"
  shows "emitter (and_then (pb_encode_tag_for_field f) (PB_ENCODERS enc m (PB_LTYPE (type f)) f src)) bs"
proof -
  obtain wt b where wt: "wire_type_of (PB_LTYPE (type f)) = Some wt"
    and b: "wire_item rec m f src = Some b" "bs = wire_tag wt (tag f) @ b"
    using w by (auto simp: wire_tagged_def split: option.splits)
  then have "length b < 2 ^ 62" using assms(2) by simp
  then show ?thesis
    unfolding b(2) using assms(2) b
    by (intro emitter_and_then emitter_pb_encode_tag_for_field wt emitter_item [OF b(1)] sub) simp_all
qed

lemma length_array_addrs [simp]: "length (array_addrs d n p) = n"
  by (induction n arbitrary: p) auto

lemma wire_concat_length:
  "wire_concat (map w xs) = Some bs \<Longrightarrow> (\<And>a b. w a = Some b \<Longrightarrow> length b = k) \<Longrightarrow>
   length bs = k * length xs"
  by (induction xs arbitrary: bs) (auto simp: wire_concat_Cons)

lemma emitter_array_loop:
  assumes w: "wire_concat (map (wire_item rec m f) (array_addrs d n p)) = Some cs"
    and "length cs < 2 ^ 62"
    and sub: "\<And>a b. rec (submsg_fields (ptr f)) a = Some b \<Longrightarrow> length b < 2 ^ 62
      \<Longrightarrow> emitter (enc (submsg_fields (ptr f)) a) b"
  shows "emitter (array_loop (PB_ENCODERS enc m (PB_LTYPE (type f)) f) d n p) cs"
  unfolding array_loop_eq
  by (rule emitter_concat [OF w assms(2)], rule emitter_item) (use assms(2) sub in auto)

text \<open>The size the packed encoder announces before it writes the items.\<close>

lemma packed_size:
  fixes enc :: "'s msg_encoder"
  assumes w: "wire_concat (map (wire_item rec m f) (array_addrs d (unat count) p)) = Some cs"
    and e: "emitter (array_loop (PB_ENCODERS enc m (PB_LTYPE (type f)) f) d (unat count) p) cs"
  shows "(if PB_LTYPE (type f) = PB_LTYPE_FIXED32 then Some (True, 4 * count)
      else if PB_LTYPE (type f) = PB_LTYPE_FIXED64 then Some (True, 8 * count)
      else map_option (\<lambda>(ok, z). (ok, bytes_written z))
        (array_loop (PB_ENCODERS enc m (PB_LTYPE (type f)) f) d (unat count) p PB_OSTREAM_SIZING))
    = Some (True, of_nat (length cs))"
proof -
  let ?l = "PB_LTYPE (type f)"
  have "length cs = 4 * unat count" if "?l = 3"
    using wire_concat_length [OF w, of 4] that by (simp add: wire_item_def)
  moreover have "length cs = 8 * unat count" if "?l = 4"
    using wire_concat_length [OF w, of 8] that by (simp add: wire_item_def)
  moreover have "bytes_written (emit cs PB_OSTREAM_SIZING) = of_nat (length cs)"
    by (simp add: PB_OSTREAM_SIZING_def emit_def)
  ultimately show ?thesis
    using emitter.sizing [OF e] by (auto simp del: emit_simps)
qed

lemma emitter_packed:
  assumes w: "wire_concat (map (wire_item rec m f) (array_addrs d (unat count) p)) = Some cs"
    and len: "length (wire_tag PB_WT_STRING (tag f) @ wire_string cs) < 2 ^ 62"
    and e: "emitter (array_loop (PB_ENCODERS enc m (PB_LTYPE (type f)) f) d (unat count) p) cs"
  shows "emitter
    (and_then (pb_encode_tag PB_WT_STRING (tag f)) (and_then (pb_encode_varint (of_nat (length cs)))
      (\<lambda>s. if is_sizing s then pb_write [] (of_nat (length cs)) s
           else array_loop (PB_ENCODERS enc m (PB_LTYPE (type f)) f) d (unat count) p s)))
    (wire_tag PB_WT_STRING (tag f) @ wire_string cs)"
proof -
  have "unat (of_nat (length cs) :: size_t) = length cs"
    using len by (simp add: wire_string_def unat_of_nat)
  then have "emitter (pb_encode_varint (of_nat (length cs))) (uvarint (length cs))"
    using pb_encode_varint.emitter_axioms [of "of_nat (length cs)"] by simp
  then show ?thesis
    unfolding wire_string_def using len
    by (intro emitter_and_then emitter_pb_encode_tag emitter_sizing_shortcut [OF e refl])
       (auto simp: wire_string_def)
qed

lemma emitter_encode_array:
  assumes w: "wire_array rec m f p (unat count) = Some bs" and len: "length bs < 2 ^ 62"
    and sub: "\<And>a b. rec (submsg_fields (ptr f)) a = Some b \<Longrightarrow> length b < 2 ^ 62
      \<Longrightarrow> emitter (enc (submsg_fields (ptr f)) a) b"
  shows "emitter (encode_array m f p count (PB_ENCODERS enc m (PB_LTYPE (type f)))) bs"
proof (cases "count = 0")
  case True
  then have "bs = []" using w by (simp add: wire_array_def)
  then show ?thesis using True by (auto simp: encode_array_def intro: emitter_cong [OF emitter_true])
next
  case False
  let ?d = "ucast (data_size f) :: size_t"
  have "unat (ucast (array_size f) :: size_t) = unat (array_size f)"
    using unat_bound [of "array_size f"] by (intro unat_ucast_small) simp
  then have ok: "\<not> (PB_ATYPE (type f) \<noteq> PB_ATYPE_POINTER \<and> count > ucast (array_size f))"
    using w False by (auto simp: wire_array_def word_less_nat_alt unat_eq_0 split: if_splits)
  have nz: "unat count \<noteq> 0" using False by (simp add: unat_eq_0)
  show ?thesis
  proof (cases "PB_LTYPE (type f) \<le> PB_LTYPE_LAST_PACKABLE")
    case True
    then obtain cs where
      cs: "wire_concat (map (wire_item rec m f) (array_addrs ?d (unat count) p)) = Some cs"
        "bs = wire_tag PB_WT_STRING (tag f) @ wire_string cs"
      using w nz by (auto simp: wire_array_def Let_def split: if_splits)
    have "length cs < 2 ^ 62" using len cs(2) by (simp add: wire_string_def)
    then have e: "emitter (array_loop (PB_ENCODERS enc m (PB_LTYPE (type f)) f) ?d (unat count) p) cs"
      using sub by (intro emitter_array_loop [OF cs(1)])
    from emitter_packed [OF cs(1) len [unfolded cs(2)] e] show ?thesis
      unfolding cs(2)
      by (rule emitter_cong)
         (simp only: encode_array_def Let_def if_False False ok True if_True packed_size [OF cs(1) e]
            option.case prod.case simp_thms)
  next
    case unpacked: False
    then have c: "wire_concat (map (\<lambda>a. wire_tagged rec m f
        (if PB_ATYPE (type f) = PB_ATYPE_POINTER
            \<and> (PB_LTYPE (type f) = PB_LTYPE_STRING \<or> PB_LTYPE (type f) = PB_LTYPE_BYTES)
         then load64 m a else a)) (array_addrs ?d (unat count) p)) = Some bs"
      using w nz by (auto simp: wire_array_def Let_def split: if_splits)
    note loop = emitter_concat [OF c len, of "\<lambda>p. and_then (pb_encode_tag_for_field f)
         (PB_ENCODERS enc m (PB_LTYPE (type f)) f
            (if PB_ATYPE (type f) = PB_ATYPE_POINTER
                \<and> (PB_LTYPE (type f) = PB_LTYPE_STRING \<or> PB_LTYPE (type f) = PB_LTYPE_BYTES)
             then load64 m p else p))", folded array_loop_eq]
    show ?thesis
      by (rule emitter_cong [OF loop])
         (use len sub unpacked False ok in \<open>auto intro!: emitter_tagged simp: encode_array_def Let_def\<close>)
  qed
qed

lemma PB_HTYPE_neq:
  "PB_HTYPE_REPEATED = PB_HTYPE_REPEATED \<longleftrightarrow> True" "PB_HTYPE_REPEATED = PB_HTYPE_REQUIRED \<longleftrightarrow> False"
  "PB_HTYPE_REPEATED = PB_HTYPE_OPTIONAL \<longleftrightarrow> False"
  by simp_all

lemma emitter_if:
  "(c \<Longrightarrow> emitter f bs) \<Longrightarrow> (\<not> c \<Longrightarrow> bs = []) \<Longrightarrow>
   emitter (\<lambda>s. if c then f s else Some (True, s)) bs"
  using emitter_true by (cases c) (auto simp: c_true_def [abs_def])

lemma emitter_encode_basic_field:
  fixes enc :: "'s msg_encoder"
  assumes w: "wire_field rec m f p0 = Some bs" and len: "length bs < 2 ^ 62"
    and sub: "\<And>a b. rec (submsg_fields (ptr f)) a = Some b \<Longrightarrow> length b < 2 ^ 62
      \<Longrightarrow> emitter (enc (submsg_fields (ptr f)) a) b"
  shows "emitter (encode_basic_field enc m f p0) bs"
proof -
  define is_ptr where "is_ptr = (PB_ATYPE (type f) = PB_ATYPE_POINTER)"
  define p where "p = (if is_ptr then load64 m p0 else p0)"
  define p_size where "p_size = p0 + scast (size_offset f)"
  define implicit_has where "implicit_has = (if is_ptr then p \<noteq> 0
     else if PB_HTYPE (type f) = PB_HTYPE_OPTIONAL then \<not> pb_check_proto3_default_value m f p0 else True)"
  note defs = is_ptr_def [symmetric] p_def [symmetric] p_size_def [symmetric] implicit_has_def [symmetric]
  let ?put = "and_then (pb_encode_tag_for_field f) (PB_ENCODERS enc m (PB_LTYPE (type f)) f p)"
  let ?h = "PB_HTYPE (type f)"
  have put: "emitter ?put bs" if "wire_tagged rec m f p = Some bs"
    using that len sub by (intro emitter_tagged)
  have u: "unat (ucast (load32 m a) :: size_t) = unat (load32 m a)" for a
    using unat_bound [of "load32 m a"] by (intro unat_ucast_small) simp
  have arr: "emitter (encode_array m f p c (PB_ENCODERS enc m (PB_LTYPE (type f)))) bs"
    if "wire_array rec m f p (unat c) = Some bs" for c
    using that len sub by (intro emitter_encode_array)
  note field = w [unfolded wire_field_def Let_def defs] and code = encode_basic_field_def [of enc m f p0, unfolded Let_def defs]
  consider (req) "?h = PB_HTYPE_REQUIRED" | (opt) "?h = PB_HTYPE_OPTIONAL"
    | (rep) "?h = PB_HTYPE_REPEATED" | (oneof) "?h = PB_HTYPE_ONEOF"
    using PB_HTYPE_cases by blast
  then show ?thesis
  proof cases
    case req
    then have "p \<noteq> 0" "wire_tagged rec m f p = Some bs"
      using field by (auto split: if_splits)
    then show ?thesis using req by (auto simp: code intro: emitter_cong [OF put])
  next
    case opt
    have "emitter (\<lambda>s. if (if size_offset f \<noteq> 0 then load_bool m p_size else implicit_has)
        then ?put s else Some (True, s)) bs"
      using field opt by (intro emitter_if put) (simp_all split: if_splits)
    then show ?thesis by (rule emitter_cong) (simp add: code opt)
  next
    case rep
    let ?c = "if size_offset f \<noteq> 0 then ucast (load32 m p_size) else of_bool implicit_has :: size_t"
    have "wire_array rec m f p (unat ?c) = Some bs"
      using field rep by (cases "size_offset f = 0"; cases implicit_has) (simp_all add: u split: if_splits)
    from arr [OF this] show ?thesis
      by (rule emitter_cong) (simp only: code rep PB_HTYPE_neq if_False if_True)
  next
    case oneof
    have "emitter (\<lambda>s. if (if size_offset f \<noteq> 0 then load32 m p_size else of_bool implicit_has) = tag f
        then ?put s else Some (True, s)) bs"
      using field oneof by (intro emitter_if put) (simp_all split: if_splits)
    then show ?thesis by (rule emitter_cong) (simp add: code oneof)
  qed
qed

lemma emitter_encode_field:
  assumes w: "wire_field rec m f p0 = Some bs" and len: "length bs < 2 ^ 62"
    and sub: "\<And>a b. rec (submsg_fields (ptr f)) a = Some b \<Longrightarrow> length b < 2 ^ 62
      \<Longrightarrow> emitter (enc (submsg_fields (ptr f)) a) b"
  shows "emitter (encode_field enc env m f p0) bs" and "PB_LTYPE (type f) \<noteq> PB_LTYPE_EXTENSION"
proof -
  have "PB_ATYPE (type f) = PB_ATYPE_STATIC \<or> PB_ATYPE (type f) = PB_ATYPE_POINTER"
    using w by (auto simp: wire_field_def Let_def split: if_splits)
  then show "emitter (encode_field enc env m f p0) bs"
    by (intro emitter_cong [OF emitter_encode_basic_field [where enc = enc, OF w len sub]])
       (auto simp: encode_field_def Let_def)
  show "PB_LTYPE (type f) \<noteq> PB_LTYPE_EXTENSION"
    using w by (auto simp: wire_field_def Let_def split: if_splits)
qed

lemma emitter_pb_encode:
  assumes "wire_message m fds src = Some bs" "length bs < 2 ^ 62" "msg_depth fds \<le> n"
  shows "emitter (pb_encode n env m fds src) bs"
  using assms
proof (induction n arbitrary: fds src bs)
  case 0
  then show ?case by (simp add: msg_depth_def)
next
  case (Suc n)
  have w: "wire_concat (map (\<lambda>it. wire_field (wire_message m) m (cur it) (pData it))
      (message_iters fds src)) = Some bs"
    using Suc.prems(1) by (simp add: wire_message.simps [of m fds src])
  show ?case
    unfolding pb_encode.simps
  proof (rule emitter_concat [OF w Suc.prems(2)])
    fix it b
    assume it: "it \<in> set (message_iters fds src)" and le: "length b \<le> length bs"
      and b: "wire_field (wire_message m) m (cur it) (pData it) = Some b"
    have "msg_depth (submsg_fields (ptr (cur it))) < msg_depth fds"
      using it by (simp add: msg_depth_sub message_iters_field)
    then have "emitter (pb_encode n env m (submsg_fields (ptr (cur it))) a) c"
      if "wire_message m (submsg_fields (ptr (cur it))) a = Some c" "length c < 2 ^ 62" for a c
      using Suc.prems(3) that by (intro Suc.IH) simp_all
    note emitter_encode_field [OF b le_less_trans [OF le Suc.prems(2)], of "pb_encode n env m", OF this]
    then show "emitter (if PB_LTYPE (type (cur it)) = PB_LTYPE_EXTENSION
        then encode_extension_field n (pb_encode n env m) env m (cur it) (pData it)
        else encode_field (pb_encode n env m) env m (cur it) (pData it)) b"
      by simp
  qed
qed

end
