(* ===== verification/PbDecode.thy ===== *)
theory PbDecode
  imports PbDecPrim
begin

text \<open>
  The message decoder of \<^verbatim>\<open>pb_decode.c\<close>: default values, field decoders, static, callback
  and extension fields, the main loop and the check for required fields. The state is the input
  stream and the byte store that holds the destination struct; the input buffer is a separate
  object. The build has no \<^verbatim>\<open>PB_ENABLE_MALLOC\<close>, so pointer fields are refused.

  As in the encoder, each function takes the decoder for nested messages as an argument and
  \<open>pb_decode_noinit\<close> ties the knot with a bound on the nesting depth; the same bound limits
  the loops over extension lists and over callbacks. \<open>None\<close> means that the bound was too
  small, a NULL function pointer was called or a default value is shorter than its field.

  \<open>dec_env\<close> holds what is not code of the library: the functions behind the callback
  pointers, the constant extension types, and the two values that the C standard leaves open
  in the required-field check (words of the stack past \<open>fields_seen\<close>, and a 32-bit shift by 32).
\<close>

type_synonym 's dst = "'s pb_istream \<times> mem"

record 's dec_env =
  decode_fn :: "addr \<Rightarrow> pb_field \<Rightarrow> addr \<Rightarrow> 's dst cfun"
  ext_decode_fn :: "addr \<Rightarrow> addr \<Rightarrow> u32 \<Rightarrow> pb_wire_type \<Rightarrow> 's dst cfun"
  dec_ext_type :: "addr \<Rightarrow> pb_extension_type"
  stack_word :: "nat \<Rightarrow> u32"
  shift32 :: u32

type_synonym 's msg_decoder = "pb_field list \<Rightarrow> addr \<Rightarrow> 's dst cfun"
type_synonym 's pb_decoder_t = "pb_field \<Rightarrow> addr \<Rightarrow> 's dst cfun"

text \<open>\<open>PB_RETURN_ERROR(stream, msg)\<close>.\<close>

definition is_fail :: "string \<Rightarrow> 's dst cfun" where
  "is_fail msg d = (case d of (s, m) \<Rightarrow> Some (False, set_error msg s, m))"

text \<open>\<open>if (!rd(stream, &v)) return false;\<close> followed by \<open>g\<close>.\<close>

definition bind_read :: "('v, 's) rd \<Rightarrow> ('v \<Rightarrow> 's dst cfun) \<Rightarrow> 's dst cfun" where
  "bind_read rd g d =
     (case rd (fst d) of
        (None, s) \<Rightarrow> Some (False, s, snd d)
      | (Some v, s) \<Rightarrow> g v (s, snd d))"

subsection \<open>Default values\<close>

text \<open>A fake iterator for an extension field, which is never advanced.\<close>

definition iter_from_extension :: "pb_field \<Rightarrow> mem \<Rightarrow> addr \<Rightarrow> pb_field_iter" where
  "iter_from_extension f m ext =
     (snd (pb_field_iter_begin [f] (ext_dest m ext)))
       \<lparr>pData := (if PB_ATYPE (type f) = PB_ATYPE_POINTER then ext_dest_addr ext else ext_dest m ext),
        pSize := ext_found_addr ext\<rparr>"

primrec ext_defaults_loop ::
  "nat \<Rightarrow> (pb_field_iter \<Rightarrow> mem \<Rightarrow> mem option) \<Rightarrow> (addr \<Rightarrow> pb_extension_type) \<Rightarrow> addr \<Rightarrow> mem
     \<Rightarrow> mem option" where
  "ext_defaults_loop 0 rec types ext m = (if ext = 0 then Some m else None)"
| "ext_defaults_loop (Suc n) rec types ext m =
     (if ext = 0 then Some m
      else
        let m = store_bool m (ext_found_addr ext) False;
            it = iter_from_extension (ext_arg (types (ext_type m ext))) m ext
        in case rec it m of
             None \<Rightarrow> None
           | Some m \<Rightarrow> ext_defaults_loop n rec types (ext_next m ext) m)"

primrec fold_iters :: "(pb_field_iter \<Rightarrow> mem \<Rightarrow> mem option) \<Rightarrow> pb_field_iter list \<Rightarrow> mem \<Rightarrow> mem option" where
  "fold_iters rec [] m = Some m"
| "fold_iters rec (it # its) m = (case rec it m of None \<Rightarrow> None | Some m \<Rightarrow> fold_iters rec its m)"

text \<open>The initial contents of a static data item that is not a submessage.\<close>

definition init_item :: "pb_field \<Rightarrow> addr \<Rightarrow> mem \<Rightarrow> mem option" where
  "init_item f a m =
     (case ptr f of
        Ptr_null \<Rightarrow> Some (memset0 m a (unat (data_size f)))
      | Ptr_default bs \<Rightarrow>
          if unat (data_size f) \<le> length bs
          then Some (store_bytes m a (take (unat (data_size f)) bs)) else None
      | Ptr_fields fds \<Rightarrow> None)"

text \<open>
  Whether \<open>field->ptr\<close> points to descriptors. Following any other pointer as one (NULL in
  \<open>pb_message_set_to_defaults\<close>) is a crash, \<open>None\<close>.
\<close>

definition is_fields :: "pb_ptr \<Rightarrow> bool" where
  "is_fields p = (case p of Ptr_fields fds \<Rightarrow> True | _ \<Rightarrow> False)"

primrec pb_field_set_to_default ::
  "nat \<Rightarrow> (addr \<Rightarrow> pb_extension_type) \<Rightarrow> pb_field_iter \<Rightarrow> mem \<Rightarrow> mem option" where
  "pb_field_set_to_default 0 types it m = None"
| "pb_field_set_to_default (Suc n) types it m =
     (let f = cur it; h = PB_HTYPE (type f); a = PB_ATYPE (type f)
      in if PB_LTYPE (type f) = PB_LTYPE_EXTENSION
         then ext_defaults_loop n (pb_field_set_to_default n types) types (load64 m (pData it)) m
         else if a = PB_ATYPE_STATIC
         then
           (if h = PB_HTYPE_REPEATED \<or> h = PB_HTYPE_ONEOF
            then Some (store_word 4 m (pSize it) (0 :: pb_size_t))
            else
              let m = (if h = PB_HTYPE_OPTIONAL \<and> pSize it \<noteq> pData it
                       then store_bool m (pSize it) False else m)
              in if PB_LTYPE (type f) = PB_LTYPE_SUBMESSAGE
                 then (if is_fields (ptr f)
                       then fold_iters (pb_field_set_to_default n types)
                              (message_iters (submsg_fields (ptr f)) (pData it)) m
                       else None)
                 else init_item f (pData it) m)
         else if a = PB_ATYPE_POINTER
         then
           (let m = store_word 8 m (pData it) (0 :: addr)
            in Some (if h = PB_HTYPE_REPEATED \<or> h = PB_HTYPE_ONEOF
                     then store_word 4 m (pSize it) (0 :: pb_size_t) else m))
         else Some m)"

definition pb_message_set_to_defaults ::
  "nat \<Rightarrow> (addr \<Rightarrow> pb_extension_type) \<Rightarrow> pb_field list \<Rightarrow> addr \<Rightarrow> mem \<Rightarrow> mem option" where
  "pb_message_set_to_defaults n types fds dest m =
     fold_iters (pb_field_set_to_default n types) (message_iters fds dest) m"

subsection \<open>Field decoders\<close>

text \<open>
  The value of \<open>clamped\<close>: the integer cast to the width of the field and extended again.
\<close>

definition clamp_signed :: "pb_size_t \<Rightarrow> u64 \<Rightarrow> u64 option" where
  "clamp_signed n v =
     (if n = 8 then Some v
      else if n = 4 then Some (scast (ucast v :: u32))
      else if n = 2 then Some (scast (ucast v :: u16))
      else if n = 1 then Some (scast (ucast v :: byte))
      else None)"

definition clamp_unsigned :: "pb_size_t \<Rightarrow> u64 \<Rightarrow> u64 option" where
  "clamp_unsigned n v =
     (if n = 8 then Some v
      else if n = 4 then Some (ucast (ucast v :: u32))
      else if n = 2 then Some (ucast (ucast v :: u16))
      else if n = 1 then Some (ucast (ucast v :: byte))
      else None)"

text \<open>Store the low bytes of \<open>v\<close> and compare what was stored with \<open>v\<close>.\<close>

definition store_clamped :: "u64 option \<Rightarrow> pb_field \<Rightarrow> addr \<Rightarrow> u64 \<Rightarrow> 's dst cfun" where
  "store_clamped c f dest v d =
     (case c of
        None \<Rightarrow> is_fail ''invalid data_size'' d
      | Some clamped \<Rightarrow>
          let d = (fst d, store_word (unat (data_size f)) (snd d) dest v)
          in if clamped \<noteq> v then is_fail ''integer too large'' d else Some (True, d))"

definition pb_dec_varint :: "'s pb_decoder_t" where
  "pb_dec_varint f dest =
     bind_read pb_decode_varint (\<lambda>v.
       let svalue = (if data_size f = 8 then v else scast (ucast v :: u32))
       in store_clamped (clamp_signed (data_size f) svalue) f dest svalue)"

definition pb_dec_uvarint :: "'s pb_decoder_t" where
  "pb_dec_uvarint f dest =
     bind_read pb_decode_varint (\<lambda>v. store_clamped (clamp_unsigned (data_size f) v) f dest v)"

definition pb_dec_svarint :: "'s pb_decoder_t" where
  "pb_dec_svarint f dest =
     bind_read pb_decode_svarint (\<lambda>v. store_clamped (clamp_signed (data_size f) v) f dest v)"

definition pb_dec_fixed32 :: "'s pb_decoder_t" where
  "pb_dec_fixed32 f dest =
     bind_read pb_decode_fixed32 (\<lambda>v d. Some (True, fst d, store_word 4 (snd d) dest v))"

definition pb_dec_fixed64 :: "'s pb_decoder_t" where
  "pb_dec_fixed64 f dest =
     bind_read pb_decode_fixed64 (\<lambda>v d. Some (True, fst d, store_word 8 (snd d) dest v))"

text \<open>\<open>pb_read(stream, a, count)\<close> into the store.\<close>

definition pb_read_to :: "addr \<Rightarrow> size_t \<Rightarrow> 's dst cfun" where
  "pb_read_to a count d =
     (case pb_read_now count (fst d) of (ok, bs, s) \<Rightarrow> Some (ok, s, store_bytes (snd d) a bs))"

definition pb_dec_bytes :: "'s pb_decoder_t" where
  "pb_dec_bytes f dest =
     bind_read pb_decode_varint32 (\<lambda>n d.
       let alloc_size = PB_BYTES_ARRAY_T_ALLOCSIZE n
       in if n > PB_SIZE_MAX then is_fail ''bytes overflow'' d
          else if ucast n > alloc_size then is_fail ''size too large'' d
          else if PB_ATYPE (type f) = PB_ATYPE_POINTER then is_fail ''no malloc support'' d
          else if alloc_size > ucast (data_size f) then is_fail ''bytes overflow'' d
          else pb_read_to (dest + PB_BYTES_ARRAY_OFFSET) (ucast n)
                 (fst d, store_word 4 (snd d) dest n))"

text \<open>The sum \<open>size + 1\<close> is computed in 32 bits before it is widened.\<close>

definition pb_dec_string :: "'s pb_decoder_t" where
  "pb_dec_string f dest =
     bind_read pb_decode_varint32 (\<lambda>n d.
       let alloc_size = ucast (n + 1) :: size_t
       in if alloc_size < ucast n then is_fail ''size too large'' d
          else if PB_ATYPE (type f) = PB_ATYPE_POINTER then is_fail ''no malloc support'' d
          else if alloc_size > ucast (data_size f) then is_fail ''string overflow'' d
          else map_option (\<lambda>(status, s, m). (status, s, m(dest + ucast n := 0)))
                 (pb_read_to dest (ucast n) d))"

definition pb_dec_fixed_length_bytes :: "'s pb_decoder_t" where
  "pb_dec_fixed_length_bytes f dest =
     bind_read pb_decode_varint32 (\<lambda>n d.
       if n > PB_SIZE_MAX then is_fail ''bytes overflow'' d
       else if n = 0 then Some (True, fst d, memset0 (snd d) dest (unat (data_size f)))
       else if n \<noteq> data_size f then is_fail ''incorrect fixed length bytes size'' d
       else pb_read_to dest (ucast (data_size f)) d)"

text \<open>\<open>pb_decode\<close> for a given body \<open>dec\<close> of \<open>pb_decode_noinit\<close>.\<close>

definition decode_init ::
  "nat \<Rightarrow> (addr \<Rightarrow> pb_extension_type) \<Rightarrow> 's msg_decoder \<Rightarrow> 's msg_decoder" where
  "decode_init n types dec fds dest d =
     (case pb_message_set_to_defaults n types fds dest (snd d) of
        None \<Rightarrow> None
      | Some m \<Rightarrow> dec fds dest (fst d, m))"

definition close_substream :: "'s pb_istream \<Rightarrow> bool \<Rightarrow> 's dst \<Rightarrow> bool \<times> 's dst" where
  "close_substream s status sub =
     (case pb_close_string_substream s (fst sub) of (ok, s') \<Rightarrow>
        if ok then (status, s', snd sub) else (False, s', snd sub))"

text \<open>Run a decoder on the substream, then close it.\<close>

definition on_substream :: "'s dst cfun \<Rightarrow> 's pb_istream \<Rightarrow> 's dst cfun" where
  "on_substream body sub d =
     map_option (\<lambda>(status, sub'). close_substream (fst d) status sub') (body (sub, snd d))"

definition pb_dec_submessage ::
  "nat \<Rightarrow> (addr \<Rightarrow> pb_extension_type) \<Rightarrow> 's msg_decoder \<Rightarrow> 's pb_decoder_t" where
  "pb_dec_submessage n types dec f dest =
     bind_read pb_make_string_substream (\<lambda>sub d.
       if ptr f = Ptr_null then is_fail ''invalid field descriptor'' d
       else if \<not> is_fields (ptr f) then None
       else
         on_substream
           ((if PB_HTYPE (type f) = PB_HTYPE_REPEATED then decode_init n types dec else dec)
              (submsg_fields (ptr f)) dest) sub d)"

definition PB_DECODERS ::
  "nat \<Rightarrow> (addr \<Rightarrow> pb_extension_type) \<Rightarrow> 's msg_decoder \<Rightarrow> pb_type_t \<Rightarrow> 's pb_decoder_t" where
  "PB_DECODERS n types dec l =
     (if l = 0 then pb_dec_varint
      else if l = 1 then pb_dec_uvarint
      else if l = 2 then pb_dec_svarint
      else if l = 3 then pb_dec_fixed32
      else if l = 4 then pb_dec_fixed64
      else if l = 5 then pb_dec_bytes
      else if l = 6 then pb_dec_string
      else if l = 7 then pb_dec_submessage n types dec
      else if l = 9 then pb_dec_fixed_length_bytes
      else (\<lambda>f dest. no_return))"

subsection \<open>Decoding one field\<close>

text \<open>
  The loop over the items of a packed array: \<open>*size\<close> is re-read from the store in every
  round. The result is the final status, the substream and the store. Each item takes at least
  one byte, so \<open>bytes_left\<close> of the substream bounds the rounds (see \<open>packed_loop_total\<close>).
\<close>

definition item_addr :: "pb_field_iter \<Rightarrow> pb_size_t \<Rightarrow> addr" where
  "item_addr it n = pData it + ucast (data_size (cur it) * n)"

primrec packed_loop :: "nat \<Rightarrow> 's pb_decoder_t \<Rightarrow> pb_field_iter \<Rightarrow> 's dst cfun" where
  "packed_loop 0 func it d = None"
| "packed_loop (Suc n) func it d =
     (let count = load32 (snd d) (pSize it)
      in if bytes_left (fst d) > 0 \<and> count < array_size (cur it)
         then
           (case func (cur it) (item_addr it count) d of
              None \<Rightarrow> None
            | Some (False, d) \<Rightarrow> Some (False, d)
            | Some (True, d) \<Rightarrow>
                packed_loop n func it
                  (fst d, store_word 4 (snd d) (pSize it) (load32 (snd d) (pSize it) + 1)))
         else Some (True, d))"

definition decode_packed :: "'s pb_decoder_t \<Rightarrow> pb_field_iter \<Rightarrow> 's dst cfun" where
  "decode_packed func it =
     bind_read pb_make_string_substream (\<lambda>sub d.
       case packed_loop (Suc (unat (bytes_left sub))) func it (sub, snd d) of
         None \<Rightarrow> None
       | Some (status, sub, m) \<Rightarrow>
           if bytes_left sub \<noteq> 0 then is_fail ''array overflow'' (fst d, m)
           else Some (close_substream (fst d) status (sub, m)))"

definition decode_static_field ::
  "nat \<Rightarrow> (addr \<Rightarrow> pb_extension_type) \<Rightarrow> 's msg_decoder \<Rightarrow> pb_wire_type \<Rightarrow> pb_field_iter
     \<Rightarrow> 's dst cfun" where
  "decode_static_field n types dec wire_type it d =
     (let f = cur it; h = PB_HTYPE (type f); l = PB_LTYPE (type f);
          func = PB_DECODERS n types dec l; m = snd d
      in if h = PB_HTYPE_REQUIRED then func f (pData it) d
         else if h = PB_HTYPE_OPTIONAL
         then func f (pData it)
                (fst d, if pSize it \<noteq> pData it then store_bool m (pSize it) True else m)
         else if h = PB_HTYPE_REPEATED
         then
           (if wire_type = PB_WT_STRING \<and> l \<le> PB_LTYPE_LAST_PACKABLE then decode_packed func it d
            else
              let count = load32 m (pSize it)
              in if count \<ge> array_size f then is_fail ''array overflow'' d
                 else func f (item_addr it count) (fst d, store_word 4 m (pSize it) (count + 1)))
         else if h = PB_HTYPE_ONEOF
         then
           (let m = store_word 4 m (pSize it) (tag f)
            in if l = PB_LTYPE_SUBMESSAGE
               then
                 (case (if is_fields (ptr f)
                        then pb_message_set_to_defaults n types (submsg_fields (ptr f)) (pData it)
                               (memset0 m (pData it) (unat (data_size f)))
                        else None) of
                    None \<Rightarrow> None
                  | Some m \<Rightarrow> func f (pData it) (fst d, m))
               else func f (pData it) (fst d, m))
         else is_fail ''invalid field type'' d)"

definition decode_pointer_field :: "pb_wire_type \<Rightarrow> pb_field_iter \<Rightarrow> 's dst cfun" where
  "decode_pointer_field wire_type it d = is_fail ''no malloc support'' d"

text \<open>\<open>do { if (!decode(&substream, ...)) ... } while (substream.bytes_left);\<close>\<close>

primrec callback_loop :: "nat \<Rightarrow> 's dec_env \<Rightarrow> pb_field_iter \<Rightarrow> 's dst cfun" where
  "callback_loop 0 env it d = None"
| "callback_loop (Suc n) env it d =
     (let fn = callback_funcs (snd d) (pData it)
      in if fn = 0 then None
         else and_then (decode_fn env fn (cur it) (callback_arg (pData it)))
                (\<lambda>d. if bytes_left (fst d) \<noteq> 0 then callback_loop n env it d else Some (True, d)) d)"

definition decode_callback_field ::
  "nat \<Rightarrow> 's dec_env \<Rightarrow> pb_wire_type \<Rightarrow> pb_field_iter \<Rightarrow> 's dst cfun" where
  "decode_callback_field n env wire_type it d =
     (let fn = callback_funcs (snd d) (pData it)
      in if fn = 0
         then (case pb_skip_field wire_type (fst d) of (ok, s) \<Rightarrow> Some (ok, s, snd d))
         else if wire_type = PB_WT_STRING
         then
           bind_read pb_make_string_substream (\<lambda>sub d.
             case callback_loop n env it (sub, snd d) of
               None \<Rightarrow> None
             | Some (False, sub, m) \<Rightarrow> is_fail ''callback failed'' (fst d, m)
             | Some (True, sub) \<Rightarrow> Some (close_substream (fst d) True sub)) d
         else
           (case read_raw_value wire_type 10 (fst d) of ((ok, buffer, n), s) \<Rightarrow>
              if \<not> ok then Some (False, s, snd d)
              else
                map_option (\<lambda>(status, sub, m). (status, s, m))
                  (decode_fn env fn (cur it) (callback_arg (pData it))
                     (pb_istream_from_buffer buffer (of_nat n), snd d))))"

definition decode_field ::
  "nat \<Rightarrow> 's dec_env \<Rightarrow> 's msg_decoder \<Rightarrow> pb_wire_type \<Rightarrow> pb_field_iter \<Rightarrow> 's dst cfun" where
  "decode_field n env dec wire_type it d =
     (let a = PB_ATYPE (type (cur it))
      in if a = PB_ATYPE_STATIC then decode_static_field n (dec_ext_type env) dec wire_type it d
         else if a = PB_ATYPE_POINTER then decode_pointer_field wire_type it d
         else if a = PB_ATYPE_CALLBACK then decode_callback_field n env wire_type it d
         else is_fail ''invalid field type'' d)"

definition default_extension_decoder ::
  "nat \<Rightarrow> 's dec_env \<Rightarrow> 's msg_decoder \<Rightarrow> addr \<Rightarrow> u32 \<Rightarrow> pb_wire_type \<Rightarrow> 's dst cfun" where
  "default_extension_decoder n env dec extension tg wire_type d =
     (let f = ext_arg (dec_ext_type env (ext_type (snd d) extension))
      in if tag f \<noteq> tg then Some (True, d)
         else decode_field n env dec wire_type (iter_from_extension f (snd d) extension)
                (fst d, store_bool (snd d) (ext_found_addr extension) True))"

text \<open>\<open>pos\<close> is the stream position before the list is tried.\<close>

primrec decode_extension_loop ::
  "nat \<Rightarrow> nat \<Rightarrow> 's dec_env \<Rightarrow> 's msg_decoder \<Rightarrow> size_t \<Rightarrow> u32 \<Rightarrow> pb_wire_type \<Rightarrow> addr \<Rightarrow> 's dst cfun" where
  "decode_extension_loop 0 n env dec p0 tg wire_type extension d =
     (if extension \<noteq> 0 \<and> p0 = bytes_left (fst d) then None else Some (True, d))"
| "decode_extension_loop (Suc k) n env dec p0 tg wire_type extension d =
     (if extension \<noteq> 0 \<and> p0 = bytes_left (fst d)
      then
        let ty = dec_ext_type env (ext_type (snd d) extension)
        in and_then
             (if ext_decode ty \<noteq> 0 then ext_decode_fn env (ext_decode ty) extension tg wire_type
              else default_extension_decoder n env dec extension tg wire_type)
             (\<lambda>d. decode_extension_loop k n env dec p0 tg wire_type (ext_next (snd d) extension) d) d
      else Some (True, d))"

definition decode_extension ::
  "nat \<Rightarrow> 's dec_env \<Rightarrow> 's msg_decoder \<Rightarrow> u32 \<Rightarrow> pb_wire_type \<Rightarrow> pb_field_iter \<Rightarrow> 's dst cfun" where
  "decode_extension n env dec tg wire_type it d =
     decode_extension_loop n n env dec (bytes_left (fst d)) tg wire_type
       (load64 (snd d) (pData it)) d"

definition find_extension_field :: "pb_field_iter \<Rightarrow> bool \<times> pb_field_iter" where
  "find_extension_field it = iter_search (\<lambda>f. PB_LTYPE (type f) = PB_LTYPE_EXTENSION) it"

subsection \<open>Decoding all fields\<close>

text \<open>The locals of \<open>pb_decode_noinit\<close>.\<close>

record locals =
  fields_seen :: "u32 list"
  extension_range_start :: u32
  iter :: pb_field_iter

datatype control = Continue | Break | Return_false

text \<open>One round of \<open>while (stream->bytes_left)\<close>.\<close>

definition unknown_field ::
  "nat \<Rightarrow> 's dec_env \<Rightarrow> 's msg_decoder \<Rightarrow> u32 \<Rightarrow> pb_wire_type \<Rightarrow> locals \<Rightarrow> 's dst
     \<Rightarrow> (control \<times> locals \<times> 's dst) option" where
  "unknown_field n env dec tg wire_type l d =
     (let skip = (\<lambda>l d. case pb_skip_field wire_type (fst d) of (ok, s) \<Rightarrow>
                   Some (if ok then Continue else Return_false, l, s, snd d))
      in if tg \<ge> extension_range_start l
         then
           (case find_extension_field (iter l) of (found, it) \<Rightarrow>
              let l = l\<lparr>iter := it, extension_range_start := (if found then tag (cur it) else -1)\<rparr>
              in if tg \<ge> extension_range_start l
                 then
                   (case decode_extension n env dec tg wire_type it d of
                      None \<Rightarrow> None
                    | Some (False, d') \<Rightarrow> Some (Return_false, l, d')
                    | Some (True, d') \<Rightarrow>
                        if bytes_left (fst d) \<noteq> bytes_left (fst d') then Some (Continue, l, d')
                        else skip l d')
                 else skip l d)
         else skip l d)"

definition mark_seen :: "pb_field_iter \<Rightarrow> u32 list \<Rightarrow> u32 list" where
  "mark_seen it seen =
     (if PB_HTYPE (type (cur it)) = PB_HTYPE_REQUIRED
         \<and> required_field_index it < PB_MAX_REQUIRED_FIELDS
      then
        let i = unat (drop_bit 5 (required_field_index it));
            tmp = push_bit (unat (required_field_index it AND 31)) 1
        in seen[i := (seen ! i) OR tmp]
      else seen)"

definition decode_step ::
  "nat \<Rightarrow> 's dec_env \<Rightarrow> 's msg_decoder \<Rightarrow> locals \<Rightarrow> 's dst \<Rightarrow> (control \<times> locals \<times> 's dst) option" where
  "decode_step n env dec l d =
     (case pb_decode_tag (fst d) of ((ok, wire_type, tg, eof), s) \<Rightarrow>
        let d = (s, snd d)
        in if \<not> ok then Some (if eof then Break else Return_false, l, d)
           else
             (case pb_field_iter_find (iter l) tg of (found, it) \<Rightarrow>
                let l = l\<lparr>iter := it\<rparr>
                in if \<not> found then unknown_field n env dec tg wire_type l d
                   else
                     map_option
                       (\<lambda>(ok, d). (if ok then Continue else Return_false,
                          l\<lparr>fields_seen := mark_seen it (fields_seen l)\<rparr>, d))
                       (decode_field n env dec wire_type it d)))"

text \<open>
  The loop; the flag of the result is False where the function returns false from inside it.
  A round consumes at least the tag, so \<open>bytes_left\<close> bounds the number of rounds.
\<close>

primrec decode_loop ::
  "nat \<Rightarrow> nat \<Rightarrow> 's dec_env \<Rightarrow> 's msg_decoder \<Rightarrow> locals \<Rightarrow> 's dst \<Rightarrow> (bool \<times> locals \<times> 's dst) option" where
  "decode_loop 0 n env dec l d = None"
| "decode_loop (Suc k) n env dec l d =
     (if bytes_left (fst d) = 0 then Some (True, l, d)
      else
        (case decode_step n env dec l d of
           None \<Rightarrow> None
         | Some (Continue, l, d) \<Rightarrow> decode_loop k n env dec l d
         | Some (Break, l, d) \<Rightarrow> Some (True, l, d)
         | Some (Return_false, l, d) \<Rightarrow> Some (False, l, d)))"

definition req_field_count :: "pb_field_iter \<Rightarrow> u32" where
  "req_field_count it =
     (let lst = last (iter_states it); after = snd (pb_field_iter_next lst)
      in required_field_index lst
         + (if PB_HTYPE (type (cur lst)) = PB_HTYPE_REQUIRED \<and> tag (cur after) \<noteq> 0 then 1 else 0))"

text \<open>
  \<open>fields_seen[i]\<close> and \<open>allbits >> (32 - (n & 31))\<close>, with the environment's answer where
  the C standard has none: an index past the array, and a shift by the width.
\<close>

definition seen_word :: "'s dec_env \<Rightarrow> u32 list \<Rightarrow> nat \<Rightarrow> u32" where
  "seen_word env seen i = (if i < length seen then seen ! i else stack_word env i)"

definition low_bits :: "'s dec_env \<Rightarrow> u32 \<Rightarrow> u32" where
  "low_bits env n = (if n AND 31 = 0 then shift32 env else drop_bit (32 - unat (n AND 31)) (-1))"

definition required_ok :: "'s dec_env \<Rightarrow> u32 list \<Rightarrow> u32 \<Rightarrow> bool" where
  "required_ok env seen count \<longleftrightarrow>
     count = 0 \<or>
     (list_all (\<lambda>i. seen_word env seen i = -1) [0..<unat (drop_bit 5 count)]
      \<and> seen_word env seen (unat (drop_bit 5 count)) = low_bits env count)"

definition init_locals :: "pb_field list \<Rightarrow> addr \<Rightarrow> locals" where
  "init_locals fds dest =
     \<lparr>fields_seen = [0, 0], extension_range_start = 0, iter = snd (pb_field_iter_begin fds dest)\<rparr>"

primrec pb_decode_noinit :: "nat \<Rightarrow> 's dec_env \<Rightarrow> 's msg_decoder" where
  "pb_decode_noinit 0 env fds dest d = None"
| "pb_decode_noinit (Suc n) env fds dest d =
     (case decode_loop (Suc (unat (bytes_left (fst d)))) n env (pb_decode_noinit n env)
             (init_locals fds dest) d of
        None \<Rightarrow> None
      | Some (False, l, d) \<Rightarrow> Some (False, d)
      | Some (True, l, d) \<Rightarrow>
          if required_ok env (fields_seen l) (req_field_count (iter l)) then Some (True, d)
          else is_fail ''missing required field'' d)"

definition pb_decode :: "nat \<Rightarrow> 's dec_env \<Rightarrow> 's msg_decoder" where
  "pb_decode n env = decode_init n (dec_ext_type env) (pb_decode_noinit n env)"

definition pb_decode_delimited :: "nat \<Rightarrow> 's dec_env \<Rightarrow> 's msg_decoder" where
  "pb_decode_delimited n env fds dest =
     bind_read pb_make_string_substream (on_substream (pb_decode n env fds dest))"

end
