(* ===== verification/PbDecodeSafe.thy ===== *)
theory PbDecodeSafe
  imports PbDecode
begin

text \<open>
  Safety of the decoder on arbitrary, possibly malicious input. The locale \<open>confined\<close> is the
  contract of every decoding function: it returns, it moves forward in the stream only, and it
  writes only inside a given set of addresses. \<open>footprint\<close> computes that set from the field
  descriptors of a message, and \<open>pb_decode\<close> is shown to be confined to it for every message
  type without callbacks and extensions (whose code is not part of the library).
\<close>

subsection \<open>The footprint of a message type\<close>

type_synonym ranges = "(addr \<times> nat) list"

definition covers :: "ranges \<Rightarrow> addr \<Rightarrow> bool" where
  "covers rs x = list_ex (\<lambda>(a, n). unat (x - a) < n) rs"

definition item_ranges :: "(pb_field list \<Rightarrow> addr \<Rightarrow> ranges) \<Rightarrow> pb_field \<Rightarrow> addr \<Rightarrow> ranges" where
  "item_ranges rec f a =
     (let l = PB_LTYPE (type f); n = unat (data_size f)
      in if l = PB_LTYPE_FIXED32 then [(a, max 4 n)]
         else if l = PB_LTYPE_FIXED64 then [(a, max 8 n)]
         else if l = PB_LTYPE_SUBMESSAGE then rec (submsg_fields (ptr f)) a
         else [(a, n)])"

definition field_ranges :: "(pb_field list \<Rightarrow> addr \<Rightarrow> ranges) \<Rightarrow> pb_field_iter \<Rightarrow> ranges" where
  "field_ranges rec it =
     (let f = cur it; h = PB_HTYPE (type f)
      in if PB_ATYPE (type f) = PB_ATYPE_STATIC
         then
           (if h = PB_HTYPE_REQUIRED then item_ranges rec f (pData it)
            else if h = PB_HTYPE_OPTIONAL
            then (if pSize it \<noteq> pData it then [(pSize it, 1)] else []) @ item_ranges rec f (pData it)
            else if h = PB_HTYPE_REPEATED
            then (pSize it, 4) # concat (map (\<lambda>i. item_ranges rec f (item_addr it (of_nat i)))
                                   [0..<unat (array_size f)])
            else (pSize it, 4) # (pData it, unat (data_size f)) # item_ranges rec f (pData it))
         else if PB_ATYPE (type f) = PB_ATYPE_POINTER
         then (pData it, 8) # (if h = PB_HTYPE_REPEATED \<or> h = PB_HTYPE_ONEOF then [(pSize it, 4)] else [])
         else [])"

lemma field_ranges_cong [fundef_cong]:
  assumes "it = it'" "\<And>fs a. fs = submsg_fields (ptr (cur it')) \<Longrightarrow> rec fs a = rec' fs a"
  shows "field_ranges rec it = field_ranges rec' it'"
proof -
  have "item_ranges rec (cur it') = item_ranges rec' (cur it')"
    using assms(2) by (intro ext) (simp add: item_ranges_def Let_def)
  then show ?thesis using assms(1) by (simp add: field_ranges_def Let_def cong: if_cong)
qed

lemma size_list_submsg:
  assumes "it \<in> set (message_iters fds a)"
  shows "size_list size (submsg_fields (ptr (cur it))) < size_list size fds"
proof -
  have "cur it \<in> set fds" using assms by (simp add: message_iters_field)
  moreover have "size_list size (submsg_fields p) \<le> size p" for p
    by (cases p) (auto simp: submsg_fields_def)
  moreover have "size (ptr f) < size f" for f by (cases f) simp
  ultimately show ?thesis
    by (meson le_less_trans less_le_trans order_refl size_list_estimation')
qed

function footprint :: "pb_field list \<Rightarrow> addr \<Rightarrow> ranges" where
  "footprint fds dest =
     concat (map (field_ranges (\<lambda>fs a. footprint fs a)) (message_iters fds dest))"
  by pat_completeness auto
termination
  by (relation "measure (\<lambda>(fds, a). size_list size fds)") (auto dest: size_list_submsg)

declare footprint.simps [simp del]

text \<open>
  Message types without hooks into application code, with default values as long as their
  fields, nested descriptors where the type code announces them and a proper terminator.
\<close>

function plain_field :: "pb_field \<Rightarrow> bool" where
  "plain_field f \<longleftrightarrow>
     PB_LTYPE (type f) \<noteq> PB_LTYPE_EXTENSION \<and> PB_LTYPE (type f) < PB_LTYPES_COUNT \<and>
     PB_ATYPE (type f) \<noteq> PB_ATYPE_CALLBACK \<and>
     (if PB_LTYPE (type f) = PB_LTYPE_SUBMESSAGE
      then is_fields (ptr f)
      else (case ptr f of Ptr_null \<Rightarrow> True
            | Ptr_default bs \<Rightarrow> unat (data_size f) \<le> length bs | Ptr_fields fds \<Rightarrow> False)) \<and>
     field_at (submsg_fields (ptr f)) (nfields (submsg_fields (ptr f))) = PB_LAST_FIELD \<and>
     list_all plain_field (submsg_fields (ptr f))"
  by pat_completeness auto
termination
  by (relation "measure size") (auto dest: size_submsg_fields)

declare plain_field.simps [simp del]

definition plain_message :: "pb_field list \<Rightarrow> bool" where
  "plain_message fds \<longleftrightarrow>
     list_all plain_field fds \<and> field_at fds (nfields fds) = PB_LAST_FIELD"

subsection \<open>The contract\<close>

locale confined =
  fixes f :: "'s dst cfun" and A :: "addr \<Rightarrow> bool"
  assumes runs: "src_ok (source s) \<Longrightarrow>
    \<exists>ok s' m'. f (s, m) = Some (ok, s', m') \<and> moved ok s s' \<and> (\<forall>x. \<not> A x \<longrightarrow> m' x = m x)"
begin

lemma returns: "src_ok (source s) \<Longrightarrow> f (s, m) \<noteq> None"
  using runs by fastforce

lemma frame: "src_ok (source s) \<Longrightarrow> f (s, m) = Some (ok, s', m') \<Longrightarrow> \<not> A x \<Longrightarrow> m' x = m x"
  using runs [of s m] by auto

lemma moves: "src_ok (source s) \<Longrightarrow> f (s, m) = Some (ok, s', m') \<Longrightarrow> moved ok s s'"
  using runs [of s m] by auto

end

text \<open>
  The hypotheses on the field under an iterator: a plain descriptor, and a decoder for nested
  messages that keeps to their footprint.
\<close>

definition field_ready :: "nat \<Rightarrow> 's msg_decoder \<Rightarrow> pb_field \<Rightarrow> bool" where
  "field_ready n dec f \<longleftrightarrow>
     plain_field f \<and> msg_depth (submsg_fields (ptr f)) \<le> Suc n \<and>
     (PB_LTYPE (type f) = PB_LTYPE_SUBMESSAGE \<longrightarrow>
      (\<forall>a. confined (dec (submsg_fields (ptr f)) a) (covers (footprint (submsg_fields (ptr f)) a))))"

lemma region_iff: "x \<in> region a n \<longleftrightarrow> unat (x - a) < n"
proof
  assume "x \<in> region a n"
  then obtain i where "x = a + of_nat i" "i < n" by (auto simp: region_def)
  then show "unat (x - a) < n" using unat_of_nat [of i] le_less_trans [OF mod_less_eq_dividend]
    by (auto simp: unat_of_nat)
next
  assume "unat (x - a) < n"
  then show "x \<in> region a n"
    unfolding region_def by (auto intro!: exI [of _ "unat (x - a)"])
qed

lemma covers_simps [simp]:
  "covers [] x \<longleftrightarrow> False"
  "covers ((a, n) # rs) x \<longleftrightarrow> x \<in> region a n \<or> covers rs x"
  "covers (rs @ rs') x \<longleftrightarrow> covers rs x \<or> covers rs' x"
  by (simp_all add: covers_def region_iff)

lemma covers_concat: "covers (concat rss) x \<longleftrightarrow> (\<exists>rs\<in>set rss. covers rs x)"
  by (induction rss) auto

lemma confined_mono: "confined f A \<Longrightarrow> (\<And>x. A x \<Longrightarrow> B x) \<Longrightarrow> confined f B"
  unfolding confined_def by meson

lemma advances_src_ok: "advances s s' \<Longrightarrow> src_ok (source s) \<Longrightarrow> src_ok (source s')"
  by (simp add: advances_def)

text \<open>The shape of all field decoders: read a value, then go on with it.\<close>

lemma confined_bind_read:
  fixes rd :: "('v, 's) rd"
  assumes rd: "reader rd" and g: "\<And>v. confined (g v) A"
  shows "confined (bind_read rd g) A"
proof
  fix s :: "'s pb_istream" and m :: mem
  assume ok: "src_ok (source s)"
  obtain r s1 where r: "rd s = (r, s1)" by (cases "rd s")
  then have s1: "advances s s1" by (rule reader.advances [OF rd])
  show "\<exists>ok s' m'. bind_read rd g (s, m) = Some (ok, s', m')
      \<and> moved ok s s' \<and> (\<forall>x. \<not> A x \<longrightarrow> m' x = m x)"
  proof (cases r)
    case None
    then show ?thesis using r s1 by (auto simp: bind_read_def intro: advances_moved)
  next
    case (Some v)
    then show ?thesis
      using r s1 confined.runs [OF g, OF advances_src_ok [OF s1 ok], of v m]
      by (auto simp: bind_read_def intro: advances_moved_trans)
  qed
qed

lemma confined_is_fail: "confined (is_fail msg) A"
  by standard (auto simp: is_fail_def)

lemma confined_if: "(c \<Longrightarrow> confined f A) \<Longrightarrow> (\<not> c \<Longrightarrow> confined g A) \<Longrightarrow>
    confined (\<lambda>d. if c then f d else g d) A"
  by (cases c) simp_all

lemma confined_store:
  "(\<And>m x. \<not> A x \<Longrightarrow> upd m x = m x) \<Longrightarrow> confined f A \<Longrightarrow> confined (\<lambda>d. f (fst d, upd (snd d))) A"
proof
  fix s :: "'a pb_istream" and m :: mem
  assume u: "\<And>m x. \<not> A x \<Longrightarrow> upd m x = m x" and f: "confined f A" and "src_ok (source s)"
  then show "\<exists>ok s' m'. f (fst (s, m), upd (snd (s, m))) = Some (ok, s', m')
      \<and> moved ok s s' \<and> (\<forall>x. \<not> A x \<longrightarrow> m' x = m x)"
    using confined.runs [OF f, of s "upd m"] by auto
qed

lemma confined_done: "confined (\<lambda>d. Some (b, d)) A"
  by standard auto

lemma confined_store_clamped:
  "confined (store_clamped c f dest v) (\<lambda>x. x \<in> region dest (unat (data_size f)))"
  by standard (auto simp: store_clamped_def is_fail_def store_word_frame Let_def split: option.splits)

lemma pb_read_now_length:
  "pb_read_now n s = (ok, bs, s') \<Longrightarrow> src_ok (source s) \<Longrightarrow> length bs \<le> unat n"
proof (cases "source s")
  case (UserRead f st)
  assume "pb_read_now n s = (ok, bs, s')" "src_ok (source s)"
  moreover then have "length (fst (snd (f st (unat n)))) \<le> unat n"
    using UserRead by (simp add: src_ok_def)
  ultimately show ?thesis
    using UserRead by (auto simp: pb_read_now_def Let_def split: if_splits prod.splits)
qed (auto simp: pb_read_now_def Let_def split: if_splits prod.splits)

lemma confined_pb_read_to: "confined (pb_read_to a n) (\<lambda>x. x \<in> region a (unat n))"
proof
  fix s :: "'a pb_istream" and m :: mem
  assume ok: "src_ok (source s)"
  obtain b bs s' where r: "pb_read_now n s = (b, bs, s')" by (cases "pb_read_now n s")
  have "region a (length bs) \<subseteq> region a (unat n)"
    by (rule region_mono) (rule pb_read_now_length [OF r ok])
  then have "\<And>x. x \<notin> region a (unat n) \<Longrightarrow> store_bytes m a bs x = m x"
    by (auto intro!: store_bytes_frame)
  then show "\<exists>ok s' m'. pb_read_to a n (s, m) = Some (ok, s', m') \<and> moved ok s s' \<and>
      (\<forall>x. \<not> x \<in> region a (unat n) \<longrightarrow> m' x = m x)"
    using r advances_pb_read_now [OF r] by (auto simp: pb_read_to_def intro: advances_moved)
qed

lemma confined_pb_dec_varint:
  "confined (pb_dec_varint f dest) (\<lambda>x. x \<in> region dest (unat (data_size f)))"
  unfolding pb_dec_varint_def Let_def
  by (intro confined_bind_read pb_decode_varint.reader_axioms confined_store_clamped)

lemma confined_pb_dec_uvarint:
  "confined (pb_dec_uvarint f dest) (\<lambda>x. x \<in> region dest (unat (data_size f)))"
  unfolding pb_dec_uvarint_def
  by (intro confined_bind_read pb_decode_varint.reader_axioms confined_store_clamped)

lemma confined_pb_dec_svarint:
  "confined (pb_dec_svarint f dest) (\<lambda>x. x \<in> region dest (unat (data_size f)))"
  unfolding pb_dec_svarint_def
  by (intro confined_bind_read pb_decode_svarint.reader_axioms confined_store_clamped)

lemma confined_pb_dec_fixed32: "confined (pb_dec_fixed32 f dest) (\<lambda>x. x \<in> region dest 4)"
proof -
  have "confined (\<lambda>d. Some (True, fst d, store_word 4 (snd d) dest (v :: u32))) (\<lambda>x. x \<in> region dest 4)" for v
    by standard (auto simp: store_word_frame)
  then show ?thesis
    unfolding pb_dec_fixed32_def by (intro confined_bind_read pb_decode_fixed32.reader_axioms)
qed

lemma confined_pb_dec_fixed64: "confined (pb_dec_fixed64 f dest) (\<lambda>x. x \<in> region dest 8)"
proof -
  have "confined (\<lambda>d. Some (True, fst d, store_word 8 (snd d) dest (v :: u64))) (\<lambda>x. x \<in> region dest 8)" for v
    by standard (auto simp: store_word_frame)
  then show ?thesis
    unfolding pb_dec_fixed64_def by (intro confined_bind_read pb_decode_fixed64.reader_axioms)
qed

text \<open>The bytes array fits its field: the size word and the data end before the field does.\<close>

lemma bytes_in_field:
  assumes "\<not> PB_BYTES_ARRAY_T_ALLOCSIZE n > ucast (k :: pb_size_t)"
  shows "region a 4 \<subseteq> region a (unat k)"
    and "region (a + PB_BYTES_ARRAY_OFFSET) (unat (ucast n :: size_t)) \<subseteq> region a (unat k)"
proof -
  have u: "unat (ucast n :: size_t) = unat n" "unat (ucast k :: size_t) = unat k"
    using unat_bound [of n] unat_bound [of k] by (auto intro: unat_ucast_small)
  then have "unat (PB_BYTES_ARRAY_T_ALLOCSIZE n) = unat n + 4"
    using unat_bound [of n]
    by (simp add: PB_BYTES_ARRAY_T_ALLOCSIZE_def PB_BYTES_ARRAY_OFFSET_def unat_word_ariths)
  then have le: "4 + unat n \<le> unat k" using assms u by (simp add: word_less_nat_alt)
  then show "region a 4 \<subseteq> region a (unat k)" by (intro region_mono) simp
  show "region (a + PB_BYTES_ARRAY_OFFSET) (unat (ucast n :: size_t)) \<subseteq> region a (unat k)"
    using region_offset [OF le, of a] u by (simp add: PB_BYTES_ARRAY_OFFSET_def)
qed

lemma confined_pb_dec_bytes:
  "confined (pb_dec_bytes f dest) (\<lambda>x. x \<in> region dest (unat (data_size f)))"
proof -
  have "confined (\<lambda>d. pb_read_to (dest + PB_BYTES_ARRAY_OFFSET) (ucast n)
      (fst d, store_word 4 (snd d) dest n)) (\<lambda>x. x \<in> region dest (unat (data_size f)))"
    if "\<not> PB_BYTES_ARRAY_T_ALLOCSIZE n > ucast (data_size f)" for n
    using bytes_in_field [OF that, of dest]
    by (intro confined_store confined_mono [OF confined_pb_read_to]) (auto intro!: store_word_frame)
  then show ?thesis
    unfolding pb_dec_bytes_def Let_def
    by (intro confined_bind_read pb_decode_varint32.reader_axioms confined_if confined_is_fail)
qed

lemma unat_size_t [simp]: "unat (ucast (k :: u32) :: size_t) = unat k"
  using unat_bound [of k] by (auto intro: unat_ucast_small)

text \<open>The length of a string and its terminator fit the field.\<close>

lemma string_in_field:
  fixes n :: u32
  assumes "\<not> (ucast (n + 1) :: size_t) < ucast n" "\<not> (ucast (n + 1) :: size_t) > ucast (k :: pb_size_t)"
  shows "region a (unat n) \<subseteq> region a (unat k)" and "a + ucast n \<in> region a (unat k)"
proof -
  have "n + 1 \<noteq> 0"
  proof
    assume "n + 1 = 0"
    then have "n = -1" by (metis add.right_inverse add_right_cancel add.commute)
    then show False using assms(1) by (simp add: word_less_nat_alt unat_eq_0)
  qed
  then have "unat (n + 1) = Suc (unat n)" by (metis add.commute unatSuc)
  then have le: "Suc (unat n) \<le> unat k" using assms(2) by (simp add: word_less_nat_alt)
  then show "region a (unat n) \<subseteq> region a (unat k)" by (intro region_mono) simp
  show "a + ucast n \<in> region a (unat k)" using le by (simp add: region_iff)
qed

lemma confined_map_store:
  assumes f: "confined f A" and u: "\<And>m x. \<not> A x \<Longrightarrow> upd m x = m x"
  shows "confined (\<lambda>d. map_option (\<lambda>(status, s, m). (status, s, upd m)) (f d)) A"
proof
  fix s :: "'a pb_istream" and m :: mem
  assume "src_ok (source s)"
  from confined.runs [OF f this, of m]
  show "\<exists>ok s' m'. map_option (\<lambda>(status, s, m). (status, s, upd m)) (f (s, m)) = Some (ok, s', m')
      \<and> moved ok s s' \<and> (\<forall>x. \<not> A x \<longrightarrow> m' x = m x)"
    using u by auto
qed

lemma confined_pb_dec_string:
  "confined (pb_dec_string f dest) (\<lambda>x. x \<in> region dest (unat (data_size f)))"
proof -
  let ?A = "\<lambda>x. x \<in> region dest (unat (data_size f))"
  have "confined (\<lambda>d. map_option (\<lambda>(status, s, m). (status, s, m(dest + ucast n := 0)))
      (pb_read_to dest (ucast n) d)) ?A"
    if c: "\<not> (ucast (n + 1) :: size_t) < ucast n" "\<not> (ucast (n + 1) :: size_t) > ucast (data_size f)" for n :: u32
  proof (rule confined_map_store)
    show "confined (pb_read_to dest (ucast n)) ?A"
      using string_in_field(1) [OF c, of dest] by (intro confined_mono [OF confined_pb_read_to]) auto
    show "\<not> x \<in> region dest (unat (data_size f)) \<Longrightarrow> (m(dest + ucast n := 0)) x = m x" for m x
      using string_in_field(2) [OF c, of dest] by auto
  qed
  then show ?thesis
    unfolding pb_dec_string_def Let_def
    by (intro confined_bind_read pb_decode_varint32.reader_axioms confined_if confined_is_fail)
qed

lemma confined_pb_dec_fixed_length_bytes:
  "confined (pb_dec_fixed_length_bytes f dest) (\<lambda>x. x \<in> region dest (unat (data_size f)))"
proof -
  let ?A = "\<lambda>x. x \<in> region dest (unat (data_size f))"
  have "confined (\<lambda>d. Some (True, fst d, memset0 (snd d) dest (unat (data_size f)))) ?A"
    by standard (auto simp: memset0_frame)
  moreover have "confined (pb_read_to dest (ucast (data_size f))) ?A"
    by (intro confined_mono [OF confined_pb_read_to]) simp
  ultimately show ?thesis
    unfolding pb_dec_fixed_length_bytes_def
    by (intro confined_bind_read pb_decode_varint32.reader_axioms confined_if confined_is_fail)
qed

interpretation pb_read_to: confined "pb_read_to a n" "\<lambda>x. x \<in> region a (unat n)" for a n
  by (rule confined_pb_read_to)

interpretation pb_dec_varint:
  confined "pb_dec_varint f dest" "\<lambda>x. x \<in> region dest (unat (data_size f))" for f dest
  by (rule confined_pb_dec_varint)

interpretation pb_dec_bytes:
  confined "pb_dec_bytes f dest" "\<lambda>x. x \<in> region dest (unat (data_size f))" for f dest
  by (rule confined_pb_dec_bytes)

interpretation pb_dec_string:
  confined "pb_dec_string f dest" "\<lambda>x. x \<in> region dest (unat (data_size f))" for f dest
  by (rule confined_pb_dec_string)

interpretation pb_dec_fixed_length_bytes:
  confined "pb_dec_fixed_length_bytes f dest" "\<lambda>x. x \<in> region dest (unat (data_size f))" for f dest
  by (rule confined_pb_dec_fixed_length_bytes)

subsection \<open>Substreams\<close>

lemma pb_make_string_substream_cases:
  assumes "pb_make_string_substream s = (r, s1)"
  obtains (fail) "r = None" "advances s s1"
  | (opened) t n where "r = Some (t\<lparr>bytes_left := n\<rparr>)" "s1 = t\<lparr>bytes_left := bytes_left t - n\<rparr>"
      "n \<le> bytes_left t" "advances s t" "unat (bytes_left t) < unat (bytes_left s)"
proof (cases "pb_decode_varint32 s")
  case (Pair v s0)
  then have a: "advances s s0" by (rule advances_pb_decode_varint32)
  show ?thesis
  proof (cases v)
    case None
    then show ?thesis using assms Pair a by (intro fail) (auto simp: pb_make_string_substream_def)
  next
    case (Some k)
    show ?thesis
    proof (cases "bytes_left s0 < ucast k")
      case True
      then show ?thesis
        using assms Pair a Some by (intro fail) (auto simp: pb_make_string_substream_def)
    next
      case False
      then show ?thesis
        using assms Pair a Some pb_decode_varint32_progress [of s k s0]
        by (intro opened [where t = s0 and n = "ucast k"]) (auto simp: pb_make_string_substream_def)
    qed
  qed
qed

lemma pb_read_null_all:
  assumes "pb_read_null (bytes_left s) s = (True, s')" "is_buf (source s)"
  shows "bytes_left s' = 0"
  using assms by (auto simp: pb_read_null_def pb_read_now_def Let_def split: if_splits prod.splits)

text \<open>What closing a substream does to the parent, from the state before it was opened.\<close>

lemma within_open: "n \<le> bytes_left s \<Longrightarrow> within s (s\<lparr>bytes_left := bytes_left s - n\<rparr>)"
  by (auto simp: within_def word_le_nat_alt unat_sub intro: exI [of _ 0])

lemma close_synced:
  assumes n: "n \<le> bytes_left s" and a: "within (s\<lparr>bytes_left := n\<rparr>) sub" and b: "advances sub sub'"
    and z: "is_buf (source s) \<Longrightarrow> bytes_left sub' = 0"
    and s': "s' = s\<lparr>bytes_left := bytes_left s - n, source := source sub', is_errmsg := e\<rparr>"
  shows "within s s'" and "advances (s\<lparr>bytes_left := n\<rparr>) sub \<Longrightarrow> advances s s'"
proof -
  have u: "unat (bytes_left s - n) = unat (bytes_left s) - unat n" "unat n \<le> unat (bytes_left s)"
    using n by (simp_all add: unat_sub word_le_nat_alt)
  have w: "within (s\<lparr>bytes_left := n\<rparr>) sub'" using a b by (blast intro: within_trans advances_within)
  have le: "bytes_left s - n \<le> bytes_left s" using u by (simp add: word_le_nat_alt)
  have k: "source s = BufRead bs \<Longrightarrow> \<exists>k \<le> unat n. source sub' = BufRead (drop k bs)" for bs
    using w z by (fastforce simp: within_def consumed_def is_buf_def)
  show "within s s'"
    using w k le u by (auto simp: within_def s' consumed_def)
  assume "advances (s\<lparr>bytes_left := n\<rparr>) sub"
  then have w: "advances (s\<lparr>bytes_left := n\<rparr>) sub'" using b by (rule advances_trans)
  then have "source s = BufRead bs \<Longrightarrow> source sub' = BufRead (drop (unat n) bs)" for bs
    using z by (auto simp: advances_def consumed_def is_buf_def)
  then show "advances s s'" using w le u by (auto simp: advances_def s' consumed_def)
qed

lemma pb_close_string_substream_cases:
  assumes "pb_close_string_substream s sub = (ok, s')"
  obtains (fail) "\<not> ok" "s' = s"
  | (sync) sub' where "ok" "advances sub sub'" "is_buf (source sub) \<Longrightarrow> bytes_left sub' = 0"
      "s' = s\<lparr>source := source sub', is_errmsg := is_errmsg sub'\<rparr>"
proof (cases "bytes_left sub = 0")
  case True
  then show ?thesis using assms by (intro sync [of sub]) (auto simp: pb_close_string_substream_def)
next
  case False
  obtain b sub' where r: "pb_read_null (bytes_left sub) sub = (b, sub')"
    by (cases "pb_read_null (bytes_left sub) sub")
  show ?thesis
  proof (cases b)
    case True
    then show ?thesis
      using False assms r advances_pb_read_null [OF r] pb_read_null_all [of sub sub']
      by (intro sync [of sub']) (auto simp: pb_close_string_substream_def)
  next
    case b: False
    then show ?thesis
      using False assms r by (intro fail) (auto simp: pb_close_string_substream_def)
  qed
qed

lemma close_substream_moved:
  assumes n: "n \<le> bytes_left s" and a: "moved status (s\<lparr>bytes_left := n\<rparr>) sub"
    and c: "close_substream (s\<lparr>bytes_left := bytes_left s - n\<rparr>) status (sub, m) = (ok, s', m')"
  shows "m' = m \<and> moved ok s s'"
proof -
  let ?s1 = "s\<lparr>bytes_left := bytes_left s - n\<rparr>"
  obtain b s2 where p: "pb_close_string_substream ?s1 sub = (b, s2)"
    by (cases "pb_close_string_substream ?s1 sub")
  then have r: "m' = m" "s' = s2" "ok = (b \<and> status)"
    using c by (auto simp: close_substream_def split: if_splits)
  from p show ?thesis
  proof (cases rule: pb_close_string_substream_cases)
    case fail
    then show ?thesis using r within_open [OF n] by (simp add: moved_def)
  next
    case (sync sub')
    have buf: "is_buf (source s) \<Longrightarrow> bytes_left sub' = 0"
      using sync(3) moved_within [OF a] by (simp add: within_def)
    have s2: "s2 = s\<lparr>bytes_left := bytes_left s - n, source := source sub', is_errmsg := is_errmsg sub'\<rparr>"
      using sync(4) by simp
    note cl = close_synced [OF n moved_within [OF a] sync(2) buf s2]
    then show ?thesis using a r by (auto simp: moved_def split: if_splits)
  qed
qed

lemma confined_substream:
  fixes K :: "'s pb_istream \<Rightarrow> 's dst cfun"
  assumes K: "\<And>t n m. src_ok (source t) \<Longrightarrow> n \<le> bytes_left t \<Longrightarrow>
    \<exists>ok s' m'. K (t\<lparr>bytes_left := n\<rparr>) (t\<lparr>bytes_left := bytes_left t - n\<rparr>, m) = Some (ok, s', m')
      \<and> moved ok t s' \<and> (\<forall>x. \<not> A x \<longrightarrow> m' x = m x)"
  shows "confined (bind_read pb_make_string_substream K) A"
proof
  fix s :: "'s pb_istream" and m :: mem
  assume ok: "src_ok (source s)"
  obtain r s1 where r: "pb_make_string_substream s = (r, s1)" by (cases "pb_make_string_substream s")
  then show "\<exists>ok s' m'. bind_read pb_make_string_substream K (s, m) = Some (ok, s', m')
      \<and> moved ok s s' \<and> (\<forall>x. \<not> A x \<longrightarrow> m' x = m x)"
  proof (cases rule: pb_make_string_substream_cases)
    case fail
    then show ?thesis using r by (auto simp: bind_read_def intro: advances_moved)
  next
    case (opened t n)
    then have "src_ok (source t)" using ok by (auto intro: advances_src_ok)
    from K [OF this opened(3), of m] show ?thesis
      using r opened(1,2,4) by (auto simp: bind_read_def intro: advances_moved_trans)
  qed
qed

lemma confined_on_substream:
  fixes body :: "'s dst cfun"
  assumes body: "confined body A"
  shows "confined (bind_read pb_make_string_substream (on_substream body)) A"
proof (rule confined_substream)
  fix t :: "'s pb_istream" and n m
  assume "src_ok (source t)" and n: "n \<le> bytes_left t"
  then have "src_ok (source (t\<lparr>bytes_left := n\<rparr>))" by simp
  from confined.runs [OF body this, of m] obtain status sub m' where
    b: "body (t\<lparr>bytes_left := n\<rparr>, m) = Some (status, sub, m')"
      "moved status (t\<lparr>bytes_left := n\<rparr>) sub" "\<And>x. \<not> A x \<Longrightarrow> m' x = m x" by blast
  obtain ok s' m'' where c:
    "close_substream (t\<lparr>bytes_left := bytes_left t - n\<rparr>) status (sub, m') = (ok, s', m'')"
    by (metis prod.exhaust)
  from close_substream_moved [OF n b(2) c] b c
  show "\<exists>ok s' m'. on_substream body (t\<lparr>bytes_left := n\<rparr>) (t\<lparr>bytes_left := bytes_left t - n\<rparr>, m)
      = Some (ok, s', m') \<and> moved ok t s' \<and> (\<forall>x. \<not> A x \<longrightarrow> m' x = m x)"
    by (auto simp: on_substream_def)
qed

subsection \<open>Packed arrays\<close>

lemma pb_decode_varint_progress:
  assumes "pb_decode_varint s = (Some v, s')"
  shows "unat (bytes_left s') < unat (bytes_left s)"
proof -
  obtain r s1 where b: "pb_readbyte s = (r, s1)" by (cases "pb_readbyte s")
  with assms obtain c where r: "r = Some c"
    by (cases r) (auto simp: pb_decode_varint_def varint64_loop.simps [of 0])
  then have "unat (bytes_left s1) < unat (bytes_left s)" using b by (auto intro: pb_readbyte_progress)
  moreover have "advances s1 s'"
    using assms b r by (auto simp: pb_decode_varint_def varint64_loop.simps [of 0] Let_def split: if_splits
        dest: advances_varint64_loop)
  ultimately show ?thesis using advances_bytes_left by fastforce
qed

lemma store_clamped_stream: "store_clamped c f a v d = Some (True, d') \<Longrightarrow> fst d' = fst d"
  by (auto simp: store_clamped_def is_fail_def Let_def split: option.splits if_splits prod.splits)

lemma item_progress:
  assumes "PB_DECODERS n types dec l f a (s, m) = Some (True, s', m')" "l \<le> PB_LTYPE_LAST_PACKABLE"
  shows "unat (bytes_left s') < unat (bytes_left s)"
proof -
  have v0: "unat (bytes_left s1) < unat (bytes_left s)" if "pb_decode_varint s = (Some v, s1)" for v s1
    using that by (rule pb_decode_varint_progress)
  have v: "unat (bytes_left s1) < unat (bytes_left s)" if "pb_decode_svarint s = (Some v, s1)" for v s1
    using that by (auto simp: pb_decode_svarint_def split: prod.splits option.splits
      intro: pb_decode_varint_progress)
  have w4: "unat (bytes_left s1) < unat (bytes_left s)" if "pb_decode_fixed32 s = (Some v, s1)" for v s1
    using that by (auto simp: pb_decode_fixed32_def split: prod.splits if_splits
      intro: pb_read_now_progress)
  have w8: "unat (bytes_left s1) < unat (bytes_left s)" if "pb_decode_fixed64 s = (Some v, s1)" for v s1
    using that by (auto simp: pb_decode_fixed64_def split: prod.splits if_splits
      intro: pb_read_now_progress)
  have "l = 0 \<or> l = 1 \<or> l = 2 \<or> l = 3 \<or> l = 4"
    using assms(2) by (simp add: word_le_nat_alt word_unat_eq_iff) arith
  then show ?thesis
    using assms(1) v0 v w4 w8
    by (auto simp: PB_DECODERS_def pb_dec_varint_def pb_dec_uvarint_def pb_dec_svarint_def
        pb_dec_fixed32_def pb_dec_fixed64_def bind_read_def Let_def split: prod.splits option.splits
        dest!: store_clamped_stream)
qed

lemma packed_loop_total:
  fixes func :: "'s pb_decoder_t"
  assumes func: "\<And>i. i < array_size (cur it) \<Longrightarrow> confined (func (cur it) (item_addr it i)) A"
    and prog: "\<And>a s m s' m'. func (cur it) a (s, m) = Some (True, s', m')
      \<Longrightarrow> unat (bytes_left s') < unat (bytes_left s)"
    and sz: "\<And>x. x \<in> region (pSize it) 4 \<Longrightarrow> A x"
    and "src_ok (source s)" "unat (bytes_left s) < k"
  shows "\<exists>ok s' m'. packed_loop k func it (s, m) = Some (ok, s', m') \<and> moved ok s s'
    \<and> (\<forall>x. \<not> A x \<longrightarrow> m' x = m x)"
  using assms(4,5)
proof (induction k arbitrary: s m)
  case 0
  then show ?case by simp
next
  case (Suc k)
  let ?c = "load32 m (pSize it)"
  show ?case
  proof (cases "bytes_left s > 0 \<and> ?c < array_size (cur it)")
    case False
    then show ?thesis by (auto simp: Let_def)
  next
    case True
    then obtain ok s1 m1 where r: "func (cur it) (item_addr it ?c) (s, m) = Some (ok, s1, m1)"
      "moved ok s s1" "\<And>x. \<not> A x \<Longrightarrow> m1 x = m x"
      using confined.runs [OF func Suc.prems(1)] by blast
    show ?thesis
    proof (cases ok)
      case False
      then show ?thesis using r True by (auto simp: Let_def)
    next
      case ok: True
      let ?m2 = "store_word 4 m1 (pSize it) (load32 m1 (pSize it) + 1)"
      have adv: "advances s s1" using r(2) ok by (simp add: moved_def)
      have "unat (bytes_left s1) < unat (bytes_left s)" using r(1) ok by (auto intro: prog)
      then have "unat (bytes_left s1) < k" using Suc.prems(2) by simp
      from Suc.IH [OF advances_src_ok [OF adv Suc.prems(1)] this, of ?m2] obtain ok' s' m' where
        i: "packed_loop k func it (s1, ?m2) = Some (ok', s', m')" "moved ok' s1 s'"
          "\<And>x. \<not> A x \<Longrightarrow> m' x = ?m2 x" by blast
      moreover have "?m2 x = m1 x" if "\<not> A x" for x using that sz by (auto intro!: store_word_frame)
      ultimately show ?thesis
        using r ok True adv by (auto simp: Let_def intro: advances_moved_trans)
    qed
  qed
qed

subsection \<open>Default values\<close>

lemma covers_footprint:
  "covers (footprint fds a) x \<longleftrightarrow> (\<exists>it\<in>set (message_iters fds a). covers (field_ranges footprint it) x)"
  by (simp add: footprint.simps [of fds a] covers_concat)

lemma fold_iters_frame:
  assumes "\<And>it m. it \<in> set its \<Longrightarrow> \<exists>m'. rec it m = Some m' \<and> (\<forall>x. \<not> A x \<longrightarrow> m' x = m x)"
  shows "\<exists>m'. fold_iters rec its m = Some m' \<and> (\<forall>x. \<not> A x \<longrightarrow> m' x = m x)"
  using assms
proof (induction its arbitrary: m)
  case Nil
  then show ?case by simp
next
  case (Cons it its)
  obtain m1 where m1: "rec it m = Some m1" "\<And>x. \<not> A x \<Longrightarrow> m1 x = m x"
    using Cons.prems [of it m] by auto
  have "\<exists>m'. fold_iters rec its m1 = Some m' \<and> (\<forall>x. \<not> A x \<longrightarrow> m' x = m1 x)"
    using Cons.prems by (intro Cons.IH) simp
  then show ?case using m1 by auto
qed

lemma fold_iters_footprint:
  assumes "\<And>it m. it \<in> set (message_iters fds a) \<Longrightarrow>
    \<exists>m'. rec it m = Some m' \<and> (\<forall>x. \<not> covers (field_ranges footprint it) x \<longrightarrow> m' x = m x)"
  shows "\<exists>m'. fold_iters rec (message_iters fds a) m = Some m'
    \<and> (\<forall>x. \<not> covers (footprint fds a) x \<longrightarrow> m' x = m x)"
proof (rule fold_iters_frame)
  fix it m
  assume it: "it \<in> set (message_iters fds a)"
  from assms [OF this, of m] obtain m' where
    "rec it m = Some m'" "\<forall>x. \<not> covers (field_ranges footprint it) x \<longrightarrow> m' x = m x" by blast
  then show "\<exists>m'. rec it m = Some m' \<and> (\<forall>x. \<not> covers (footprint fds a) x \<longrightarrow> m' x = m x)"
    using it by (auto simp: covers_footprint)
qed

lemma init_item_frame:
  assumes "plain_field f" "PB_LTYPE (type f) \<noteq> PB_LTYPE_SUBMESSAGE"
  shows "\<exists>m'. init_item f a m = Some m' \<and> (\<forall>x. \<not> x \<in> region a (unat (data_size f)) \<longrightarrow> m' x = m x)"
  using assms plain_field.simps [of f]
  by (auto simp: init_item_def memset0_frame store_bytes_frame split: pb_ptr.splits)

lemma item_ranges_data:
  "PB_LTYPE (type f) \<noteq> PB_LTYPE_SUBMESSAGE \<Longrightarrow> x \<in> region a (unat (data_size f)) \<Longrightarrow>
   covers (item_ranges rec f a) x"
  by (auto simp: item_ranges_def Let_def region_iff)

lemma item_ranges_sub:
  "PB_LTYPE (type f) = PB_LTYPE_SUBMESSAGE \<Longrightarrow> item_ranges rec f a = rec (submsg_fields (ptr f)) a"
  by (simp add: item_ranges_def)

lemma plain_sub:
  assumes "plain_field f" "it \<in> set (message_iters (submsg_fields (ptr f)) a)"
  shows "plain_field (cur it)" "field_depth (cur it) < field_depth f"
proof -
  have c: "cur it \<in> set (submsg_fields (ptr f))" using assms(2) by (simp add: message_iters_field)
  then show "plain_field (cur it)" using assms(1) plain_field.simps [of f] by (auto simp: list_all_iff)
  have "field_depth (cur it) \<le> foldr max (map field_depth (submsg_fields (ptr f))) 0"
    using c by (intro foldr_max_ge) simp
  then show "field_depth (cur it) < field_depth f" by (simp add: field_depth.simps [of f])
qed

lemma pb_field_set_to_default_frame:
  assumes "plain_field (cur it)" "field_depth (cur it) \<le> n"
  shows "\<exists>m'. pb_field_set_to_default n types it m = Some m'
    \<and> (\<forall>x. \<not> covers (field_ranges footprint it) x \<longrightarrow> m' x = m x)"
  using assms
proof (induction n arbitrary: it m)
  case 0
  then show ?case by (simp add: field_depth.simps [of "cur it"])
next
  case (Suc n)
  let ?f = "cur it"
  note plain = Suc.prems(1) [unfolded plain_field.simps [of ?f]]
  have d: "field_depth (cur it') \<le> n" if "it' \<in> set (message_iters (submsg_fields (ptr ?f)) a)" for it' a
    using plain_sub(2) [OF Suc.prems(1) that] Suc.prems(2) by simp
  have sub: "\<exists>m'. fold_iters (pb_field_set_to_default n types) (message_iters (submsg_fields (ptr ?f)) a) m
      = Some m' \<and> (\<forall>x. \<not> covers (footprint (submsg_fields (ptr ?f)) a) x \<longrightarrow> m' x = m x)" for a m
    by (intro fold_iters_footprint Suc.IH plain_sub(1) [OF Suc.prems(1)] d)
  have item: "\<exists>m'. (if PB_LTYPE (type ?f) = PB_LTYPE_SUBMESSAGE
        then (if is_fields (ptr ?f) then fold_iters (pb_field_set_to_default n types)
                (message_iters (submsg_fields (ptr ?f)) (pData it)) m else None)
        else init_item ?f (pData it) m) = Some m'
      \<and> (\<forall>x. \<not> covers (item_ranges footprint ?f (pData it)) x \<longrightarrow> m' x = m x)" for m
  proof (cases "PB_LTYPE (type ?f) = PB_LTYPE_SUBMESSAGE")
    case True
    then show ?thesis using plain sub [of "pData it" m] by (auto simp: item_ranges_sub)
  next
    case False
    then show ?thesis
      using init_item_frame [OF Suc.prems(1) False, of "pData it" m] item_ranges_data [OF False, of _ "pData it" footprint] by auto
  qed
  have opt: "\<not> covers (field_ranges footprint it) x \<Longrightarrow>
      (if PB_HTYPE (type ?f) = PB_HTYPE_OPTIONAL \<and> pSize it \<noteq> pData it
       then store_bool m (pSize it) False else m) x = m x"
    if "PB_ATYPE (type ?f) = PB_ATYPE_STATIC" for x m
    using that by (auto simp: field_ranges_def intro!: store_bool_frame)
  consider (static) "PB_ATYPE (type ?f) = PB_ATYPE_STATIC"
      "PB_HTYPE (type ?f) = PB_HTYPE_REPEATED \<or> PB_HTYPE (type ?f) = PB_HTYPE_ONEOF"
    | (single) "PB_ATYPE (type ?f) = PB_ATYPE_STATIC"
      "\<not> (PB_HTYPE (type ?f) = PB_HTYPE_REPEATED \<or> PB_HTYPE (type ?f) = PB_HTYPE_ONEOF)"
    | (other) "PB_ATYPE (type ?f) \<noteq> PB_ATYPE_STATIC" by blast
  then show ?case
  proof cases
    case static
    then show ?thesis using plain
      by (auto simp: field_ranges_def Let_def intro!: store_word_frame)
  next
    case single
    then have i: "covers (item_ranges footprint ?f (pData it)) x \<Longrightarrow> covers (field_ranges footprint it) x" for x
      using PB_HTYPE_cases [of "type ?f"] by (auto simp: field_ranges_def)
    show ?thesis
      using plain single item [of "if PB_HTYPE (type ?f) = PB_HTYPE_OPTIONAL \<and> pSize it \<noteq> pData it
       then store_bool m (pSize it) False else m"] opt [OF single(1), of _ m] i
      by (simp only: pb_field_set_to_default.simps Let_def if_False if_True simp_thms) fastforce
  next
    case other
    then show ?thesis using plain
      by (auto simp: field_ranges_def Let_def store_word_frame)
  qed
qed

lemma pb_message_set_to_defaults_frame:
  assumes "list_all plain_field fds" "msg_depth fds \<le> Suc n"
  shows "\<exists>m'. pb_message_set_to_defaults n types fds a m = Some m'
    \<and> (\<forall>x. \<not> covers (footprint fds a) x \<longrightarrow> m' x = m x)"
  unfolding pb_message_set_to_defaults_def
proof (rule fold_iters_footprint, rule pb_field_set_to_default_frame)
  fix it assume "it \<in> set (message_iters fds a)"
  then have c: "cur it \<in> set fds" by (simp add: message_iters_field)
  then show "plain_field (cur it)" using assms(1) by (simp add: list_all_iff)
  have "field_depth (cur it) \<le> foldr max (map field_depth fds) 0" using c by (intro foldr_max_ge) simp
  then show "field_depth (cur it) \<le> n" using assms(2) by (simp add: msg_depth_def)
qed

lemma confined_decode_init:
  fixes dec :: "'s msg_decoder"
  assumes "list_all plain_field fds" "msg_depth fds \<le> Suc n"
    and d: "confined (dec fds a) (covers (footprint fds a))"
  shows "confined (decode_init n types dec fds a) (covers (footprint fds a))"
proof
  fix s :: "'s pb_istream" and m :: mem
  assume "src_ok (source s)"
  moreover obtain m1 where "pb_message_set_to_defaults n types fds a m = Some m1"
    "\<And>x. \<not> covers (footprint fds a) x \<Longrightarrow> m1 x = m x"
    using pb_message_set_to_defaults_frame [OF assms(1,2)] by blast
  ultimately show "\<exists>ok s' m'. decode_init n types dec fds a (s, m) = Some (ok, s', m') \<and> moved ok s s'
      \<and> (\<forall>x. \<not> covers (footprint fds a) x \<longrightarrow> m' x = m x)"
    using confined.runs [OF d, of s m1] by (auto simp: decode_init_def)
qed

subsection \<open>Whole fields\<close>

lemma confined_pb_dec_submessage:
  fixes dec :: "'s msg_decoder"
  assumes f: "plain_field f" "PB_LTYPE (type f) = PB_LTYPE_SUBMESSAGE"
    and n: "msg_depth (submsg_fields (ptr f)) \<le> Suc n"
    and d: "confined (dec (submsg_fields (ptr f)) a) (covers (footprint (submsg_fields (ptr f)) a))"
  shows "confined (pb_dec_submessage n types dec f a) (covers (footprint (submsg_fields (ptr f)) a))"
proof -
  have p: "is_fields (ptr f)" "list_all plain_field (submsg_fields (ptr f))"
    using f plain_field.simps [of f] by simp_all
  then have "ptr f \<noteq> Ptr_null" by (auto simp: is_fields_def)
  then have "pb_dec_submessage n types dec f a = bind_read pb_make_string_substream (on_substream
      ((if PB_HTYPE (type f) = PB_HTYPE_REPEATED then decode_init n types dec else dec)
         (submsg_fields (ptr f)) a))"
    using p by (simp add: pb_dec_submessage_def)
  moreover have "confined ((if PB_HTYPE (type f) = PB_HTYPE_REPEATED then decode_init n types dec else dec)
         (submsg_fields (ptr f)) a) (covers (footprint (submsg_fields (ptr f)) a))"
    using d confined_decode_init [where dec = dec, OF p(2) n d] by simp
  ultimately show ?thesis by (simp only: confined_on_substream)
qed

lemma ltype_cases:
  "(l :: byte) < 10 \<Longrightarrow> l \<noteq> 8 \<Longrightarrow>
   l = 0 \<or> l = 1 \<or> l = 2 \<or> l = 3 \<or> l = 4 \<or> l = 5 \<or> l = 6 \<or> l = 7 \<or> l = 9"
  by (simp add: word_less_nat_alt word_unat_eq_iff) arith

lemma confined_item:
  fixes dec :: "'s msg_decoder"
  assumes f: "plain_field f" and n: "msg_depth (submsg_fields (ptr f)) \<le> Suc n"
    and d: "PB_LTYPE (type f) = PB_LTYPE_SUBMESSAGE \<Longrightarrow>
      confined (dec (submsg_fields (ptr f)) a) (covers (footprint (submsg_fields (ptr f)) a))"
  shows "confined (PB_DECODERS n types dec (PB_LTYPE (type f)) f a) (covers (item_ranges footprint f a))"
proof -
  let ?l = "PB_LTYPE (type f)"
  have "?l < 10" "?l \<noteq> 8" using f plain_field.simps [of f] by simp_all
  note ltype_cases [OF this]
  then consider "?l = 0" | "?l = 1" | "?l = 2" | (f32) "?l = 3" | (f64) "?l = 4" | "?l = 5" | "?l = 6"
    | (sub) "?l = 7" | "?l = 9" by blast
  then show ?thesis
  proof cases
    case f32
    then show ?thesis
      by (auto simp: PB_DECODERS_def item_ranges_def Let_def region_iff
          intro!: confined_mono [OF confined_pb_dec_fixed32])
  next
    case f64
    then show ?thesis
      by (auto simp: PB_DECODERS_def item_ranges_def Let_def region_iff
          intro!: confined_mono [OF confined_pb_dec_fixed64])
  next
    case sub
    then show ?thesis using confined_pb_dec_submessage [where dec = dec, OF f _ n, of a types] d
      by (simp add: PB_DECODERS_def item_ranges_sub)
  qed (auto simp: PB_DECODERS_def item_ranges_def Let_def
      intro: confined_mono [OF confined_pb_dec_varint] confined_mono [OF confined_pb_dec_uvarint]
        confined_mono [OF confined_pb_dec_svarint] confined_mono [OF confined_pb_dec_bytes]
        confined_mono [OF confined_pb_dec_string] confined_mono [OF confined_pb_dec_fixed_length_bytes])
qed

lemma confined_decode_packed:
  fixes func :: "'s pb_decoder_t"
  assumes func: "\<And>i. i < array_size (cur it) \<Longrightarrow> confined (func (cur it) (item_addr it i)) A"
    and prog: "\<And>a s m s' m'. func (cur it) a (s, m) = Some (True, s', m')
      \<Longrightarrow> unat (bytes_left s') < unat (bytes_left s)"
    and sz: "\<And>x. x \<in> region (pSize it) 4 \<Longrightarrow> A x"
  shows "confined (decode_packed func it) A"
  unfolding decode_packed_def
proof (rule confined_substream)
  fix t :: "'s pb_istream" and n m
  assume "src_ok (source t)" and n: "n \<le> bytes_left t"
  have "\<exists>ok s' m'. packed_loop (Suc (unat n)) func it (t\<lparr>bytes_left := n\<rparr>, m) = Some (ok, s', m')
      \<and> moved ok (t\<lparr>bytes_left := n\<rparr>) s' \<and> (\<forall>x. \<not> A x \<longrightarrow> m' x = m x)"
    by (rule packed_loop_total) (fact func prog sz | simp add: \<open>src_ok (source t)\<close>)+
  then obtain status sub m' where l:
    "packed_loop (Suc (unat n)) func it (t\<lparr>bytes_left := n\<rparr>, m) = Some (status, sub, m')"
    "moved status (t\<lparr>bytes_left := n\<rparr>) sub" "\<And>x. \<not> A x \<Longrightarrow> m' x = m x"
    by blast
  obtain ok s' m'' where c:
    "close_substream (t\<lparr>bytes_left := bytes_left t - n\<rparr>) status (sub, m') = (ok, s', m'')"
    by (metis prod.exhaust)
  from l c close_substream_moved [OF n l(2) c] within_open [OF n]
  show "\<exists>ok s' m''. (case packed_loop (Suc (unat (bytes_left (t\<lparr>bytes_left := n\<rparr>)))) func it
        (t\<lparr>bytes_left := n\<rparr>, snd (t\<lparr>bytes_left := bytes_left t - n\<rparr>, m)) of
         None \<Rightarrow> None
       | Some (status, sub, m') \<Rightarrow>
           if bytes_left sub \<noteq> 0
           then is_fail ''array overflow'' (fst (t\<lparr>bytes_left := bytes_left t - n\<rparr>, m), m')
           else Some (close_substream (fst (t\<lparr>bytes_left := bytes_left t - n\<rparr>, m)) status (sub, m')))
      = Some (ok, s', m'') \<and> moved ok t s' \<and> (\<forall>x. \<not> A x \<longrightarrow> m'' x = m x)"
    by (auto simp: is_fail_def moved_def simp del: packed_loop.simps)
qed

lemma confined_prep:
  fixes f :: "'s dst cfun"
  assumes f: "confined f A" and "\<And>m. \<exists>m'. prep m = Some m' \<and> (\<forall>x. \<not> A x \<longrightarrow> m' x = m x)"
  shows "confined (\<lambda>d. case prep (snd d) of None \<Rightarrow> None | Some m \<Rightarrow> f (fst d, m)) A"
proof
  fix s :: "'s pb_istream" and m :: mem
  assume s: "src_ok (source s)"
  obtain m1 where "prep m = Some m1" "\<And>x. \<not> A x \<Longrightarrow> m1 x = m x" using assms(2) by blast
  then show "\<exists>ok s' m'. (case prep (snd (s, m)) of None \<Rightarrow> None | Some m2 \<Rightarrow> f (fst (s, m), m2))
      = Some (ok, s', m') \<and> moved ok s s' \<and> (\<forall>x. \<not> A x \<longrightarrow> m' x = m x)"
    using confined.runs [OF f s, of m1] by auto
qed

lemma confined_reads:
  assumes "\<And>m0. confined (\<lambda>d. f m0 d) A"
  shows "confined (\<lambda>d. f (snd d) d) A"
  using assms unfolding confined_def by (metis snd_conv)

lemma confined_item_ready:
  "field_ready n dec f \<Longrightarrow>
   confined (PB_DECODERS n types dec (PB_LTYPE (type f)) f a) (covers (item_ranges footprint f a))"
  by (auto simp: field_ready_def intro: confined_item)

lemma field_ranges_item:
  assumes "PB_ATYPE (type (cur it)) = PB_ATYPE_STATIC"
    and "covers (item_ranges footprint (cur it) a) x"
    and "if PB_HTYPE (type (cur it)) = PB_HTYPE_REPEATED
         then (\<exists>i < array_size (cur it). a = item_addr it i) else a = pData it"
  shows "covers (field_ranges footprint it) x"
proof (cases "PB_HTYPE (type (cur it)) = PB_HTYPE_REPEATED")
  case True
  then obtain i where i: "i < array_size (cur it)" "a = item_addr it i" using assms(3) by auto
  then have "unat i < unat (array_size (cur it))" "of_nat (unat i) = i" by (simp_all add: word_less_nat_alt)
  then show ?thesis
    using True assms(1,2) i(2) by (auto simp: field_ranges_def Let_def covers_concat intro!: bexI [of _ "unat i"])
next
  case False
  then show ?thesis
    using assms PB_HTYPE_cases [of "type (cur it)"] by (auto simp: field_ranges_def Let_def)
qed

lemma confined_field_item:
  assumes r: "field_ready n dec (cur it)" and "PB_ATYPE (type (cur it)) = PB_ATYPE_STATIC"
    and "if PB_HTYPE (type (cur it)) = PB_HTYPE_REPEATED
         then (\<exists>i < array_size (cur it). a = item_addr it i) else a = pData it"
  shows "confined (PB_DECODERS n types dec (PB_LTYPE (type (cur it))) (cur it) a)
    (covers (field_ranges footprint it))"
  by (rule confined_mono [OF confined_item_ready [OF r]]) (rule field_ranges_item [OF assms(2) _ assms(3)])

lemma confined_unpacked:
  assumes r: "field_ready n dec (cur it)" and st: "PB_ATYPE (type (cur it)) = PB_ATYPE_STATIC"
    and h: "PB_HTYPE (type (cur it)) = PB_HTYPE_REPEATED"
  shows "confined (\<lambda>d. let count = load32 (snd d) (pSize it)
      in if count \<ge> array_size (cur it) then is_fail ''array overflow'' d
         else PB_DECODERS n types dec (PB_LTYPE (type (cur it))) (cur it) (item_addr it count)
                (fst d, store_word 4 (snd d) (pSize it) (count + 1))) (covers (field_ranges footprint it))"
proof -
  let ?A = "covers (field_ranges footprint it)"
  have "confined (\<lambda>d. if load32 m0 (pSize it) \<ge> array_size (cur it) then is_fail ''array overflow'' d
         else PB_DECODERS n types dec (PB_LTYPE (type (cur it))) (cur it) (item_addr it (load32 m0 (pSize it)))
                (fst d, store_word 4 (snd d) (pSize it) (load32 m0 (pSize it) + 1))) ?A" for m0
    by (intro confined_if confined_is_fail confined_store confined_field_item [OF r st])
       (use h st in \<open>auto simp: field_ranges_def Let_def not_le intro!: store_word_frame\<close>)
  from confined_reads [of "\<lambda>m0 d. if load32 m0 (pSize it) \<ge> array_size (cur it)
      then is_fail ''array overflow'' d
      else PB_DECODERS n types dec (PB_LTYPE (type (cur it))) (cur it) (item_addr it (load32 m0 (pSize it)))
             (fst d, store_word 4 (snd d) (pSize it) (load32 m0 (pSize it) + 1))", OF this]
  show ?thesis by (simp only: Let_def)
qed

lemma PB_DECODERS_progress:
  "PB_LTYPE (type f) \<le> PB_LTYPE_LAST_PACKABLE \<Longrightarrow>
   PB_DECODERS n types dec (PB_LTYPE (type f)) f a (s, m) = Some (True, s', m') \<Longrightarrow>
   unat (bytes_left s') < unat (bytes_left s)"
  by (rule item_progress)

lemma confined_oneof:
  assumes r: "field_ready n dec (cur it)" and st: "PB_ATYPE (type (cur it)) = PB_ATYPE_STATIC"
    and h: "PB_HTYPE (type (cur it)) = PB_HTYPE_ONEOF"
    and l: "PB_LTYPE (type (cur it)) = PB_LTYPE_SUBMESSAGE"
  shows "confined (\<lambda>d. case (if is_fields (ptr (cur it))
        then pb_message_set_to_defaults n types (submsg_fields (ptr (cur it))) (pData it)
               (memset0 (store_word 4 (snd d) (pSize it) (tag (cur it))) (pData it)
                  (unat (data_size (cur it))))
        else None) of
      None \<Rightarrow> None
    | Some m \<Rightarrow> PB_DECODERS n types dec (PB_LTYPE (type (cur it))) (cur it) (pData it) (fst d, m))
    (covers (field_ranges footprint it))"
proof (rule confined_prep)
  show "confined (PB_DECODERS n types dec (PB_LTYPE (type (cur it))) (cur it) (pData it))
      (covers (field_ranges footprint it))"
    using h by (intro confined_field_item [OF r st]) simp
next
  fix m :: mem
  let ?f = "cur it" and ?m1 = "memset0 (store_word 4 m (pSize it) (tag (cur it))) (pData it)
    (unat (data_size (cur it)))"
  have p: "is_fields (ptr ?f)" "list_all plain_field (submsg_fields (ptr ?f))"
    "msg_depth (submsg_fields (ptr ?f)) \<le> Suc n"
    using r l plain_field.simps [of ?f] by (simp_all add: field_ready_def)
  obtain m' where m': "pb_message_set_to_defaults n types (submsg_fields (ptr ?f)) (pData it) ?m1 = Some m'"
    "\<And>x. \<not> covers (footprint (submsg_fields (ptr ?f)) (pData it)) x \<Longrightarrow> m' x = ?m1 x"
    using pb_message_set_to_defaults_frame [OF p(2,3)] by blast
  have "m' x = m x" if "\<not> covers (field_ranges footprint it) x" for x
    using that st h l m'(2) [of x]
    by (auto simp: field_ranges_def Let_def item_ranges_sub memset0_frame store_word_frame)
  then show "\<exists>m'. (if is_fields (ptr ?f)
        then pb_message_set_to_defaults n types (submsg_fields (ptr ?f)) (pData it) ?m1 else None) = Some m'
      \<and> (\<forall>x. \<not> covers (field_ranges footprint it) x \<longrightarrow> m' x = m x)"
    using m'(1) p(1) by auto
qed

lemma confined_decode_static_field:
  fixes dec :: "'s msg_decoder"
  assumes r: "field_ready n dec (cur it)" and st: "PB_ATYPE (type (cur it)) = PB_ATYPE_STATIC"
  shows "confined (decode_static_field n types dec wt it) (covers (field_ranges footprint it))"
proof -
  let ?h = "PB_HTYPE (type (cur it))" and ?A = "covers (field_ranges footprint it)"
  let ?func = "PB_DECODERS n types dec (PB_LTYPE (type (cur it)))"
  note item = confined_field_item [OF r st, of _ types]
  note code = decode_static_field_def [of n types dec wt it, abs_def, unfolded Let_def]
  have size4: "x \<in> region (pSize it) 4 \<Longrightarrow> ?A x" if "?h = PB_HTYPE_REPEATED \<or> ?h = PB_HTYPE_ONEOF" for x
    using that st by (auto simp: field_ranges_def Let_def)
  consider (req) "?h = PB_HTYPE_REQUIRED" | (opt) "?h = PB_HTYPE_OPTIONAL"
    | (rep) "?h = PB_HTYPE_REPEATED" | (oneof) "?h = PB_HTYPE_ONEOF"
    using PB_HTYPE_cases by blast
  then show ?thesis
  proof cases
    case req
    then show ?thesis using item [of "pData it"] by (simp add: code)
  next
    case opt
    have "confined (\<lambda>d. ?func (cur it) (pData it)
        (fst d, (\<lambda>m. if pSize it \<noteq> pData it then store_bool m (pSize it) True else m) (snd d))) ?A"
      using opt st by (intro confined_store item)
        (auto simp: field_ranges_def Let_def intro!: store_bool_frame)
    then show ?thesis using opt by (simp add: code)
  next
    case rep
    have "confined (decode_packed ?func it) ?A" if "PB_LTYPE (type (cur it)) \<le> PB_LTYPE_LAST_PACKABLE"
      using rep size4 PB_DECODERS_progress [OF that]
      by (intro confined_decode_packed item) auto
    moreover have "confined (\<lambda>d. let count = load32 (snd d) (pSize it)
        in if count \<ge> array_size (cur it) then is_fail ''array overflow'' d
           else ?func (cur it) (item_addr it count) (fst d, store_word 4 (snd d) (pSize it) (count + 1))) ?A"
      using rep by (rule confined_unpacked [OF r st])
    ultimately have "confined (\<lambda>d. if wt = PB_WT_STRING \<and> PB_LTYPE (type (cur it)) \<le> PB_LTYPE_LAST_PACKABLE
        then decode_packed ?func it d
        else (let count = load32 (snd d) (pSize it)
          in if count \<ge> array_size (cur it) then is_fail ''array overflow'' d
             else ?func (cur it) (item_addr it count) (fst d, store_word 4 (snd d) (pSize it) (count + 1)))) ?A"
      by (intro confined_if) auto
    from this [unfolded Let_def] rep show ?thesis by (simp add: code)
  next
    case oneof
    have "confined (\<lambda>d. ?func (cur it) (pData it)
        (fst d, (\<lambda>m. store_word 4 m (pSize it) (tag (cur it))) (snd d))) ?A"
      using oneof size4 by (intro confined_store item) (auto intro!: store_word_frame)
    then show ?thesis
      using oneof confined_oneof [OF r st, of types]
      by (cases "PB_LTYPE (type (cur it)) = PB_LTYPE_SUBMESSAGE") (simp_all add: code)
  qed
qed

lemma confined_decode_field:
  assumes r: "field_ready n dec (cur it)"
  shows "confined (decode_field n env dec wt it) (covers (field_ranges footprint it))"
proof -
  have "PB_ATYPE (type (cur it)) \<noteq> PB_ATYPE_CALLBACK"
    using r plain_field.simps [of "cur it"] by (simp add: field_ready_def)
  then show ?thesis
    using confined_decode_static_field [OF r, of "dec_ext_type env" wt]
      confined_is_fail [of "''no malloc support''"] confined_is_fail [of "''invalid field type''"]
    by (cases "PB_ATYPE (type (cur it)) = PB_ATYPE_STATIC";
        cases "PB_ATYPE (type (cur it)) = PB_ATYPE_POINTER")
       (simp_all add: decode_field_def [abs_def] decode_pointer_field_def [abs_def] Let_def)
qed

subsection \<open>The main loop\<close>

text \<open>The iterators that \<open>pb_decode_noinit\<close> can hold.\<close>

definition good_iter :: "pb_field list \<Rightarrow> addr \<Rightarrow> pb_field_iter \<Rightarrow> bool" where
  "good_iter fds a it \<longleftrightarrow> (\<exists>i. (i < nfields fds \<or> i = 0) \<and> it = iter_at fds a i)"

lemma good_iter_cases:
  assumes "good_iter fds a it"
  obtains (field) i where "i < nfields fds" "it = iter_at fds a i" "cur it = fds ! i"
      "it \<in> set (message_iters fds a)"
  | (empty) "nfields fds = 0" "it = iter_at fds a 0" "cur it = field_at fds 0"
proof -
  obtain i where i: "i < nfields fds \<or> i = 0" "it = iter_at fds a i" using assms by (auto simp: good_iter_def)
  show ?thesis
  proof (cases "i < nfields fds")
    case True
    then show ?thesis using i by (intro field [of i]) (auto simp: message_iters_eq)
  next
    case False
    then show ?thesis using i by (intro empty) (auto simp: cur_def)
  qed
qed

lemma iter_search_empty:
  assumes "nfields fds = 0"
  shows "iter_search P (iter_at fds a 0) = (P (field_at fds 0), iter_at fds a 0)"
proof -
  have "tag (field_at fds 0) = 0" using tag_at_end [of fds] assms by simp
  then have "pb_field_iter_next (iter_at fds a 0) = (False, iter_at fds a 0)"
    by (simp add: pb_field_iter_next_def cur_def)
  then show ?thesis by (simp add: iter_search_def cur_def)
qed

lemma good_iter_search:
  assumes "good_iter fds a it" "iter_search P it = (found, it')"
  shows "good_iter fds a it' \<and> (found \<longrightarrow> P (cur it'))"
  using assms(1)
proof (cases rule: good_iter_cases)
  case (field i)
  show ?thesis
    by (cases rule: iter_search_cases [OF field(1), of P a])
       (use assms field in \<open>auto simp: good_iter_def simp del: iter_at.simps\<close>)
next
  case empty
  then show ?thesis
    using assms iter_search_empty [of fds P a] by (auto simp: good_iter_def cur_def simp del: iter_at.simps)
qed

lemma plain_field_terminator: "plain_field PB_LAST_FIELD"
  by (simp add: plain_field.simps PB_LAST_FIELD_def PB_LTYPE_def PB_ATYPE_def submsg_fields_def
      field_at_def nfields_def)

lemma plain_message_cur:
  assumes "plain_message fds" "good_iter fds a it"
  shows "plain_field (cur it)"
  using assms(2)
proof (cases rule: good_iter_cases)
  case (field i)
  then show ?thesis
    using assms(1) nfields_le [of fds] by (auto simp: plain_message_def list_all_length)
next
  case empty
  then show ?thesis using assms(1) plain_field_terminator by (simp add: plain_message_def)
qed

lemma find_extension_field_plain:
  assumes "plain_message fds" "good_iter fds a it"
  shows "fst (find_extension_field it) = False"
proof -
  obtain b it' where s: "find_extension_field it = (b, it')" by (cases "find_extension_field it")
  then have "good_iter fds a it' \<and> (b \<longrightarrow> PB_LTYPE (type (cur it')) = PB_LTYPE_EXTENSION)"
    unfolding find_extension_field_def by (rule good_iter_search [OF assms(2)])
  then show ?thesis using s plain_message_cur [OF assms(1)] plain_field.simps by auto
qed

text \<open>What one round does: it returns, stays in the footprint, and goes on only after progress.\<close>

definition step_ok :: "(addr \<Rightarrow> bool) \<Rightarrow> (pb_field_iter \<Rightarrow> bool) \<Rightarrow> 's dst
    \<Rightarrow> (control \<times> locals \<times> 's dst) option \<Rightarrow> bool" where
  "step_ok A G d r \<longleftrightarrow>
     (\<exists>c l s m. r = Some (c, l, s, m) \<and> G (iter l) \<and> (\<forall>x. \<not> A x \<longrightarrow> m x = snd d x) \<and>
        moved (c \<noteq> Return_false) (fst d) s \<and>
        (c = Continue \<longrightarrow> unat (bytes_left s) < unat (bytes_left (fst d))))"

lemma step_ok_skip:
  assumes "G (iter l)" "advances s0 s" "unat (bytes_left s) < unat (bytes_left s0)"
  shows "step_ok A G (s0, m) (case pb_skip_field wt (fst (s, m)) of (ok, s) \<Rightarrow>
    Some (if ok then Continue else Return_false, l, s, snd (s, m)))"
proof -
  obtain ok s' where r: "pb_skip_field wt s = (ok, s')" by (cases "pb_skip_field wt s")
  then have "advances s s'" by (rule advances_pb_skip_field)
  moreover then have "unat (bytes_left s') < unat (bytes_left s0)"
    using assms(3) advances_bytes_left by fastforce
  ultimately show ?thesis
    using assms r by (auto simp: step_ok_def intro: advances_moved advances_trans)
qed

lemma pb_decode_tag_small:
  assumes "pb_decode_tag s = ((True, wt, tg, eof), s')"
  shows "\<not> (-1 :: u32) \<le> tg"
proof -
  obtain temp :: u32 where "tg = drop_bit 3 temp"
    using assms by (auto simp: pb_decode_tag_def split: prod.splits option.splits if_splits)
  then have "unat tg = unat temp div 8" by (simp add: drop_bit_eq_div unat_div_distrib)
  then have "unat tg < 2 ^ 29" using unat_bound [of temp] by simp
  moreover have "unat (-1 :: u32) = 2 ^ 32 - 1" by (simp add: unsigned_minus_1_eq_mask mask_eq_exp_minus_1)
  ultimately show ?thesis by (simp add: word_le_nat_alt)
qed

lemma step_ok_unknown:
  assumes p: "plain_message fds" "good_iter fds a (iter l)" and tg: "\<not> (-1 :: u32) \<le> tg"
    and s: "advances s0 s" "unat (bytes_left s) < unat (bytes_left s0)"
  shows "step_ok A (good_iter fds a) (s0, m) (unknown_field n env dec tg wt l (s, m))"
proof -
  obtain it where f: "find_extension_field (iter l) = (False, it)"
    using find_extension_field_plain [OF p] by (cases "find_extension_field (iter l)") auto
  then have "good_iter fds a it"
    using good_iter_search [OF p(2)] unfolding find_extension_field_def by blast
  then show ?thesis
    using f p(2) tg s step_ok_skip [of "good_iter fds a" l s0 s A m wt]
      step_ok_skip [of "good_iter fds a" "l\<lparr>iter := it, extension_range_start := -1\<rparr>" s0 s A m wt]
    by (auto simp: unknown_field_def Let_def)
qed

lemma field_ranges_terminator: "cur it = PB_LAST_FIELD \<Longrightarrow> \<not> covers (field_ranges rec it) x"
  by (simp add: field_ranges_def item_ranges_def PB_LAST_FIELD_def PB_LTYPE_def PB_ATYPE_def PB_HTYPE_def)

lemma field_ranges_footprint:
  assumes "plain_message fds" "good_iter fds a it" "covers (field_ranges footprint it) x"
  shows "covers (footprint fds a) x"
  using assms(2)
proof (cases rule: good_iter_cases)
  case (field i)
  then show ?thesis using assms(3) by (auto simp: covers_footprint)
next
  case empty
  then have "cur it = PB_LAST_FIELD" using assms(1) by (simp add: plain_message_def)
  then show ?thesis using assms(3) field_ranges_terminator by blast
qed

lemma step_ok_decode_step:
  fixes dec :: "'s msg_decoder"
  assumes p: "plain_message fds" "good_iter fds a (iter l)" and s: "src_ok (source s)"
    and ready: "\<And>it. good_iter fds a it \<Longrightarrow> field_ready n dec (cur it)"
  shows "step_ok (covers (footprint fds a)) (good_iter fds a) (s, m) (decode_step n env dec l (s, m))"
proof -
  obtain ok wt tg eof s1 where t: "pb_decode_tag s = ((ok, wt, tg, eof), s1)"
    by (cases "pb_decode_tag s") auto
  then have a1: "advances s s1" by (rule advances_pb_decode_tag)
  show ?thesis
  proof (cases ok)
    case False
    then show ?thesis using t a1 p(2) by (auto simp: decode_step_def step_ok_def intro: advances_moved)
  next
    case True
    then have t': "pb_decode_tag s = ((True, wt, tg, eof), s1)" using t by simp
    note pr = pb_decode_tag_progress [OF t'] and tg = pb_decode_tag_small [OF t']
    obtain found it where f: "pb_field_iter_find (iter l) tg = (found, it)"
      by (cases "pb_field_iter_find (iter l) tg")
    then have g: "good_iter fds a it"
      using good_iter_search [OF p(2)] unfolding pb_field_iter_find_def by blast
    show ?thesis
    proof (cases found)
      case False
      then show ?thesis
        using True t f g by (simp add: decode_step_def Let_def step_ok_unknown [OF p(1) _ tg a1 pr])
    next
      case found: True
      have c: "confined (decode_field n env dec wt it) (covers (footprint fds a))"
        by (rule confined_mono [OF confined_decode_field [OF ready [OF g]]])
           (rule field_ranges_footprint [OF p(1) g])
      from confined.runs [OF c advances_src_ok [OF a1 s], of m] obtain b s' m' where
        d: "decode_field n env dec wt it (s1, m) = Some (b, s', m')" "moved b s1 s'"
          "\<forall>x. \<not> covers (footprint fds a) x \<longrightarrow> m' x = m x" by blast
      have "unat (bytes_left s') < unat (bytes_left s)"
        using pr moved_within [OF d(2)] by (simp add: within_def word_le_nat_alt)
      then show ?thesis
        using True found t f d g a1
        by (auto simp: decode_step_def Let_def step_ok_def intro: advances_moved_trans)
    qed
  qed
qed

lemma decode_loop_total:
  fixes dec :: "'s msg_decoder"
  assumes p: "plain_message fds"
    and ready: "\<And>it. good_iter fds a it \<Longrightarrow> field_ready n dec (cur it)"
    and "good_iter fds a (iter l)" "src_ok (source s)" "unat (bytes_left s) < k"
  shows "\<exists>b l' s' m'. decode_loop k n env dec l (s, m) = Some (b, l', s', m') \<and> moved b s s'
    \<and> (\<forall>x. \<not> covers (footprint fds a) x \<longrightarrow> m' x = m x)"
  using assms(3-5)
proof (induction k arbitrary: l s m)
  case 0
  then show ?case by simp
next
  case (Suc k)
  show ?case
  proof (cases "bytes_left s = 0")
    case True
    then show ?thesis by auto
  next
    case False
    from step_ok_decode_step [OF p Suc.prems(1,2) ready, of m env] obtain c l1 s1 m1 where
      st: "decode_step n env dec l (s, m) = Some (c, l1, s1, m1)" "good_iter fds a (iter l1)"
        "\<And>x. \<not> covers (footprint fds a) x \<Longrightarrow> m1 x = m x" "moved (c \<noteq> Return_false) s s1"
        "c = Continue \<Longrightarrow> unat (bytes_left s1) < unat (bytes_left s)"
      by (auto simp: step_ok_def)
    show ?thesis
    proof (cases c)
      case Continue
      then have adv: "advances s s1" using st(4) by (simp add: moved_def)
      have "unat (bytes_left s1) < k" using st(5) Continue Suc.prems(3) by simp
      from Suc.IH [OF st(2) advances_src_ok [OF adv Suc.prems(2)] this, of m1]
      show ?thesis using False Continue st(1,3) adv by (auto intro: advances_moved_trans)
    qed (use False st in auto)
  qed
qed

lemma confined_pb_decode_noinit:
  assumes "plain_message fds" "msg_depth fds \<le> n"
  shows "confined (pb_decode_noinit n env fds a) (covers (footprint fds a))"
  using assms
proof (induction n arbitrary: fds a)
  case 0
  then show ?case by (simp add: msg_depth_def)
next
  case (Suc n)
  have ready: "field_ready n (pb_decode_noinit n env) (cur it)" if "good_iter fds a it" for it
  proof -
    have pl: "plain_field (cur it)" by (rule plain_message_cur [OF Suc.prems(1) that])
    have d: "msg_depth (submsg_fields (ptr (cur it))) \<le> n \<or> cur it = PB_LAST_FIELD"
      using that
    proof (cases rule: good_iter_cases)
      case (field i)
      then have "cur it \<in> set fds" using nfields_le [of fds] by simp
      from msg_depth_sub [OF this] show ?thesis using Suc.prems(2) by simp
    next
      case empty
      then show ?thesis using Suc.prems(1) by (simp add: plain_message_def)
    qed
    moreover have "plain_message (submsg_fields (ptr (cur it)))"
      using pl plain_field.simps [of "cur it"] by (simp add: plain_message_def)
    moreover have "PB_LTYPE (type PB_LAST_FIELD) \<noteq> PB_LTYPE_SUBMESSAGE"
      "msg_depth (submsg_fields (ptr PB_LAST_FIELD)) \<le> Suc n"
      by (simp_all add: PB_LAST_FIELD_def PB_LTYPE_def submsg_fields_def msg_depth_def)
    ultimately show ?thesis
      using pl Suc.IH by (auto simp: field_ready_def)
  qed
  show ?case
  proof
    fix s :: "'a pb_istream" and m :: mem
    assume s: "src_ok (source s)"
    have g: "good_iter fds a (iter (init_locals fds a))"
      by (auto simp: init_locals_def good_iter_def intro: exI [of _ 0])
    from decode_loop_total [OF Suc.prems(1) ready g s lessI, of env m] obtain b l' s' m' where
      "decode_loop (Suc (unat (bytes_left s))) n env (pb_decode_noinit n env) (init_locals fds a) (s, m)
        = Some (b, l', s', m')" "moved b s s'"
      "\<forall>x. \<not> covers (footprint fds a) x \<longrightarrow> m' x = m x" by blast
    then show "\<exists>ok s' m'. pb_decode_noinit (Suc n) env fds a (s, m) = Some (ok, s', m') \<and> moved ok s s'
        \<and> (\<forall>x. \<not> covers (footprint fds a) x \<longrightarrow> m' x = m x)"
      by (cases b) (auto simp: is_fail_def moved_def advances_within simp del: decode_loop.simps)
  qed
qed

lemma confined_pb_decode:
  assumes "plain_message fds" "msg_depth fds \<le> n"
  shows "confined (pb_decode n env fds a) (covers (footprint fds a))"
  unfolding pb_decode_def using assms
  by (intro confined_decode_init confined_pb_decode_noinit) (auto simp: plain_message_def)

lemma confined_pb_decode_delimited:
  assumes "plain_message fds" "msg_depth fds \<le> n"
  shows "confined (pb_decode_delimited n env fds a) (covers (footprint fds a))"
  unfolding pb_decode_delimited_def by (intro confined_on_substream confined_pb_decode assms)

end
