(* ===== verification/PbExamples.thy ===== *)
theory PbExamples
  imports PbRoundtrip PbWire PbDecodeSafe
begin

text \<open>
  Concrete message types and structs, and the rewrite rules (\<open>pb_eval\<close>) that compute the
  definitions of the nanopb theories on them. The witnesses of the properties use both.
\<close>

text \<open>
  A message type with a required \<^verbatim>\<open>uint32\<close> (tag 1) at offset 0 and a repeated string of
  at most two entries of 4 bytes (tag 2) at offset 8, whose count is at offset 4.
\<close>

definition ex_fields :: "pb_field list" where
  "ex_fields =
     [PB_REQUIRED_STATIC 1 4 0 PB_LTYPE_UVARINT Ptr_null,
      PB_REPEATED_STATIC 2 4 2 4 (-4) PB_LTYPE_STRING Ptr_null,
      PB_LAST_FIELD]"

text \<open>The struct \<open>{150, 1, {"A", ""}}\<close> at address 100.\<close>

definition ex_mem :: mem where
  "ex_mem = store_bytes (\<lambda>_. 0) 100 [150, 0, 0, 0, 1, 0, 0, 0, 65, 0, 0, 0]"

definition ex_enc_env :: "unit enc_env" where
  "ex_enc_env =
     \<lparr>encode_fn = (\<lambda>_ _ _ _ _. None), ext_encode_fn = (\<lambda>_ _ _ _. None),
      enc_ext_type = (\<lambda>_. \<lparr>ext_decode = 0, ext_encode = 0, ext_arg = PB_LAST_FIELD\<rparr>)\<rparr>"

definition ex_dec_env :: "unit dec_env" where
  "ex_dec_env =
     \<lparr>decode_fn = (\<lambda>_ _ _ _. None), ext_decode_fn = (\<lambda>_ _ _ _ _. None),
      dec_ext_type = (\<lambda>_. \<lparr>ext_decode = 0, ext_encode = 0, ext_arg = PB_LAST_FIELD\<rparr>),
      stack_word = (\<lambda>_. 0), shift32 = 0\<rparr>"

lemma eval_numeral:
  "load_bytes m a (numeral k) = m a # load_bytes m (a + 1) (pred_numeral k)"
  "le_bytes (numeral k) w = ucast w # le_bytes (pred_numeral k) (drop_bit 8 w)"
  "array_addrs d (numeral k) p = p # array_addrs d (pred_numeral k) (p + d)"
  "str_len (numeral k) m p = (if m p = 0 then 0 else Suc (str_len (pred_numeral k) m (p + 1)))"
  by (simp_all add: numeral_eq_Suc)

lemma iter_states_n_numeral:
  "iter_states_n (numeral k) it =
     (case pb_field_iter_next it of (ok, it') \<Rightarrow>
        if ok then it # iter_states_n (pred_numeral k) it' else [it])"
  by (simp add: numeral_eq_Suc)

lemmas pb_eval =
  eval_numeral iter_states_n_numeral
  ex_fields_def ex_mem_def PB_REQUIRED_STATIC_def PB_REPEATED_STATIC_def PB_LAST_FIELD_def
  field_at_def submsg_fields_def PB_HTYPE_def PB_ATYPE_def PB_LTYPE_def PB_SIZE_MAX_def
  message_iters_def pb_field_iter_begin_def iter_states_def pb_field_iter_next_def cur_def
  load32_def load64_def load_signed_def load_unsigned_def
  msg_depth_def field_depth.simps

lemma ex_iters:
  "message_iters ex_fields 100 =
     [\<lparr>start = ex_fields, pos = 0, required_field_index = 0, dest_struct = 100, pData = 100,
       pSize = 100\<rparr>,
      \<lparr>start = ex_fields, pos = 1, required_field_index = 1, dest_struct = 100, pData = 108,
       pSize = 104\<rparr>]"
  by (simp add: pb_eval Let_def)

lemma ex_wire: "wire_message ex_mem ex_fields 100 = Some [8, 150, 1, 18, 1, 65]"
  unfolding wire_message.simps [of _ ex_fields] ex_iters list.map
  by (simp add: wire_field_def wire_tagged_def wire_type_of_def wire_item_def wire_array_def
      wire_concat_def wire_cstring_def wire_string_def uvarint.simps wire_tag_def
      PB_REQUIRED_STATIC_def PB_REPEATED_STATIC_def field_at_def cur_def PB_LTYPE_def
      PB_HTYPE_def PB_ATYPE_def ex_mem_def ex_fields_def load32_def load_unsigned_def eval_numeral Let_def)

lemma ex_plain: "plain_message ex_fields" "msg_depth ex_fields \<le> 2"
  by (simp_all add: pb_eval plain_message_def plain_field.simps nfields_def PB_LTYPES_COUNT_def)

end
