(* ===== verification/PbRequired.thy ===== *)
theory PbRequired
  imports PbDecodeSafe
begin

text \<open>
  The check for required fields at the end of \<open>pb_decode_noinit\<close>. The rounds of the main loop
  are given as a step relation whose label is the list of the fields that were found and decoded;
  the bit set \<open>fields_seen\<close> is shown to be exactly the set of required fields in that list, and
  the final comparison to succeed exactly when none is missing, provided that the number of
  required fields is below 64 and no multiple of 32. For 32 and for 64 required fields the verdict
  on a complete message is shown to hang on values that the C standard leaves open.
\<close>

definition is_required :: "pb_field \<Rightarrow> bool" where
  "is_required f \<longleftrightarrow> PB_HTYPE (type f) = PB_HTYPE_REQUIRED"

text \<open>The number of required fields among the first \<open>i\<close>.\<close>

definition req_before :: "pb_field list \<Rightarrow> nat \<Rightarrow> nat" where
  "req_before fds i = length (filter is_required (take i fds))"

definition seen_bit :: "u32 list \<Rightarrow> nat \<Rightarrow> bool" where
  "seen_bit seen i \<longleftrightarrow> bit (seen ! (i div 32)) (i mod 32)"

text \<open>The rounds of the loop that end in \<open>continue\<close>, labelled with the fields they decode.\<close>

inductive rounds ::
  "nat \<Rightarrow> 's dec_env \<Rightarrow> 's msg_decoder \<Rightarrow> locals \<Rightarrow> 's dst \<Rightarrow> pb_field_iter list \<Rightarrow> locals \<Rightarrow> 's dst \<Rightarrow> bool"
  for n env dec where
  rounds_none: "rounds n env dec l d [] l d"
| rounds_found:
    "pb_decode_tag (fst d) = ((True, wt, tg, eof), s) \<Longrightarrow>
     pb_field_iter_find (iter l) tg = (True, it) \<Longrightarrow>
     decode_field n env dec wt it (s, snd d) = Some (True, d1) \<Longrightarrow>
     rounds n env dec (l\<lparr>iter := it, fields_seen := mark_seen it (fields_seen l)\<rparr>) d1 its l' d' \<Longrightarrow>
     rounds n env dec l d (it # its) l' d'"
| rounds_unknown:
    "pb_decode_tag (fst d) = ((True, wt, tg, eof), s) \<Longrightarrow>
     pb_field_iter_find (iter l) tg = (False, it) \<Longrightarrow>
     unknown_field n env dec tg wt (l\<lparr>iter := it\<rparr>) (s, snd d) = Some (Continue, l1, d1) \<Longrightarrow>
     rounds n env dec l1 d1 its l' d' \<Longrightarrow>
     rounds n env dec l d its l' d'"

subsection \<open>Counting required fields\<close>

lemma req_before_Suc:
  "i < length fds \<Longrightarrow> req_before fds (Suc i) = req_before fds i + (if is_required (fds ! i) then 1 else 0)"
  by (simp add: req_before_def take_Suc_conv_app_nth)

lemma req_before_mono: "i \<le> j \<Longrightarrow> req_before fds i \<le> req_before fds j"
proof -
  assume "i \<le> j"
  then obtain k where "j = i + k" by (auto simp: le_iff_add)
  then show ?thesis by (simp add: req_before_def take_add)
qed

lemma req_before_strict:
  assumes "i < j" "j \<le> length fds" "is_required (fds ! i)"
  shows "req_before fds i < req_before fds j"
proof -
  have "req_before fds i < req_before fds (Suc i)" using assms by (simp add: req_before_Suc)
  also have "\<dots> \<le> req_before fds j" using assms(1) by (intro req_before_mono) simp
  finally show ?thesis .
qed

lemma required_index_next:
  assumes a: "tag (cur it) \<noteq> 0" and f: "tag (cur (it\<lparr>pos := Suc (pos it)\<rparr>)) \<noteq> 0"
  shows "required_field_index (snd (pb_field_iter_next it)) =
    required_field_index it + (if is_required (cur it) then 1 else 0)"
proof (cases "PB_HTYPE (type (cur it)) = PB_HTYPE_REQUIRED")
  case True
  then have "PB_HTYPE (type (cur it)) \<noteq> PB_HTYPE_ONEOF" by simp
  then show ?thesis using True a f
    unfolding pb_field_iter_next_def Let_def is_required_def
    by (simp only: if_False if_True simp_thms snd_conv) simp
next
  case False
  then show ?thesis using a f
    unfolding pb_field_iter_next_def Let_def is_required_def
    by (simp only: if_False if_True simp_thms snd_conv pb_field_iter.simps split: if_split) simp
qed

lemma required_index_iter_at:
  "i < nfields fds \<Longrightarrow> required_field_index (iter_at fds d i) = of_nat (req_before fds i)"
proof (induction i)
  case 0
  then show ?case by (simp add: req_before_def pb_field_iter_begin_def Let_def)
next
  case (Suc i)
  then have i: "i < nfields fds" "i < length fds" using nfields_le [of fds] by simp_all
  have "tag (cur (iter_at fds d i)) \<noteq> 0"
    using tag_before_end [OF i(1)] i by (simp add: field_at_def)
  moreover have "tag (cur ((iter_at fds d i)\<lparr>pos := Suc (pos (iter_at fds d i))\<rparr>)) \<noteq> 0"
    using tag_before_end [OF Suc.prems] iter_at_simps [OF i(1), of d] by (simp add: cur_def)
  ultimately show ?case
    using Suc.IH i by (simp add: required_index_next req_before_Suc)
qed

lemma req_field_count_good:
  assumes "good_iter fds d it"
  shows "req_field_count it = of_nat (req_before fds (nfields fds))"
  using assms
proof (cases rule: good_iter_cases)
  case (field i)
  let ?j = "nfields fds - 1"
  have j: "?j < nfields fds" "Suc ?j = nfields fds" "?j < length fds"
    using field(1) nfields_le [of fds] by auto
  have "last (iter_states it) = iter_at fds d ?j"
    using field iter_states_at [OF field(1), of d] by (simp add: last_map del: iter_at.simps)
  moreover have "snd (pb_field_iter_next (iter_at fds d ?j)) = iter_at fds d 0"
    using j by (simp add: next_iter_at del: iter_at.simps)
  moreover have "tag (cur (iter_at fds d 0)) \<noteq> 0"
    using tag_before_end [of 0 fds] j by (simp add: cur_def)
  moreover have "req_before fds (nfields fds) =
      req_before fds ?j + (if is_required (fds ! ?j) then 1 else 0)"
    using req_before_Suc [OF j(3)] j(2) by simp
  ultimately show ?thesis
    using j required_index_iter_at [OF j(1), of d]
    by (simp add: req_field_count_def is_required_def del: iter_at.simps)
next
  case empty
  then have "tag (cur it) = 0" using tag_at_end [of fds] by simp
  then have n: "pb_field_iter_next it = (False, it)" by (simp add: pb_field_iter_next_def)
  moreover have "iter_states it = [it]"
    using n by (cases "length (start it)") (simp_all add: iter_states_def)
  moreover have "required_field_index it = 0" using empty by (simp add: pb_field_iter_begin_def Let_def)
  ultimately show ?thesis
    using empty \<open>tag (cur it) = 0\<close> by (simp add: req_field_count_def req_before_def)
qed

subsection \<open>The bit set\<close>

lemma unat_word_index:
  "unat (drop_bit 5 (w :: u32)) = unat w div 32" "unat ((w :: u32) AND 31) = unat w mod 32"
proof -
  show "unat (drop_bit 5 w) = unat w div 32" by (simp add: drop_bit_eq_div unat_div_distrib)
  have "w AND 31 = take_bit 5 w" by (simp add: take_bit_eq_mask mask_eq_exp_minus_1)
  then show "unat (w AND 31) = unat w mod 32"
    by (simp only: unsigned_take_bit_eq) (simp add: take_bit_eq_mod)
qed

lemma length_mark_seen [simp]: "length (mark_seen it seen) = length seen"
  by (simp add: mark_seen_def Let_def)

lemma mark_seen_bit:
  assumes "length seen = 2" "j < 64" "is_required (cur it) \<Longrightarrow> unat (required_field_index it) < 64"
  shows "seen_bit (mark_seen it seen) j \<longleftrightarrow>
    (is_required (cur it) \<and> j = unat (required_field_index it)) \<or> seen_bit seen j"
proof (cases "is_required (cur it)")
  case True
  let ?r = "unat (required_field_index it)"
  have "required_field_index it < PB_MAX_REQUIRED_FIELDS"
    using assms(3) [OF True] by (simp add: PB_MAX_REQUIRED_FIELDS_def word_less_nat_alt)
  then have m: "mark_seen it seen = seen[?r div 32 := (seen ! (?r div 32)) OR push_bit (?r mod 32) 1]"
    using True by (simp add: mark_seen_def is_required_def Let_def unat_word_index)
  have j: "j mod 32 < 32" "?r mod 32 < 32" "?r div 32 < length seen" using assms(1,2) assms(3) [OF True] by auto
  have "j = ?r \<longleftrightarrow> j div 32 = ?r div 32 \<and> j mod 32 = ?r mod 32" by (metis div_mult_mod_eq)
  then show ?thesis
    using j True by (auto simp: seen_bit_def m nth_list_update bit_or_iff bit_push_bit_iff bit_1_iff
        bit_exp_iff possible_bit_word)
next
  case False
  then show ?thesis by (simp add: mark_seen_def is_required_def)
qed

lemma full_word_iff: "(w :: u32) = -1 \<longleftrightarrow> (\<forall>k < 32. bit w k)"
  by (auto simp: bit_eq_iff possible_bit_word)

lemma low_bits_iff:
  assumes "unat n mod 32 \<noteq> 0"
  shows "w = low_bits env n \<longleftrightarrow> (\<forall>k < 32. bit w k \<longleftrightarrow> k < unat n mod 32)"
proof -
  have "n AND 31 \<noteq> 0" using assms unat_word_index(2) [of n] by auto
  then have "low_bits env n = drop_bit (32 - unat n mod 32) (-1)"
    by (simp add: low_bits_def unat_word_index)
  moreover have "bit (drop_bit (32 - unat n mod 32) (-1 :: u32)) k \<longleftrightarrow> k < unat n mod 32" if "k < 32" for k
    using that assms by (auto simp: bit_drop_bit_eq bit_mask_iff possible_bit_word)
  ultimately show ?thesis
    by (auto simp: bit_eq_iff possible_bit_word)
qed

lemma full_words_iff: "(\<forall>i < q. seen ! i = (-1 :: u32)) \<longleftrightarrow> (\<forall>j < 32 * q. seen_bit seen j)"
proof -
  have "seen ! i = -1 \<longleftrightarrow> (\<forall>k < 32. seen_bit seen (32 * i + k))" for i
    by (simp add: full_word_iff seen_bit_def)
  moreover have "(\<forall>i < q. \<forall>k < 32. seen_bit seen (32 * i + k)) \<longleftrightarrow> (\<forall>j < 32 * q. seen_bit seen j)"
  proof safe
    fix j assume a: "\<forall>i < q. \<forall>k < 32. seen_bit seen (32 * i + k)" and "j < 32 * q"
    then have "j div 32 < q" by simp
    from a [rule_format, OF this, of "j mod 32"] show "seen_bit seen j" by simp
  next
    fix i k assume "\<forall>j < 32 * q. seen_bit seen j" "i < q" "(k :: nat) < 32"
    then show "seen_bit seen (32 * i + k)" by simp
  qed
  ultimately show ?thesis by simp
qed

lemma all_less_add: "(\<forall>j < a + b. P j) \<longleftrightarrow> (\<forall>j < a. P j) \<and> (\<forall>k < b. P (a + k :: nat))"
proof safe
  fix j assume "\<forall>j < a. P j" "\<forall>k < b. P (a + k)" "j < a + b"
  then show "P j" by (cases "j < a") (auto simp: not_less le_iff_add)
qed simp_all

lemma required_ok_iff:
  assumes len: "length seen = 2" and c: "unat count < 64" "unat count mod 32 \<noteq> 0"
    and hi: "\<And>j. unat count \<le> j \<Longrightarrow> j < 64 \<Longrightarrow> \<not> seen_bit seen j"
  shows "required_ok env seen count \<longleftrightarrow> (\<forall>j < unat count. seen_bit seen j)"
proof -
  let ?q = "unat count div 32" and ?r = "unat count mod 32"
  have q: "?q < 2" and cq: "unat count = 32 * ?q + ?r" and nz: "count \<noteq> 0" using c by auto
  have w: "seen_word env seen i = seen ! i" if "i \<le> ?q" for i
    using that q len by (simp add: seen_word_def)
  have lst: "seen ! ?q = low_bits env count \<longleftrightarrow> (\<forall>k < ?r. seen_bit seen (32 * ?q + k))"
  proof -
    have "bit (seen ! ?q) k \<longleftrightarrow> seen_bit seen (32 * ?q + k)" if "k < 32" for k
      using that by (simp add: seen_bit_def)
    moreover have "\<not> seen_bit seen (32 * ?q + k)" if "?r \<le> k" "k < 32" for k
      by (rule hi) (use that q cq in linarith)+
    ultimately show ?thesis
      using c(2) mod_less_divisor [of 32 "unat count"] less_trans [of _ ?r 32]
      by (simp add: low_bits_iff) (meson not_le)
  qed
  have fst: "(\<forall>i < ?q. seen ! i = -1) \<longleftrightarrow> (\<forall>j < 32 * ?q. seen_bit seen j)"
    by (rule full_words_iff)
  have "(\<forall>j < unat count. seen_bit seen j) \<longleftrightarrow>
      (\<forall>j < 32 * ?q. seen_bit seen j) \<and> (\<forall>k < ?r. seen_bit seen (32 * ?q + k))"
    by (subst cq) (rule all_less_add)
  then show ?thesis
    using nz w lst fst q
    by (auto simp: required_ok_def unat_word_index list_all_iff)
qed

subsection \<open>The rounds of the loop\<close>

lemma unknown_field_locals:
  assumes "unknown_field n env dec tg wt l d = Some (c, l', d')"
  shows "fields_seen l' = fields_seen l"
    and "good_iter fds a (iter l) \<Longrightarrow> good_iter fds a (iter l')"
proof -
  obtain found it where f: "find_extension_field (iter l) = (found, it)" by (cases "find_extension_field (iter l)")
  then have g: "good_iter fds a (iter l) \<Longrightarrow> good_iter fds a it"
    unfolding find_extension_field_def by (blast dest: good_iter_search)
  have "l' = l \<or> l' = l\<lparr>iter := it, extension_range_start := (if found then tag (cur it) else -1)\<rparr>"
    using assms f by (auto simp: unknown_field_def Let_def split: if_splits prod.splits option.splits bool.splits)
  then show "fields_seen l' = fields_seen l" "good_iter fds a (iter l) \<Longrightarrow> good_iter fds a (iter l')"
    using g by auto
qed

lemma rounds_seen: "rounds n env dec l d its l' d' \<Longrightarrow> fields_seen l' = fold mark_seen its (fields_seen l)"
  by (induction rule: rounds.induct) (auto dest: unknown_field_locals(1))

lemma rounds_good:
  "rounds n env dec l d its l' d' \<Longrightarrow> good_iter fds a (iter l) \<Longrightarrow>
   good_iter fds a (iter l') \<and> (\<forall>it \<in> set its. good_iter fds a it)"
proof (induction rule: rounds.induct)
  case (rounds_found d wt tg eof s l it d1 its l' d')
  then have "good_iter fds a it"
    using good_iter_search unfolding pb_field_iter_find_def by blast
  then show ?case using rounds_found by simp
next
  case (rounds_unknown d wt tg eof s l it l1 d1 its l' d')
  then have "good_iter fds a it"
    using good_iter_search unfolding pb_field_iter_find_def by blast
  then show ?case using rounds_unknown unknown_field_locals(2) by fastforce
qed simp

lemma decode_step_cases:
  assumes "decode_step n env dec l d = Some (c, l', d')"
  obtains (stop) "c \<noteq> Continue" "c = Break \<Longrightarrow> l' = l"
  | (found) wt tg eof s it where "c = Continue" "pb_decode_tag (fst d) = ((True, wt, tg, eof), s)"
      "pb_field_iter_find (iter l) tg = (True, it)" "decode_field n env dec wt it (s, snd d) = Some (True, d')"
      "l' = l\<lparr>iter := it, fields_seen := mark_seen it (fields_seen l)\<rparr>"
  | (unknown) wt tg eof s it where "c = Continue" "pb_decode_tag (fst d) = ((True, wt, tg, eof), s)"
      "pb_field_iter_find (iter l) tg = (False, it)"
      "unknown_field n env dec tg wt (l\<lparr>iter := it\<rparr>) (s, snd d) = Some (Continue, l', d')"
proof -
  obtain ok wt tg eof s where t: "pb_decode_tag (fst d) = ((ok, wt, tg, eof), s)"
    by (cases "pb_decode_tag (fst d)") auto
  obtain f it where i: "pb_field_iter_find (iter l) tg = (f, it)" by (cases "pb_field_iter_find (iter l) tg")
  have nb: "unknown_field n env dec tg wt l1 d1 \<noteq> Some (Break, l', d')" for l1 d1
    by (auto simp: unknown_field_def Let_def split: if_splits prod.splits option.splits bool.splits)
  show ?thesis
  proof (cases "c = Continue")
    case False
    then show ?thesis
      using assms t i nb by (intro stop) (auto simp: decode_step_def Let_def split: if_splits)
  next
    case True
    then have "ok" using assms t by (auto simp: decode_step_def Let_def split: if_splits)
    then show ?thesis
      using assms t i True found unknown
      by (cases f) (auto simp: decode_step_def Let_def split: if_splits)
  qed
qed

lemma decode_loop_rounds:
  "decode_loop k n env dec l d = Some (True, l', d') \<Longrightarrow> \<exists>its d1. rounds n env dec l d its l' d1"
proof (induction k arbitrary: l d)
  case 0
  then show ?case by simp
next
  case (Suc k)
  show ?case
  proof (cases "bytes_left (fst d) = 0")
    case True
    then have "l' = l" using Suc.prems by simp
    then show ?thesis using rounds_none by blast
  next
    case False
    then obtain c l1 d1 where s: "decode_step n env dec l d = Some (c, l1, d1)"
      using Suc.prems by (auto split: option.splits)
    then show ?thesis
    proof (cases rule: decode_step_cases)
      case stop
      then have "l' = l" using False Suc.prems s by (cases c) auto
      then show ?thesis using rounds_none by blast
    next
      case (found wt tg eof s it)
      then have "decode_loop k n env dec l1 d1 = Some (True, l', d')" using False Suc.prems s by simp
      from Suc.IH [OF this] found show ?thesis by (blast intro: rounds_found)
    next
      case (unknown wt tg eof s it)
      then have "decode_loop k n env dec l1 d1 = Some (True, l', d')" using False Suc.prems s by simp
      from Suc.IH [OF this] unknown show ?thesis by (blast intro: rounds_unknown)
    qed
  qed
qed

lemma fold_mark_seen_bit:
  assumes "length seen = 2" "j < 64" "\<And>it. it \<in> set its \<Longrightarrow> is_required (cur it) \<Longrightarrow> unat (required_field_index it) < 64"
  shows "seen_bit (fold mark_seen its seen) j \<longleftrightarrow>
    seen_bit seen j \<or> (\<exists>it \<in> set its. is_required (cur it) \<and> j = unat (required_field_index it))"
  using assms by (induction its arbitrary: seen) (auto simp: mark_seen_bit)

lemma length_fold_mark_seen [simp]: "length (fold mark_seen its seen) = length seen"
  by (induction its arbitrary: seen) auto

subsection \<open>The check\<close>

lemma required_index_unat:
  assumes "i < nfields fds" "req_before fds (nfields fds) \<le> 64"
  shows "unat (required_field_index (iter_at fds a i)) = req_before fds i"
    and "is_required (fds ! i) \<Longrightarrow> req_before fds i < 64"
proof -
  have "req_before fds i \<le> req_before fds (nfields fds)" using assms(1) by (intro req_before_mono) simp
  then show "unat (required_field_index (iter_at fds a i)) = req_before fds i"
    using required_index_iter_at [OF assms(1), of a] assms(2) by (simp add: unat_of_nat)
  show "is_required (fds ! i) \<Longrightarrow> req_before fds i < 64"
    using req_before_strict [OF assms(1) nfields_le] assms(2) by fastforce
qed

lemma req_before_inj:
  assumes "i < nfields fds" "j < nfields fds" "is_required (fds ! i)" "is_required (fds ! j)"
    and "req_before fds i = req_before fds j"
  shows "i = j"
  using assms req_before_strict [of i j fds] req_before_strict [of j i fds] nfields_le [of fds]
  by (cases i j rule: linorder_cases) auto

text \<open>Every number below the count is the index of some required field.\<close>

lemma req_before_surj:
  "j < req_before fds k \<Longrightarrow> k \<le> length fds \<Longrightarrow>
   \<exists>i < k. is_required (fds ! i) \<and> req_before fds i = j"
proof (induction k)
  case 0
  then show ?case by (simp add: req_before_def)
next
  case (Suc k)
  then have s: "req_before fds (Suc k) = req_before fds k + (if is_required (fds ! k) then 1 else 0)"
    by (intro req_before_Suc) simp
  show ?case
  proof (cases "j < req_before fds k")
    case True
    then show ?thesis using Suc less_Suc_eq by fastforce
  next
    case False
    then have "is_required (fds ! k)" "req_before fds k = j" using s Suc.prems by (auto split: if_splits)
    then show ?thesis by blast
  qed
qed

lemma all_seen_iff:
  fixes a :: addr
  assumes its: "\<And>it. it \<in> set its \<Longrightarrow> good_iter fds a it" and c: "req_before fds (nfields fds) \<le> 64"
    and pos: "0 < nfields fds" and seen: "seen = fold mark_seen its [0, 0]"
  shows "(\<forall>j < req_before fds (nfields fds). seen_bit seen j) \<longleftrightarrow>
      (\<forall>i < nfields fds. is_required (fds ! i) \<longrightarrow> iter_at fds a i \<in> set its)"
    and "req_before fds (nfields fds) \<le> j \<Longrightarrow> j < 64 \<Longrightarrow> \<not> seen_bit seen j"
proof -
  have at: "\<exists>i < nfields fds. it = iter_at fds a i" if "it \<in> set its" for it
    using its [OF that] pos by (cases rule: good_iter_cases) auto
  have bit: "seen_bit seen j \<longleftrightarrow> (\<exists>i < nfields fds. iter_at fds a i \<in> set its \<and> is_required (fds ! i)
      \<and> j = req_before fds i)" if "j < 64" for j
  proof -
    have "unat (required_field_index it) < 64" if "it \<in> set its" "is_required (cur it)" for it
      using at [OF that(1)] that(2) required_index_unat [OF _ c] by (metis cur_iter_at)
    then have "seen_bit seen j \<longleftrightarrow> seen_bit [0, 0] j \<or>
        (\<exists>it \<in> set its. is_required (cur it) \<and> j = unat (required_field_index it))"
      unfolding seen using that by (intro fold_mark_seen_bit) auto
    moreover have "\<not> seen_bit [0, 0] j"
      using that less_2_cases [of "j div 32"] by (auto simp: seen_bit_def less_mult_imp_div_less)
    ultimately show ?thesis
      using at required_index_unat(1) [where a = a, OF _ c] by (metis cur_iter_at)
  qed
  show "(\<forall>j < req_before fds (nfields fds). seen_bit seen j) \<longleftrightarrow>
      (\<forall>i < nfields fds. is_required (fds ! i) \<longrightarrow> iter_at fds a i \<in> set its)"
  proof safe
    fix i assume all: "\<forall>j < req_before fds (nfields fds). seen_bit seen j"
      and i: "i < nfields fds" "is_required (fds ! i)"
    then have "req_before fds i < req_before fds (nfields fds)"
      by (intro req_before_strict) (auto simp: nfields_le)
    then show "iter_at fds a i \<in> set its"
      using all bit [of "req_before fds i"] c i req_before_inj by (metis less_le_trans)
  next
    fix j assume all: "\<forall>i < nfields fds. is_required (fds ! i) \<longrightarrow> iter_at fds a i \<in> set its"
      and j: "j < req_before fds (nfields fds)"
    then show "seen_bit seen j"
      using req_before_surj [OF j nfields_le] bit [of j] c by auto
  qed
  show "req_before fds (nfields fds) \<le> j \<Longrightarrow> j < 64 \<Longrightarrow> \<not> seen_bit seen j"
    using bit [of j] req_before_strict [of _ "nfields fds" fds] nfields_le [of fds] by fastforce
qed

lemma required_fields_iff:
  assumes c: "req_before fds (nfields fds) < 64" "req_before fds (nfields fds) mod 32 \<noteq> 0"
    and r: "rounds n env dec (init_locals fds a) d its l d1"
  shows "required_ok env' (fields_seen l) (req_field_count (iter l)) \<longleftrightarrow>
    (\<forall>i < nfields fds. is_required (fds ! i) \<longrightarrow> iter_at fds a i \<in> set its)"
proof -
  have pos: "0 < nfields fds" using c(2) by (cases "nfields fds") (auto simp: req_before_def)
  have "good_iter fds a (iter (init_locals fds a))"
    by (auto simp: init_locals_def good_iter_def intro: exI [of _ 0])
  note g = rounds_good [OF r this]
  have s: "fields_seen l = fold mark_seen its [0, 0]"
    using rounds_seen [OF r] by (simp add: init_locals_def)
  have u: "unat (req_field_count (iter l)) = req_before fds (nfields fds)"
    using req_field_count_good [of fds a "iter l"] g c(1) by (simp add: unat_of_nat)
  note all = all_seen_iff [OF _ less_imp_le [OF c(1)] pos s, of a]
  show ?thesis
    using g all required_ok_iff [of "fields_seen l" "req_field_count (iter l)" env'] c
    by (simp add: u s)
qed

text \<open>
  With 32 or 64 required fields no bits remain for the last comparison: its right side is a shift by
  the width of the word, and with 64 its left side is an element behind the array.
\<close>

lemma required_full_words:
  assumes c: "req_before fds (nfields fds) = 32 * q" "q = 1 \<or> q = 2"
    and r: "rounds n env dec (init_locals fds a) d its l d1"
  shows "required_ok env' (fields_seen l) (req_field_count (iter l)) \<longleftrightarrow>
    (\<forall>i < nfields fds. is_required (fds ! i) \<longrightarrow> iter_at fds a i \<in> set its) \<and>
    (if q = 1 then 0 else stack_word env' 2) = shift32 env'"
proof -
  let ?c = "req_field_count (iter l)"
  have le: "req_before fds (nfields fds) \<le> 64" using c by auto
  have pos: "0 < nfields fds" using c by (cases "nfields fds") (auto simp: req_before_def)
  have "good_iter fds a (iter (init_locals fds a))"
    by (auto simp: init_locals_def good_iter_def intro: exI [of _ 0])
  note g = rounds_good [OF r this]
  have s: "fields_seen l = fold mark_seen its [0, 0]"
    using rounds_seen [OF r] by (simp add: init_locals_def)
  have u: "unat ?c = 32 * q"
    using req_field_count_good [of fds a "iter l"] g c by (auto simp: unat_of_nat)
  note all = all_seen_iff [OF _ le pos s, of a]
  have len: "length (fields_seen l) = 2" by (simp add: s)
  have words: "list_all (\<lambda>i. seen_word env' (fields_seen l) i = -1) [0..<q] \<longleftrightarrow>
      (\<forall>i < nfields fds. is_required (fds ! i) \<longrightarrow> iter_at fds a i \<in> set its)"
  proof -
    have "list_all (\<lambda>i. seen_word env' (fields_seen l) i = -1) [0..<q] \<longleftrightarrow> (\<forall>i < q. fields_seen l ! i = -1)"
      using c(2) len by (auto simp: list_all_iff seen_word_def)
    then show ?thesis using all(1) g full_words_iff [of q "fields_seen l"] c(1) by simp
  qed
  have "unat (?c AND 31) = 0" using u by (simp add: unat_word_index)
  then have "?c AND 31 = 0" by (simp only: unat_eq_0)
  then have low: "low_bits env' ?c = shift32 env'" by (simp add: low_bits_def)
  have lst: "seen_word env' (fields_seen l) q = (if q = 1 then 0 else stack_word env' 2)"
  proof (cases "q = 1")
    case True
    have "bit (fields_seen l ! 1) k = False" if "k < 32" for k
    proof -
      have "(32 + k) div 32 = 1" "(32 + k) mod 32 = k" using that by simp_all
      then show ?thesis using all(2) [of "32 + k"] g that True c(1) by (simp add: seen_bit_def)
    qed
    then have "fields_seen l ! 1 = 0" by (intro bit_word_eqI) simp
    then show ?thesis using True len by (simp add: seen_word_def)
  next
    case False
    then show ?thesis using c(2) len by (simp add: seen_word_def)
  qed
  have "?c \<noteq> 0" using u c(2) by auto
  then show ?thesis
    using words lst low u by (simp add: required_ok_def unat_word_index)
qed

end
