(* ===== verification/PbSubstream.thy ===== *)
theory PbSubstream
  imports PbRoundtrip PbDecodeSafe
begin

text \<open>
  Substreams on well-formed length-delimited data: a decoder that runs on the substream of a
  length-prefixed body cannot see past the body, and closing the substream leaves the parent
  stream at the first byte behind the body, whatever part of it was read.
\<close>

lemma unat_sub_of_nat: "n \<le> unat k \<Longrightarrow> unat (k - of_nat n) = unat (k :: size_t) - n"
  using unat_bound [of k] by (subst unat_sub) (auto simp: word_le_nat_alt unat_of_nat)

lemma ucast_length:
  "n < 2 ^ 32 \<Longrightarrow> (ucast (of_nat n :: u32) :: size_t) = of_nat n"
  "n < 2 ^ 32 \<Longrightarrow> unat (of_nat n :: u32) = n" "n < 2 ^ 32 \<Longrightarrow> unat (of_nat n :: size_t) = n"
  by (simp_all add: word_unat_eq_iff unat_of_nat unat_ucast_small)

lemma make_substream_wire:
  assumes "length body < 2 ^ 32" "length (wire_string body) \<le> unat k"
  shows "pb_make_string_substream (buf_stream (wire_string body @ rest) k e) =
    (Some (buf_stream (body @ rest) (of_nat (length body)) e),
     buf_stream (body @ rest) (k - of_nat (length (wire_string body))) e)"
proof -
  let ?u = "length (uvarint (length body))"
  note l = ucast_length [OF assms(1)]
  have "unat (k - of_nat ?u) = unat k - ?u"
    using assms(2) by (intro unat_sub_of_nat) (simp add: wire_string_def)
  then have "\<not> k - of_nat ?u < of_nat (length body)"
    using assms(2) l by (simp add: word_less_nat_alt wire_string_def)
  then show ?thesis
    using assms(2) l
    by (simp add: wire_string_def pb_make_string_substream_def varint32_enc_nat [OF l(2)] diff_diff_eq
        buf_stream_def [of _ "of_nat _"] buf_stream_def [of _ "_ - (_ + _)"])
qed

lemma close_substream_exact:
  assumes "advances (buf_stream (body @ rest) (of_nat (length body)) e) sub" "length body < 2 ^ 32"
  shows "pb_close_string_substream s sub = (True, s\<lparr>source := BufRead rest, is_errmsg := is_errmsg sub\<rparr>)"
proof -
  let ?n = "bytes_left sub"
  have n: "unat ?n \<le> length body"
    using assms by (simp add: advances_def word_le_nat_alt ucast_length)
  have "source sub = BufRead (drop (length body - unat ?n) (body @ rest))"
    using assms by (auto simp: advances_def consumed_def ucast_length)
  then obtain n' e' where sub: "sub = buf_stream (drop (length body - unat n') (body @ rest)) n' e'" "n' = ?n"
    by (cases sub) (auto simp: buf_stream_def)
  then have "drop (unat n') (drop (length body - unat n') (body @ rest)) = rest" using n by simp
  then show ?thesis
    by (cases "n' = 0") (simp_all add: sub(1) pb_close_string_substream_def pb_read_null_buf del: drop_append drop_drop)
qed

text \<open>Decoding on the substream and decoding the body alone are the same thing.\<close>

lemma on_substream_wire:
  assumes f: "confined f A" and l: "length body < 2 ^ 32" "length (wire_string body) \<le> unat k"
  shows "bind_read pb_make_string_substream (on_substream f) (buf_stream (wire_string body @ rest) k e, m) =
      Some (True, s', m') \<longleftrightarrow>
    (\<exists>sub. f (buf_stream (body @ rest) (of_nat (length body)) e, m) = Some (True, sub, m') \<and>
       s' = buf_stream rest (k - of_nat (length (wire_string body))) (is_errmsg sub))"
proof -
  let ?sub = "buf_stream (body @ rest) (of_nat (length body)) e"
  have "src_ok (source ?sub)" by (simp add: src_ok_def)
  from confined.runs [OF f this, of m] obtain ok sub m1 where
    r: "f (?sub, m) = Some (ok, sub, m1)" "moved ok ?sub sub" by blast
  have b: "bind_read pb_make_string_substream (on_substream f) (buf_stream (wire_string body @ rest) k e, m) =
      Some (close_substream (buf_stream (body @ rest) (k - of_nat (length (wire_string body))) e) ok (sub, m1))"
    using r by (simp add: bind_read_def on_substream_def make_substream_wire [OF l])
  show ?thesis
  proof (cases ok)
    case True
    then have "advances ?sub sub" using r(2) by (simp add: moved_def)
    from close_substream_exact [OF this l(1)] have
      "close_substream (buf_stream (body @ rest) (k - of_nat (length (wire_string body))) e) ok (sub, m1) =
        (True, buf_stream rest (k - of_nat (length (wire_string body))) (is_errmsg sub), m1)"
      using True by (simp add: close_substream_def)
    then show ?thesis using r(1) True by (auto simp: b)
  next
    case False
    then show ?thesis
      using r(1) by (auto simp: b close_substream_def split: prod.splits if_splits)
  qed
qed

end
