(* ===== verification/Base64.thy ===== *)
theory Base64
  imports Prelude "HOL-Library.Char_ord"
begin

text \<open>
  \<^verbatim>\<open>FirebaseDatabase/.../SocketRocket/fbase64.c\<close>: conversion between bytes and base-64 text.
  A C string is the list of its bytes up to the terminator; the caller's buffer is a list of bytes
  whose length is at least \<open>targsize\<close>. Sizes are natural numbers, as no size comes near
  \<open>2^64\<close>; the index \<open>tarindex\<close> of the decoder is a \<open>u_int\<close> and kept as a 32-bit
  word. The result of both functions is the returned \<open>int\<close> and the new contents of the buffer.
\<close>

subsection \<open>The code\<close>

definition Base64_alphabet :: "byte list" where
  "Base64_alphabet =
     map of_char ''ABCDEFGHIJKLMNOPQRSTUVWXYZabcdefghijklmnopqrstuvwxyz0123456789+/''"

definition Pad64 :: byte where
  "Pad64 = of_char (CHR ''='')"

text \<open>\<open>strchr(Base64, ch)\<close>, as an offset.\<close>

fun strchr :: "byte list \<Rightarrow> byte \<Rightarrow> nat option" where
  "strchr [] ch = None"
| "strchr (c # cs) ch = (if c = ch then Some 0 else map_option Suc (strchr cs ch))"

text \<open>\<open>isspace\<close> in the C locale.\<close>

definition isspace :: "byte \<Rightarrow> bool" where
  "isspace ch \<longleftrightarrow> ch = 32 \<or> (9 \<le> ch \<and> ch \<le> 13)"

definition output0 :: "byte \<Rightarrow> byte" where
  "output0 a = drop_bit 2 a"

definition output1 :: "byte \<Rightarrow> byte \<Rightarrow> byte" where
  "output1 a b = push_bit 4 (a AND 0x03) + drop_bit 4 b"

definition output2 :: "byte \<Rightarrow> byte \<Rightarrow> byte" where
  "output2 b c = push_bit 2 (b AND 0x0f) + drop_bit 6 c"

definition output3 :: "byte \<Rightarrow> byte" where
  "output3 c = c AND 0x3f"

definition b64_char :: "byte \<Rightarrow> byte" where
  "b64_char v = Base64_alphabet ! unat v"

definition put4 :: "byte list \<Rightarrow> nat \<Rightarrow> byte \<Rightarrow> byte \<Rightarrow> byte \<Rightarrow> byte \<Rightarrow> byte list" where
  "put4 target n c0 c1 c2 c3 = target[n := c0, n + 1 := c1, n + 2 := c2, n + 3 := c3]"

text \<open>
  \<open>while (2 < srclength)\<close>: \<open>Inl\<close> is the early return of -1, \<open>Inr\<close> the input that is left,
  the buffer and \<open>datalength\<close>.
\<close>

fun ntop_loop :: "nat \<Rightarrow> byte list \<Rightarrow> byte list \<Rightarrow> nat \<Rightarrow> byte list + byte list \<times> byte list \<times> nat" where
  "ntop_loop targsize (a # b # c # src) target datalength =
     (if datalength + 4 > targsize then Inl target
      else ntop_loop targsize src
             (put4 target datalength (b64_char (output0 a)) (b64_char (output1 a b))
                (b64_char (output2 b c)) (b64_char (output3 c)))
             (datalength + 4))"
| "ntop_loop targsize src target datalength = Inr (src, target, datalength)"

definition ntop_tail :: "nat \<Rightarrow> byte list \<Rightarrow> byte list \<Rightarrow> nat \<Rightarrow> byte list + byte list \<times> nat" where
  "ntop_tail targsize src target datalength =
     (if src = [] then Inr (target, datalength)
      else
        let a = src ! 0; b = (if 1 < length src then src ! 1 else 0)
        in if datalength + 4 > targsize then Inl target
           else Inr (put4 target datalength (b64_char (output0 a)) (b64_char (output1 a b))
                       (if length src = 1 then Pad64 else b64_char (output2 b 0)) Pad64,
                     datalength + 4))"

definition f_b64_ntop :: "byte list \<Rightarrow> byte list \<Rightarrow> nat \<Rightarrow> int \<times> byte list" where
  "f_b64_ntop src target targsize =
     (case ntop_loop targsize src target 0 of
        Inl target \<Rightarrow> (-1, target)
      | Inr (src, target, datalength) \<Rightarrow>
          (case ntop_tail targsize src target datalength of
             Inl target \<Rightarrow> (-1, target)
           | Inr (target, datalength) \<Rightarrow>
               if datalength \<ge> targsize then (-1, target)
               else (sint (of_nat datalength :: u32), target[datalength := 0])))"

text \<open>The locals of \<open>f_b64_pton\<close>; \<open>target\<close> is \<open>None\<close> for a NULL buffer.\<close>

record pton =
  tarindex :: u32
  pstate :: nat
  target :: "byte list option"

text \<open>\<open>target[i] |= v\<close> and \<open>target[i] = v\<close>.\<close>

definition upd_or :: "byte list \<Rightarrow> u32 \<Rightarrow> byte \<Rightarrow> byte list" where
  "upd_or t i v = t[unat i := (t ! unat i) OR v]"

definition upd_set :: "byte list \<Rightarrow> u32 \<Rightarrow> byte \<Rightarrow> byte list" where
  "upd_set t i v = t[unat i := v]"

text \<open>\<open>i >= targsize\<close> for an index computed in 32 bits.\<close>

definition past_end :: "u32 \<Rightarrow> nat \<Rightarrow> bool" where
  "past_end i targsize \<longleftrightarrow> unat i \<ge> targsize"

text \<open>The \<open>switch (state)\<close> of the loop for the digit \<open>v = pos - Base64\<close>.\<close>

definition pton_digit :: "nat \<Rightarrow> byte \<Rightarrow> pton \<Rightarrow> pton option" where
  "pton_digit targsize v p =
     (let i = tarindex p
      in if pstate p = 0
         then (case target p of
                 None \<Rightarrow> Some (p\<lparr>pstate := 1\<rparr>)
               | Some t \<Rightarrow> if past_end i targsize then None
                           else Some (p\<lparr>target := Some (upd_set t i (push_bit 2 v)), pstate := 1\<rparr>))
         else if pstate p = 1
         then (case target p of
                 None \<Rightarrow> Some (p\<lparr>tarindex := i + 1, pstate := 2\<rparr>)
               | Some t \<Rightarrow> if past_end (i + 1) targsize then None
                           else Some (p\<lparr>target := Some (upd_set (upd_or t i (drop_bit 4 v)) (i + 1)
                                          (push_bit 4 (v AND 0x0f))),
                                       tarindex := i + 1, pstate := 2\<rparr>))
         else if pstate p = 2
         then (case target p of
                 None \<Rightarrow> Some (p\<lparr>tarindex := i + 1, pstate := 3\<rparr>)
               | Some t \<Rightarrow> if past_end (i + 1) targsize then None
                           else Some (p\<lparr>target := Some (upd_set (upd_or t i (drop_bit 2 v)) (i + 1)
                                          (push_bit 6 (v AND 0x03))),
                                       tarindex := i + 1, pstate := 3\<rparr>))
         else (case target p of
                 None \<Rightarrow> Some (p\<lparr>tarindex := i + 1, pstate := 0\<rparr>)
               | Some t \<Rightarrow> if past_end i targsize then None
                           else Some (p\<lparr>target := Some (upd_or t i v), tarindex := i + 1, pstate := 0\<rparr>)))"

text \<open>
  \<open>while ((ch = *src++) != 0)\<close>: the flag tells whether the function returned -1 inside the
  loop; otherwise \<open>ch\<close> is the character the loop stopped at and the list is what follows it.
\<close>

datatype pton_loop_result = Return_error pton | Left_loop byte "byte list" pton

fun pton_loop :: "nat \<Rightarrow> byte list \<Rightarrow> pton \<Rightarrow> pton_loop_result" where
  "pton_loop targsize [] p = Left_loop 0 [] p"
| "pton_loop targsize (ch # src) p =
     (if ch = 0 then Left_loop 0 [] p
      else if isspace ch then pton_loop targsize src p
      else if ch = Pad64 then Left_loop ch src p
      else
        (case strchr Base64_alphabet ch of
           None \<Rightarrow> Return_error p
         | Some n \<Rightarrow>
             (case pton_digit targsize (of_nat n) p of
                None \<Rightarrow> Return_error p
              | Some p \<Rightarrow> pton_loop targsize src p)))"

text \<open>\<open>*src++\<close>, and \<open>for (; ch != 0; ch = *src++) if (!isspace(ch)) break;\<close> from \<open>ch\<close> on.\<close>

fun next_char :: "byte list \<Rightarrow> byte \<times> byte list" where
  "next_char [] = (0, [])"
| "next_char (c # cs) = (c, cs)"

fun skip_spaces :: "byte \<Rightarrow> byte list \<Rightarrow> byte \<times> byte list" where
  "skip_spaces ch [] = (if ch \<noteq> 0 \<and> isspace ch then (0, []) else (ch, []))"
| "skip_spaces ch (c # cs) = (if ch \<noteq> 0 \<and> isspace ch then skip_spaces c cs else (ch, c # cs))"

definition pton_trailing :: "byte \<Rightarrow> byte list \<Rightarrow> pton \<Rightarrow> bool" where
  "pton_trailing ch src p \<longleftrightarrow>
     fst (skip_spaces ch src) = 0 \<and>
     (case target p of None \<Rightarrow> True | Some t \<Rightarrow> t ! unat (tarindex p) = 0)"

text \<open>Everything after the loop: whether the end of the text is accepted.\<close>

definition pton_end :: "byte \<Rightarrow> byte list \<Rightarrow> pton \<Rightarrow> bool" where
  "pton_end ch src p =
     (if ch = Pad64
      then
        (case next_char src of (ch, src) \<Rightarrow>
           if pstate p = 0 \<or> pstate p = 1 then False
           else if pstate p = 2
           then
             (case skip_spaces ch src of (ch, src) \<Rightarrow>
                if ch \<noteq> Pad64 then False
                else (case next_char src of (ch, src) \<Rightarrow> pton_trailing ch src p))
           else pton_trailing ch src p)
      else pstate p = 0)"

definition f_b64_pton :: "byte list \<Rightarrow> byte list option \<Rightarrow> nat \<Rightarrow> int \<times> byte list option" where
  "f_b64_pton src t targsize =
     (case pton_loop targsize src \<lparr>tarindex = 0, pstate = 0, target = t\<rparr> of
        Return_error p \<Rightarrow> (-1, target p)
      | Left_loop ch src p \<Rightarrow>
          (if pton_end ch src p then sint (tarindex p) else -1, target p))"

subsection \<open>The format\<close>

fun b64_text :: "byte list \<Rightarrow> byte list" where
  "b64_text [] = []"
| "b64_text [a] = [b64_char (output0 a), b64_char (output1 a 0), Pad64, Pad64]"
| "b64_text [a, b] =
     [b64_char (output0 a), b64_char (output1 a b), b64_char (output2 b 0), Pad64]"
| "b64_text (a # b # c # src) =
     b64_char (output0 a) # b64_char (output1 a b) # b64_char (output2 b c) # b64_char (output3 c)
       # b64_text src"

lemma length_b64_text: "length (b64_text src) = 4 * ((length src + 2) div 3)"
proof (induction src rule: b64_text.induct)
  case (4 a b c src)
  have "(length (a # b # c # src) + 2) div 3 = Suc ((length src + 2) div 3)"
    using div_add_self2 [of 3 "length src + 2"] by simp
  then show ?case using 4 by simp
qed auto

subsection \<open>Encoding\<close>

lemma put4_eq:
  assumes "n + 4 \<le> length t"
  shows "put4 t n c0 c1 c2 c3 = take n t @ [c0, c1, c2, c3] @ drop (n + 4) t"
proof (rule nth_equalityI)
  fix i assume "i < length (put4 t n c0 c1 c2 c3)"
  then have i: "i < length t" by (simp add: put4_def)
  consider "i < n" | "i = n" | "i = n + 1" | "i = n + 2" | "i = n + 3" | "n + 4 \<le> i" by linarith
  then show "put4 t n c0 c1 c2 c3 ! i = (take n t @ [c0, c1, c2, c3] @ drop (n + 4) t) ! i"
    using assms i by cases (auto simp: put4_def nth_append min_def nth_Cons')
qed (use assms in \<open>simp add: put4_def\<close>)

lemma drop_4: "drop (4 + n) (w # x # y # z # xs) = drop n xs" "drop (n + 4) (w # x # y # z # xs) = drop n xs"
  by (simp_all add: numeral_eq_Suc)

definition ntop_run :: "nat \<Rightarrow> byte list \<Rightarrow> byte list \<Rightarrow> nat \<Rightarrow> byte list + byte list \<times> nat" where
  "ntop_run targsize src t d =
     (case ntop_loop targsize src t d of
        Inl t \<Rightarrow> Inl t | Inr (src, t, d) \<Rightarrow> ntop_tail targsize src t d)"

lemma ntop_run_fits:
  assumes "d + length (b64_text src) \<le> targsize" "targsize \<le> length t"
  shows "ntop_run targsize src t d =
    Inr (take d t @ b64_text src @ drop (d + length (b64_text src)) t, d + length (b64_text src))"
  using assms
proof (induction src arbitrary: t d rule: b64_text.induct)
  case (4 a b c src)
  let ?t = "put4 t d (b64_char (output0 a)) (b64_char (output1 a b)) (b64_char (output2 b c))
    (b64_char (output3 c))"
  have "ntop_run targsize (a # b # c # src) t d = ntop_run targsize src ?t (d + 4)"
    using 4(2) by (simp add: ntop_run_def)
  also have "\<dots> = Inr (take (d + 4) ?t @ b64_text src @ drop (d + 4 + length (b64_text src)) ?t,
      d + 4 + length (b64_text src))"
    using 4 by (intro 4(1)) (simp_all add: put4_def)
  finally show ?case using 4(2,3) 
    by (simp add: put4_eq min_def drop_4 add.commute add.left_commute) (simp add: numeral_eq_Suc)
qed (auto simp: ntop_run_def ntop_tail_def put4_eq Let_def numeral_eq_Suc)

lemma ntop_run_full:
  assumes "targsize < d + length (b64_text src)" "d \<le> targsize" "targsize \<le> length t"
  shows "\<exists>t'. ntop_run targsize src t d = Inl t' \<and> length t' = length t \<and> drop targsize t' = drop targsize t"
  using assms
proof (induction src arbitrary: t d rule: b64_text.induct)
  case (4 a b c src)
  let ?t = "put4 t d (b64_char (output0 a)) (b64_char (output1 a b)) (b64_char (output2 b c))
    (b64_char (output3 c))"
  show ?case
  proof (cases "d + 4 > targsize")
    case True
    then show ?thesis by (auto simp: ntop_run_def)
  next
    case False
    then have "ntop_run targsize (a # b # c # src) t d = ntop_run targsize src ?t (d + 4)"
      by (simp add: ntop_run_def)
    moreover have "\<exists>t'. ntop_run targsize src ?t (d + 4) = Inl t' \<and> length t' = length ?t
        \<and> drop targsize t' = drop targsize ?t"
      using 4 False by (intro 4(1)) (simp_all add: put4_def)
    moreover have "drop targsize ?t = drop targsize t" "length ?t = length t"
      using False 4(4) by (simp_all add: put4_def)
    ultimately show ?thesis by simp
  qed
qed (auto simp: ntop_run_def ntop_tail_def Let_def)

lemma f_b64_ntop_run:
  "f_b64_ntop src t targsize =
     (case ntop_run targsize src t 0 of
        Inl t \<Rightarrow> (-1, t)
      | Inr (t, d) \<Rightarrow> if d \<ge> targsize then (-1, t) else (sint (of_nat d :: u32), t[d := 0]))"
  by (simp add: f_b64_ntop_def ntop_run_def split: sum.splits prod.splits)

lemma f_b64_ntop_fits:
  assumes "length (b64_text src) < targsize" "targsize \<le> length t"
  shows "f_b64_ntop src t targsize =
    (sint (of_nat (length (b64_text src)) :: u32),
     b64_text src @ 0 # drop (Suc (length (b64_text src))) t)"
proof -
  have "ntop_run targsize src t 0 = Inr (b64_text src @ drop (length (b64_text src)) t, length (b64_text src))"
    using ntop_run_fits [of 0 src targsize t] assms by simp
  moreover have "(drop (length (b64_text src)) t)[0 := 0] = 0 # drop (Suc (length (b64_text src))) t"
    using assms by (subst Cons_nth_drop_Suc [symmetric]) simp_all
  ultimately show ?thesis
    using assms(1) by (simp add: f_b64_ntop_run list_update_append)
qed

lemma f_b64_ntop_full:
  assumes "targsize \<le> length (b64_text src)" "targsize \<le> length t"
  shows "\<exists>t'. f_b64_ntop src t targsize = (-1, t') \<and> length t' = length t \<and> drop targsize t' = drop targsize t"
proof (cases "targsize = length (b64_text src)")
  case True
  then have "ntop_run targsize src t 0 = Inr (b64_text src @ drop (length (b64_text src)) t, length (b64_text src))"
    using ntop_run_fits [of 0 src targsize t] assms(2) by simp
  then show ?thesis using True assms(2) by (simp add: f_b64_ntop_run)
next
  case False
  then show ?thesis
    using ntop_run_full [of targsize 0 src t] assms by (auto simp: f_b64_ntop_run)
qed

subsection \<open>Decoding\<close>

lemma strchr_distinct: "distinct xs \<Longrightarrow> i < length xs \<Longrightarrow> strchr xs (xs ! i) = Some i"
proof (induction xs arbitrary: i)
  case Nil
  then show ?case by simp
next
  case (Cons x xs)
  show ?case
  proof (cases i)
    case 0
    then show ?thesis by simp
  next
    case (Suc j)
    then have "x \<noteq> xs ! j" using Cons.prems by auto
    then show ?thesis using Suc Cons by simp
  qed
qed

lemma length_alphabet: "length Base64_alphabet = 64"
  by (simp add: Base64_alphabet_def)

lemma distinct_alphabet: "distinct Base64_alphabet"
  by (simp add: Base64_alphabet_def)

lemma alphabet_plain: "c \<in> set Base64_alphabet \<Longrightarrow> c \<noteq> 0 \<and> \<not> isspace c \<and> c \<noteq> Pad64"
  by (auto simp: Base64_alphabet_def isspace_def Pad64_def)

lemma pton_loop_digit:
  assumes "v < 64"
  shows "pton_loop ts (b64_char v # src) p =
    (case pton_digit ts v p of None \<Rightarrow> Return_error p | Some p \<Rightarrow> pton_loop ts src p)"
proof -
  have u: "unat v < 64" using assms by (simp add: word_less_nat_alt)
  then have "b64_char v \<in> set Base64_alphabet" by (simp add: b64_char_def length_alphabet)
  moreover have "strchr Base64_alphabet (b64_char v) = Some (unat v)"
    unfolding b64_char_def by (rule strchr_distinct) (simp_all add: distinct_alphabet length_alphabet u)
  ultimately show ?thesis using alphabet_plain by simp
qed

lemma masks:
  "(x :: byte) AND 0x03 = take_bit 2 x" "(x :: byte) AND 0x0f = take_bit 4 x" "(x :: byte) AND 0x3f = take_bit 6 x"
  by (simp_all add: take_bit_eq_mask mask_eq_exp_minus_1)

lemma output1_bits: "output1 a b = push_bit 4 (take_bit 2 a) OR drop_bit 4 b"
  unfolding output1_def masks
  by (rule disjunctive_add) (auto simp: bit_simps dest: bit_imp_le_length)

lemma output2_bits: "output2 b c = push_bit 2 (take_bit 4 b) OR drop_bit 6 c"
  unfolding output2_def masks
  by (rule disjunctive_add) (auto simp: bit_simps dest: bit_imp_le_length)

lemma below_64: "(\<And>k. 6 \<le> k \<Longrightarrow> \<not> bit (v :: byte) k) \<Longrightarrow> v < 64"
proof -
  assume a: "\<And>k. 6 \<le> k \<Longrightarrow> \<not> bit v k"
  have "take_bit 6 v = v"
    by (rule bit_word_eqI) (use a not_less in \<open>auto simp: bit_take_bit_iff\<close>)
  then have "take_bit 6 (unat v) = unat v" by (metis unsigned_take_bit_eq)
  then show "v < 64" by (simp add: word_less_nat_alt take_bit_eq_mod mod_eq_self_iff_div_eq_0 div_eq_0_iff)
qed

lemma outputs_small: "output0 a < 64" "output1 a b < 64" "output2 b c < 64" "output3 c < 64"
  by (rule below_64; auto simp: output0_def output1_bits output2_bits output3_def masks bit_simps
      dest: bit_imp_le_length)+

text \<open>The bytes come back from the digits.\<close>

lemma join_bytes:
  "push_bit 2 (output0 a) OR drop_bit 4 (output1 a b) = a"
  "push_bit 4 (output1 a b AND 0x0f) OR drop_bit 2 (output2 b c) = b"
  "push_bit 6 (output2 b c AND 0x03) OR output3 c = c"
  "output1 a 0 AND 0x0f = 0" "output2 b 0 AND 0x03 = 0"
proof -
  note b = bit_or_iff bit_push_bit_iff bit_drop_bit_eq bit_take_bit_iff output0_def output1_bits
    output2_bits output3_def masks
  have l: "bit (w :: byte) k \<Longrightarrow> k < 8" for w k by (auto dest: bit_imp_le_length)
  show "push_bit 2 (output0 a) OR drop_bit 4 (output1 a b) = a"
  proof (rule bit_word_eqI)
    fix n
    have "2 \<le> n \<Longrightarrow> Suc (Suc (n - 2)) = n" by simp
    then show "bit (push_bit 2 (output0 a) OR drop_bit 4 (output1 a b)) n = bit a n"
      by (cases "2 \<le> n") (auto simp: b possible_bit_word dest: l)
  qed
  show "push_bit 4 (output1 a b AND 0x0f) OR drop_bit 2 (output2 b c) = b"
    by (rule bit_word_eqI) (auto simp: b possible_bit_word dest: l)
  show "push_bit 6 (output2 b c AND 0x03) OR output3 c = c"
    by (rule bit_word_eqI) (auto simp: b possible_bit_word dest: l)
  show "output1 a 0 AND 0x0f = 0" "output2 b 0 AND 0x03 = 0"
    by (rule bit_word_eqI; auto simp: b possible_bit_word dest: l)+
qed

lemmas join_bytes_nf = join_bytes(2,3) [simplified]

text \<open>One step of the automaton per state, for an index that does not wrap.\<close>

definition at :: "nat \<Rightarrow> nat \<Rightarrow> byte list \<Rightarrow> pton" where
  "at k st t = \<lparr>tarindex = of_nat k, pstate = st, target = Some t\<rparr>"

lemma pton_digit_at:
  assumes "Suc k < 2 ^ 32"
  shows "k < ts \<Longrightarrow> pton_digit ts v (at k 0 t) = Some (at k 1 (t[k := push_bit 2 v]))"
    and "Suc k < ts \<Longrightarrow> pton_digit ts v (at k (Suc 0) t) =
      Some (at (Suc k) 2 (t[k := t ! k OR drop_bit 4 v, Suc k := push_bit 4 (v AND 0x0f)]))"
    and "Suc k < ts \<Longrightarrow> pton_digit ts v (at k 2 t) =
      Some (at (Suc k) 3 (t[k := t ! k OR drop_bit 2 v, Suc k := push_bit 6 (v AND 0x03)]))"
    and "k < ts \<Longrightarrow> pton_digit ts v (at k 3 t) = Some (at (Suc k) 0 (t[k := t ! k OR v]))"
proof -
  have u: "unat (of_nat k :: u32) = k" "unat (of_nat k + 1 :: u32) = Suc k"
    using assms by (simp_all add: unat_of_nat unat_word_ariths)
  show "k < ts \<Longrightarrow> pton_digit ts v (at k 0 t) = Some (at k 1 (t[k := push_bit 2 v]))"
    using u by (simp add: pton_digit_def at_def past_end_def upd_set_def)
  show "Suc k < ts \<Longrightarrow> pton_digit ts v (at k (Suc 0) t) =
      Some (at (Suc k) 2 (t[k := t ! k OR drop_bit 4 v, Suc k := push_bit 4 (v AND 0x0f)]))"
    using u by (simp add: pton_digit_def at_def past_end_def upd_set_def upd_or_def add.commute)
  show "Suc k < ts \<Longrightarrow> pton_digit ts v (at k 2 t) =
      Some (at (Suc k) 3 (t[k := t ! k OR drop_bit 2 v, Suc k := push_bit 6 (v AND 0x03)]))"
    using u by (simp add: pton_digit_def at_def past_end_def upd_set_def upd_or_def add.commute)
  show "k < ts \<Longrightarrow> pton_digit ts v (at k 3 t) = Some (at (Suc k) 0 (t[k := t ! k OR v]))"
    using u by (simp add: pton_digit_def at_def past_end_def upd_or_def add.commute)
qed

lemma pton_loop_group:
  assumes "k + 3 < 2 ^ 32" "k + 3 \<le> ts" "ts \<le> length t"
  shows "pton_loop ts (b64_char (output0 a) # b64_char (output1 a b) # b64_char (output2 b c)
      # b64_char (output3 c) # src) (at k 0 t) =
    pton_loop ts src (at (Suc (Suc (Suc k))) 0 (t[k := a, Suc k := b, Suc (Suc k) := c]))"
proof -
  have l: "k < length t" "Suc k < length t" "Suc (Suc k) < length t" using assms by simp_all
  have "Suc k < ts" "Suc (Suc k) < ts" "Suc (Suc k) < 2 ^ 32" "Suc (Suc (Suc k)) < 2 ^ 32"
    using assms by simp_all
  then show ?thesis
    using l by (simp add: pton_loop_digit outputs_small pton_digit_at join_bytes join_bytes_nf list_update_swap del: pton_loop.simps)
qed

lemma pton_loop_pad: "pton_loop ts (Pad64 # src) p = Left_loop Pad64 src p"
  by (simp add: Pad64_def isspace_def)

lemma pton_loop_tail1:
  assumes "k + 1 < 2 ^ 32" "k + 1 < ts" "ts \<le> length t"
  shows "pton_loop ts (b64_text [a]) (at k 0 t) =
    Left_loop Pad64 [Pad64] (at (k + 1) 2 (t[k := a, k + 1 := 0]))"
proof -
  have "k < length t" "Suc k < length t" "Suc k < ts" "k < ts" "Suc k < 2 ^ 32" using assms by simp_all
  then show ?thesis
    by (simp add: pton_loop_digit outputs_small pton_digit_at join_bytes pton_loop_pad
        del: pton_loop.simps)
qed

lemma pton_loop_tail2:
  assumes "k + 2 < 2 ^ 32" "k + 2 < ts" "ts \<le> length t"
  shows "pton_loop ts (b64_text [a, b]) (at k 0 t) =
    Left_loop Pad64 [] (at (k + 2) 3 (t[k := a, k + 1 := b, k + 2 := 0]))"
proof -
  have "k < length t" "Suc k < length t" "Suc (Suc k) < length t" "Suc (Suc k) < ts" "Suc k < ts" "k < ts"
    "Suc k < 2 ^ 32" "Suc (Suc k) < 2 ^ 32" using assms by simp_all
  then show ?thesis
    by (simp add: pton_loop_digit outputs_small pton_digit_at join_bytes join_bytes_nf pton_loop_pad
        list_update_swap del: pton_loop.simps)
qed

text \<open>
  Decoding the text of \<open>src\<close> stores \<open>src\<close>, then a zero if the text is padded. The buffer
  needs one byte more than the data when the text ends in padding.
\<close>

definition pton_room :: "byte list \<Rightarrow> nat" where
  "pton_room src = length src + (if length src mod 3 = 0 then 0 else 1)"

lemma pton_end_pads:
  "k < 2 ^ 32 \<Longrightarrow> pton_end Pad64 [Pad64] (at k 2 t) \<longleftrightarrow> t ! k = 0"
  "k < 2 ^ 32 \<Longrightarrow> pton_end Pad64 [] (at k 3 t) \<longleftrightarrow> t ! k = 0"
  "pton_end 0 [] (at k 0 t)"
  by (simp_all add: pton_end_def pton_trailing_def at_def Pad64_def isspace_def unat_of_nat)

lemma update3:
  "k + 3 \<le> length t \<Longrightarrow> t[k := a, Suc k := b, Suc (Suc k) := c] = take k t @ [a, b, c] @ drop (k + 3) t"
  by (rule nth_equalityI) (auto simp: nth_append nth_list_update nth_Cons' not_less min_def)

lemma pton_loop_text:
  assumes "k + pton_room src < 2 ^ 32" "k + pton_room src \<le> ts" "ts \<le> length t"
  shows "\<exists>ch rest st t'. pton_loop ts (b64_text src) (at k 0 t) = Left_loop ch rest (at (k + length src) st t')
    \<and> pton_end ch rest (at (k + length src) st t') \<and> length t' = length t
    \<and> take (k + length src) t' = take k t @ src \<and> drop ts t' = drop ts t"
  using assms
proof (induction src arbitrary: k t rule: b64_text.induct)
  case 1
  have "pton_loop ts (b64_text []) (at k 0 t) = Left_loop 0 [] (at (k + length ([] :: byte list)) 0 t)" by simp
  then show ?case using pton_end_pads(3) by fastforce
next
  case (2 a)
  then have k: "k + 1 < 2 ^ 32" "k + 1 < ts" by (simp_all add: pton_room_def)
  then show ?case
    using pton_loop_tail1 [OF k 2(3), of a] 2(3)
    by (intro exI [of _ Pad64] exI [of _ "[Pad64]"] exI [of _ 2] exI [of _ "t[k := a, k + 1 := 0]"])
       (simp add: pton_end_pads take_Suc_conv_app_nth del: b64_text.simps)
next
  case (3 a b)
  then have k: "k + 2 < 2 ^ 32" "k + 2 < ts" by (simp_all add: pton_room_def)
  then show ?case
    using pton_loop_tail2 [OF k 3(3), of a b] 3(3)
    by (intro exI [of _ Pad64] exI [of _ "[]"] exI [of _ 3]
        exI [of _ "t[k := a, k + 1 := b, k + 2 := 0]"])
       (simp add: pton_end_pads take_Suc_conv_app_nth del: b64_text.simps)
next
  case (4 a b c src)
  let ?t = "t[k := a, Suc k := b, Suc (Suc k) := c]"
  have r: "pton_room (a # b # c # src) = pton_room src + 3" by (simp add: pton_room_def)
  have k3: "Suc (Suc (Suc k)) = k + 3" by simp
  have g: "pton_loop ts (b64_text (a # b # c # src)) (at k 0 t) = pton_loop ts (b64_text src) (at (k + 3) 0 ?t)"
    using 4(2-4) r pton_loop_group [of k ts t a b c "b64_text src"] by (simp add: k3)
  have "take (k + 3) ?t = take k t @ [a, b, c]" using 4(2-4) r by (simp add: update3)
  moreover have "drop ts ?t = drop ts t" using 4(2-4) r by simp
  moreover have "\<exists>ch rest st t'. pton_loop ts (b64_text src) (at (k + 3) 0 ?t)
      = Left_loop ch rest (at (k + 3 + length src) st t')
    \<and> pton_end ch rest (at (k + 3 + length src) st t') \<and> length t' = length ?t
    \<and> take (k + 3 + length src) t' = take (k + 3) ?t @ src \<and> drop ts t' = drop ts ?t"
    using 4(2-4) r by (intro 4(1)) simp_all
  moreover have "k + length (a # b # c # src) = k + 3 + length src" by simp
  ultimately show ?case unfolding g by (metis append.assoc append_Cons append_Nil length_list_update)
qed

lemma f_b64_pton_text:
  assumes "pton_room src < 2 ^ 31" "pton_room src \<le> ts" "ts \<le> length t"
  shows "\<exists>t'. f_b64_pton (b64_text src) (Some t) ts = (int (length src), Some t') \<and> length t' = length t
    \<and> take (length src) t' = src \<and> drop ts t' = drop ts t"
proof -
  obtain ch rest st t' where l: "pton_loop ts (b64_text src) (at 0 0 t) = Left_loop ch rest (at (length src) st t')"
    "pton_end ch rest (at (length src) st t')" "length t' = length t" "take (length src) t' = src"
    "drop ts t' = drop ts t"
    using pton_loop_text [of 0 src ts t] assms by auto
  have "length src < 2 ^ 31" using assms(1) by (simp add: pton_room_def split: if_splits)
  then have "sint (of_nat (length src) :: u32) = int (length src)"
    by (simp add: signed_of_nat signed_take_bit_int_eq_self)
  then show ?thesis using l by (simp add: f_b64_pton_def at_def)
qed

subsection \<open>Any input\<close>

text \<open>In the states inside a group the current index is one that was checked before.\<close>

definition pton_inv :: "nat \<Rightarrow> pton \<Rightarrow> bool" where
  "pton_inv ts p \<longleftrightarrow> pstate p < 4 \<and> (target p \<noteq> None \<longrightarrow> pstate p \<noteq> 0 \<longrightarrow> unat (tarindex p) < ts)"

definition pton_frame :: "nat \<Rightarrow> pton \<Rightarrow> pton \<Rightarrow> bool" where
  "pton_frame ts p p' \<longleftrightarrow>
     (case (target p, target p') of
        (None, None) \<Rightarrow> True
      | (Some t, Some t') \<Rightarrow> length t' = length t \<and> drop ts t' = drop ts t
      | _ \<Rightarrow> False)"

lemma pton_frame_refl: "pton_frame ts p p"
  by (simp add: pton_frame_def split: option.splits)

lemma pton_frame_trans: "pton_frame ts p p' \<Longrightarrow> pton_frame ts p' p'' \<Longrightarrow> pton_frame ts p p''"
  by (auto simp: pton_frame_def split: option.splits)

lemma pton_digit_frame:
  assumes "pton_inv ts p" "pton_digit ts v p = Some p'"
  shows "pton_inv ts p' \<and> pton_frame ts p p'"
proof -
  have "pstate p = 0 \<or> pstate p = 1 \<or> pstate p = 2 \<or> pstate p = 3"
    using assms(1) by (auto simp: pton_inv_def)
  then show ?thesis
    using assms
    by (elim disjE)
       (auto simp: pton_digit_def pton_inv_def pton_frame_def past_end_def upd_set_def upd_or_def
         Let_def not_le split: option.splits if_splits)
qed

lemma pton_loop_frame:
  "pton_inv ts p \<Longrightarrow>
   (case pton_loop ts src p of
      Return_error p' \<Rightarrow> pton_frame ts p p' | Left_loop ch rest p' \<Rightarrow> pton_inv ts p' \<and> pton_frame ts p p')"
proof (induction ts src p rule: pton_loop.induct)
  case (1 ts p)
  then show ?case by (simp add: pton_frame_refl)
next
  case (2 ts ch src p)
  show ?case
  proof (cases "ch = 0 \<or> isspace ch \<or> ch = Pad64")
    case True
    then show ?thesis using 2 by (auto simp: pton_frame_refl)
  next
    case False
    show ?thesis
    proof (cases "strchr Base64_alphabet ch")
      case None
      then show ?thesis using False by (simp add: pton_frame_refl)
    next
      case (Some n)
      show ?thesis
      proof (cases "pton_digit ts (of_nat n) p")
        case None
        then show ?thesis using False Some by (simp add: pton_frame_refl)
      next
        case p': (Some p')
        then have "pton_inv ts p'" "pton_frame ts p p'" using pton_digit_frame [OF 2(3) p'] by simp_all
        then show ?thesis
          using 2(2) [OF _ _ _ Some p'] False Some p'
          by (auto split: pton_loop_result.splits intro: pton_frame_trans)
      qed
    qed
  qed
qed

lemma f_b64_pton_frame:
  assumes "f_b64_pton src (Some t) ts = (r, t')"
  shows "\<exists>u. t' = Some u \<and> length u = length t \<and> drop ts u = drop ts t"
proof -
  let ?p = "\<lparr>tarindex = 0, pstate = 0, target = Some t\<rparr>"
  have "pton_inv ts ?p" by (simp add: pton_inv_def)
  from pton_loop_frame [OF this, of src] show ?thesis
    using assms by (auto simp: f_b64_pton_def pton_frame_def split: pton_loop_result.splits option.splits)
qed

subsection \<open>The terminator\<close>

text \<open>Nothing behind the NUL of a C string is looked at.\<close>

lemma skip_spaces_nul:
  "fst (skip_spaces ch (cs @ 0 # ys)) = fst (skip_spaces ch cs)"
  "fst (skip_spaces ch cs) \<noteq> 0 \<Longrightarrow> skip_spaces ch (cs @ 0 # ys) =
     (fst (skip_spaces ch cs), snd (skip_spaces ch cs) @ 0 # ys)"
proof -
  have z: "skip_spaces 0 ys = (0, ys)" for ys by (cases ys) auto
  show "fst (skip_spaces ch (cs @ 0 # ys)) = fst (skip_spaces ch cs)"
    by (induction cs arbitrary: ch) (auto simp: z)
  show "fst (skip_spaces ch cs) \<noteq> 0 \<Longrightarrow> skip_spaces ch (cs @ 0 # ys) =
     (fst (skip_spaces ch cs), snd (skip_spaces ch cs) @ 0 # ys)"
    by (induction cs arbitrary: ch) (auto simp: z split: if_splits)
qed

lemma pton_trailing_nul: "pton_trailing ch (cs @ 0 # ys) p = pton_trailing ch cs p"
  by (simp add: pton_trailing_def skip_spaces_nul)

lemma pton_trailing_0: "pton_trailing 0 ys p = pton_trailing 0 [] p"
  by (cases ys) (simp_all add: pton_trailing_def)

lemma Pad64_nonzero: "Pad64 \<noteq> 0"
  by (simp add: Pad64_def)

lemma pton_end_nul: "pton_end ch (cs @ 0 # ys) p = pton_end ch cs p"
proof -
  have z: "skip_spaces 0 ys = (0, ys)" for ys by (cases ys) auto
  have end2: "(case skip_spaces c (ds @ 0 # ys) of (ch, src) \<Rightarrow>
      if ch \<noteq> Pad64 then False else (case next_char src of (ch, src) \<Rightarrow> pton_trailing ch src p)) =
    (case skip_spaces c ds of (ch, src) \<Rightarrow>
      if ch \<noteq> Pad64 then False else (case next_char src of (ch, src) \<Rightarrow> pton_trailing ch src p))" for c ds
  proof (cases "fst (skip_spaces c ds) = Pad64")
    case True
    then have "skip_spaces c (ds @ 0 # ys) = (Pad64, snd (skip_spaces c ds) @ 0 # ys)"
      using skip_spaces_nul(2) [of c ds ys] Pad64_nonzero by simp
    then show ?thesis
      using True by (cases "snd (skip_spaces c ds)")
        (auto simp: case_prod_beta pton_trailing_nul pton_trailing_0 [of ys])
  next
    case False
    then show ?thesis using skip_spaces_nul(1) [of c ds ys] by (simp add: case_prod_beta)
  qed
  show ?thesis
  proof (cases cs)
    case Nil
    then show ?thesis
      using Pad64_nonzero by (simp add: pton_end_def z pton_trailing_0 [of ys])
  next
    case (Cons c ds)
    then show ?thesis by (simp add: pton_end_def end2 pton_trailing_nul)
  qed
qed

lemma pton_loop_nul:
  "pton_loop ts (cs @ 0 # ys) p =
     (case pton_loop ts cs p of
        Return_error q \<Rightarrow> Return_error q
      | Left_loop ch rest q \<Rightarrow> Left_loop ch (if ch = Pad64 then rest @ 0 # ys else rest) q)"
  by (induction cs arbitrary: p) (auto simp: Pad64_nonzero [symmetric] split: option.splits)

lemma f_b64_pton_nul: "f_b64_pton (cs @ 0 # ys) t ts = f_b64_pton cs t ts"
  by (simp add: f_b64_pton_def pton_loop_nul pton_end_nul split: pton_loop_result.splits)

end
