(* ===== verification/LdbCoding.thy ===== *)
theory LdbCoding
  imports Varint
begin

text \<open>
  LevelDB's \<^verbatim>\<open>util/coding.h\<close> and \<^verbatim>\<open>util/coding.cc\<close>: fixed-width integers, varints and
  length-prefixed strings. A \<^verbatim>\<open>std::string\<close>, a \<^verbatim>\<open>Slice\<close> and a pair of pointers
  \<^verbatim>\<open>[p, limit)\<close> are byte lists; an encoder that writes through a pointer returns the bytes it
  writes, a decoder returns the value and the bytes from the new pointer on, and \<open>None\<close> for NULL.

  The locale \<open>prefix_codec\<close> is the contract of every encoder and decoder pair of the library: a
  decoder gives back the value and stops exactly behind it. Composite formats (internal keys,
  batches, log records, block handles, version edits) are built from the instances proved here.
\<close>

type_synonym bytes = "byte list"

subsection \<open>Fixed-width integers\<close>

definition kLittleEndian :: bool where
  "kLittleEndian = True"

definition EncodeFixed32 :: "u32 \<Rightarrow> bytes" where
  "EncodeFixed32 v =
     (if kLittleEndian then le_bytes 4 v
      else [ucast (v AND 0xff), ucast (drop_bit 8 v AND 0xff),
            ucast (drop_bit 16 v AND 0xff), ucast (drop_bit 24 v AND 0xff)])"

definition EncodeFixed64 :: "u64 \<Rightarrow> bytes" where
  "EncodeFixed64 v =
     (if kLittleEndian then le_bytes 8 v
      else [ucast (v AND 0xff), ucast (drop_bit 8 v AND 0xff),
            ucast (drop_bit 16 v AND 0xff), ucast (drop_bit 24 v AND 0xff),
            ucast (drop_bit 32 v AND 0xff), ucast (drop_bit 40 v AND 0xff),
            ucast (drop_bit 48 v AND 0xff), ucast (drop_bit 56 v AND 0xff)])"

definition PutFixed32 :: "bytes \<Rightarrow> u32 \<Rightarrow> bytes" where
  "PutFixed32 dst v = dst @ EncodeFixed32 v"

definition PutFixed64 :: "bytes \<Rightarrow> u64 \<Rightarrow> bytes" where
  "PutFixed64 dst v = dst @ EncodeFixed64 v"

text \<open>The decoders read at a pointer without a bounds check: the list has at least the bytes read.\<close>

definition DecodeFixed32 :: "bytes \<Rightarrow> u32" where
  "DecodeFixed32 p =
     (if kLittleEndian then le_word (take 4 p)
      else ucast (p ! 0) OR push_bit 8 (ucast (p ! 1)) OR push_bit 16 (ucast (p ! 2))
           OR push_bit 24 (ucast (p ! 3)))"

definition DecodeFixed64 :: "bytes \<Rightarrow> u64" where
  "DecodeFixed64 p =
     (if kLittleEndian then le_word (take 8 p)
      else
        let lo = ucast (DecodeFixed32 p); hi = ucast (DecodeFixed32 (drop 4 p))
        in push_bit 32 hi OR lo)"

subsection \<open>Varints\<close>

definition EncodeVarint32 :: "u32 \<Rightarrow> bytes" where
  "EncodeVarint32 v =
     (if v < 2 ^ 7 then [ucast v]
      else if v < 2 ^ 14 then [ucast (v OR 128), ucast (drop_bit 7 v)]
      else if v < 2 ^ 21
      then [ucast (v OR 128), ucast (drop_bit 7 v OR 128), ucast (drop_bit 14 v)]
      else if v < 2 ^ 28
      then [ucast (v OR 128), ucast (drop_bit 7 v OR 128), ucast (drop_bit 14 v OR 128),
            ucast (drop_bit 21 v)]
      else [ucast (v OR 128), ucast (drop_bit 7 v OR 128), ucast (drop_bit 14 v OR 128),
            ucast (drop_bit 21 v OR 128), ucast (drop_bit 28 v)])"

definition PutVarint32 :: "bytes \<Rightarrow> u32 \<Rightarrow> bytes" where
  "PutVarint32 dst v = dst @ EncodeVarint32 v"

lemma unat_shift7: "unat (drop_bit 7 (v :: 'a::len word)) = unat v div 128"
  by (simp only: unat_drop_bit_eq) (simp add: drop_bit_eq_div)

lemma shift7_less: "128 \<le> (v :: u64) \<Longrightarrow> unat (drop_bit 7 v) < unat v"
  by (simp add: unat_shift7 word_le_nat_alt)

function EncodeVarint64 :: "u64 \<Rightarrow> bytes" where
  "EncodeVarint64 v =
     (if v \<ge> 128 then ucast ((v AND 127) OR 128) # EncodeVarint64 (drop_bit 7 v) else [ucast v])"
  by pat_completeness auto
termination by (relation "measure unat") (auto intro: shift7_less)

definition PutVarint64 :: "bytes \<Rightarrow> u64 \<Rightarrow> bytes" where
  "PutVarint64 dst v = dst @ EncodeVarint64 v"

function VarintLength :: "u64 \<Rightarrow> nat" where
  "VarintLength v = (if v \<ge> 128 then VarintLength (drop_bit 7 v) + 1 else 1)"
  by pat_completeness auto
termination by (relation "measure unat") (auto intro: shift7_less)

declare EncodeVarint64.simps [simp del] VarintLength.simps [simp del]

text \<open>The loop of \<open>GetVarint32PtrFallback\<close>; \<open>result\<close> and \<open>shift\<close> are its locals.\<close>

fun get_varint32_loop :: "u32 \<Rightarrow> nat \<Rightarrow> bytes \<Rightarrow> (u32 \<times> bytes) option" where
  "get_varint32_loop result shift [] = None"
| "get_varint32_loop result shift (c # p) =
     (if shift \<le> 28
      then
        let b = ucast c :: u32
        in if b AND 128 \<noteq> 0
           then get_varint32_loop (result OR push_bit shift (b AND 127)) (shift + 7) p
           else Some (result OR push_bit shift b, p)
      else None)"

definition GetVarint32PtrFallback :: "bytes \<Rightarrow> (u32 \<times> bytes) option" where
  "GetVarint32PtrFallback p = get_varint32_loop 0 0 p"

definition GetVarint32Ptr :: "bytes \<Rightarrow> (u32 \<times> bytes) option" where
  "GetVarint32Ptr p =
     (case p of
        c # p' \<Rightarrow> if (ucast c :: u32) AND 128 = 0 then Some (ucast c, p') else GetVarint32PtrFallback p
      | [] \<Rightarrow> GetVarint32PtrFallback p)"

text \<open>The slice versions return the status (with the value) and the new \<open>*input\<close>.\<close>

definition GetVarint32 :: "bytes \<Rightarrow> u32 option \<times> bytes" where
  "GetVarint32 input =
     (case GetVarint32Ptr input of None \<Rightarrow> (None, input) | Some (v, q) \<Rightarrow> (Some v, q))"

fun get_varint64_loop :: "u64 \<Rightarrow> nat \<Rightarrow> bytes \<Rightarrow> (u64 \<times> bytes) option" where
  "get_varint64_loop result shift [] = None"
| "get_varint64_loop result shift (c # p) =
     (if shift \<le> 63
      then
        let b = ucast c :: u64
        in if b AND 128 \<noteq> 0
           then get_varint64_loop (result OR push_bit shift (b AND 127)) (shift + 7) p
           else Some (result OR push_bit shift b, p)
      else None)"

definition GetVarint64Ptr :: "bytes \<Rightarrow> (u64 \<times> bytes) option" where
  "GetVarint64Ptr p = get_varint64_loop 0 0 p"

definition GetVarint64 :: "bytes \<Rightarrow> u64 option \<times> bytes" where
  "GetVarint64 input =
     (case GetVarint64Ptr input of None \<Rightarrow> (None, input) | Some (v, q) \<Rightarrow> (Some v, q))"

subsection \<open>Length-prefixed strings\<close>

text \<open>The size is passed as a \<open>uint32_t\<close>; a longer string loses the upper bits of its length.\<close>

definition PutLengthPrefixedSlice :: "bytes \<Rightarrow> bytes \<Rightarrow> bytes" where
  "PutLengthPrefixedSlice dst v = PutVarint32 dst (of_nat (length v)) @ v"

definition GetLengthPrefixedSlicePtr :: "bytes \<Rightarrow> (bytes \<times> bytes) option" where
  "GetLengthPrefixedSlicePtr p =
     (case GetVarint32Ptr p of
        None \<Rightarrow> None
      | Some (len, p) \<Rightarrow>
          if unat len > length p then None else Some (take (unat len) p, drop (unat len) p))"

definition GetLengthPrefixedSlice :: "bytes \<Rightarrow> bytes option \<times> bytes" where
  "GetLengthPrefixedSlice input =
     (case GetVarint32 input of
        (None, input) \<Rightarrow> (None, input)
      | (Some len, input) \<Rightarrow>
          if length input \<ge> unat len then (Some (take (unat len) input), drop (unat len) input)
          else (None, input))"

subsection \<open>The contract\<close>

locale prefix_codec =
  fixes enc :: "'a \<Rightarrow> bytes" and dec :: "bytes \<Rightarrow> ('a \<times> bytes) option" and dom :: "'a \<Rightarrow> bool"
  assumes dec_enc: "dom v \<Longrightarrow> dec (enc v @ rest) = Some (v, rest)"
begin

lemma dec_enc_whole: "dom v \<Longrightarrow> dec (enc v) = Some (v, [])"
  using dec_enc [of v "[]"] by simp

lemma enc_prefix_free: "dom v \<Longrightarrow> dom w \<Longrightarrow> enc v @ r = enc w @ r' \<Longrightarrow> v = w \<and> r = r'"
proof -
  assume v: "dom v" and w: "dom w" and e: "enc v @ r = enc w @ r'"
  have "Some (v, r) = Some (w, r')"
    unfolding dec_enc [OF v, of r, symmetric] dec_enc [OF w, of r', symmetric] e ..
  then show "v = w \<and> r = r'" by simp
qed

end

subsection \<open>Fixed-width integers, proofs\<close>

text \<open>Both branches on \<open>kLittleEndian\<close> write the same bytes.\<close>

lemma EncodeFixed32_eq: "EncodeFixed32 v = le_bytes 4 v"
  by (simp add: EncodeFixed32_def fixed_bytes numeral_eq_Suc)

lemma EncodeFixed32_portable:
  "[ucast (v AND 0xff), ucast (drop_bit 8 v AND 0xff), ucast (drop_bit 16 v AND 0xff),
    ucast (drop_bit 24 v AND 0xff)] = le_bytes 4 (v :: u32)"
  by (simp only: fixed_bytes) (simp add: numeral_eq_Suc)

lemma EncodeFixed64_eq: "EncodeFixed64 v = le_bytes 8 v"
  by (simp add: EncodeFixed64_def kLittleEndian_def)

lemma length_EncodeFixed [simp]: "length (EncodeFixed32 v) = 4" "length (EncodeFixed64 w) = 8"
  by (simp_all add: EncodeFixed32_eq EncodeFixed64_eq)

lemma DecodeFixed32_Encode [codec_simps]: "DecodeFixed32 (EncodeFixed32 v @ rest) = v"
  by (simp add: DecodeFixed32_def kLittleEndian_def EncodeFixed32_eq le_word_le_bytes)

lemma EncodeFixed32_Decode: "length p = 4 \<Longrightarrow> EncodeFixed32 (DecodeFixed32 p) = p"
  using le_bytes_le_word [of p, where ?'a = 32]
  by (simp add: DecodeFixed32_def kLittleEndian_def EncodeFixed32_eq)

lemma DecodeFixed64_Encode [codec_simps]: "DecodeFixed64 (EncodeFixed64 v @ rest) = v"
  by (simp add: DecodeFixed64_def kLittleEndian_def EncodeFixed64_eq le_word_le_bytes)

lemmas Decode_Encode_whole [codec_simps] =
  DecodeFixed32_Encode [of _ "[]", simplified] DecodeFixed64_Encode [of _ "[]", simplified]

lemma EncodeFixed64_Decode: "length p = 8 \<Longrightarrow> EncodeFixed64 (DecodeFixed64 p) = p"
  using le_bytes_le_word [of p, where ?'a = 64]
  by (simp add: DecodeFixed64_def kLittleEndian_def EncodeFixed64_eq)

subsection \<open>Varints, proofs\<close>

lemma ucast_or_128:
  "(ucast ((v :: 'a::len word) OR 128) :: byte) = of_nat (128 + unat v mod 128)" if "8 \<le> LENGTH('a)"
proof -
  have "(ucast (v OR 128) :: byte) = (ucast v AND 127) OR 128"
  proof (rule bit_word_eqI)
    fix k assume "k < LENGTH(8)"
    then show "bit (ucast (v OR 128) :: byte) k = bit ((ucast v AND 127) OR 128 :: byte) k"
      using that by (simp only: bit_ucast_iff bit_or_iff bit_and_iff bit_128 low7 bit_take_bit_iff)
        (auto dest: bit_imp_le_length)
  qed
  also have "\<dots> = (ucast v AND 127) + 128" by (rule or_128) simp
  also have "\<dots> = of_nat (128 + unat v mod 128)"
  proof -
    have "unat ((ucast v AND 127) + 128 :: byte) = unat v mod 128 + 128"
      by (simp add: unat_word_ariths unat_low7 unsigned_ucast_eq take_bit_eq_mod mod_mod_cancel)
    then show ?thesis by (simp add: word_unat_eq_iff unat_of_nat add.commute del: of_nat_add)
  qed
  finally show ?thesis .
qed

lemma ucast_of_nat_unat: "(ucast (v :: 'a::len word) :: 'b::len word) = of_nat (unat v)"
  by simp

lemma unat_shifts:
  "unat (drop_bit 14 (v :: 'a::len word)) = unat v div 128 div 128"
  "unat (drop_bit 21 (v :: 'a::len word)) = unat v div 128 div 128 div 128"
  "unat (drop_bit 28 (v :: 'a::len word)) = unat v div 128 div 128 div 128 div 128"
  by (simp_all only: unat_drop_bit_eq) (simp_all add: drop_bit_eq_div div_mult2_eq [symmetric])

lemma EncodeVarint32_eq: "EncodeVarint32 v = uvarint (unat v)"
proof -
  have lt: "v < 2 ^ 7 \<longleftrightarrow> unat v < 128" "v < 2 ^ 14 \<longleftrightarrow> unat v div 128 < 128"
    "v < 2 ^ 21 \<longleftrightarrow> unat v div 128 div 128 < 128"
    "v < 2 ^ 28 \<longleftrightarrow> unat v div 128 div 128 div 128 < 128"
    by (auto simp: word_less_nat_alt div_mult2_eq [symmetric] div_less_iff_less_mult)
  have "unat v div 128 div 128 div 128 div 128 < 128"
    using unat_bound [of v] by (simp add: div_mult2_eq [symmetric] div_less_iff_less_mult)
  note last = uvarint_small [OF this]
  have "8 \<le> LENGTH(32)" by simp
  note cont = ucast_or_128 [OF this]
  consider "v < 2 ^ 7" | "\<not> v < 2 ^ 7" "v < 2 ^ 14" | "\<not> v < 2 ^ 7" "\<not> v < 2 ^ 14" "v < 2 ^ 21"
    | "\<not> v < 2 ^ 7" "\<not> v < 2 ^ 14" "\<not> v < 2 ^ 21" "v < 2 ^ 28"
    | "\<not> v < 2 ^ 7" "\<not> v < 2 ^ 14" "\<not> v < 2 ^ 21" "\<not> v < 2 ^ 28" by blast
  then show ?thesis
    by cases (simp_all only: EncodeVarint32_def if_True if_False simp_thms,
      simp_all only: lt not_less uvarint_small uvarint_large last cont,
      simp_all only: ucast_of_nat_unat unat_shift7 unat_shifts)
qed

lemma ucast_low7: "(ucast ((v :: u64) AND 127 OR 128) :: byte) = of_nat (128 + unat v mod 128)"
  by (rule cont_byte)

lemma EncodeVarint64_eq: "EncodeVarint64 v = uvarint (unat v)"
proof (induction v rule: EncodeVarint64.induct)
  case (1 v)
  have ge: "128 \<le> v \<longleftrightarrow> 128 \<le> unat v" by (simp add: word_le_nat_alt)
  show ?case
  proof (cases "128 \<le> v")
    case True
    then show ?thesis
      using 1 by (simp only: EncodeVarint64.simps [of v] if_True ucast_low7 unat_shift7 ge uvarint_large)
  next
    case False
    then show ?thesis
      using ge by (simp add: EncodeVarint64.simps [of v] uvarint_small)
  qed
qed

lemma VarintLength_eq: "VarintLength v = length (uvarint (unat v))"
proof (induction v rule: VarintLength.induct)
  case (1 v)
  have ge: "128 \<le> v \<longleftrightarrow> 128 \<le> unat v" by (simp add: word_le_nat_alt)
  show ?case
  proof (cases "128 \<le> v")
    case True
    then show ?thesis
      using 1 by (simp add: VarintLength.simps [of v] unat_shift7 ge uvarint_large)
  next
    case False
    then show ?thesis by (simp add: VarintLength.simps [of v] ge uvarint_small)
  qed
qed

lemma ucast_byte_bits:
  "(ucast (c :: byte) :: 'a::len word) AND 127 = ucast (c AND 127)"
  "8 \<le> LENGTH('a) \<Longrightarrow> ((ucast c :: 'a word) AND 128 = 0) \<longleftrightarrow> c AND 128 = 0"
proof -
  show "(ucast c :: 'a word) AND 127 = ucast (c AND 127)"
    by (rule bit_word_eqI)
       (simp only: low7 bit_take_bit_iff bit_ucast_iff bit_and_iff, auto dest: bit_imp_le_length)
  assume l: "8 \<le> LENGTH('a)"
  have "(ucast c :: 'a word) AND 128 = ucast (c AND 128)"
    by (rule bit_word_eqI)
       (use l in \<open>simp only: bit_ucast_iff bit_and_iff bit_128, auto dest: bit_imp_le_length\<close>)
  moreover have "unat (ucast (c AND 128) :: 'a word) = unat (c AND 128)"
  proof (rule unat_ucast_small)
    have "(2 :: nat) ^ 8 \<le> 2 ^ LENGTH('a)" using l by (rule power_increasing) simp
    then show "unat (c AND 128) < 2 ^ LENGTH('a)" using unat_bound [of "c AND 128"] by simp
  qed
  ultimately show "((ucast c :: 'a word) AND 128 = 0) \<longleftrightarrow> c AND 128 = 0"
    by (metis unat_eq_0)
qed

lemma get_varint64_loop_uvarint:
  assumes "shift \<le> 63" "n * 2 ^ shift < 2 ^ 64"
  shows "get_varint64_loop acc shift (uvarint n @ rest) = Some (acc OR push_bit shift (of_nat n), rest)"
  using assms
proof (induction n arbitrary: acc shift rule: uvarint.induct)
  case (1 n)
  have l: "8 \<le> LENGTH(64)" by simp
  show ?case
  proof (cases "n < 128")
    case True
    then have "(of_nat n :: u64) AND 128 = 0"
      using ucast_byte_bits(2) [OF l, of "of_nat n"] of_nat_top_clear [OF True] by (simp add: ucast_of_nat_byte)
    then show ?thesis
      using "1.prems" True by (simp add: uvarint_small ucast_of_nat_byte Let_def)
  next
    case False
    have ge: "shift + 7 \<le> 63"
    proof (rule ccontr)
      assume "\<not> shift + 7 \<le> 63"
      then have "(2 :: nat) ^ 57 \<le> 2 ^ shift" by (intro power_increasing) auto
      with False have "128 * 2 ^ 57 \<le> n * 2 ^ shift" by (intro mult_le_mono) auto
      then show False using "1.prems" by simp
    qed
    have "n div 128 * 2 ^ (shift + 7) \<le> n * 2 ^ shift" by (simp add: power_add)
    then have lt: "n div 128 * 2 ^ (shift + 7) < 2 ^ 64" using "1.prems" by simp
    have byte: "(ucast ((of_nat (128 + n mod 128) :: byte) AND 127) :: u64) = of_nat (n mod 128)"
      by (simp only: of_nat_mod_128) (simp add: ucast_of_nat_byte)
    have "push_bit shift (of_nat n :: u64) =
        push_bit shift (of_nat (n mod 128)) OR push_bit (shift + 7) (of_nat (n div 128))"
      by (subst low_bits_split) (simp add: push_bit_or)
    then show ?thesis
      using "1.IH" [OF False ge lt, of "acc OR push_bit shift (of_nat (n mod 128))"] "1.prems" False of_nat_top_set [of n]
      by (simp add: uvarint_large ucast_byte_bits(1) ucast_byte_bits(2) [OF l] Let_def byte or.assoc del: of_nat_add)
  qed
qed

lemma get_varint32_loop_uvarint:
  assumes "shift \<le> 28" "7 dvd shift" "n * 2 ^ shift < 2 ^ 32"
  shows "get_varint32_loop acc shift (uvarint n @ rest) = Some (acc OR push_bit shift (of_nat n), rest)"
  using assms
proof (induction n arbitrary: acc shift rule: uvarint.induct)
  case (1 n)
  have l: "8 \<le> LENGTH(32)" by simp
  show ?case
  proof (cases "n < 128")
    case True
    then have "(of_nat n :: u32) AND 128 = 0"
      using ucast_byte_bits(2) [OF l, of "of_nat n"] of_nat_top_clear [OF True] by (simp add: ucast_of_nat_byte)
    then show ?thesis
      using "1.prems" True by (simp add: uvarint_small ucast_of_nat_byte Let_def)
  next
    case False
    have ge: "shift + 7 \<le> 28"
    proof (rule ccontr)
      assume "\<not> shift + 7 \<le> 28"
      then have "(2 :: nat) ^ 28 \<le> 2 ^ shift" using "1.prems"(2) by (intro power_increasing) auto
      with False have "128 * 2 ^ 28 \<le> n * 2 ^ shift" by (intro mult_le_mono) auto
      then show False using "1.prems" by simp
    qed
    have d: "7 dvd shift + 7" using "1.prems"(2) by simp
    have "n div 128 * 2 ^ (shift + 7) \<le> n * 2 ^ shift" by (simp add: power_add)
    then have lt: "n div 128 * 2 ^ (shift + 7) < 2 ^ 32" using "1.prems" by simp
    have byte: "(ucast ((of_nat (128 + n mod 128) :: byte) AND 127) :: u32) = of_nat (n mod 128)"
      by (simp only: of_nat_mod_128) (simp add: ucast_of_nat_byte)
    have "push_bit shift (of_nat n :: u32) =
        push_bit shift (of_nat (n mod 128)) OR push_bit (shift + 7) (of_nat (n div 128))"
      by (subst low_bits_split) (simp add: push_bit_or)
    then show ?thesis
      using "1.IH" [OF False ge d lt, of "acc OR push_bit shift (of_nat (n mod 128))"] "1.prems" False of_nat_top_set [of n]
      by (simp add: uvarint_large ucast_byte_bits(1) ucast_byte_bits(2) [OF l] Let_def byte or.assoc del: of_nat_add)
  qed
qed

interpretation varint32_codec: prefix_codec EncodeVarint32 GetVarint32Ptr "\<lambda>_. True"
proof
  fix v :: u32 and rest
  have l: "8 \<le> LENGTH(32)" by simp
  have f: "GetVarint32PtrFallback (uvarint (unat v) @ rest) = Some (v, rest)"
    using get_varint32_loop_uvarint [of 0 "unat v" 0 rest] unat_bound [of v]
    by (simp add: GetVarint32PtrFallback_def)
  show "GetVarint32Ptr (EncodeVarint32 v @ rest) = Some (v, rest)"
  proof (cases "unat v < 128")
    case True
    then have "(ucast (of_nat (unat v) :: byte) :: u32) = v"
      using ucast_of_nat_byte [of "unat v", where ?'a = 32] by simp
    moreover have "(of_nat (unat v) :: byte) AND 128 = 0" by (rule of_nat_top_clear [OF True])
    ultimately show ?thesis
      using True ucast_byte_bits(2) [OF l, of "of_nat (unat v)"]
      by (simp only: EncodeVarint32_eq uvarint_small GetVarint32Ptr_def) simp
  next
    case False
    then show ?thesis
      using f of_nat_top_set [of "unat v"] ucast_byte_bits(2) [OF l, of "of_nat (128 + unat v mod 128)"]
      by (simp add: EncodeVarint32_eq uvarint_large GetVarint32Ptr_def del: of_nat_add)
  qed
qed

interpretation varint64_codec: prefix_codec EncodeVarint64 GetVarint64Ptr "\<lambda>_. True"
proof
  fix v :: u64 and rest
  show "GetVarint64Ptr (EncodeVarint64 v @ rest) = Some (v, rest)"
    using get_varint64_loop_uvarint [of 0 "unat v" 0 rest] unat_bound [of v]
    by (simp add: GetVarint64Ptr_def EncodeVarint64_eq)
qed

interpretation fixed32_codec: prefix_codec EncodeFixed32
  "\<lambda>p. if length p < 4 then None else Some (DecodeFixed32 p, drop 4 p)" "\<lambda>_. True"
  by standard (simp add: codec_simps)

interpretation fixed64_codec: prefix_codec EncodeFixed64
  "\<lambda>p. if length p < 8 then None else Some (DecodeFixed64 p, drop 8 p)" "\<lambda>_. True"
  by standard (simp add: codec_simps)

definition short_string :: "bytes \<Rightarrow> bool" where
  "short_string v \<longleftrightarrow> length v < 2 ^ 32"

lemma unat_length: "short_string v \<Longrightarrow> unat (of_nat (length v) :: u32) = length v"
  by (simp add: short_string_def unat_of_nat)

interpretation slice_codec: prefix_codec "PutLengthPrefixedSlice []" GetLengthPrefixedSlicePtr short_string
  by standard
     (simp add: PutLengthPrefixedSlice_def PutVarint32_def GetLengthPrefixedSlicePtr_def
       varint32_codec.dec_enc unat_length)

lemma Get_codec_simps [codec_simps]:
  "GetVarint32 (EncodeVarint32 v @ rest) = (Some v, rest)"
  "GetVarint64 (EncodeVarint64 w @ rest) = (Some w, rest)"
  "GetVarint32Ptr (EncodeVarint32 v @ rest) = Some (v, rest)"
  "GetVarint64Ptr (EncodeVarint64 w @ rest) = Some (w, rest)"
  by (simp_all add: GetVarint32_def GetVarint64_def varint32_codec.dec_enc varint64_codec.dec_enc)

lemma PutLengthPrefixedSlice_append:
  "PutLengthPrefixedSlice dst v = dst @ PutLengthPrefixedSlice [] v"
  by (simp add: PutLengthPrefixedSlice_def PutVarint32_def)

lemma GetLengthPrefixedSlice_Put [codec_simps]:
  "short_string v \<Longrightarrow> GetLengthPrefixedSlice (PutLengthPrefixedSlice [] v @ rest) = (Some v, rest)"
  by (simp add: GetLengthPrefixedSlice_def PutLengthPrefixedSlice_def PutVarint32_def codec_simps unat_length)

text \<open>What a decoder takes is a prefix of its input.\<close>

lemma get_varint_loop_suffix:
  "get_varint32_loop acc shift p = Some (v, q) \<Longrightarrow> \<exists>ps. p = ps @ q \<and> ps \<noteq> []"
  "get_varint64_loop acc' shift' p = Some (w, q') \<Longrightarrow> \<exists>ps. p = ps @ q' \<and> ps \<noteq> []"
proof -
  show "get_varint32_loop acc shift p = Some (v, q) \<Longrightarrow> \<exists>ps. p = ps @ q \<and> ps \<noteq> []"
    by (induction acc shift p rule: get_varint32_loop.induct)
       (fastforce simp: Let_def intro: exI [of _ "[_]"] exI [of _ "_ # _"] split: if_splits)+
  show "get_varint64_loop acc' shift' p = Some (w, q') \<Longrightarrow> \<exists>ps. p = ps @ q' \<and> ps \<noteq> []"
    by (induction acc' shift' p rule: get_varint64_loop.induct)
       (fastforce simp: Let_def intro: exI [of _ "[_]"] exI [of _ "_ # _"] split: if_splits)+
qed

lemma GetVarint32Ptr_suffix: "GetVarint32Ptr p = Some (v, q) \<Longrightarrow> \<exists>ps. p = ps @ q \<and> ps \<noteq> []"
  using get_varint_loop_suffix(1) [of 0 0 p v q]
  by (cases p) (auto simp: GetVarint32Ptr_def GetVarint32PtrFallback_def
      intro: exI [of _ "[_]"] split: if_splits)

lemma GetVarint64Ptr_suffix: "GetVarint64Ptr p = Some (v, q) \<Longrightarrow> \<exists>ps. p = ps @ q \<and> ps \<noteq> []"
  by (auto simp: GetVarint64Ptr_def intro: get_varint_loop_suffix)

lemma GetVarint_shorter:
  "GetVarint32 p = (Some v, q) \<Longrightarrow> length q < length p"
  "GetVarint64 p = (Some w, q) \<Longrightarrow> length q < length p"
  by (auto simp: GetVarint32_def GetVarint64_def split: option.splits prod.splits
      dest!: GetVarint32Ptr_suffix GetVarint64Ptr_suffix)

lemma GetLengthPrefixedSlice_shorter: "GetLengthPrefixedSlice p = (Some v, q) \<Longrightarrow> length q < length p"
  by (auto simp: GetLengthPrefixedSlice_def split: option.splits prod.splits if_splits
      dest!: GetVarint_shorter)

subsection \<open>Arrays of fixed-width integers\<close>

lemma foldl_PutFixed32: "foldl PutFixed32 r ws = r @ concat (map EncodeFixed32 ws)"
  by (induction ws arbitrary: r) (simp_all add: PutFixed32_def)

lemma length_fixed_array: "length (concat (map EncodeFixed32 ws)) = 4 * length ws"
  by (induction ws) simp_all

lemma Decode_array:
  "i < length ws \<Longrightarrow> DecodeFixed32 (drop (length r + i * 4) (r @ concat (map EncodeFixed32 ws) @ rest)) = ws ! i"
proof (induction ws arbitrary: i r)
  case (Cons w ws)
  show ?case
  proof (cases i)
    case 0
    then show ?thesis by (simp add: codec_simps)
  next
    case (Suc j)
    then show ?thesis using Cons.IH [of j "r @ EncodeFixed32 w"] Cons.prems by (simp add: add.commute)
  qed
qed simp

end
