(* ===== verification/LdbLogging.thy ===== *)
theory LdbLogging
  imports LdbCoding
begin

text \<open>
  \<^verbatim>\<open>util/logging.cc\<close>: printing numbers and escaped strings, and parsing decimal numbers with the
  overflow check. \<open>snprintf\<close> into a buffer of \<open>n\<close> bytes is the formatted text cut to
  \<open>n - 1\<close> bytes; \<open>decimal\<close> and \<open>hex2\<close> are the conversions the formats use.
\<close>

subsection \<open>Text of the C library\<close>

text \<open>A C string literal, without its terminator.\<close>

definition lit :: "string \<Rightarrow> bytes" where
  "lit s = map of_char s"

fun decimal :: "nat \<Rightarrow> bytes" where
  "decimal n = (if n < 10 then [of_nat (48 + n)] else decimal (n div 10) @ [of_nat (48 + n mod 10)])"

declare decimal.simps [simp del]

definition hex_digit :: "nat \<Rightarrow> byte" where
  "hex_digit n = (if n < 10 then of_nat (48 + n) else of_nat (87 + n))"

definition hex2 :: "byte \<Rightarrow> bytes" where
  "hex2 c = [hex_digit (unat c div 16), hex_digit (unat c mod 16)]"

definition snprintf :: "nat \<Rightarrow> bytes \<Rightarrow> bytes" where
  "snprintf n txt = take (n - 1) txt"

subsection \<open>The code\<close>

definition AppendNumberTo :: "bytes \<Rightarrow> u64 \<Rightarrow> bytes" where
  "AppendNumberTo str num = str @ snprintf 30 (decimal (unat num))"

definition NumberToString :: "u64 \<Rightarrow> bytes" where
  "NumberToString num = AppendNumberTo [] num"

primrec AppendEscapedStringTo :: "bytes \<Rightarrow> bytes \<Rightarrow> bytes" where
  "AppendEscapedStringTo str [] = str"
| "AppendEscapedStringTo str (c # v) =
     AppendEscapedStringTo
       (str @ (if 32 \<le> c \<and> c \<le> 126 then [c] else snprintf 10 ([92, 120] @ hex2 c))) v"

definition EscapeString :: "bytes \<Rightarrow> bytes" where
  "EscapeString v = AppendEscapedStringTo [] v"

text \<open>
  The loop of \<open>ConsumeDecimalNumber\<close>: the value and the number of digits, or \<open>None\<close> for the early
  return on overflow, and the slice that is left. \<open>kMaxUint64\<close> is all ones.
\<close>

fun consume_loop :: "u64 \<Rightarrow> nat \<Rightarrow> bytes \<Rightarrow> (u64 \<times> nat) option \<times> bytes" where
  "consume_loop v digits [] = (Some (v, digits), [])"
| "consume_loop v digits (c # rest) =
     (if 48 \<le> c \<and> c \<le> 57
      then
        let delta = ucast (c - 48); kMaxUint64 = - 1
        in if v > kMaxUint64 div 10 \<or> v = kMaxUint64 div 10 \<and> delta > kMaxUint64 mod 10
           then (None, c # rest)
           else consume_loop (v * 10 + delta) (digits + 1) rest
      else (Some (v, digits), c # rest))"

definition ConsumeDecimalNumber :: "bytes \<Rightarrow> u64 option \<times> bytes" where
  "ConsumeDecimalNumber inp =
     (case consume_loop 0 0 inp of
        (None, rest) \<Rightarrow> (None, rest)
      | (Some (v, digits), rest) \<Rightarrow> (if digits > 0 then Some v else None, rest))"

subsection \<open>Decimal numbers\<close>

definition digit :: "byte \<Rightarrow> bool" where
  "digit c \<longleftrightarrow> 48 \<le> c \<and> c \<le> 57"

text \<open>The number that a string of digits denotes.\<close>

definition number :: "nat \<Rightarrow> bytes \<Rightarrow> nat" where
  "number v ds = foldl (\<lambda>v c. v * 10 + (unat c - 48)) v ds"

lemma number_simps [simp]:
  "number v [] = v" "number v (c # ds) = number (v * 10 + (unat c - 48)) ds"
  "number v (ds @ es) = number (number v ds) es"
  by (simp_all add: number_def)

lemma number_mono: "v \<le> number v ds"
proof (induction ds arbitrary: v)
  case (Cons c ds)
  from Cons [of "v * 10 + (unat c - 48)"] show ?case by simp
qed simp

lemma digit_unat: "digit c \<longleftrightarrow> 48 \<le> unat c \<and> unat c \<le> 57"
  by (simp add: digit_def word_le_nat_alt)

lemma digit_of_nat: "n < 10 \<Longrightarrow> unat (of_nat (48 + n) :: byte) = 48 + n"
  by (simp add: unat_of_nat del: of_nat_add)

lemma decimal_digits: "\<forall>c \<in> set (decimal n). digit c"
proof (induction n rule: decimal.induct)
  case (1 n)
  have "n mod 10 < 10" by simp
  then have "digit (of_nat (48 + n mod 10))" by (simp only: digit_unat digit_of_nat) simp
  with 1 show ?case
    by (cases "n < 10") (auto simp: decimal.simps [of n] digit_unat digit_of_nat simp del: of_nat_add)
qed

lemma decimal_nonempty [simp]: "decimal n \<noteq> []"
  by (simp add: decimal.simps)

lemma number_decimal [simp]: "number 0 (decimal n) = n"
proof (induction n rule: decimal.induct)
  case (1 n)
  have "n mod 10 < 10" by simp
  note d = digit_of_nat [OF this]
  show ?case
  proof (cases "n < 10")
    case True
    then show ?thesis by (simp only: decimal.simps [of n] if_True number_simps digit_of_nat)
  next
    case False
    then have "number 0 (decimal n) = number 0 (decimal (n div 10)) * 10 + (unat (of_nat (48 + n mod 10) :: byte) - 48)"
      by (simp only: decimal.simps [of n] if_False number_simps)
    also have "\<dots> = n" using 1 False by (simp only: d) simp
    finally show ?thesis .
  qed
qed

lemma length_decimal: "n < 10 ^ Suc k \<Longrightarrow> length (decimal n) \<le> Suc k"
proof (induction k arbitrary: n)
  case 0
  then show ?case by (simp add: decimal.simps)
next
  case (Suc k)
  then have "n div 10 < 10 ^ Suc k" by (simp add: div_less_iff_less_mult mult.commute)
  from Suc.IH [OF this] show ?case by (subst decimal.simps) simp
qed

text \<open>No number is cut: 64-bit numbers have at most 20 digits.\<close>

lemma NumberToString_eq: "NumberToString n = decimal (unat n)"
proof -
  have "unat n < 10 ^ Suc 19" using unat_bound [of n] by simp
  then have "length (decimal (unat n)) \<le> 20" using length_decimal [of _ 19] by simp
  then show ?thesis by (simp add: NumberToString_def AppendNumberTo_def snprintf_def)
qed

lemma max_u64: "unat ((- 1 :: u64) div 10) = (2 ^ 64 - 1) div 10" "unat ((- 1 :: u64) mod 10) = (2 ^ 64 - 1) mod 10"
  by simp_all

text \<open>The overflow check is exact.\<close>

lemma overflow_check:
  fixes v :: u64
  assumes "digit c"
  shows "v > - 1 div 10 \<or> v = - 1 div 10 \<and> (ucast (c - 48) :: u64) > - 1 mod 10 \<longleftrightarrow>
      2 ^ 64 \<le> unat v * 10 + (unat c - 48)"
    and "unat v * 10 + (unat c - 48) < 2 ^ 64 \<Longrightarrow>
      unat (v * 10 + ucast (c - 48)) = unat v * 10 + (unat c - 48)"
proof -
  have "48 \<le> c" "unat c \<le> 57" using assms by (simp_all add: digit_def word_le_nat_alt)
  then have d: "unat (ucast (c - 48) :: u64) = unat c - 48" "unat c - 48 \<le> 9"
    by (simp_all add: unat_ucast_small unat_sub)
  show "v > - 1 div 10 \<or> v = - 1 div 10 \<and> (ucast (c - 48) :: u64) > - 1 mod 10 \<longleftrightarrow>
      2 ^ 64 \<le> unat v * 10 + (unat c - 48)"
    unfolding word_less_nat_alt word_unat_eq_iff [of v] max_u64 d(1) using d(2) by auto
  assume "unat v * 10 + (unat c - 48) < 2 ^ 64"
  then show "unat (v * 10 + ucast (c - 48)) = unat v * 10 + (unat c - 48)"
    by (simp add: unat_word_ariths d(1))
qed

lemma consume_loop_spec:
  assumes "\<forall>c \<in> set ds. digit c" "\<And>c cs. rest = c # cs \<Longrightarrow> \<not> digit c"
  shows "number (unat v) ds < 2 ^ 64 \<Longrightarrow>
      consume_loop v k (ds @ rest) = (Some (of_nat (number (unat v) ds), k + length ds), rest)"
    and "2 ^ 64 \<le> number (unat v) ds \<Longrightarrow> fst (consume_loop v k (ds @ rest)) = None"
  using assms(1)
proof (induction ds arbitrary: v k)
  case Nil
  { case 1
    then show ?case using assms(2) by (cases rest) (auto simp: digit_def)
  next
    case 2
    then show ?case using unat_bound [of v] by simp }
next
  case (Cons c ds)
  { case (1 v k)
    let ?v = "v * 10 + ucast (c - 48)"
    from 1 have lt: "unat v * 10 + (unat c - 48) < 2 ^ 64" and c: "digit c"
      using number_mono [of "unat v * 10 + (unat c - 48)" ds] by auto
    note o = overflow_check(1) [OF c, of v] and v = overflow_check(2) [OF c lt]
    have "consume_loop ?v (Suc k) (ds @ rest) = (Some (of_nat (number (unat ?v) ds), Suc k + length ds), rest)"
      using 1 by (intro Cons.IH(1), unfold v) simp_all
    then show ?case using o lt c unfolding v by (simp add: Let_def digit_def)
  next
    case (2 v k)
    let ?v = "v * 10 + ucast (c - 48)"
    from 2 have c: "digit c" by simp
    show ?case
    proof (cases "unat v * 10 + (unat c - 48) < 2 ^ 64")
      case True
      note v = overflow_check(2) [OF c True]
      have "fst (consume_loop ?v (Suc k) (ds @ rest)) = None"
        using 2 by (intro Cons.IH(2), unfold v) simp_all
      then show ?thesis using overflow_check(1) [OF c, of v] c True by (simp add: Let_def digit_def)
    next
      case False
      then show ?thesis using overflow_check(1) [OF c, of v] c by (simp add: Let_def digit_def)
    qed }
qed

lemma ConsumeDecimalNumber_NumberToString:
  assumes "\<And>c cs. rest = c # cs \<Longrightarrow> \<not> digit c"
  shows "ConsumeDecimalNumber (replicate k 48 @ decimal (unat n) @ rest) = (Some n, rest)"
proof -
  let ?ds = "replicate k 48 @ decimal (unat n)"
  have "number 0 (replicate k 48) = 0" by (induction k) simp_all
  then have "number 0 ?ds = unat n" by simp
  moreover have "\<forall>c \<in> set ?ds. digit c" using decimal_digits [of "unat n"] by (auto simp: digit_def)
  ultimately have "consume_loop 0 0 (?ds @ rest) = (Some (n, length ?ds), rest)"
    using consume_loop_spec(1) [where ds = ?ds and v = 0 and k = 0 and rest = rest] assms unat_bound [of n] by simp
  then show ?thesis by (simp add: ConsumeDecimalNumber_def)
qed

subsection \<open>Properties\<close>

text \<open>
  C30: \<open>ConsumeDecimalNumber\<close> reads a maximal run of digits, returns its value and what follows if
  the value fits into 64 bits, and fails otherwise: the overflow check is exact.
\<close>

theorem consume_decimal:
  assumes "ds \<noteq> []" "\<forall>c \<in> set ds. digit c" "\<forall>c cs. rest = c # cs \<longrightarrow> \<not> digit c"
  shows "if number 0 ds < 2 ^ 64
    then ConsumeDecimalNumber (ds @ rest) = (Some (of_nat (number 0 ds)), rest)
    else fst (ConsumeDecimalNumber (ds @ rest)) = None"
proof (cases "number 0 ds < 2 ^ 64")
  case True
  then show ?thesis
    using consume_loop_spec(1) [where ds = ds and rest = rest and v = 0 and k = 0] assms
    by (simp add: ConsumeDecimalNumber_def)
next
  case False
  then show ?thesis
    using consume_loop_spec(2) [where ds = ds and rest = rest and v = 0 and k = 0] assms
    by (auto simp: ConsumeDecimalNumber_def not_less split: prod.splits option.splits)
qed

theorem consume_decimal_witness:
  "ConsumeDecimalNumber [49, 56, 52, 52, 54, 55, 52, 52, 48, 55, 51, 55, 48, 57, 53, 53, 49, 54, 49, 53, 46] =
     (Some (- 1), [46])"
  using consume_decimal [of "[49, 56, 52, 52, 54, 55, 52, 52, 48, 55, 51, 55, 48, 57, 53, 53, 49, 54, 49, 53]" "[46]"]
  by (simp add: digit_def)

end
