(* ===== verification/LdbStatus.thy ===== *)
theory LdbStatus
  imports LdbLogging
begin

text \<open>
  \<^verbatim>\<open>include/leveldb/status.h\<close> and \<^verbatim>\<open>util/status.cc\<close>. A status is its pointer \<open>state_\<close>:
  \<open>None\<close> for NULL, which is success, or the array it points to: the length of the message in four
  bytes, the code, the message.
\<close>

subsection \<open>The code\<close>

datatype Code = kOk | kNotFound | kCorruption | kNotSupported | kInvalidArgument | kIOError

fun code_number :: "Code \<Rightarrow> byte" where
  "code_number kOk = 0"
| "code_number kNotFound = 1"
| "code_number kCorruption = 2"
| "code_number kNotSupported = 3"
| "code_number kInvalidArgument = 4"
| "code_number kIOError = 5"

type_synonym Status = "bytes option"

definition mkStatus :: "Code \<Rightarrow> bytes \<Rightarrow> bytes \<Rightarrow> Status" where
  "mkStatus c msg msg2 =
     (let len1 = of_nat (length msg) :: u32; len2 = of_nat (length msg2) :: u32;
          size = len1 + (if len2 \<noteq> 0 then 2 + len2 else 0)
      in Some (le_bytes 4 size @ [code_number c] @ take (unat len1) msg @
               (if len2 \<noteq> 0 then [58, 32] @ take (unat len2) msg2 else [])))"

definition CopyState :: "bytes \<Rightarrow> bytes" where
  "CopyState state = (let size = le_word (take 4 state) :: u32 in take (unat (size + 5)) state)"

definition OK :: Status where
  "OK = None"

definition NotFound :: "bytes \<Rightarrow> bytes \<Rightarrow> Status" where
  "NotFound msg msg2 = mkStatus kNotFound msg msg2"

definition Corruption :: "bytes \<Rightarrow> bytes \<Rightarrow> Status" where
  "Corruption msg msg2 = mkStatus kCorruption msg msg2"

definition NotSupported :: "bytes \<Rightarrow> bytes \<Rightarrow> Status" where
  "NotSupported msg msg2 = mkStatus kNotSupported msg msg2"

definition InvalidArgument :: "bytes \<Rightarrow> bytes \<Rightarrow> Status" where
  "InvalidArgument msg msg2 = mkStatus kInvalidArgument msg msg2"

definition IOError :: "bytes \<Rightarrow> bytes \<Rightarrow> Status" where
  "IOError msg msg2 = mkStatus kIOError msg msg2"

definition status_ok :: "Status \<Rightarrow> bool" where
  "status_ok s \<longleftrightarrow> s = None"

text \<open>\<open>code()\<close>, as the number that the cast to the enumeration keeps.\<close>

definition status_code :: "Status \<Rightarrow> byte" where
  "status_code s = (case s of None \<Rightarrow> code_number kOk | Some st \<Rightarrow> st ! 4)"

definition IsNotFound :: "Status \<Rightarrow> bool" where
  "IsNotFound s \<longleftrightarrow> status_code s = code_number kNotFound"

definition IsCorruption :: "Status \<Rightarrow> bool" where
  "IsCorruption s \<longleftrightarrow> status_code s = code_number kCorruption"

definition IsIOError :: "Status \<Rightarrow> bool" where
  "IsIOError s \<longleftrightarrow> status_code s = code_number kIOError"

definition IsNotSupportedError :: "Status \<Rightarrow> bool" where
  "IsNotSupportedError s \<longleftrightarrow> status_code s = code_number kNotSupported"

definition IsInvalidArgument :: "Status \<Rightarrow> bool" where
  "IsInvalidArgument s \<longleftrightarrow> status_code s = code_number kInvalidArgument"

text \<open>The copy constructor.\<close>

definition copy_status :: "Status \<Rightarrow> Status" where
  "copy_status s = map_option CopyState s"

text \<open>\<open>%d\<close> of a number that may be negative.\<close>

definition decimal_int :: "int \<Rightarrow> bytes" where
  "decimal_int i = (if i < 0 then 45 # decimal (nat (- i)) else decimal (nat i))"

definition type_text :: "byte \<Rightarrow> bytes" where
  "type_text c =
     (if c = code_number kOk then lit ''OK''
      else if c = code_number kNotFound then lit ''NotFound: ''
      else if c = code_number kCorruption then lit ''Corruption: ''
      else if c = code_number kNotSupported then lit ''Not implemented: ''
      else if c = code_number kInvalidArgument then lit ''Invalid argument: ''
      else if c = code_number kIOError then lit ''IO error: ''
      else snprintf 30 (lit ''Unknown code('' @ decimal_int (sint c) @ lit ''): ''))"

definition ToString :: "Status \<Rightarrow> bytes" where
  "ToString s =
     (case s of
        None \<Rightarrow> lit ''OK''
      | Some st \<Rightarrow>
          let len = le_word (take 4 st) :: u32
          in type_text (status_code s) @ take (unat len) (drop 5 st))"

subsection \<open>Messages\<close>

definition message :: "bytes \<Rightarrow> bytes \<Rightarrow> bytes" where
  "message msg msg2 = msg @ (if msg2 = [] then [] else [58, 32] @ msg2)"

text \<open>The array of a status whose messages are of any practical length.\<close>

lemma mkStatus_eq:
  assumes "length msg + length msg2 + 7 < 2 ^ 32"
  shows "mkStatus c msg msg2 =
    Some (le_bytes 4 (of_nat (length (message msg msg2)) :: u32) @ [code_number c] @ message msg msg2)"
proof -
  have u: "unat (of_nat (length msg) :: u32) = length msg" "unat (of_nat (length msg2) :: u32) = length msg2"
    using assms by (simp_all add: unat_of_nat)
  then have "(of_nat (length msg2) :: u32) = 0 \<longleftrightarrow> msg2 = []" by (metis length_0_conv unat_eq_0)
  then show ?thesis
    using u by (cases "msg2 = []") (simp_all add: mkStatus_def Let_def message_def algebra_simps)
qed

lemma code_mkStatus [simp]: "status_code (mkStatus c msg msg2) = code_number c"
  by (simp add: mkStatus_def status_code_def Let_def nth_append)

lemma ok_mkStatus [simp]: "\<not> status_ok (mkStatus c msg msg2)" "status_ok OK"
  by (simp_all add: mkStatus_def status_ok_def OK_def Let_def)

lemma code_number_inj: "code_number c = code_number d \<longleftrightarrow> c = d"
  by (cases c; cases d) simp_all

lemmas status_kinds [simp] = IsNotFound_def IsCorruption_def IsIOError_def IsNotSupportedError_def
  IsInvalidArgument_def NotFound_def Corruption_def NotSupported_def InvalidArgument_def IOError_def

lemma le_word_len: "n < 2 ^ 32 \<Longrightarrow> unat (le_word (le_bytes 4 (of_nat n :: u32)) :: u32) = n"
  by (simp add: le_word_le_bytes unat_of_nat del: le_bytes.simps)

subsection \<open>Properties\<close>

text \<open>
  A status carries its code and its message: the accessor of the code returns the code it was
  made with, \<open>ToString\<close> prints the name of the code and the two messages joined by a colon, and
  a copied status is equal to the original.
\<close>

theorem status_carries_message:
  assumes "length msg + length msg2 + 7 < 2 ^ 32" "c \<noteq> kOk"
  shows "status_code (mkStatus c msg msg2) = code_number c \<and> \<not> status_ok (mkStatus c msg msg2) \<and>
    ToString (mkStatus c msg msg2) = type_text (code_number c) @ message msg msg2 \<and>
    copy_status (mkStatus c msg msg2) = mkStatus c msg msg2"
proof -
  let ?n = "length (message msg msg2)"
  have n: "?n + 5 < 2 ^ 32" using assms(1) by (simp add: message_def)
  let ?st = "le_bytes 4 (of_nat ?n :: u32) @ [code_number c] @ message msg msg2"
  have st: "mkStatus c msg msg2 = Some ?st" by (rule mkStatus_eq [OF assms(1)])
  have t: "take 4 ?st = le_bytes 4 (of_nat ?n :: u32)" by (simp del: le_bytes.simps)
  have d: "drop 5 ?st = message msg msg2" by (simp del: le_bytes.simps)
  have u: "unat (of_nat ?n :: u32) = ?n" "unat (of_nat ?n + 5 :: u32) = ?n + 5"
    using n by (simp_all add: unat_of_nat unat_word_ariths)
  have w: "le_word (le_bytes 4 (of_nat ?n :: u32)) = (of_nat ?n :: u32)"
    by (rule le_word_le_bytes) simp
  have "ToString (Some ?st) = type_text (status_code (Some ?st)) @ message msg msg2"
    unfolding ToString_def option.case Let_def t d w u by simp
  moreover have "CopyState ?st = ?st"
    unfolding CopyState_def Let_def t w u by (simp del: le_bytes.simps)
  ultimately show ?thesis
    using code_mkStatus [of c msg msg2] ok_mkStatus(1) [of c msg msg2] by (simp add: st copy_status_def del: le_bytes.simps)
qed

theorem status_carries_message_witness:
  "ToString (mkStatus kCorruption (lit ''bad'') (lit ''x'')) = lit ''Corruption: bad: x''"
  using status_carries_message [of "lit ''bad''" "lit ''x''" kCorruption]
  by (simp add: lit_def message_def type_text_def)

end
