(* ===== verification/LdbCompare.thy ===== *)
theory LdbCompare
  imports LdbCoding
begin

text \<open>
  \<^verbatim>\<open>include/leveldb/slice.h\<close>, \<^verbatim>\<open>util/comparator.cc\<close> and the comparator interface of
  \<^verbatim>\<open>include/leveldb/comparator.h\<close>. The locale \<open>comparator\<close> states what the interface
  promises of \<open>Compare\<close> (a total preorder given by the sign of the result, on the keys a
  client uses); \<open>key_comparator\<close> adds the promises of \<open>FindShortestSeparator\<close> and
  \<open>FindShortSuccessor\<close>. Both are interpreted on the bytewise comparator here and on the
  comparator of internal keys in \<open>LdbFormat\<close>.
\<close>

subsection \<open>Slices\<close>

text \<open>\<open>memcmp\<close>: only the sign of its result is specified, so it is one of -1, 0, 1 here.\<close>

fun memcmp :: "bytes \<Rightarrow> bytes \<Rightarrow> nat \<Rightarrow> int" where
  "memcmp (a # as) (b # bs) (Suc n) =
     (if a < b then -1 else if b < a then 1 else memcmp as bs n)"
| "memcmp as bs n = 0"

definition slice_compare :: "bytes \<Rightarrow> bytes \<Rightarrow> int" where
  "slice_compare a b =
     (let min_len = (if length a < length b then length a else length b);
          r = memcmp a b min_len
      in if r = 0
         then (if length a < length b then -1 else if length a > length b then 1 else r)
         else r)"

definition starts_with :: "bytes \<Rightarrow> bytes \<Rightarrow> bool" where
  "starts_with s x \<longleftrightarrow> length s \<ge> length x \<and> memcmp s x (length x) = 0"

definition slice_eq :: "bytes \<Rightarrow> bytes \<Rightarrow> bool" where
  "slice_eq x y \<longleftrightarrow> length x = length y \<and> memcmp x y (length x) = 0"

definition remove_prefix :: "nat \<Rightarrow> bytes \<Rightarrow> bytes" where
  "remove_prefix n s = drop n s"

subsection \<open>The bytewise comparator\<close>

text \<open>\<open>while ((diff_index < min_length) && (start[diff_index] == limit[diff_index]))\<close>.\<close>

fun diff_index_loop :: "bytes \<Rightarrow> bytes \<Rightarrow> nat" where
  "diff_index_loop (a # as) (b # bs) = (if a = b then Suc (diff_index_loop as bs) else 0)"
| "diff_index_loop as bs = 0"

definition FindShortestSeparator :: "bytes \<Rightarrow> bytes \<Rightarrow> bytes" where
  "FindShortestSeparator start limit =
     (let min_length = min (length start) (length limit);
          diff_index = diff_index_loop start limit
      in if diff_index \<ge> min_length then start
         else
           let diff_byte = start ! diff_index
           in if diff_byte < 0xff \<and> unat diff_byte + 1 < unat (limit ! diff_index)
              then take (diff_index + 1) (start[diff_index := start ! diff_index + 1])
              else start)"

primrec short_successor_loop :: "bytes \<Rightarrow> bytes option" where
  "short_successor_loop [] = None"
| "short_successor_loop (b # key) =
     (if b \<noteq> 0xff then Some [b + 1] else map_option ((#) b) (short_successor_loop key))"

definition FindShortSuccessor :: "bytes \<Rightarrow> bytes" where
  "FindShortSuccessor key = (case short_successor_loop key of Some key' \<Rightarrow> key' | None \<Rightarrow> key)"

subsection \<open>The contracts\<close>

locale comparator =
  fixes cmp :: "'k \<Rightarrow> 'k \<Rightarrow> int" and ok :: "'k \<Rightarrow> bool"
  assumes flip: "ok a \<Longrightarrow> ok b \<Longrightarrow> cmp a b < 0 \<longleftrightarrow> 0 < cmp b a"
    and trans_le: "ok a \<Longrightarrow> ok b \<Longrightarrow> ok c \<Longrightarrow> cmp a b \<le> 0 \<Longrightarrow> cmp b c \<le> 0 \<Longrightarrow> cmp a c \<le> 0"
begin

lemma cmp_self: "ok a \<Longrightarrow> cmp a a = 0"
  using flip [of a a] by linarith

lemma eq_sym: "ok a \<Longrightarrow> ok b \<Longrightarrow> cmp a b = 0 \<longleftrightarrow> cmp b a = 0"
  using flip [of a b] flip [of b a] by linarith

lemma le_flip: "ok a \<Longrightarrow> ok b \<Longrightarrow> cmp a b \<le> 0 \<longleftrightarrow> 0 \<le> cmp b a"
  using flip [of a b] flip [of b a] by linarith

lemma less_le_trans: "ok a \<Longrightarrow> ok b \<Longrightarrow> ok c \<Longrightarrow> cmp a b < 0 \<Longrightarrow> cmp b c \<le> 0 \<Longrightarrow> cmp a c < 0"
  using trans_le [of b c a] flip [of a b] flip [of a c] flip [of c a] by linarith

lemma le_less_trans: "ok a \<Longrightarrow> ok b \<Longrightarrow> ok c \<Longrightarrow> cmp a b \<le> 0 \<Longrightarrow> cmp b c < 0 \<Longrightarrow> cmp a c < 0"
  using trans_le [of c a b] flip [of b c] flip [of a c] flip [of c a] by linarith

lemma less_trans: "ok a \<Longrightarrow> ok b \<Longrightarrow> ok c \<Longrightarrow> cmp a b < 0 \<Longrightarrow> cmp b c < 0 \<Longrightarrow> cmp a c < 0"
  by (rule less_le_trans [of a b c]) simp_all

lemma eq_trans: "ok a \<Longrightarrow> ok b \<Longrightarrow> ok c \<Longrightarrow> cmp a b = 0 \<Longrightarrow> cmp b c = 0 \<Longrightarrow> cmp a c = 0"
  using trans_le [of a b c] trans_le [of c b a] eq_sym [of a b] eq_sym [of b c] le_flip [of c a] by simp

end

text \<open>
  The header asks for a separator only where \<open>start < limit\<close>. \<open>sep_eq\<close> is what the library
  relies on beyond that: between two versions of one user key, \<open>InternalKeyComparator\<close> calls the
  user's function with equal arguments.
\<close>

locale key_comparator = comparator cmp ok
  for cmp :: "bytes \<Rightarrow> bytes \<Rightarrow> int" and ok :: "bytes \<Rightarrow> bool" +
  fixes sep :: "bytes \<Rightarrow> bytes \<Rightarrow> bytes" and succ :: "bytes \<Rightarrow> bytes"
  assumes sep_ok: "ok s \<Longrightarrow> ok l \<Longrightarrow> ok (sep s l)"
    and sep_ge: "ok s \<Longrightarrow> ok l \<Longrightarrow> cmp s (sep s l) \<le> 0"
    and sep_less: "ok s \<Longrightarrow> ok l \<Longrightarrow> cmp s l < 0 \<Longrightarrow> cmp (sep s l) l < 0"
    and sep_eq: "ok s \<Longrightarrow> ok l \<Longrightarrow> cmp s l = 0 \<Longrightarrow> cmp (sep s l) s \<le> 0"
    and succ_ok: "ok k \<Longrightarrow> ok (succ k)"
    and succ_ge: "ok k \<Longrightarrow> cmp k (succ k) \<le> 0"
begin

text \<open>
  How tables use a separator between two blocks: it is not below any key of the first block and
  below every key of the second.
\<close>

lemma sep_between:
  assumes "ok s" "ok l" "cmp s l < 0" "ok k" "cmp k s \<le> 0" "ok k'" "cmp l k' \<le> 0"
  shows "cmp k (sep s l) \<le> 0 \<and> cmp (sep s l) k' < 0"
  using assms trans_le [of k s "sep s l"] less_le_trans [of "sep s l" l k'] sep_ok sep_ge sep_less by blast

end

subsection \<open>Proofs for slices\<close>

lemma memcmp_take: "memcmp a b n = memcmp (take n a) (take n b) n"
  by (induction a b n rule: memcmp.induct) auto

lemma memcmp_eq_0: "n \<le> length a \<Longrightarrow> n \<le> length b \<Longrightarrow> memcmp a b n = 0 \<longleftrightarrow> take n a = take n b"
  by (induction a b n rule: memcmp.induct) auto

lemma slice_compare_simps [simp]:
  "slice_compare [] [] = 0"
  "slice_compare [] (b # bs) = -1"
  "slice_compare (a # as) [] = 1"
  "slice_compare (a # as) (b # bs) =
     (if a < b then -1 else if b < a then 1 else slice_compare as bs)"
  by (auto simp: slice_compare_def Let_def)

lemma slice_compare_eq_0: "slice_compare a b = 0 \<longleftrightarrow> a = b"
  by (induction a b rule: list_induct2') auto

text \<open>The order is the lexicographic order on bytes.\<close>

lemma slice_compare_less: "slice_compare a b < 0 \<longleftrightarrow> (a, b) \<in> lexord {(x, y). x < y}"
  by (induction a b rule: list_induct2') auto

lemma slice_compare_flip: "slice_compare a b < 0 \<longleftrightarrow> 0 < slice_compare b a"
  by (induction a b rule: list_induct2') auto

lemma slice_compare_trans:
  "slice_compare a b \<le> 0 \<Longrightarrow> slice_compare b c \<le> 0 \<Longrightarrow> slice_compare a c \<le> 0"
proof (induction a b arbitrary: c rule: list_induct2')
  case 1
  then show ?case by simp
next
  case (2 a as)
  then show ?case by simp
next
  case (3 b bs)
  then show ?case by (cases c) auto
next
  case (4 a as b bs)
  then show ?case by (cases c) (auto split: if_splits)
qed

lemma slice_eq_iff: "slice_eq a b \<longleftrightarrow> a = b"
  using memcmp_eq_0 [of "length a" a b] by (auto simp: slice_eq_def)

lemma starts_with_iff: "starts_with s x \<longleftrightarrow> take (length x) s = x"
proof -
  have "length x \<le> length s" if "take (length x) s = x"
    using that by (metis length_take min.cobounded1)
  then show ?thesis using memcmp_eq_0 [of "length x" s x] by (auto simp: starts_with_def)
qed

interpretation slice_order: comparator slice_compare "\<lambda>_. True"
  by standard (auto simp: slice_compare_flip intro: slice_compare_trans)

subsection \<open>Proofs for separators\<close>

lemma slice_compare_append [simp]: "slice_compare (xs @ a) (xs @ b) = slice_compare a b"
  by (induction xs) auto

lemma slice_compare_self [simp]: "slice_compare a a = 0"
  by (simp add: slice_compare_eq_0)

lemma diff_index_split:
  "diff_index_loop a b < min (length a) (length b) \<Longrightarrow>
   \<exists>p x as y bs. a = p @ x # as \<and> b = p @ y # bs \<and> x \<noteq> y \<and> diff_index_loop a b = length p"
proof (induction a b rule: diff_index_loop.induct)
  case (1 a as b bs)
  show ?case
  proof (cases "a = b")
    case True
    then have "diff_index_loop as bs < min (length as) (length bs)" using "1.prems" by auto
    from "1.IH" [OF True this] obtain p x cs y ds where
      "as = p @ x # cs" "bs = p @ y # ds" "x \<noteq> y" "diff_index_loop as bs = length p" by blast
    then show ?thesis
      using True by (intro exI [of _ "a # p"] exI [of _ x] exI [of _ cs] exI [of _ y] exI [of _ ds]) simp
  next
    case False
    then show ?thesis by (auto intro: exI [of _ "[]"])
  qed
qed auto

lemma FindShortestSeparator_cases:
  obtains (same) "FindShortestSeparator s l = s"
  | (shorter) p x as y bs where "s = p @ x # as" "l = p @ y # bs" "x < x + 1" "x + 1 < y"
      "FindShortestSeparator s l = p @ [x + 1]"
proof (cases "diff_index_loop s l < min (length s) (length l)")
  case True
  then obtain p x as y bs where d: "s = p @ x # as" "l = p @ y # bs" "x \<noteq> y" "diff_index_loop s l = length p"
    using diff_index_split by blast
  show thesis
  proof (cases "x < 0xff \<and> unat x + 1 < unat y")
    case cond: True
    then have "unat (x + 1) = unat x + 1"
      by (simp add: unat_word_ariths word_less_nat_alt)
    then have "x < x + 1" "x + 1 < y" using cond by (simp_all add: word_less_nat_alt)
    moreover have "FindShortestSeparator s l = p @ [x + 1]"
      using d cond by (simp add: FindShortestSeparator_def Let_def)
    ultimately show thesis using d shorter by blast
  next
    case False
    then show thesis using d by (intro same) (auto simp: FindShortestSeparator_def Let_def)
  qed
next
  case False
  then show thesis by (intro same) (auto simp: FindShortestSeparator_def Let_def)
qed

lemma short_successor_cases:
  obtains (same) "FindShortSuccessor k = k"
  | (shorter) p x as where "k = p @ x # as" "x < x + 1" "FindShortSuccessor k = p @ [x + 1]"
proof -
  have "short_successor_loop k = Some k' \<Longrightarrow> \<exists>p x as. k = p @ x # as \<and> x \<noteq> 0xff \<and> k' = p @ [x + 1]" for k'
  proof (induction k arbitrary: k')
    case (Cons b k)
    then show ?case
      by (cases "b = 0xff") (auto intro: exI [of _ "[]"] exI [of _ "b # _"] split: option.splits)
  qed simp
  moreover have "x < x + 1" if "x \<noteq> 0xff" for x :: byte
  proof -
    have "unat x \<noteq> unat (0xff :: byte)" using that word_unat_eq_iff [of x "0xff"] by blast
    then have "unat x + 1 < 256" using unat_bound [of x] by simp
    then show ?thesis by (simp add: word_less_nat_alt unat_word_ariths)
  qed
  ultimately show thesis
    using same shorter by (cases "short_successor_loop k") (auto simp: FindShortSuccessor_def)
qed

interpretation bytewise: key_comparator slice_compare "\<lambda>_. True" FindShortestSeparator FindShortSuccessor
proof
  fix s l k :: bytes
  show "slice_compare s (FindShortestSeparator s l) \<le> 0"
    by (cases rule: FindShortestSeparator_cases [of s l]) auto
  show "slice_compare k (FindShortSuccessor k) \<le> 0"
    by (cases rule: short_successor_cases [of k]) auto
  show "slice_compare (FindShortestSeparator s l) s \<le> 0" if "slice_compare s l = 0"
    using that by (cases rule: FindShortestSeparator_cases [of s l]) (auto split: if_splits)
  show "slice_compare (FindShortestSeparator s l) l < 0" if "slice_compare s l < 0"
    using that by (cases rule: FindShortestSeparator_cases [of s l]) auto
qed simp_all

lemma FindShortestSeparator_length: "length (FindShortestSeparator s l) \<le> length s"
  by (cases rule: FindShortestSeparator_cases [of s l]) auto

end
