(* ===== verification/LdbFilename.thy ===== *)
theory LdbFilename
  imports LdbStatus LdbCompare
begin

text \<open>
  \<^verbatim>\<open>db/filename.h\<close> and \<^verbatim>\<open>db/filename.cc\<close>: the names of the files of a database and their parser.
  The parser is given the name inside the directory. \<open>SetCurrentFile\<close> takes the three operations of
  the environment it calls as arguments.
\<close>

subsection \<open>The code\<close>

datatype FileType = kLogFile | kDBLockFile | kTableFile | kDescriptorFile | kCurrentFile | kTempFile
  | kInfoLogFile

text \<open>\<open>%06llu\<close>.\<close>

definition pad6 :: "u64 \<Rightarrow> bytes" where
  "pad6 n = (let ds = decimal (unat n) in replicate (6 - length ds) 48 @ ds)"

definition MakeFileName :: "bytes \<Rightarrow> u64 \<Rightarrow> bytes \<Rightarrow> bytes" where
  "MakeFileName name n suffix = name @ snprintf 100 (lit ''/'' @ pad6 n @ lit ''.'' @ suffix)"

definition LogFileName :: "bytes \<Rightarrow> u64 \<Rightarrow> bytes" where
  "LogFileName name n = MakeFileName name n (lit ''log'')"

definition TableFileName :: "bytes \<Rightarrow> u64 \<Rightarrow> bytes" where
  "TableFileName name n = MakeFileName name n (lit ''ldb'')"

definition SSTTableFileName :: "bytes \<Rightarrow> u64 \<Rightarrow> bytes" where
  "SSTTableFileName name n = MakeFileName name n (lit ''sst'')"

definition DescriptorFileName :: "bytes \<Rightarrow> u64 \<Rightarrow> bytes" where
  "DescriptorFileName dbname n = dbname @ snprintf 100 (lit ''/MANIFEST-'' @ pad6 n)"

definition CurrentFileName :: "bytes \<Rightarrow> bytes" where
  "CurrentFileName dbname = dbname @ lit ''/CURRENT''"

definition LockFileName :: "bytes \<Rightarrow> bytes" where
  "LockFileName dbname = dbname @ lit ''/LOCK''"

definition TempFileName :: "bytes \<Rightarrow> u64 \<Rightarrow> bytes" where
  "TempFileName dbname n = MakeFileName dbname n (lit ''dbtmp'')"

definition InfoLogFileName :: "bytes \<Rightarrow> bytes" where
  "InfoLogFileName dbname = dbname @ lit ''/LOG''"

definition OldInfoLogFileName :: "bytes \<Rightarrow> bytes" where
  "OldInfoLogFileName dbname = dbname @ lit ''/LOG.old''"

definition ParseFileName :: "bytes \<Rightarrow> (u64 \<times> FileType) option" where
  "ParseFileName fname =
     (if slice_eq fname (lit ''CURRENT'') then Some (0, kCurrentFile)
      else if slice_eq fname (lit ''LOCK'') then Some (0, kDBLockFile)
      else if slice_eq fname (lit ''LOG'') \<or> slice_eq fname (lit ''LOG.old'') then Some (0, kInfoLogFile)
      else if starts_with fname (lit ''MANIFEST-'')
      then
        (case ConsumeDecimalNumber (remove_prefix 9 fname) of
           (None, rest) \<Rightarrow> None
         | (Some num, rest) \<Rightarrow> if rest \<noteq> [] then None else Some (num, kDescriptorFile))
      else
        (case ConsumeDecimalNumber fname of
           (None, rest) \<Rightarrow> None
         | (Some num, suffix) \<Rightarrow>
             if slice_eq suffix (lit ''.log'') then Some (num, kLogFile)
             else if slice_eq suffix (lit ''.sst'') \<or> slice_eq suffix (lit ''.ldb'') then Some (num, kTableFile)
             else if slice_eq suffix (lit ''.dbtmp'') then Some (num, kTempFile)
             else None))"

definition SetCurrentFile ::
  "(bytes \<Rightarrow> bytes \<Rightarrow> 'env \<Rightarrow> Status \<times> 'env) \<Rightarrow> (bytes \<Rightarrow> bytes \<Rightarrow> 'env \<Rightarrow> Status \<times> 'env) \<Rightarrow>
   (bytes \<Rightarrow> 'env \<Rightarrow> Status \<times> 'env) \<Rightarrow> bytes \<Rightarrow> u64 \<Rightarrow> 'env \<Rightarrow> Status \<times> 'env" where
  "SetCurrentFile WriteStringToFileSync RenameFile DeleteFile dbname descriptor_number env =
     (let manifest = DescriptorFileName dbname descriptor_number;
          cont = remove_prefix (length dbname + 1) manifest;
          tmp = TempFileName dbname descriptor_number;
          (s, env) = WriteStringToFileSync (cont @ [10]) tmp env;
          (s, env) = (if status_ok s then RenameFile tmp (CurrentFileName dbname) env else (s, env))
      in if status_ok s then (s, env) else (s, snd (DeleteFile tmp env)))"

subsection \<open>Lemmas\<close>

lemma length_pad6: "length (pad6 n) \<le> 20"
proof -
  have "unat n < 10 ^ Suc 19" using unat_bound [of n] by simp
  then show ?thesis using length_decimal [of "unat n" 19] by (simp add: pad6_def Let_def)
qed

lemma MakeFileName_eq: "length suffix < 50 \<Longrightarrow> MakeFileName name n suffix = name @ lit ''/'' @ pad6 n @ lit ''.'' @ suffix"
  using length_pad6 [of n] by (simp add: MakeFileName_def snprintf_def lit_def)

lemma DescriptorFileName_eq: "DescriptorFileName name n = name @ lit ''/MANIFEST-'' @ pad6 n"
  using length_pad6 [of n] by (simp add: DescriptorFileName_def snprintf_def lit_def)

lemma Consume_pad6:
  assumes "\<And>c cs. rest = c # cs \<Longrightarrow> \<not> digit c"
  shows "ConsumeDecimalNumber (pad6 n @ rest) = (Some n, rest)"
  using ConsumeDecimalNumber_NumberToString [OF assms, where n = n] by (simp add: pad6_def Let_def)

lemma pad6_Cons: obtains c cs where "pad6 n = c # cs" "48 \<le> unat c" "unat c \<le> 57"
proof -
  have "pad6 n \<noteq> []" "\<forall>c \<in> set (pad6 n). digit c"
    using decimal_digits [of "unat n"] by (auto simp: pad6_def Let_def digit_def)
  then show thesis using that by (cases "pad6 n") (auto simp: digit_unat)
qed

lemma parse_numbered:
  assumes "\<And>c cs. rest = c # cs \<Longrightarrow> \<not> digit c"
  shows "ParseFileName (pad6 n @ rest) =
     (if rest = lit ''.log'' then Some (n, kLogFile)
      else if rest = lit ''.sst'' \<or> rest = lit ''.ldb'' then Some (n, kTableFile)
      else if rest = lit ''.dbtmp'' then Some (n, kTempFile)
      else None)"
proof -
  obtain c cs where c: "pad6 n = c # cs" "48 \<le> unat c" "unat c \<le> 57" by (rule pad6_Cons)
  then have "c \<noteq> 67" "c \<noteq> 76" "c \<noteq> 77" by auto
  then have "pad6 n @ rest \<noteq> lit ''CURRENT''" "pad6 n @ rest \<noteq> lit ''LOCK''" "pad6 n @ rest \<noteq> lit ''LOG''"
    "pad6 n @ rest \<noteq> lit ''LOG.old''" "take (length (lit ''MANIFEST-'')) (pad6 n @ rest) \<noteq> lit ''MANIFEST-''"
    by (simp_all add: c(1) lit_def)
  then show ?thesis
    by (simp add: ParseFileName_def slice_eq_iff starts_with_iff Consume_pad6 [OF assms] del: take_append)
qed

lemma parse_manifest: "ParseFileName (lit ''MANIFEST-'' @ pad6 n) = Some (n, kDescriptorFile)"
proof -
  have "remove_prefix 9 (lit ''MANIFEST-'' @ pad6 n) = pad6 n" by (simp add: remove_prefix_def lit_def)
  moreover have "starts_with (lit ''MANIFEST-'' @ pad6 n) (lit ''MANIFEST-'')" by (simp add: starts_with_iff)
  moreover have "lit ''MANIFEST-'' @ pad6 n \<noteq> lit s" if "s \<in> {''CURRENT'', ''LOCK'', ''LOG'', ''LOG.old''}" for s
    using that by (auto simp: lit_def)
  ultimately show ?thesis
    using Consume_pad6 [of "[]" n] by (simp add: ParseFileName_def slice_eq_iff)
qed

definition base_name :: "bytes \<Rightarrow> bytes \<Rightarrow> bytes" where
  "base_name dbname fname = drop (length dbname + 1) fname"

subsection \<open>Properties\<close>

text \<open>
  C29: The parser of file names gives back the number and the type of every name that the library
  makes, for every 64-bit file number.
\<close>

theorem filename_roundtrip:
  "ParseFileName (base_name db (LogFileName db n)) = Some (n, kLogFile) \<and>
   ParseFileName (base_name db (TableFileName db n)) = Some (n, kTableFile) \<and>
   ParseFileName (base_name db (SSTTableFileName db n)) = Some (n, kTableFile) \<and>
   ParseFileName (base_name db (TempFileName db n)) = Some (n, kTempFile) \<and>
   ParseFileName (base_name db (DescriptorFileName db n)) = Some (n, kDescriptorFile) \<and>
   ParseFileName (base_name db (CurrentFileName db)) = Some (0, kCurrentFile) \<and>
   ParseFileName (base_name db (LockFileName db)) = Some (0, kDBLockFile) \<and>
   ParseFileName (base_name db (InfoLogFileName db)) = Some (0, kInfoLogFile) \<and>
   ParseFileName (base_name db (OldInfoLogFileName db)) = Some (0, kInfoLogFile)"
proof -
  have dot: "\<not> digit c" if "lit ''.'' @ s = c # cs" for s c cs
    using that by (auto simp: lit_def digit_def)
  have dots: "lit ''.log'' = lit ''.'' @ lit ''log''" "lit ''.sst'' = lit ''.'' @ lit ''sst''"
    "lit ''.ldb'' = lit ''.'' @ lit ''ldb''" "lit ''.dbtmp'' = lit ''.'' @ lit ''dbtmp''" by (simp_all add: lit_def)
  have base: "base_name db (db @ lit ''/'' @ s) = s" for s by (simp add: base_name_def lit_def)
  have "lit ''/MANIFEST-'' = lit ''/'' @ lit ''MANIFEST-''" "lit ''/CURRENT'' = lit ''/'' @ lit ''CURRENT''"
    "lit ''/LOCK'' = lit ''/'' @ lit ''LOCK''" "lit ''/LOG'' = lit ''/'' @ lit ''LOG''"
    "lit ''/LOG.old'' = lit ''/'' @ lit ''LOG.old''" by (simp_all add: lit_def)
  note split = this
  have num: "ParseFileName (base_name db (MakeFileName db n s)) =
     (if s = lit ''log'' then Some (n, kLogFile)
      else if s = lit ''sst'' \<or> s = lit ''ldb'' then Some (n, kTableFile)
      else if s = lit ''dbtmp'' then Some (n, kTempFile)
      else None)" if "length s < 50" for s
    using parse_numbered [of "lit ''.'' @ s" n, OF dot] unfolding MakeFileName_eq [OF that] base dots same_append_eq .
  have "ParseFileName (base_name db (LogFileName db n)) = Some (n, kLogFile)"
    "ParseFileName (base_name db (TableFileName db n)) = Some (n, kTableFile)"
    "ParseFileName (base_name db (SSTTableFileName db n)) = Some (n, kTableFile)"
    "ParseFileName (base_name db (TempFileName db n)) = Some (n, kTempFile)"
    unfolding LogFileName_def TableFileName_def SSTTableFileName_def TempFileName_def
    by (subst num; simp add: lit_def)+
  moreover have "ParseFileName (base_name db (DescriptorFileName db n)) = Some (n, kDescriptorFile)"
    by (simp add: DescriptorFileName_eq split(1) base parse_manifest)
  moreover have "ParseFileName (lit ''CURRENT'') = Some (0, kCurrentFile)"
    "ParseFileName (lit ''LOCK'') = Some (0, kDBLockFile)" "ParseFileName (lit ''LOG'') = Some (0, kInfoLogFile)"
    "ParseFileName (lit ''LOG.old'') = Some (0, kInfoLogFile)"
    by (simp_all add: ParseFileName_def slice_eq_iff) (simp_all add: lit_def)
  then have "ParseFileName (base_name db (CurrentFileName db)) = Some (0, kCurrentFile)"
    "ParseFileName (base_name db (LockFileName db)) = Some (0, kDBLockFile)"
    "ParseFileName (base_name db (InfoLogFileName db)) = Some (0, kInfoLogFile)"
    "ParseFileName (base_name db (OldInfoLogFileName db)) = Some (0, kInfoLogFile)"
    unfolding CurrentFileName_def LockFileName_def InfoLogFileName_def OldInfoLogFileName_def split base .
  ultimately show ?thesis by blast
qed

end
