(* ===== verification/LdbRandom.thy ===== *)
theory LdbRandom
  imports Prelude
begin

text \<open>
  \<^verbatim>\<open>util/random.h\<close>: the Lehmer generator modulo \<open>2\<^sup>31 - 1\<close> and its division-free reduction.
  The state is the member \<open>seed_\<close>; each operation returns its value and the new state.
\<close>

definition mkRandom :: "u32 \<Rightarrow> u32" where
  "mkRandom s = (let seed = s AND 0x7fffffff in if seed = 0 \<or> seed = 2147483647 then 1 else seed)"

definition Random_Next :: "u32 \<Rightarrow> u32 \<times> u32" where
  "Random_Next seed =
     (let M = 2147483647 :: u32; A = 16807 :: u64;
          product = ucast seed * A;
          seed = ucast (drop_bit 31 product + (product AND ucast M)) :: u32;
          seed = (if seed > M then seed - M else seed)
      in (seed, seed))"

definition Random_Uniform :: "u32 \<Rightarrow> u32 \<Rightarrow> u32 \<times> u32" where
  "Random_Uniform n seed = (case Random_Next seed of (r, seed) \<Rightarrow> (r mod n, seed))"

definition Random_OneIn :: "u32 \<Rightarrow> u32 \<Rightarrow> bool \<times> u32" where
  "Random_OneIn n seed = (case Random_Next seed of (r, seed) \<Rightarrow> (r mod n = 0, seed))"

definition Random_Skewed :: "u32 \<Rightarrow> u32 \<Rightarrow> u32 \<times> u32" where
  "Random_Skewed max_log seed =
     (case Random_Uniform (max_log + 1) seed of (b, seed) \<Rightarrow> Random_Uniform (push_bit (unat b) 1) seed)"

text \<open>A state from which the generator never gets stuck.\<close>

definition good_seed :: "u32 \<Rightarrow> bool" where
  "good_seed s \<longleftrightarrow> 0 < unat s \<and> unat s < 2147483647"

lemma mask31: "(w :: 'a::len word) AND 2147483647 = take_bit 31 w"
  by (simp add: take_bit_eq_mask mask_eq_exp_minus_1)

lemma good_seed_mkRandom: "good_seed (mkRandom s)"
proof -
  have lt: "unat (s AND 0x7fffffff) < 2 ^ 31"
    unfolding mask31 by (simp only: unsigned_take_bit_eq) (simp add: take_bit_eq_mod)
  have "unat (s AND 0x7fffffff) \<noteq> 2147483647" if "s AND 0x7fffffff \<noteq> 2147483647"
    using that word_unat_eq_iff [of "s AND 0x7fffffff" 2147483647] by simp
  moreover have "0 < unat (s AND 0x7fffffff)" if "s AND 0x7fffffff \<noteq> 0"
    using that by (simp add: unat_gt_0)
  ultimately show ?thesis
    using lt unfolding good_seed_def mkRandom_def Let_def by (auto split: if_split)
qed

lemma fold31: "(p :: nat) mod 2147483647 = (p div 2 ^ 31 + p mod 2 ^ 31) mod 2147483647"
proof -
  have "p = 2147483647 * (p div 2 ^ 31) + (p div 2 ^ 31 + p mod 2 ^ 31)"
    using div_mult_mod_eq [of p "2 ^ 31"] by simp
  then show ?thesis by (metis mod_mult_self4)
qed

lemma coprime_16807: "coprime (2147483647 :: nat) 16807"
proof -
  have "coprime (2147483647 :: nat) 7"
  proof (rule coprimeI)
    fix c :: nat assume c: "c dvd 2147483647" "c dvd 7"
    then have "c dvd 7 * 306783378" by (intro dvd_mult2)
    with c(1) have "c dvd 2147483647 - 7 * 306783378" by (rule dvd_diff_nat)
    then show "is_unit c" by simp
  qed
  then have "coprime (2147483647 :: nat) (7 ^ 5)" by (simp only: coprime_power_right_iff) simp
  then show ?thesis by simp
qed

lemma Random_Next_spec:
  assumes "good_seed s"
  shows "Random_Next s = (r, s') \<Longrightarrow>
    s' = r \<and> unat r = unat s * 16807 mod 2147483647 \<and> good_seed s'"
proof -
  let ?p = "unat s * 16807" and ?w = "ucast s * 16807 :: u64"
  let ?sum = "?p div 2 ^ 31 + ?p mod 2 ^ 31"
  have s: "0 < unat s" "unat s < 2147483647" using assms by (simp_all add: good_seed_def)
  have "unat (ucast s :: u64) = unat s" using s by (intro unat_ucast_small) simp
  then have w: "unat ?w = ?p" using s by (simp add: unat_word_ariths)
  have "unat (drop_bit 31 ?w) = ?p div 2 ^ 31"
    by (simp only: unat_drop_bit_eq w) (simp add: drop_bit_eq_div)
  moreover have "unat (?w AND ucast (2147483647 :: u32)) = ?p mod 2 ^ 31"
  proof -
    have "(ucast (2147483647 :: u32) :: u64) = 2147483647" by simp
    then show ?thesis by (simp only: mask31 unsigned_take_bit_eq w) (simp add: take_bit_eq_mod)
  qed
  moreover have sum: "?sum < 2 ^ 31 + 16807" using s by (simp add: add_less_le_mono less_mult_imp_div_less)
  ultimately have t: "unat (ucast (drop_bit 31 ?w + (?w AND ucast (2147483647 :: u32))) :: u32) = ?sum"
    by (subst unat_ucast_small) (simp_all add: unat_word_ariths)
  have nz: "?sum mod 2147483647 \<noteq> 0"
  proof
    assume "?sum mod 2147483647 = 0"
    then have "2147483647 dvd unat s * 16807" using fold31 [of ?p] by (simp add: mod_eq_0_iff_dvd)
    moreover have "coprime (2147483647 :: nat) 16807"
      by (rule coprime_16807)
    ultimately have "2147483647 dvd unat s" by (simp add: coprime_dvd_mult_left_iff)
    then show False using s by (auto dest: dvd_imp_le)
  qed
  assume n: "Random_Next s = (r, s')"
  then have "s' = r" by (auto simp: Random_Next_def Let_def)
  moreover have "unat r = ?sum mod 2147483647"
  proof (cases "?sum > 2147483647")
    case True
    then have "unat r = ?sum - 2147483647"
      using n t by (auto simp: Random_Next_def Let_def word_less_nat_alt unat_sub word_le_nat_alt)
    moreover have "?sum mod 2147483647 = ?sum - 2147483647"
      using True sum le_mod_geq [of 2147483647 ?sum] by simp
    ultimately show ?thesis by simp
  next
    case False
    then have "unat r = ?sum" using n t by (auto simp: Random_Next_def Let_def word_less_nat_alt)
    moreover have "?sum \<noteq> 2147483647" using nz by auto
    ultimately show ?thesis using False by simp
  qed
  ultimately show ?thesis
    using nz fold31 [of ?p] by (simp add: good_seed_def)
qed

end
