(* ===== verification/LdbSkipList.thy ===== *)
theory LdbSkipList
  imports LdbCompare LdbRandom
begin

text \<open>
  \<^verbatim>\<open>db/skiplist.h\<close>: the skip list behind the memtable. Nodes live in a heap: an address is a
  natural number, 0 is NULL and 1 is \<open>head_\<close>; \<open>keys\<close> and \<open>links\<close> are the fields
  \<open>key\<close> and \<open>next_[]\<close> of the nodes, the latter as long as the height the node was allocated
  with, and \<open>fresh\<close> is the next address the arena hands out. A read or write past the end of
  a \<open>next_\<close> array is \<open>None\<close>, as is a search that never returns, so that totality theorems
  also say that no link outside a node is touched. Assertions are compiled out.

  The relation \<open>rep\<close> is the invariant: one strictly sorted list per level, each level contained
  in the one below. It is deliberately weak enough to hold in the middle of an insertion, when a
  node is already linked on the lower levels only: that is what lock-free readers see.
\<close>

type_synonym node = nat

definition kMaxHeight :: nat where
  "kMaxHeight = 12"

definition head :: node where
  "head = 1"

record 'k skiplist =
  keys :: "node \<Rightarrow> 'k"
  links :: "node \<Rightarrow> node list"
  fresh :: node
  max_height :: nat
  rnd :: u32

definition mkSkipList :: "'k \<Rightarrow> 'k skiplist" where
  "mkSkipList any =
     \<lparr>keys = (\<lambda>_. any), links = (\<lambda>x. if x = head then replicate kMaxHeight 0 else []),
      fresh = 2, max_height = 1, rnd = mkRandom 0xdeadbeef\<rparr>"

text \<open>\<open>x->Next(n)\<close>, \<open>x->SetNext(n, y)\<close> and \<open>NewNode\<close>.\<close>

definition Next :: "'k skiplist \<Rightarrow> node \<Rightarrow> nat \<Rightarrow> node option" where
  "Next sl x n = (if n < length (links sl x) then Some (links sl x ! n) else None)"

definition SetNext :: "'k skiplist \<Rightarrow> node \<Rightarrow> nat \<Rightarrow> node \<Rightarrow> 'k skiplist option" where
  "SetNext sl x n y =
     (if n < length (links sl x) then Some (sl\<lparr>links := (links sl)(x := (links sl x)[n := y])\<rparr>) else None)"

definition NewNode :: "'k skiplist \<Rightarrow> 'k \<Rightarrow> nat \<Rightarrow> node \<times> 'k skiplist" where
  "NewNode sl key height =
     (fresh sl,
      sl\<lparr>keys := (keys sl)(fresh sl := key), links := (links sl)(fresh sl := replicate height 0),
         fresh := Suc (fresh sl)\<rparr>)"

text \<open>\<open>while (height < kMaxHeight && ((rnd_.Next() % kBranching) == 0)) height++;\<close>\<close>

function random_height_loop :: "nat \<Rightarrow> u32 \<Rightarrow> nat \<times> u32" where
  "random_height_loop height seed =
     (if height < kMaxHeight
      then
        (case Random_Next seed of (r, seed) \<Rightarrow>
           if r mod 4 = 0 then random_height_loop (height + 1) seed else (height, seed))
      else (height, seed))"
  by pat_completeness auto
termination by (relation "measure (\<lambda>(height, seed). kMaxHeight - height)") auto

declare random_height_loop.simps [simp del]

definition RandomHeight :: "'k skiplist \<Rightarrow> nat \<times> 'k skiplist" where
  "RandomHeight sl = (case random_height_loop 1 (rnd sl) of (h, seed) \<Rightarrow> (h, sl\<lparr>rnd := seed\<rparr>))"

definition KeyIsAfterNode :: "('k \<Rightarrow> 'k \<Rightarrow> int) \<Rightarrow> 'k skiplist \<Rightarrow> 'k \<Rightarrow> node \<Rightarrow> bool" where
  "KeyIsAfterNode cmp sl key n \<longleftrightarrow> n \<noteq> 0 \<and> cmp (keys sl n) key < 0"

text \<open>
  The loop of the three searches: go on to the next node while \<open>forward\<close> holds of it, else note
  \<open>prev[level]\<close> and go down a level, on level 0 return. The array \<open>prev\<close> is the empty list for
  the NULL pointer.
\<close>

partial_function (option) descend ::
  "(node \<Rightarrow> bool) \<Rightarrow> 'k skiplist \<Rightarrow> node \<Rightarrow> nat \<Rightarrow> node list \<Rightarrow> (node \<times> node \<times> node list) option" where
  "descend forward sl x level prev =
     (case Next sl x level of
        None \<Rightarrow> None
      | Some nxt \<Rightarrow>
          if forward nxt then descend forward sl nxt level prev
          else if level = 0 then Some (x, nxt, prev[level := x])
          else descend forward sl x (level - 1) (prev[level := x]))"

definition FindGreaterOrEqual ::
  "('k \<Rightarrow> 'k \<Rightarrow> int) \<Rightarrow> 'k skiplist \<Rightarrow> 'k \<Rightarrow> node list \<Rightarrow> (node \<times> node list) option" where
  "FindGreaterOrEqual cmp sl key prev =
     map_option (\<lambda>(x, nxt, prev). (nxt, prev))
       (descend (KeyIsAfterNode cmp sl key) sl head (max_height sl - 1) prev)"

definition FindLessThan :: "('k \<Rightarrow> 'k \<Rightarrow> int) \<Rightarrow> 'k skiplist \<Rightarrow> 'k \<Rightarrow> node option" where
  "FindLessThan cmp sl key =
     map_option fst
       (descend (\<lambda>nxt. \<not> (nxt = 0 \<or> cmp (keys sl nxt) key \<ge> 0)) sl head (max_height sl - 1) [])"

definition FindLast :: "'k skiplist \<Rightarrow> node option" where
  "FindLast sl = map_option fst (descend (\<lambda>nxt. nxt \<noteq> 0) sl head (max_height sl - 1) [])"

text \<open>The two stores of one round of the loop in \<open>Insert\<close>, and the rounds for given levels.\<close>

definition link_level :: "node \<Rightarrow> node list \<Rightarrow> nat \<Rightarrow> 'k skiplist \<Rightarrow> 'k skiplist option" where
  "link_level x prev i sl =
     (case Next sl (prev ! i) i of
        None \<Rightarrow> None
      | Some nxt \<Rightarrow>
          (case SetNext sl x i nxt of
             None \<Rightarrow> None
           | Some sl \<Rightarrow> SetNext sl (prev ! i) i x))"

fun link_levels :: "node \<Rightarrow> node list \<Rightarrow> nat list \<Rightarrow> 'k skiplist \<Rightarrow> 'k skiplist option" where
  "link_levels x prev [] sl = Some sl"
| "link_levels x prev (i # is) sl =
     (case link_level x prev i sl of None \<Rightarrow> None | Some sl \<Rightarrow> link_levels x prev is sl)"

text \<open>Everything in \<open>Insert\<close> before the loop: the new node, its height, \<open>prev\<close> and the state.\<close>

definition insert_prepare ::
  "('k \<Rightarrow> 'k \<Rightarrow> int) \<Rightarrow> 'k skiplist \<Rightarrow> 'k \<Rightarrow> (node \<times> nat \<times> node list \<times> 'k skiplist) option" where
  "insert_prepare cmp sl key =
     (case FindGreaterOrEqual cmp sl key (replicate kMaxHeight 0) of
        None \<Rightarrow> None
      | Some (x, prev) \<Rightarrow>
          (case RandomHeight sl of (height, sl) \<Rightarrow>
             let (prev, sl) =
                   (if height > max_height sl
                    then (fold (\<lambda>i prev. prev[i := head]) [max_height sl..<height] prev,
                          sl\<lparr>max_height := height\<rparr>)
                    else (prev, sl));
                 (x, sl) = NewNode sl key height
             in Some (x, height, prev, sl)))"

definition Insert :: "('k \<Rightarrow> 'k \<Rightarrow> int) \<Rightarrow> 'k skiplist \<Rightarrow> 'k \<Rightarrow> 'k skiplist option" where
  "Insert cmp sl key =
     (case insert_prepare cmp sl key of
        None \<Rightarrow> None
      | Some (x, height, prev, sl) \<Rightarrow> link_levels x prev [0..<height] sl)"

definition Contains :: "('k \<Rightarrow> 'k \<Rightarrow> int) \<Rightarrow> 'k skiplist \<Rightarrow> 'k \<Rightarrow> bool option" where
  "Contains cmp sl key =
     map_option (\<lambda>(x, _). x \<noteq> 0 \<and> cmp key (keys sl x) = 0) (FindGreaterOrEqual cmp sl key [])"

subsection \<open>Iterators\<close>

text \<open>An iterator is its \<open>node_\<close>; the list is an argument. \<open>key\<close> and \<open>Next\<close> need \<open>Valid\<close>.\<close>

definition Iterator_Valid :: "node \<Rightarrow> bool" where
  "Iterator_Valid it \<longleftrightarrow> it \<noteq> 0"

definition Iterator_key :: "'k skiplist \<Rightarrow> node \<Rightarrow> 'k" where
  "Iterator_key sl it = keys sl it"

definition Iterator_Next :: "'k skiplist \<Rightarrow> node \<Rightarrow> node option" where
  "Iterator_Next sl it = Next sl it 0"

definition Iterator_Prev :: "('k \<Rightarrow> 'k \<Rightarrow> int) \<Rightarrow> 'k skiplist \<Rightarrow> node \<Rightarrow> node option" where
  "Iterator_Prev cmp sl it =
     map_option (\<lambda>x. if x = head then 0 else x) (FindLessThan cmp sl (keys sl it))"

definition Iterator_Seek :: "('k \<Rightarrow> 'k \<Rightarrow> int) \<Rightarrow> 'k skiplist \<Rightarrow> 'k \<Rightarrow> node option" where
  "Iterator_Seek cmp sl target = map_option fst (FindGreaterOrEqual cmp sl target [])"

definition Iterator_SeekToFirst :: "'k skiplist \<Rightarrow> node option" where
  "Iterator_SeekToFirst sl = Next sl head 0"

definition Iterator_SeekToLast :: "'k skiplist \<Rightarrow> node option" where
  "Iterator_SeekToLast sl = map_option (\<lambda>x. if x = head then 0 else x) (FindLast sl)"

subsection \<open>The invariant\<close>

text \<open>The nodes on a level, from \<open>x\<close> on.\<close>

fun chain :: "'k skiplist \<Rightarrow> nat \<Rightarrow> node \<Rightarrow> node list \<Rightarrow> bool" where
  "chain sl l x [] \<longleftrightarrow> Next sl x l = Some 0"
| "chain sl l x (y # ys) \<longleftrightarrow> y \<noteq> 0 \<and> Next sl x l = Some y \<and> chain sl l y ys"

definition rep :: "('k \<Rightarrow> 'k \<Rightarrow> int) \<Rightarrow> ('k \<Rightarrow> bool) \<Rightarrow> 'k skiplist \<Rightarrow> (nat \<Rightarrow> node list) \<Rightarrow> bool" where
  "rep cmp ok sl L \<longleftrightarrow>
     (\<forall>l < kMaxHeight. chain sl l head (L l) \<and> sorted_wrt (\<lambda>a b. cmp (keys sl a) (keys sl b) < 0) (L l)) \<and>
     (\<forall>l. Suc l < kMaxHeight \<longrightarrow> set (L (Suc l)) \<subseteq> set (L l)) \<and>
     (\<forall>x \<in> set (L 0). head < x \<and> x < fresh sl \<and> ok (keys sl x)) \<and>
     (\<forall>l < kMaxHeight. max_height sl \<le> l \<longrightarrow> L l = []) \<and>
     1 \<le> max_height sl \<and> max_height sl \<le> kMaxHeight \<and> head < fresh sl \<and> good_seed (rnd sl)"

text \<open>The abstraction: the keys on level 0, in order. Walking cannot take more steps than nodes.\<close>

fun walk :: "nat \<Rightarrow> 'k skiplist \<Rightarrow> node \<Rightarrow> node list" where
  "walk 0 sl x = []"
| "walk (Suc n) sl x = (case Next sl x 0 of Some y \<Rightarrow> if y = 0 then [] else y # walk n sl y | None \<Rightarrow> [])"

definition nodes :: "'k skiplist \<Rightarrow> node list" where
  "nodes sl = walk (fresh sl) sl head"

definition contents :: "'k skiplist \<Rightarrow> 'k list" where
  "contents sl = map (keys sl) (nodes sl)"

definition sl_inv :: "('k \<Rightarrow> 'k \<Rightarrow> int) \<Rightarrow> ('k \<Rightarrow> bool) \<Rightarrow> 'k skiplist \<Rightarrow> bool" where
  "sl_inv cmp ok sl \<longleftrightarrow> (\<exists>L. rep cmp ok sl L)"

subsection \<open>Chains\<close>

lemma chain_drop: "chain sl l x (us @ y # vs) \<Longrightarrow> chain sl l y vs"
  by (induction us arbitrary: x) auto

lemma chain_from:
  assumes "chain sl l x ys" "x # ys = us @ y # vs"
  shows "chain sl l y vs"
  using assms by (cases us) (auto dest: chain_drop)

lemma chain_hd: "chain sl l x ys \<Longrightarrow> Next sl x l = Some (case ys of [] \<Rightarrow> 0 | y # _ \<Rightarrow> y)"
  by (cases ys) auto

lemma walk_chain: "chain sl 0 x ys \<Longrightarrow> length ys < n \<Longrightarrow> walk n sl x = ys"
proof (induction ys arbitrary: n x)
  case Nil
  then show ?case by (cases n) auto
next
  case (Cons y ys)
  then show ?case by (cases n) auto
qed

lemma sorted_filter_split:
  assumes "sorted_wrt R xs" "\<And>a b. a \<in> set xs \<Longrightarrow> b \<in> set xs \<Longrightarrow> R a b \<Longrightarrow> P b \<Longrightarrow> P a"
  shows "xs = filter P xs @ filter (\<lambda>x. \<not> P x) xs"
  using assms
proof (induction xs)
  case (Cons x xs)
  then have IH: "xs = filter P xs @ filter (\<lambda>x. \<not> P x) xs" by auto
  show ?case
  proof (cases "P x")
    case True
    then show ?thesis using IH by simp
  next
    case False
    then have "\<forall>y \<in> set xs. \<not> P y" using Cons.prems by auto
    then show ?thesis using False by simp
  qed
qed simp

subsection \<open>The search\<close>

lemma descend_level:
  assumes c: "chain sl level x (vs @ bs)" and vs: "\<forall>y \<in> set vs. P y"
    and bs: "\<forall>y \<in> set bs. \<not> P y" and z: "\<not> P 0"
  shows "descend P sl x level prev =
    (if level = 0 then Some (last (x # vs), case bs of [] \<Rightarrow> 0 | y # _ \<Rightarrow> y, prev[level := last (x # vs)])
     else descend P sl (last (x # vs)) (level - 1) (prev[level := last (x # vs)]))"
  using c vs
proof (induction vs arbitrary: x)
  case Nil
  have "\<not> P (case bs of [] \<Rightarrow> 0 | y # _ \<Rightarrow> y)" using bs z by (auto split: list.splits)
  moreover have "Next sl x level = Some (case bs of [] \<Rightarrow> 0 | y # _ \<Rightarrow> y)"
    using Nil.prems(1) by (simp add: chain_hd)
  ultimately show ?case by (subst descend.simps) simp
next
  case (Cons v vs)
  then have "descend P sl x level prev = descend P sl v level prev"
    by (subst descend.simps) simp
  also have "\<dots> = (if level = 0
      then Some (last (v # vs), case bs of [] \<Rightarrow> 0 | y # _ \<Rightarrow> y, prev[level := last (v # vs)])
      else descend P sl (last (v # vs)) (level - 1) (prev[level := last (v # vs)]))"
    using Cons by (intro Cons.IH) simp_all
  finally show ?case by simp
qed

text \<open>
  \<open>A l\<close> are the nodes of level \<open>l\<close> that the search passes, \<open>B l\<close> those behind them. The search
  returns, from any passed node, with the last passed node of every level in \<open>prev\<close>.
\<close>

lemma descend_spec:
  assumes "\<And>l. l \<le> level \<Longrightarrow> chain sl l head (A l @ B l)"
    and "\<And>l. l < level \<Longrightarrow> set (A (Suc l)) \<subseteq> set (A l)"
    and "\<And>l y. l \<le> level \<Longrightarrow> y \<in> set (A l) \<Longrightarrow> P y" "\<And>l y. l \<le> level \<Longrightarrow> y \<in> set (B l) \<Longrightarrow> \<not> P y"
    and "\<not> P 0" "x \<in> set (head # A level)"
  shows "\<exists>prev'. descend P sl x level prev = Some (last (head # A 0), case B 0 of [] \<Rightarrow> 0 | y # _ \<Rightarrow> y, prev') \<and>
    length prev' = length prev \<and> (\<forall>l \<le> level. l < length prev \<longrightarrow> prev' ! l = last (head # A l)) \<and>
    (\<forall>l. level < l \<longrightarrow> prev' ! l = prev ! l)"
  using assms
proof (induction level arbitrary: x prev)
  case 0
  then obtain us vs where s: "head # A 0 = us @ x # vs" by (meson split_list)
  then have "chain sl 0 x (vs @ B 0)" using chain_from [of sl 0 head "A 0 @ B 0" us x] 0(1) [of 0] by simp
  moreover have "\<forall>y \<in> set vs. P y" using s 0(3) [of 0] by (cases us) auto
  moreover have "last (x # vs) = last (head # A 0)" using s by simp
  ultimately show ?case
    using descend_level [of sl 0 x vs "B 0" P prev] 0(4,5) by auto
next
  case (Suc level)
  let ?y = "last (head # A (Suc level))"
  from Suc.prems(6) obtain us vs where s: "head # A (Suc level) = us @ x # vs" by (meson split_list)
  then have c: "chain sl (Suc level) x (vs @ B (Suc level))"
    using chain_from [of sl "Suc level" head "A (Suc level) @ B (Suc level)" us x] Suc.prems(1) by simp
  have vs: "\<forall>y \<in> set vs. P y" using s Suc.prems(3) [of "Suc level"] by (cases us) auto
  have bs: "\<forall>y \<in> set (B (Suc level)). \<not> P y" using Suc.prems(4) [of "Suc level"] by blast
  have e: "last (x # vs) = ?y" using s by simp
  have d: "descend P sl x (Suc level) prev = descend P sl ?y level (prev[Suc level := ?y])"
    using descend_level [OF c vs bs Suc.prems(5), of prev] unfolding e by (simp del: last.simps)
  have "?y \<in> set (head # A level)"
    using Suc.prems(2) [of level] last_in_set [of "head # A (Suc level)"] by auto
  then have "\<exists>prev'. descend P sl ?y level (prev[Suc level := ?y]) =
      Some (last (head # A 0), case B 0 of [] \<Rightarrow> 0 | y # _ \<Rightarrow> y, prev') \<and>
    length prev' = length (prev[Suc level := ?y]) \<and>
    (\<forall>l \<le> level. l < length (prev[Suc level := ?y]) \<longrightarrow> prev' ! l = last (head # A l)) \<and>
    (\<forall>l. level < l \<longrightarrow> prev' ! l = prev[Suc level := ?y] ! l)"
    by (intro Suc.IH) (fact Suc.prems(5) | assumption | erule Suc.prems(1-4) [rotated], simp | simp add: Suc.prems)+
  then obtain prev' where p: "descend P sl ?y level (prev[Suc level := ?y]) =
      Some (last (head # A 0), case B 0 of [] \<Rightarrow> 0 | y # _ \<Rightarrow> y, prev')" "length prev' = length prev"
    "\<forall>l \<le> level. l < length prev \<longrightarrow> prev' ! l = last (head # A l)"
    "\<forall>l. level < l \<longrightarrow> prev' ! l = prev[Suc level := ?y] ! l"
    unfolding length_list_update by blast
  then show ?case
    using d by (intro exI [of _ prev']) (simp del: last.simps add: le_Suc_eq nth_list_update)
qed

subsection \<open>The operations on a represented list\<close>

lemma rep_chain: "rep cmp ok sl L \<Longrightarrow> l < kMaxHeight \<Longrightarrow> chain sl l head (L l)"
  and rep_sorted: "rep cmp ok sl L \<Longrightarrow> l < kMaxHeight \<Longrightarrow>
    sorted_wrt (\<lambda>a b. cmp (keys sl a) (keys sl b) < 0) (L l)"
  and rep_sub: "rep cmp ok sl L \<Longrightarrow> Suc l < kMaxHeight \<Longrightarrow> set (L (Suc l)) \<subseteq> set (L l)"
  and rep_node: "rep cmp ok sl L \<Longrightarrow> x \<in> set (L 0) \<Longrightarrow> head < x \<and> x < fresh sl \<and> ok (keys sl x)"
  and rep_height: "rep cmp ok sl L \<Longrightarrow> 1 \<le> max_height sl \<and> max_height sl \<le> kMaxHeight"
  and rep_top: "rep cmp ok sl L \<Longrightarrow> l < kMaxHeight \<Longrightarrow> max_height sl \<le> l \<Longrightarrow> L l = []"
  and rep_fresh: "rep cmp ok sl L \<Longrightarrow> head < fresh sl"
  and rep_seed: "rep cmp ok sl L \<Longrightarrow> good_seed (rnd sl)"
  by (auto simp: rep_def)

lemma rep_sub0: "rep cmp ok sl L \<Longrightarrow> l < kMaxHeight \<Longrightarrow> set (L l) \<subseteq> set (L 0)"
proof (induction l)
  case (Suc l)
  then show ?case using rep_sub [of cmp ok sl L l] by auto
qed simp

text \<open>The part of a level that a search with the condition \<open>P\<close> passes, and the rest.\<close>

abbreviation before :: "(node \<Rightarrow> bool) \<Rightarrow> node list \<Rightarrow> node list" where
  "before P ns \<equiv> filter P ns"

abbreviation behind :: "(node \<Rightarrow> bool) \<Rightarrow> node list \<Rightarrow> node list" where
  "behind P ns \<equiv> filter (\<lambda>n. \<not> P n) ns"

definition first :: "node list \<Rightarrow> node" where
  "first ns = (case ns of [] \<Rightarrow> 0 | n # _ \<Rightarrow> n)"

lemma rep_descend:
  assumes r: "rep cmp ok sl L" and z: "\<not> P 0"
    and down: "\<And>a b. a \<in> set (L 0) \<Longrightarrow> b \<in> set (L 0) \<Longrightarrow> cmp (keys sl a) (keys sl b) < 0 \<Longrightarrow> P b \<Longrightarrow> P a"
  shows "\<exists>prev'. descend P sl head (max_height sl - 1) prev =
      Some (last (head # before P (L 0)), first (behind P (L 0)), prev') \<and> length prev' = length prev \<and>
    (\<forall>l < max_height sl. l < length prev \<longrightarrow> prev' ! l = last (head # before P (L l)))"
    and "l < kMaxHeight \<Longrightarrow> L l = before P (L l) @ behind P (L l)"
proof -
  show s: "L l = before P (L l) @ behind P (L l)" if "l < kMaxHeight" for l
    using rep_sorted [OF r that] down rep_sub0 [OF r that] by (intro sorted_filter_split) blast+
  let ?top = "max_height sl - 1"
  have top: "?top < kMaxHeight" using rep_height [OF r] by linarith
  have c: "chain sl l head (before P (L l) @ behind P (L l))" if "l \<le> ?top" for l
    using rep_chain [OF r, of l] s [of l] that top by simp
  have sub: "set (before P (L (Suc l))) \<subseteq> set (before P (L l))" if "l < ?top" for l
    using rep_sub [OF r, of l] that top by auto
  have "\<exists>prev'. descend P sl head ?top prev =
      Some (last (head # before P (L 0)), case behind P (L 0) of [] \<Rightarrow> 0 | y # _ \<Rightarrow> y, prev') \<and>
    length prev' = length prev \<and> (\<forall>l \<le> ?top. l < length prev \<longrightarrow> prev' ! l = last (head # before P (L l))) \<and>
    (\<forall>l. ?top < l \<longrightarrow> prev' ! l = prev ! l)"
    by (intro descend_spec c sub z) simp_all
  moreover have "l \<le> ?top \<longleftrightarrow> l < max_height sl" for l using rep_height [OF r] by linarith
  ultimately show "\<exists>prev'. descend P sl head (max_height sl - 1) prev =
      Some (last (head # before P (L 0)), first (behind P (L 0)), prev') \<and> length prev' = length prev \<and>
    (\<forall>l < max_height sl. l < length prev \<longrightarrow> prev' ! l = last (head # before P (L l)))"
    unfolding first_def by metis
qed

subsection \<open>Writing a link\<close>

definition upd :: "'k skiplist \<Rightarrow> node \<Rightarrow> nat \<Rightarrow> node \<Rightarrow> 'k skiplist" where
  "upd sl x n y = sl\<lparr>links := (links sl)(x := (links sl x)[n := y])\<rparr>"

lemma upd_simps [simp]:
  "keys (upd sl x n y) = keys sl" "fresh (upd sl x n y) = fresh sl"
  "max_height (upd sl x n y) = max_height sl" "rnd (upd sl x n y) = rnd sl"
  "length (links (upd sl x n y) z) = length (links sl z)"
  by (simp_all add: upd_def)

lemma SetNext_upd: "SetNext sl x n y = (if n < length (links sl x) then Some (upd sl x n y) else None)"
  by (simp add: SetNext_def upd_def)

lemma Next_upd:
  "Next (upd sl x n y) z l = (if z = x \<and> l = n \<and> n < length (links sl x) then Some y else Next sl z l)"
  by (auto simp: Next_def upd_def)

lemma chain_upd_level: "l \<noteq> n \<Longrightarrow> chain (upd sl x n y) l h zs = chain sl l h zs"
  by (induction zs arbitrary: h) (auto simp: Next_upd)

lemma chain_upd_node: "x \<notin> set (h # zs) \<Longrightarrow> chain (upd sl x n y) l h zs = chain sl l h zs"
  by (induction zs arbitrary: h) (auto simp: Next_upd)

lemma chain_len: "chain sl l h zs \<Longrightarrow> x \<in> set (h # zs) \<Longrightarrow> l < length (links sl x)"
  by (induction zs arbitrary: h) (auto simp: Next_def split: if_splits)

lemma chain_link:
  assumes "chain sl l h (as @ bs)" "distinct (h # as @ bs)" "x \<notin> set (h # as @ bs)" "x \<noteq> 0"
    "l < length (links sl x)"
  shows "chain (upd (upd sl x l (first bs)) (last (h # as)) l x) l h (as @ x # bs)"
  using assms
proof (induction as arbitrary: h)
  case Nil
  let ?sl = "upd (upd sl x l (first bs)) h l x"
  have h: "l < length (links sl h)" using Nil.prems(1) chain_len by fastforce
  have "chain ?sl l x bs"
  proof (cases bs)
    case Nil
    then show ?thesis using \<open>l < length (links sl x)\<close> Nil.prems by (auto simp: Next_upd first_def)
  next
    case (Cons b bs')
    then have "chain ?sl l b bs'" using Nil.prems by (simp add: chain_upd_node)
    then show ?thesis using Nil.prems Cons by (auto simp: Next_upd first_def)
  qed
  then show ?case using Nil.prems h by (simp add: Next_upd)
next
  case (Cons a as)
  then have "chain (upd (upd sl x l (first bs)) (last (a # as)) l x) l a (as @ x # bs)"
    by (intro Cons.IH) auto
  moreover have "h \<noteq> last (a # as)" using Cons.prems(2) last_in_set [of "a # as"] by auto
  ultimately show ?case using Cons.prems by (simp add: Next_upd)
qed

lemma link_level_eq:
  assumes "chain sl i head (as @ bs)" "prev ! i = last (head # as)" "x \<notin> set (head # as @ bs)"
    "i < length (links sl x)"
  shows "link_level x prev i sl = Some (upd (upd sl x i (first bs)) (last (head # as)) i x)"
proof -
  let ?p = "last (head # as)"
  obtain us where "head # as = us @ [?p]" by (metis append_butlast_last_id list.distinct(1))
  then have c: "chain sl i ?p bs" using chain_from [OF assms(1), of us ?p bs] by simp
  then have "Next sl ?p i = Some (first bs)" "i < length (links sl ?p)"
    using chain_hd chain_len [of sl i ?p bs ?p] by (auto simp: first_def)
  then show ?thesis using assms by (simp add: link_level_def SetNext_upd del: last.simps)
qed

lemma chain_cong: "(\<And>n. n \<in> set (h # zs) \<Longrightarrow> links sl' n = links sl n) \<Longrightarrow> chain sl' l h zs = chain sl l h zs"
  by (induction zs arbitrary: h) (auto simp: Next_def)

lemma fold_prev_head:
  "length (fold (\<lambda>i prev. prev[i := head]) is prev) = length prev"
  "l < length prev \<Longrightarrow> fold (\<lambda>i prev. prev[i := head]) is prev ! l = (if l \<in> set is then head else prev ! l)"
  by (induction "is" arbitrary: prev) (auto simp: nth_list_update)

lemma link_levels_snoc:
  "link_levels x prev (is @ [i]) sl =
     (case link_levels x prev is sl of None \<Rightarrow> None | Some sl \<Rightarrow> link_level x prev i sl)"
  by (induction "is" arbitrary: sl) (auto split: option.splits)

subsection \<open>The random height\<close>

lemma random_height_loop_bounds:
  "1 \<le> h \<Longrightarrow> h \<le> kMaxHeight \<Longrightarrow> good_seed seed \<Longrightarrow> random_height_loop h seed = (h', seed') \<Longrightarrow>
   1 \<le> h' \<and> h' \<le> kMaxHeight \<and> good_seed seed'"
proof (induction h seed rule: random_height_loop.induct)
  case (1 h seed)
  obtain r s where n: "Random_Next seed = (r, s)" by (cases "Random_Next seed")
  then have "good_seed s" using Random_Next_spec [OF "1.prems"(3)] by blast
  then show ?case
    using 1 n by (auto simp: random_height_loop.simps [of h] split: if_splits)
qed

lemma RandomHeight_cases:
  assumes "good_seed (rnd sl)"
  obtains h seed where "RandomHeight sl = (h, sl\<lparr>rnd := seed\<rparr>)" "1 \<le> h" "h \<le> kMaxHeight" "good_seed seed"
proof -
  obtain h seed where "random_height_loop 1 (rnd sl) = (h, seed)" by (cases "random_height_loop 1 (rnd sl)")
  then show thesis
    using that [of h seed] random_height_loop_bounds [of 1 "rnd sl" h seed] assms
    by (simp add: RandomHeight_def kMaxHeight_def)
qed

subsection \<open>Reading\<close>

lemma sorted_wrt_distinct: "sorted_wrt R xs \<Longrightarrow> (\<And>x. x \<in> set xs \<Longrightarrow> \<not> R x x) \<Longrightarrow> distinct xs"
  by (induction xs) auto

definition last_or_null :: "node list \<Rightarrow> node" where
  "last_or_null ns = (if ns = [] then 0 else last ns)"

lemma last_head: "(if last (head # ns) = head then 0 else last (head # ns)) = last_or_null ns"
  if "head \<notin> set ns"
proof (cases "ns = []")
  case False
  then have "last ns \<noteq> head" using that last_in_set by metis
  then show ?thesis using False by (simp add: last_or_null_def)
qed (simp add: last_or_null_def)

context comparator
begin

lemma rep_distinct:
  assumes "rep cmp ok sl L" "l < kMaxHeight"
  shows "distinct (head # L l)"
proof -
  have sub: "set (L l) \<subseteq> set (L 0)" by (rule rep_sub0 [OF assms])
  have "distinct (L l)"
    using rep_sorted [OF assms]
    by (rule sorted_wrt_distinct) (use rep_node [OF assms(1)] cmp_self sub in fastforce)
  moreover have "head \<notin> set (L l)" using rep_node [OF assms(1)] sub by fastforce
  ultimately show ?thesis by simp
qed

lemma rep_nodes:
  assumes "rep cmp ok sl L"
  shows "nodes sl = L 0"
proof -
  have d: "distinct (L 0)" using rep_distinct [OF assms, of 0] by (simp add: kMaxHeight_def)
  have "set (L 0) \<subseteq> {head<..<fresh sl}" using rep_node [OF assms] by auto
  then have "card (set (L 0)) \<le> card {head<..<fresh sl}" by (intro card_mono) auto
  then have "length (L 0) < fresh sl"
    using d rep_fresh [OF assms] by (simp add: distinct_card)
  then show ?thesis
    using rep_chain [OF assms, of 0] by (simp add: nodes_def walk_chain kMaxHeight_def)
qed

lemma after_down:
  assumes "rep cmp ok sl L" "ok key" "a \<in> set (L 0)" "b \<in> set (L 0)" "cmp (keys sl a) (keys sl b) < 0"
    "KeyIsAfterNode cmp sl key b"
  shows "KeyIsAfterNode cmp sl key a"
  using assms rep_node [OF assms(1,3)] rep_node [OF assms(1,4)] less_trans [of "keys sl a" "keys sl b" key]
  by (auto simp: KeyIsAfterNode_def head_def)

lemma find_ge:
  assumes r: "rep cmp ok sl L" and k: "ok key"
  defines "P \<equiv> KeyIsAfterNode cmp sl key"
  shows "\<exists>prev'. FindGreaterOrEqual cmp sl key prev = Some (first (behind P (L 0)), prev') \<and>
    length prev' = length prev \<and>
    (\<forall>l < max_height sl. l < length prev \<longrightarrow> prev' ! l = last (head # before P (L l)))"
proof -
  have "\<not> P 0" by (simp add: P_def KeyIsAfterNode_def)
  from rep_descend(1) [where P = P, OF r this after_down [OF r k, folded P_def]] show ?thesis
    unfolding FindGreaterOrEqual_def P_def by fastforce
qed

lemma find_less:
  assumes r: "rep cmp ok sl L" and k: "ok key"
  shows "FindLessThan cmp sl key = Some (last (head # before (KeyIsAfterNode cmp sl key) (L 0)))"
proof -
  have "(\<lambda>nxt. \<not> (nxt = 0 \<or> cmp (keys sl nxt) key \<ge> 0)) = KeyIsAfterNode cmp sl key"
    by (auto simp: KeyIsAfterNode_def)
  moreover have "\<not> KeyIsAfterNode cmp sl key 0" by (simp add: KeyIsAfterNode_def)
  ultimately show ?thesis
    using rep_descend(1) [where P = "KeyIsAfterNode cmp sl key" and prev = "[]", OF r _ after_down [OF r k]] unfolding FindLessThan_def by fastforce
qed

lemma find_last:
  assumes r: "rep cmp ok sl L"
  shows "FindLast sl = Some (last (head # L 0))"
proof -
  have "\<forall>x \<in> set (L 0). x \<noteq> 0" using rep_node [OF r] by fastforce
  then have f: "before (\<lambda>nxt. nxt \<noteq> 0) (L 0) = L 0" by (simp add: filter_id_conv)
  have "\<exists>prev'. descend (\<lambda>nxt. nxt \<noteq> 0) sl head (max_height sl - 1) [] =
      Some (last (head # before (\<lambda>nxt. nxt \<noteq> 0) (L 0)), first (behind (\<lambda>nxt. nxt \<noteq> 0) (L 0)), prev') \<and>
    length prev' = length ([] :: node list) \<and>
    (\<forall>l < max_height sl. l < length ([] :: node list) \<longrightarrow> prev' ! l = last (head # before (\<lambda>nxt. nxt \<noteq> 0) (L l)))"
    by (rule rep_descend(1) [OF r]) (use \<open>\<forall>x \<in> set (L 0). x \<noteq> 0\<close> in auto)
  then show ?thesis unfolding FindLast_def f by fastforce
qed

text \<open>The first node behind a key is the smallest one that is not below it.\<close>

lemma split_at:
  assumes "rep cmp ok sl L" "ok key"
  shows "L 0 = before (KeyIsAfterNode cmp sl key) (L 0) @ behind (KeyIsAfterNode cmp sl key) (L 0)"
  by (rule rep_descend(2) [where P = "KeyIsAfterNode cmp sl key", OF assms(1) _ after_down [OF assms]])
     (simp_all add: KeyIsAfterNode_def kMaxHeight_def)

lemma Contains_spec:
  assumes r: "rep cmp ok sl L" and k: "ok key"
  shows "Contains cmp sl key = Some (\<exists>x \<in> set (L 0). cmp key (keys sl x) = 0)"
proof -
  let ?P = "KeyIsAfterNode cmp sl key" and ?B = "behind (KeyIsAfterNode cmp sl key) (L 0)"
  have node: "x \<noteq> 0 \<and> ok (keys sl x)" if "x \<in> set (L 0)" for x using rep_node [OF r that] by auto
  have s: "sorted_wrt (\<lambda>a b. cmp (keys sl a) (keys sl b) < 0) ?B"
    using rep_sorted [OF r, of 0] by (simp add: sorted_wrt_filter kMaxHeight_def)
  have "first ?B \<noteq> 0 \<and> cmp key (keys sl (first ?B)) = 0" if x: "x \<in> set (L 0)" "cmp key (keys sl x) = 0" for x
  proof -
    have "x \<in> set ?B"
      using x node [OF x(1)] k eq_sym [of key "keys sl x"] by (simp add: KeyIsAfterNode_def)
    then obtain y ys where b: "?B = y # ys" by (cases ?B) auto
    then have "y \<in> set ?B" by simp
    then have y: "y \<in> set (L 0)" "\<not> ?P y" by simp_all
    have "cmp (keys sl y) (keys sl x) \<le> 0"
      using \<open>x \<in> set ?B\<close> s b cmp_self node y(1) by fastforce
    then have "cmp (keys sl y) key \<le> 0"
      using trans_le [of "keys sl y" "keys sl x" key] x node y k eq_sym [of key "keys sl x"] by auto
    moreover have "0 \<le> cmp (keys sl y) key" using y node by (auto simp: KeyIsAfterNode_def)
    ultimately have "cmp key (keys sl y) = 0" using eq_sym [of key "keys sl y"] y node k by auto
    then show ?thesis using b y(1) node by (simp add: first_def)
  qed
  moreover have "first ?B \<in> set (L 0)" if "first ?B \<noteq> 0"
    using that by (metis (no_types, lifting) filter_is_subset first_def list.case_eq_if list.set_sel(1) subsetD)
  ultimately have "(first ?B \<noteq> 0 \<and> cmp key (keys sl (first ?B)) = 0) \<longleftrightarrow>
      (\<exists>x \<in> set (L 0). cmp key (keys sl x) = 0)" by blast
  then show ?thesis
    using find_ge [OF r k, of "[]"] by (auto simp: Contains_def)
qed

subsubsection \<open>Iterators\<close>

lemma Iterator_specs:
  assumes r: "rep cmp ok sl L"
  shows "Iterator_SeekToFirst sl = Some (first (L 0))"
    and "Iterator_SeekToLast sl = Some (last_or_null (L 0))"
    and "ok key \<Longrightarrow> Iterator_Seek cmp sl key = Some (first (filter (\<lambda>n. cmp (keys sl n) key \<ge> 0) (L 0)))"
    and "L 0 = us @ x # vs \<Longrightarrow> Iterator_Next sl x = Some (first vs)"
    and "L 0 = us @ x # vs \<Longrightarrow> Iterator_Prev cmp sl x = Some (last_or_null us)"
proof -
  have c: "chain sl 0 head (L 0)" using rep_chain [OF r, of 0] by (simp add: kMaxHeight_def)
  have hd: "head \<notin> set (L 0)" using rep_distinct [OF r, of 0] by (simp add: kMaxHeight_def)
  show "Iterator_SeekToFirst sl = Some (first (L 0))"
    using chain_hd [OF c] by (simp add: Iterator_SeekToFirst_def first_def)
  show "Iterator_SeekToLast sl = Some (last_or_null (L 0))"
    using find_last [OF r] last_head [OF hd] by (simp add: Iterator_SeekToLast_def del: last.simps)
  show "Iterator_Seek cmp sl key = Some (first (filter (\<lambda>n. cmp (keys sl n) key \<ge> 0) (L 0)))" if "ok key" for key
  proof -
    have "n \<noteq> 0" if "n \<in> set (L 0)" for n using rep_node [OF r that] by auto
    then have "behind (KeyIsAfterNode cmp sl key) (L 0) = filter (\<lambda>n. cmp (keys sl n) key \<ge> 0) (L 0)"
      by (intro filter_cong) (auto simp: KeyIsAfterNode_def)
    then show ?thesis using find_ge [OF r that, of "[]"] by (auto simp: Iterator_Seek_def)
  qed
  show "Iterator_Next sl x = Some (first vs)" if "L 0 = us @ x # vs" for us x vs
    using chain_hd [OF chain_drop [of sl 0 head us x vs]] c that by (simp add: Iterator_Next_def first_def)
  show "Iterator_Prev cmp sl x = Some (last_or_null us)" if e: "L 0 = us @ x # vs" for us x vs
  proof -
    have s: "sorted_wrt (\<lambda>a b. cmp (keys sl a) (keys sl b) < 0) (us @ x # vs)"
      using rep_sorted [OF r, of 0] e by (simp add: kMaxHeight_def)
    have node: "y \<noteq> 0 \<and> ok (keys sl y)" if "y \<in> set (us @ x # vs)" for y
      using rep_node [OF r, of y] e that by auto
    have "\<forall>y \<in> set us. KeyIsAfterNode cmp sl (keys sl x) y"
      using s node by (auto simp: sorted_wrt_append KeyIsAfterNode_def)
    moreover have "\<forall>y \<in> set (x # vs). \<not> KeyIsAfterNode cmp sl (keys sl x) y"
      using s node flip [of "keys sl x"] cmp_self by (fastforce simp: sorted_wrt_append KeyIsAfterNode_def)
    ultimately have "before (KeyIsAfterNode cmp sl (keys sl x)) (L 0) = us"
      by (simp add: e filter_id_conv filter_empty_conv)
    moreover have "head \<notin> set us" using hd e by auto
    ultimately show ?thesis
      using find_less [OF r, of "keys sl x"] node [of x] last_head
      by (simp add: Iterator_Prev_def del: last.simps)
  qed
qed

subsubsection \<open>Insertion\<close>

lemma rep_link:
  assumes r: "rep cmp ok sl L" and i: "i < kMaxHeight" "i < max_height sl" and e: "L i = as @ bs"
    and x: "head < x" "x < fresh sl" "ok (keys sl x)" "x \<notin> set (L i)" "i < length (links sl x)"
    and lo: "\<And>y. y \<in> set as \<Longrightarrow> cmp (keys sl y) (keys sl x) < 0"
    and hi: "\<And>y. y \<in> set bs \<Longrightarrow> cmp (keys sl x) (keys sl y) < 0"
    and below: "i = 0 \<or> x \<in> set (L (i - 1))" and prev: "prev ! i = last (head # as)"
  shows "\<exists>sl'. link_level x prev i sl = Some sl' \<and> rep cmp ok sl' (L(i := as @ x # bs)) \<and>
    keys sl' = keys sl \<and> fresh sl' = fresh sl \<and> max_height sl' = max_height sl \<and>
    (\<forall>n. length (links sl' n) = length (links sl n))"
proof -
  let ?sl = "upd (upd sl x i (first bs)) (last (head # as)) i x"
  have c: "chain sl i head (as @ bs)" using rep_chain [OF r i(1)] e by simp
  have d: "distinct (head # as @ bs)" using rep_distinct [OF r i(1)] e by simp
  have nx: "x \<notin> set (head # as @ bs)" "x \<noteq> 0" using x e by auto
  have l: "link_level x prev i sl = Some ?sl" by (rule link_level_eq [OF c prev nx(1) x(5)])
  have new: "chain ?sl i head (as @ x # bs)" by (rule chain_link [OF c d nx x(5)])
  have "rep cmp ok ?sl (L(i := as @ x # bs))"
    unfolding rep_def
  proof (intro conjI allI impI ballI)
    fix m assume m: "m < kMaxHeight"
    show "chain ?sl m head ((L(i := as @ x # bs)) m)"
      using new rep_chain [OF r m] by (cases "m = i") (simp_all add: chain_upd_level)
    show "sorted_wrt (\<lambda>a b. cmp (keys ?sl a) (keys ?sl b) < 0) ((L(i := as @ x # bs)) m)"
      using rep_sorted [OF r m] lo hi e by (cases "m = i") (auto simp: sorted_wrt_append)
    show "max_height ?sl \<le> m \<Longrightarrow> (L(i := as @ x # bs)) m = []" using rep_top [OF r m] i by auto
  next
    fix m assume "Suc m < kMaxHeight"
    then show "set ((L(i := as @ x # bs)) (Suc m)) \<subseteq> set ((L(i := as @ x # bs)) m)"
      using rep_sub [OF r, of m] below e by (cases "m = i"; cases "Suc m = i") auto
  next
    fix y assume "y \<in> set ((L(i := as @ x # bs)) 0)"
    then have "y \<in> set (L 0) \<or> y = x" using e by (cases "i = 0") auto
    then show "head < y" "y < fresh ?sl" "ok (keys ?sl y)" using rep_node [OF r, of y] x by auto
  qed (use rep_height [OF r] rep_fresh [OF r] rep_seed [OF r] in auto)
  then show ?thesis using l by auto
qed

lemma rep_new_node:
  assumes "rep cmp ok sl L"
    and links: "\<And>n. n \<noteq> fresh sl \<Longrightarrow> links sl' n = links sl n" and keys: "\<And>n. n \<noteq> fresh sl \<Longrightarrow> keys sl' n = keys sl n"
    and "fresh sl' = Suc (fresh sl)" "good_seed (rnd sl')" "max_height sl \<le> max_height sl'" "max_height sl' \<le> kMaxHeight"
  shows "rep cmp ok sl' L"
proof -
  have nf: "n \<noteq> fresh sl" if "n \<in> set (head # L l)" "l < kMaxHeight" for n l
    using that rep_sub0 [OF assms(1) that(2)] rep_node [OF assms(1), of n] rep_fresh [OF assms(1)] by auto
  have "chain sl' l head (L l)" if "l < kMaxHeight" for l
    using rep_chain [OF assms(1) that] chain_cong [of head "L l" sl' sl l] links nf [OF _ that] by simp
  moreover have "sorted_wrt (\<lambda>a b. cmp (keys sl' a) (keys sl' b) < 0) (L l)" if "l < kMaxHeight" for l
    using rep_sorted [OF assms(1) that] nf [OF _ that] keys
    by (auto elim!: sorted_wrt_mono_rel [rotated])
  moreover have "ok (keys sl' x)" if "x \<in> set (L 0)" for x
    using rep_node [OF assms(1) that] keys [of x] by auto
  ultimately show ?thesis
    using assms(1,4-7) unfolding rep_def by fastforce
qed

lemma insert_prepare_spec:
  assumes r: "rep cmp ok sl L" and k: "ok key"
  defines "P \<equiv> KeyIsAfterNode cmp sl key"
  shows "\<exists>h prev sl'. insert_prepare cmp sl key = Some (fresh sl, h, prev, sl') \<and> 1 \<le> h \<and> h \<le> kMaxHeight \<and>
    rep cmp ok sl' L \<and> keys sl' = (keys sl)(fresh sl := key) \<and> fresh sl' = Suc (fresh sl) \<and>
    length (links sl' (fresh sl)) = h \<and> h \<le> max_height sl' \<and>
    (\<forall>l < h. prev ! l = last (head # before P (L l)))"
proof -
  obtain nx prev where f: "FindGreaterOrEqual cmp sl key (replicate kMaxHeight 0) = Some (nx, prev)"
    "length prev = kMaxHeight" "\<And>l. l < max_height sl \<Longrightarrow> prev ! l = last (head # before P (L l))"
    using find_ge [OF r k, of "replicate kMaxHeight 0"] rep_height [OF r] unfolding P_def by fastforce
  obtain h seed where h: "RandomHeight sl = (h, sl\<lparr>rnd := seed\<rparr>)" "1 \<le> h" "h \<le> kMaxHeight" "good_seed seed"
    using RandomHeight_cases [OF rep_seed [OF r]] by blast
  let ?prev = "if h > max_height sl then fold (\<lambda>i prev. prev[i := head]) [max_height sl..<h] prev else prev"
  let ?sl = "sl\<lparr>rnd := seed, max_height := max h (max_height sl), keys := (keys sl)(fresh sl := key),
    links := (links sl)(fresh sl := replicate h 0), fresh := Suc (fresh sl)\<rparr>"
  have p: "insert_prepare cmp sl key = Some (fresh sl, h, ?prev, ?sl)"
    using f(1) h(1) by (auto simp: insert_prepare_def NewNode_def Let_def max_def)
  moreover have "rep cmp ok ?sl L"
    using rep_height [OF r] h by (intro rep_new_node [OF r]) auto
  moreover have "?prev ! l = last (head # before P (L l))" if "l < h" for l
  proof (cases "l < max_height sl")
    case True
    then show ?thesis using f that h(3) by (simp add: fold_prev_head del: last.simps)
  next
    case False
    then have "L l = []" using rep_top [OF r, of l] that h(3) by simp
    then show ?thesis using False f(2) that h(3) by (simp add: fold_prev_head)
  qed
  ultimately show ?thesis using h by (intro exI [of _ h] exI [of _ ?prev] exI [of _ ?sl]) (simp del: last.simps)
qed

text \<open>After \<open>i\<close> rounds the new node is linked on the lowest \<open>i\<close> levels, and all levels are sound.\<close>

lemma link_levels_spec:
  assumes r: "rep cmp ok sl L" and k: "ok key" and new: "\<forall>x \<in> set (L 0). cmp (keys sl x) key \<noteq> 0"
  defines "P \<equiv> KeyIsAfterNode cmp sl key" and "x \<equiv> fresh sl"
  assumes p: "insert_prepare cmp sl key = Some (x, h, prev, sl0)" and i: "i \<le> h"
  shows "\<exists>sl'. link_levels x prev [0..<i] sl0 = Some sl' \<and>
    rep cmp ok sl' (\<lambda>l. if l < i then before P (L l) @ x # behind P (L l) else L l) \<and>
    keys sl' = (keys sl)(x := key) \<and> fresh sl' = Suc x \<and> h \<le> max_height sl' \<and> length (links sl' x) = h"
  using i
proof (induction i)
  case 0
  then show ?case using insert_prepare_spec [OF r k] p by (auto simp: x_def)
next
  case (Suc i)
  have h: "h \<le> kMaxHeight" "\<And>l. l < h \<Longrightarrow> prev ! l = last (head # before P (L l))"
    using insert_prepare_spec [OF r k] p by (auto simp: P_def x_def)
  have i: "i < kMaxHeight" using Suc.prems h by simp
  let ?M = "\<lambda>l. if l < i then before P (L l) @ x # behind P (L l) else L l"
  from Suc.IH [OF Suc_leD [OF Suc.prems]] obtain sl' where s: "link_levels x prev [0..<i] sl0 = Some sl'" "rep cmp ok sl' ?M"
    "keys sl' = (keys sl)(x := key)" "fresh sl' = Suc x" "h \<le> max_height sl'" "length (links sl' x) = h" by blast
  have node: "y \<noteq> 0 \<and> y < x \<and> ok (keys sl y) \<and> y \<in> set (L 0)" if "y \<in> set (L i)" for y
    using that rep_sub0 [OF r i] rep_node [OF r, of y] by (auto simp: x_def)
  have e: "L i = before P (L i) @ behind P (L i)"
    unfolding P_def using i
    by (intro rep_descend(2) [where P = "KeyIsAfterNode cmp sl key", OF r _ after_down [OF r k]])
       (simp_all add: KeyIsAfterNode_def)
  have "\<exists>sl''. link_level x prev i sl' = Some sl'' \<and>
      rep cmp ok sl'' (?M(i := before P (L i) @ x # behind P (L i))) \<and>
      keys sl'' = keys sl' \<and> fresh sl'' = fresh sl' \<and> max_height sl'' = max_height sl' \<and>
      (\<forall>n. length (links sl'' n) = length (links sl' n))"
  proof (rule rep_link [OF s(2) i])
    show "i < max_height sl'" "i < length (links sl' x)" "x < fresh sl'" using Suc.prems s by auto
    show "(if i < i then before P (L i) @ x # behind P (L i) else L i) = before P (L i) @ behind P (L i)"
      using e by simp
    show "head < x" using rep_fresh [OF r] by (simp add: x_def)
    show "ok (keys sl' x)" using s k by simp
    show "x \<notin> set (if i < i then before P (L i) @ x # behind P (L i) else L i)" using node by auto
    show "prev ! i = last (head # before P (L i))" using h Suc.prems by simp
    show "i = 0 \<or> x \<in> set (if i - 1 < i then before P (L (i - 1)) @ x # behind P (L (i - 1)) else L (i - 1))"
      by auto
  next
    fix y assume "y \<in> set (before P (L i))"
    then show "cmp (keys sl' y) (keys sl' x) < 0"
      using node [of y] s by (auto simp: P_def KeyIsAfterNode_def)
  next
    fix y assume "y \<in> set (behind P (L i))"
    then show "cmp (keys sl' x) (keys sl' y) < 0"
      using node [of y] s new flip [of key "keys sl y"] k by (fastforce simp: P_def KeyIsAfterNode_def)
  qed
  then obtain sl'' where t: "link_level x prev i sl' = Some sl''"
    "rep cmp ok sl'' (?M(i := before P (L i) @ x # behind P (L i)))" "keys sl'' = keys sl'"
    "fresh sl'' = fresh sl'" "max_height sl'' = max_height sl'" "\<forall>n. length (links sl'' n) = length (links sl' n)"
    by blast
  moreover have "?M(i := before P (L i) @ x # behind P (L i)) =
      (\<lambda>l. if l < Suc i then before P (L l) @ x # behind P (L l) else L l)"
    by (auto simp: less_Suc_eq)
  ultimately show ?case using s by (intro exI [of _ sl'']) (simp add: link_levels_snoc)
qed

lemma rep_unpublished:
  assumes "rep cmp ok sl L" "\<And>l. l < kMaxHeight \<Longrightarrow> l = i \<Longrightarrow> x \<notin> set (head # L l)"
  shows "rep cmp ok (upd sl x i y) L"
proof -
  have "chain (upd sl x i y) l head (L l) = chain sl l head (L l)" if "l < kMaxHeight" for l
    using assms(2) [OF that] by (cases "l = i") (auto simp: chain_upd_level chain_upd_node)
  then show ?thesis using assms(1) by (simp add: rep_def)
qed

end

subsection \<open>The specification\<close>

text \<open>Insertion into a sorted list of keys.\<close>

definition insert_key :: "('k \<Rightarrow> 'k \<Rightarrow> int) \<Rightarrow> 'k \<Rightarrow> 'k list \<Rightarrow> 'k list" where
  "insert_key cmp key ks = filter (\<lambda>k. cmp k key < 0) ks @ key # filter (\<lambda>k. \<not> cmp k key < 0) ks"

lemma set_insert_key [simp]: "set (insert_key cmp key ks) = insert key (set ks)"
  by (auto simp: insert_key_def)

context comparator
begin

lemma contents_rep: "rep cmp ok sl L \<Longrightarrow> contents sl = map (keys sl) (L 0)"
  by (simp add: contents_def rep_nodes)

lemma contents_sorted:
  assumes "sl_inv cmp ok sl"
  shows "sorted_wrt (\<lambda>a b. cmp a b < 0) (contents sl)" and "\<forall>k \<in> set (contents sl). ok k"
proof -
  obtain L where r: "rep cmp ok sl L" using assms by (auto simp: sl_inv_def)
  then show "sorted_wrt (\<lambda>a b. cmp a b < 0) (contents sl)" "\<forall>k \<in> set (contents sl). ok k"
    using rep_sorted [OF r, of 0] rep_node [OF r]
    by (auto simp: contents_rep sorted_wrt_map kMaxHeight_def)
qed

text \<open>The keys of the levels that the writer has built after \<open>i\<close> rounds.\<close>

lemma contents_linked:
  assumes r: "rep cmp ok sl L" and k: "keys sl' = (keys sl)(fresh sl := key)"
    and r': "rep cmp ok sl' (\<lambda>l. if l < i then before (KeyIsAfterNode cmp sl key) (L l) @ fresh sl #
      behind (KeyIsAfterNode cmp sl key) (L l) else L l)"
  shows "contents sl' = (if i = 0 then contents sl else insert_key cmp key (contents sl))"
proof -
  have n: "n \<noteq> 0 \<and> n \<noteq> fresh sl" if "n \<in> set (L 0)" for n using rep_node [OF r that] by auto
  then have m: "map (keys sl') ns = map (keys sl) ns" if "set ns \<subseteq> set (L 0)" for ns
    using that k by (intro map_cong) auto
  have "filter (\<lambda>k. cmp k key < 0) (map (keys sl) (L 0)) = map (keys sl) (before (KeyIsAfterNode cmp sl key) (L 0))"
    "filter (\<lambda>k. \<not> cmp k key < 0) (map (keys sl) (L 0)) = map (keys sl) (behind (KeyIsAfterNode cmp sl key) (L 0))"
    using n by (auto simp: filter_map KeyIsAfterNode_def intro!: arg_cong [where f = "map (keys sl)"] filter_cong)
  then show ?thesis
    using contents_rep [OF r] contents_rep [OF r'] m [of "L 0"] m [of "before (KeyIsAfterNode cmp sl key) (L 0)"]
      m [of "behind (KeyIsAfterNode cmp sl key) (L 0)"] k by (simp add: insert_key_def)
qed

lemma insert_steps:
  assumes "sl_inv cmp ok sl" "ok key" "\<forall>k \<in> set (contents sl). cmp k key \<noteq> 0"
  shows "\<exists>x h prev sl0. insert_prepare cmp sl key = Some (x, h, prev, sl0) \<and> 1 \<le> h \<and> h \<le> kMaxHeight \<and>
    (\<forall>i \<le> h. \<exists>sl'. link_levels x prev [0..<i] sl0 = Some sl' \<and> sl_inv cmp ok sl' \<and>
       contents sl' = (if i = 0 then contents sl else insert_key cmp key (contents sl)) \<and>
       (\<forall>y. i < h \<longrightarrow> sl_inv cmp ok (upd sl' x i y) \<and> contents (upd sl' x i y) = contents sl'))"
proof -
  obtain L where r: "rep cmp ok sl L" using assms(1) by (auto simp: sl_inv_def)
  have new: "\<forall>x \<in> set (L 0). cmp (keys sl x) key \<noteq> 0" using assms(3) contents_rep [OF r] by auto
  obtain h prev sl0 where p: "insert_prepare cmp sl key = Some (fresh sl, h, prev, sl0)" "1 \<le> h" "h \<le> kMaxHeight"
    using insert_prepare_spec [OF r assms(2)] by blast
  have "\<exists>sl'. link_levels (fresh sl) prev [0..<i] sl0 = Some sl' \<and> sl_inv cmp ok sl' \<and>
       contents sl' = (if i = 0 then contents sl else insert_key cmp key (contents sl)) \<and>
       (\<forall>y. i < h \<longrightarrow> sl_inv cmp ok (upd sl' (fresh sl) i y) \<and> contents (upd sl' (fresh sl) i y) = contents sl')"
    if i: "i \<le> h" for i
  proof -
    let ?M = "\<lambda>l. if l < i then before (KeyIsAfterNode cmp sl key) (L l) @ fresh sl #
      behind (KeyIsAfterNode cmp sl key) (L l) else L l"
    obtain sl' where s: "link_levels (fresh sl) prev [0..<i] sl0 = Some sl'" "rep cmp ok sl' ?M"
      "keys sl' = (keys sl)(fresh sl := key)"
      using link_levels_spec [OF r assms(2) new p(1) i] by blast
    have "rep cmp ok (upd sl' (fresh sl) i y) ?M" if "i < h" for y
    proof (rule rep_unpublished [OF s(2)])
      fix l assume "l < kMaxHeight" "l = i"
      then show "fresh sl \<notin> set (head # ?M l)"
        using rep_sub0 [OF r, of l] rep_node [OF r, of "fresh sl"] rep_fresh [OF r] by auto
    qed
    then have "sl_inv cmp ok (upd sl' (fresh sl) i y) \<and> contents (upd sl' (fresh sl) i y) = contents sl'"
      if "i < h" for y
      using that contents_rep [OF s(2)] contents_rep [of "upd sl' (fresh sl) i y" ?M] by (auto simp: sl_inv_def)
    then show ?thesis using s contents_linked [OF r s(3,2)] by (auto simp: sl_inv_def)
  qed
  then show ?thesis using p by blast
qed

lemma insert_spec:
  assumes "sl_inv cmp ok sl" "ok key" "\<forall>k \<in> set (contents sl). cmp k key \<noteq> 0"
  shows "\<exists>sl'. Insert cmp sl key = Some sl' \<and> sl_inv cmp ok sl' \<and>
    contents sl' = insert_key cmp key (contents sl)"
proof -
  obtain x h prev sl0 where p: "insert_prepare cmp sl key = Some (x, h, prev, sl0)" "1 \<le> h"
    "\<forall>i \<le> h. \<exists>sl'. link_levels x prev [0..<i] sl0 = Some sl' \<and> sl_inv cmp ok sl' \<and>
       contents sl' = (if i = 0 then contents sl else insert_key cmp key (contents sl)) \<and>
       (\<forall>y. i < h \<longrightarrow> sl_inv cmp ok (upd sl' x i y) \<and> contents (upd sl' x i y) = contents sl')"
    using insert_steps [OF assms] by blast
  from p(3) [rule_format, of h] p(1,2) show ?thesis by (auto simp: Insert_def)
qed

lemma contains_spec:
  "sl_inv cmp ok sl \<Longrightarrow> ok key \<Longrightarrow> Contains cmp sl key = Some (\<exists>k \<in> set (contents sl). cmp key k = 0)"
  by (auto simp: sl_inv_def Contains_spec contents_rep)

end

lemma sl_inv_mkSkipList: "sl_inv cmp ok (mkSkipList any)" "contents (mkSkipList any) = []"
proof -
  have n: "Next (mkSkipList any) head l = Some 0" if "l < kMaxHeight" for l
    using that by (simp add: Next_def mkSkipList_def)
  then have "rep cmp ok (mkSkipList any) (\<lambda>_. [])"
    by (simp add: rep_def) (simp add: mkSkipList_def kMaxHeight_def head_def good_seed_mkRandom)
  then show "sl_inv cmp ok (mkSkipList any)" by (auto simp: sl_inv_def)
  show "contents (mkSkipList any) = []"
    using n [of 0] by (simp add: contents_def nodes_def kMaxHeight_def mkSkipList_def numeral_2_eq_2)
qed

subsection \<open>Properties\<close>

text \<open>
  C14: \<open>Insert\<close> of a key that is not in the list returns, without touching a link outside a node;
  the list stays well formed (every level a strictly sorted list contained in the level below) and
  its contents are the old keys with the new one in its sorted place.
\<close>

theorem skiplist_insert:
  assumes "comparator cmp ok" "sl_inv cmp ok sl" "ok key" "\<forall>k \<in> set (contents sl). cmp k key \<noteq> 0"
  shows "\<exists>sl'. Insert cmp sl key = Some sl' \<and> sl_inv cmp ok sl' \<and>
    contents sl' = insert_key cmp key (contents sl)"
  using assms by (rule comparator.insert_spec)

theorem skiplist_insert_witness:
  "\<exists>sl'. Insert slice_compare (mkSkipList []) [5] = Some sl' \<and> sl_inv slice_compare (\<lambda>_. True) sl' \<and>
    contents sl' = [[5]]"
  using skiplist_insert [where key = "[5]", OF slice_order.comparator_axioms sl_inv_mkSkipList(1) [of _ _ "[]"]]
  by (simp add: sl_inv_mkSkipList insert_key_def)



text \<open>
  \<open>Contains\<close> returns and says exactly whether a key that compares equal is in the list.
\<close>

theorem skiplist_contains:
  assumes "comparator cmp ok" "sl_inv cmp ok sl" "ok key"
  shows "Contains cmp sl key = Some (\<exists>k \<in> set (contents sl). cmp key k = 0)"
  using assms by (rule comparator.contains_spec)

theorem skiplist_contains_witness: "Contains slice_compare (mkSkipList []) [5] = Some False"
  using skiplist_contains [where key = "[5]", OF slice_order.comparator_axioms sl_inv_mkSkipList(1) [of _ _ "[]"]]
  by (simp add: sl_inv_mkSkipList)

text \<open>
  C16: The iterator operations return and move as the interface says: \<open>Seek\<close> to the first key that
  is not below the target, \<open>SeekToFirst\<close> and \<open>SeekToLast\<close> to the ends, \<open>Next\<close> and \<open>Prev\<close> to
  the neighbours of a node, and to NULL where there is none.
\<close>

theorem skiplist_iterator:
  assumes "comparator cmp ok" "sl_inv cmp ok sl" "ok target" "nodes sl = us @ x # vs"
  shows "Iterator_Seek cmp sl target = Some (first (filter (\<lambda>n. cmp (keys sl n) target \<ge> 0) (nodes sl))) \<and>
    Iterator_SeekToFirst sl = Some (first (nodes sl)) \<and> Iterator_SeekToLast sl = Some (last (nodes sl)) \<and>
    Iterator_Next sl x = Some (first vs) \<and> Iterator_Prev cmp sl x = Some (last_or_null us)"
proof -
  obtain L where r: "rep cmp ok sl L" using assms(2) by (auto simp: sl_inv_def)
  then have n: "nodes sl = L 0" by (rule comparator.rep_nodes [OF assms(1)])
  with assms(4) have "L 0 = us @ x # vs" by simp
  then show ?thesis
    using comparator.Iterator_specs(1,2) [OF assms(1) r] comparator.Iterator_specs(3) [OF assms(1) r assms(3)]
      comparator.Iterator_specs(4,5) [OF assms(1) r, of us x vs] n
    by (simp add: last_or_null_def)
qed

text \<open>The list with the one key \<open>[5]\<close> in node 2.\<close>

definition ex_list :: "bytes skiplist" where
  "ex_list = \<lparr>keys = (\<lambda>_. [5]), links = (\<lambda>x. if x = head then 2 # replicate 11 0 else [0]),
     fresh = 3, max_height = 1, rnd = 1\<rparr>"

lemma ex_list_inv: "sl_inv slice_compare (\<lambda>_. True) ex_list" "nodes ex_list = [2]"
proof -
  have n: "Next ex_list head l = Some (if l = 0 then 2 else 0)" if "l < kMaxHeight" for l
    using that by (cases l) (simp_all add: Next_def ex_list_def kMaxHeight_def nth_replicate)
  have m: "Next ex_list 2 0 = Some 0" by (simp add: Next_def ex_list_def head_def)
  have "rep slice_compare (\<lambda>_. True) ex_list (\<lambda>l. if l = 0 then [2] else [])"
    using n m by (auto simp: rep_def) (auto simp: ex_list_def head_def kMaxHeight_def good_seed_def)
  then show "sl_inv slice_compare (\<lambda>_. True) ex_list" by (auto simp: sl_inv_def)
  show "nodes ex_list = [2]"
    using n [of 0] m by (simp add: nodes_def kMaxHeight_def ex_list_def [THEN arg_cong [where f = fresh]] numeral_3_eq_3)
qed

theorem skiplist_iterator_witness:
  "Iterator_Seek slice_compare ex_list [6] = Some 0 \<and> Iterator_SeekToLast ex_list = Some 2 \<and>
   Iterator_Next ex_list 2 = Some 0 \<and> Iterator_Prev slice_compare ex_list 2 = Some 0"
proof -
  have "keys ex_list 2 = [5]" by (simp add: ex_list_def)
  then show ?thesis
    using skiplist_iterator [where target = "[6]" and us = "[]" and x = 2 and vs = "[]",
        OF slice_order.comparator_axioms ex_list_inv(1)] ex_list_inv(2)
    by (simp add: first_def last_or_null_def)
qed

end
