(* ===== verification/LdbFormat.thy ===== *)
theory LdbFormat
  imports LdbCompare
begin

text \<open>
  \<^verbatim>\<open>db/dbformat.h\<close> and \<^verbatim>\<open>db/dbformat.cc\<close>: internal keys (user key, sequence number and
  value type in eight trailing bytes), their parser and order, the filter wrapper and lookup
  keys. \<open>ucmp\<close>, \<open>usep\<close>, \<open>usucc\<close>, \<open>ufilter\<close> and \<open>umatch\<close> are the virtual functions of
  the user comparator and filter policy that the classes are constructed with.
\<close>

datatype ValueType = kTypeDeletion | kTypeValue

definition type_code :: "ValueType \<Rightarrow> u64" where
  "type_code t = (case t of kTypeDeletion \<Rightarrow> 0 | kTypeValue \<Rightarrow> 1)"

text \<open>\<open>static_cast<ValueType>(c)\<close> for the values the enumeration names.\<close>

definition type_of_code :: "byte \<Rightarrow> ValueType option" where
  "type_of_code c = (if c = 0 then Some kTypeDeletion else if c = 1 then Some kTypeValue else None)"

definition kValueTypeForSeek :: ValueType where
  "kValueTypeForSeek = kTypeValue"

definition kMaxSequenceNumber :: u64 where
  "kMaxSequenceNumber = push_bit 56 1 - 1"

record ParsedInternalKey =
  user_key :: bytes
  sequence :: u64
  vtype :: ValueType

definition InternalKeyEncodingLength :: "ParsedInternalKey \<Rightarrow> nat" where
  "InternalKeyEncodingLength key = length (user_key key) + 8"

definition PackSequenceAndType :: "u64 \<Rightarrow> ValueType \<Rightarrow> u64" where
  "PackSequenceAndType seq t = push_bit 8 seq OR type_code t"

definition AppendInternalKey :: "bytes \<Rightarrow> ParsedInternalKey \<Rightarrow> bytes" where
  "AppendInternalKey result key =
     PutFixed64 (result @ user_key key) (PackSequenceAndType (sequence key) (vtype key))"

definition ExtractUserKey :: "bytes \<Rightarrow> bytes" where
  "ExtractUserKey internal_key = take (length internal_key - 8) internal_key"

text \<open>\<open>DecodeFixed64(key.data() + key.size() - 8)\<close>.\<close>

definition key_tag :: "bytes \<Rightarrow> u64" where
  "key_tag internal_key = DecodeFixed64 (drop (length internal_key - 8) internal_key)"

definition ExtractValueType :: "bytes \<Rightarrow> ValueType option" where
  "ExtractValueType internal_key = type_of_code (ucast (key_tag internal_key AND 0xff))"

definition ParseInternalKey :: "bytes \<Rightarrow> ParsedInternalKey option" where
  "ParseInternalKey internal_key =
     (let n = length internal_key
      in if n < 8 then None
         else
           let num = key_tag internal_key; c = ucast (num AND 0xff) :: byte
           in (case type_of_code c of
                 None \<Rightarrow> None
               | Some t \<Rightarrow> Some \<lparr>user_key = take (n - 8) internal_key, sequence = drop_bit 8 num, vtype = t\<rparr>))"

subsection \<open>The comparator of internal keys\<close>

definition InternalKeyComparator_Compare :: "(bytes \<Rightarrow> bytes \<Rightarrow> int) \<Rightarrow> bytes \<Rightarrow> bytes \<Rightarrow> int" where
  "InternalKeyComparator_Compare ucmp akey bkey =
     (let r = ucmp (ExtractUserKey akey) (ExtractUserKey bkey)
      in if r = 0
         then
           let anum = key_tag akey; bnum = key_tag bkey
           in if anum > bnum then -1 else if anum < bnum then 1 else r
         else r)"

definition InternalKeyComparator_FindShortestSeparator ::
  "(bytes \<Rightarrow> bytes \<Rightarrow> int) \<Rightarrow> (bytes \<Rightarrow> bytes \<Rightarrow> bytes) \<Rightarrow> bytes \<Rightarrow> bytes \<Rightarrow> bytes" where
  "InternalKeyComparator_FindShortestSeparator ucmp usep start limit =
     (let user_start = ExtractUserKey start; user_limit = ExtractUserKey limit;
          tmp = usep user_start user_limit
      in if length tmp < length user_start \<and> ucmp user_start tmp < 0
         then PutFixed64 tmp (PackSequenceAndType kMaxSequenceNumber kValueTypeForSeek)
         else start)"

definition InternalKeyComparator_FindShortSuccessor ::
  "(bytes \<Rightarrow> bytes \<Rightarrow> int) \<Rightarrow> (bytes \<Rightarrow> bytes) \<Rightarrow> bytes \<Rightarrow> bytes" where
  "InternalKeyComparator_FindShortSuccessor ucmp usucc key =
     (let user_key = ExtractUserKey key; tmp = usucc user_key
      in if length tmp < length user_key \<and> ucmp user_key tmp < 0
         then PutFixed64 tmp (PackSequenceAndType kMaxSequenceNumber kValueTypeForSeek)
         else key)"

subsection \<open>The filter wrapper\<close>

definition InternalFilterPolicy_CreateFilter :: "(bytes list \<Rightarrow> bytes \<Rightarrow> bytes) \<Rightarrow> bytes list \<Rightarrow> bytes \<Rightarrow> bytes" where
  "InternalFilterPolicy_CreateFilter ufilter keys dst = ufilter (map ExtractUserKey keys) dst"

definition InternalFilterPolicy_KeyMayMatch :: "(bytes \<Rightarrow> bytes \<Rightarrow> bool) \<Rightarrow> bytes \<Rightarrow> bytes \<Rightarrow> bool" where
  "InternalFilterPolicy_KeyMayMatch umatch key f = umatch (ExtractUserKey key) f"

subsection \<open>The class \<open>InternalKey\<close>\<close>

text \<open>Its only member is the string \<open>rep_\<close>.\<close>

type_synonym InternalKey = bytes

definition mkInternalKey :: "bytes \<Rightarrow> u64 \<Rightarrow> ValueType \<Rightarrow> InternalKey" where
  "mkInternalKey ukey s t = AppendInternalKey [] \<lparr>user_key = ukey, sequence = s, vtype = t\<rparr>"

definition InternalKey_DecodeFrom :: "bytes \<Rightarrow> InternalKey" where
  "InternalKey_DecodeFrom s = s"

definition InternalKey_SetFrom :: "ParsedInternalKey \<Rightarrow> InternalKey" where
  "InternalKey_SetFrom p = AppendInternalKey [] p"

definition InternalKey_user_key :: "InternalKey \<Rightarrow> bytes" where
  "InternalKey_user_key rep = ExtractUserKey rep"

subsection \<open>Lookup keys\<close>

text \<open>
  The char array of a \<open>LookupKey\<close> and the position \<open>kstart_ - start_\<close> of the internal key in it.
\<close>

record LookupKey =
  lk_data :: bytes
  lk_kstart :: nat

definition mkLookupKey :: "bytes \<Rightarrow> u64 \<Rightarrow> LookupKey" where
  "mkLookupKey ukey s =
     (let prefix = EncodeVarint32 (of_nat (length ukey + 8))
      in \<lparr>lk_data = prefix @ ukey @ EncodeFixed64 (PackSequenceAndType s kValueTypeForSeek),
          lk_kstart = length prefix\<rparr>)"

definition memtable_key :: "LookupKey \<Rightarrow> bytes" where
  "memtable_key k = lk_data k"

definition internal_key :: "LookupKey \<Rightarrow> bytes" where
  "internal_key k = drop (lk_kstart k) (lk_data k)"

definition lookup_user_key :: "LookupKey \<Rightarrow> bytes" where
  "lookup_user_key k = take (length (lk_data k) - lk_kstart k - 8) (drop (lk_kstart k) (lk_data k))"

subsection \<open>Packing\<close>

lemma unat_type_code: "unat (type_code t) = (case t of kTypeDeletion \<Rightarrow> 0 | kTypeValue \<Rightarrow> 1)"
  by (cases t) (simp_all add: type_code_def)

lemma type_code_less: "unat (type_code t) \<le> 1"
  by (cases t) (simp_all add: type_code_def)

lemma kMaxSequenceNumber_eq: "kMaxSequenceNumber = 2 ^ 56 - 1" "unat kMaxSequenceNumber = 2 ^ 56 - 1"
  by (simp_all add: kMaxSequenceNumber_def)

lemma unat_Pack:
  assumes "seq \<le> kMaxSequenceNumber"
  shows "unat (PackSequenceAndType seq t) = 256 * unat seq + unat (type_code t)"
proof -
  have s: "unat seq < 2 ^ 56" using assms by (simp add: word_le_nat_alt kMaxSequenceNumber_eq)
  have "PackSequenceAndType seq t = push_bit 8 seq + type_code t"
    unfolding PackSequenceAndType_def
  proof (rule disjunctive_add [symmetric])
    fix k
    show "\<not> bit (push_bit 8 seq) k \<or> \<not> bit (type_code t) k"
      by (cases t) (auto simp: type_code_def bit_push_bit_iff bit_1_iff)
  qed
  also have "push_bit 8 seq = 256 * seq" by (simp add: push_bit_eq_mult mult.commute)
  finally show ?thesis using s type_code_less [of t] by (simp add: unat_word_ariths)
qed

lemma unat_shift8: "unat (drop_bit 8 (v :: u64)) = unat v div 256"
  by (simp only: unat_drop_bit_eq) (simp add: drop_bit_eq_div)

lemma Pack_seq: "seq \<le> kMaxSequenceNumber \<Longrightarrow> drop_bit 8 (PackSequenceAndType seq t) = seq"
  using type_code_less [of t] by (simp add: word_unat_eq_iff unat_shift8 unat_Pack del: drop_bit_eq_div)

lemma Pack_type:
  assumes "seq \<le> kMaxSequenceNumber"
  shows "type_of_code (ucast (PackSequenceAndType seq t AND 0xff)) = Some t"
proof -
  have "unat (ucast (PackSequenceAndType seq t) :: byte) = unat (type_code t)"
    using type_code_less [of t] by (simp add: unsigned_ucast_eq take_bit_eq_mod unat_Pack [OF assms])
  then show ?thesis
    by (cases t) (simp_all add: fixed_bytes type_of_code_def type_code_def word_unat_eq_iff)
qed

subsection \<open>Internal keys\<close>

lemma AppendInternalKey_eq:
  "AppendInternalKey r k = r @ user_key k @ EncodeFixed64 (PackSequenceAndType (sequence k) (vtype k))"
  by (simp add: AppendInternalKey_def PutFixed64_def)

lemma ExtractUserKey_Append [simp]: "ExtractUserKey (u @ EncodeFixed64 v) = u"
  by (simp add: ExtractUserKey_def)

lemma key_tag_Append [simp]: "key_tag (u @ EncodeFixed64 v) = v"
  by (simp add: key_tag_def codec_simps)

lemma internal_key_split: "8 \<le> length k \<Longrightarrow> k = ExtractUserKey k @ EncodeFixed64 (key_tag k)"
  by (simp add: ExtractUserKey_def key_tag_def EncodeFixed64_Decode)

lemma ParseInternalKey_Append:
  "sequence k \<le> kMaxSequenceNumber \<Longrightarrow> ParseInternalKey (AppendInternalKey [] k) = Some k"
  by (simp add: ParseInternalKey_def AppendInternalKey_eq Let_def Pack_seq Pack_type)

lemma AppendInternalKey_Parse:
  assumes "ParseInternalKey s = Some k"
  shows "AppendInternalKey [] k = s \<and> sequence k \<le> kMaxSequenceNumber"
proof -
  let ?n = "key_tag s"
  obtain t where k: "8 \<le> length s" "type_of_code (ucast (?n AND 0xff)) = Some t"
    "k = \<lparr>user_key = ExtractUserKey s, sequence = drop_bit 8 ?n, vtype = t\<rparr>"
    using assms by (auto simp: ParseInternalKey_def Let_def ExtractUserKey_def split: if_splits option.splits)
  have seq: "drop_bit 8 ?n \<le> kMaxSequenceNumber"
    using unat_bound [of ?n] by (simp only: word_le_nat_alt kMaxSequenceNumber_eq unat_shift8) simp
  have "unat (type_code t) = unat ?n mod 256"
  proof -
    have u: "unat (ucast ?n :: byte) = unat ?n mod 256" by (simp add: unsigned_ucast_eq take_bit_eq_mod)
    then show ?thesis
      using k(2) by (auto simp: fixed_bytes type_of_code_def unat_type_code split: if_splits)
  qed
  then have "PackSequenceAndType (drop_bit 8 ?n) t = ?n"
    by (simp only: word_unat_eq_iff unat_Pack [OF seq] unat_shift8) simp
  then show ?thesis
    using k internal_key_split [OF k(1)] seq by (simp add: AppendInternalKey_eq)
qed

lemma mkInternalKey_eq: "mkInternalKey u s t = u @ EncodeFixed64 (PackSequenceAndType s t)"
  by (simp add: mkInternalKey_def AppendInternalKey_eq)

subsection \<open>The order of internal keys\<close>

definition valid_ikey :: "bytes \<Rightarrow> bool" where
  "valid_ikey k \<longleftrightarrow> 8 \<le> length k"

lemma valid_ikey_Append [simp]: "valid_ikey (u @ EncodeFixed64 v)"
  by (simp add: valid_ikey_def)

lemma ikey_compare:
  "InternalKeyComparator_Compare ucmp (u @ EncodeFixed64 v) (u' @ EncodeFixed64 v') =
     (if ucmp u u' = 0 then (if v > v' then -1 else if v < v' then 1 else 0) else ucmp u u')"
  by (simp add: InternalKeyComparator_Compare_def Let_def)

lemma ikey_cases:
  assumes "valid_ikey k"
  obtains u v where "k = u @ EncodeFixed64 v"
  using assms internal_key_split [of k] unfolding valid_ikey_def by blast

lemma comparator_ikey:
  assumes "comparator ucmp (\<lambda>_. True)"
  shows "comparator (InternalKeyComparator_Compare ucmp) valid_ikey"
proof
  fix a b c assume "valid_ikey a" "valid_ikey b" "valid_ikey c"
  then obtain ua va ub vb uc vc where
    k: "a = ua @ EncodeFixed64 va" "b = ub @ EncodeFixed64 vb" "c = uc @ EncodeFixed64 vc"
    by (meson ikey_cases)
  note u = comparator.trans_le [OF assms, of ua ub uc] comparator.eq_trans [OF assms, of ua ub uc]
    comparator.less_le_trans [OF assms, of ua ub uc] comparator.le_less_trans [OF assms, of ua ub uc]
  show "InternalKeyComparator_Compare ucmp a b \<le> 0 \<Longrightarrow> InternalKeyComparator_Compare ucmp b c \<le> 0 \<Longrightarrow>
      InternalKeyComparator_Compare ucmp a c \<le> 0"
    using u by (auto simp: k ikey_compare split: if_splits)
next
  fix a b assume "valid_ikey a" "valid_ikey b"
  then obtain ua va ub vb where k: "a = ua @ EncodeFixed64 va" "b = ub @ EncodeFixed64 vb"
    by (meson ikey_cases)
  show "InternalKeyComparator_Compare ucmp a b < 0 \<longleftrightarrow> 0 < InternalKeyComparator_Compare ucmp b a"
    using comparator.flip [OF assms, of ua ub] comparator.flip [OF assms, of ub ua]
      comparator.eq_sym [OF assms, of ua ub]
    by (auto simp: k ikey_compare split: if_splits)
qed

text \<open>The tag that a shortened separator gets sorts before every key with the same user key.\<close>

lemma valid_ikey_tagged [simp]: "valid_ikey (PutFixed64 u v)"
  by (simp add: PutFixed64_def)

lemma key_comparator_ikey:
  assumes "key_comparator ucmp (\<lambda>_. True) usep usucc"
  shows "key_comparator (InternalKeyComparator_Compare ucmp) valid_ikey
    (InternalKeyComparator_FindShortestSeparator ucmp usep)
    (InternalKeyComparator_FindShortSuccessor ucmp usucc)"
proof (intro key_comparator.intro key_comparator_axioms.intro)
  note uc = key_comparator.axioms(1) [OF assms]
  show c: "comparator (InternalKeyComparator_Compare ucmp) valid_ikey" by (rule comparator_ikey [OF uc])
  fix s l assume s: "valid_ikey s" and l: "valid_ikey l"
  obtain us vs where ks: "s = us @ EncodeFixed64 vs" using s by (rule ikey_cases)
  obtain ul vl where kl: "l = ul @ EncodeFixed64 vl" using l by (rule ikey_cases)
  let ?sep = "InternalKeyComparator_FindShortestSeparator ucmp usep s l"
  consider (short) "ucmp us (usep us ul) < 0"
      "?sep = usep us ul @ EncodeFixed64 (PackSequenceAndType kMaxSequenceNumber kValueTypeForSeek)"
    | (same) "?sep = s"
    by (cases "length (usep us ul) < length us \<and> ucmp us (usep us ul) < 0")
       (simp_all add: InternalKeyComparator_FindShortestSeparator_def ks kl Let_def PutFixed64_def)
  note sep = this
  have nz: "ucmp us ul \<noteq> 0" if "ucmp us (usep us ul) < 0"
    using that key_comparator.sep_eq [OF assms, of us ul] comparator.flip [OF uc, of us "usep us ul"] by auto
  show "valid_ikey ?sep" using sep s by cases simp_all
  show "InternalKeyComparator_Compare ucmp s ?sep \<le> 0"
    using sep comparator.cmp_self [OF c s] by cases (auto simp: ks ikey_compare)
  show "InternalKeyComparator_Compare ucmp ?sep s \<le> 0" if "InternalKeyComparator_Compare ucmp s l = 0"
    using sep that nz comparator.cmp_self [OF c s] by cases (auto simp: ks kl ikey_compare split: if_splits)
  show "InternalKeyComparator_Compare ucmp ?sep l < 0" if "InternalKeyComparator_Compare ucmp s l < 0"
    using sep that nz key_comparator.sep_less [OF assms, of us ul]
    by cases (auto simp: ks kl ikey_compare split: if_splits)
  let ?succ = "InternalKeyComparator_FindShortSuccessor ucmp usucc s"
  consider (short) "ucmp us (usucc us) < 0"
      "?succ = usucc us @ EncodeFixed64 (PackSequenceAndType kMaxSequenceNumber kValueTypeForSeek)"
    | (same) "?succ = s"
    by (cases "length (usucc us) < length us \<and> ucmp us (usucc us) < 0")
       (simp_all add: InternalKeyComparator_FindShortSuccessor_def ks Let_def PutFixed64_def)
  note succ = this
  show "valid_ikey ?succ" using succ s by cases simp_all
  show "InternalKeyComparator_Compare ucmp s ?succ \<le> 0"
    using succ comparator.cmp_self [OF c s] by cases (auto simp: ks ikey_compare)
qed

text \<open>The comparator that the database uses: internal keys over bytewise user keys.\<close>

definition icmp :: "bytes \<Rightarrow> bytes \<Rightarrow> int" where
  "icmp = InternalKeyComparator_Compare slice_compare"

interpretation ikey_order: key_comparator icmp valid_ikey
  "InternalKeyComparator_FindShortestSeparator slice_compare FindShortestSeparator"
  "InternalKeyComparator_FindShortSuccessor slice_compare FindShortSuccessor"
  unfolding icmp_def by (rule key_comparator_ikey [OF bytewise.key_comparator_axioms])

subsection \<open>Properties\<close>

text \<open>
  C18: \<open>ParseInternalKey\<close> inverts \<open>AppendInternalKey\<close> for every sequence number that fits into
  56 bits, and it accepts nothing else: whatever it parses was written by \<open>AppendInternalKey\<close>.
\<close>

theorem internal_key_roundtrip:
  "ParseInternalKey s = Some k \<longleftrightarrow> s = AppendInternalKey [] k \<and> sequence k \<le> kMaxSequenceNumber"
  using ParseInternalKey_Append [of k] AppendInternalKey_Parse [of s k] by auto

text \<open>
  C19: Internal keys are ordered by user key, and within a user key from the newest version to the
  oldest.
\<close>

theorem internal_key_order:
  assumes "s \<le> kMaxSequenceNumber" "s' \<le> kMaxSequenceNumber" "s \<noteq> s'"
  shows "icmp (mkInternalKey u s t) (mkInternalKey u' s' t') < 0 \<longleftrightarrow>
    slice_compare u u' < 0 \<or> u = u' \<and> s > s'"
proof -
  have "PackSequenceAndType s' t' < PackSequenceAndType s t \<longleftrightarrow> s' < s"
    using assms(3) type_code_less [of t] type_code_less [of t'] word_unat_eq_iff [of s s']
    unfolding word_less_nat_alt unat_Pack [OF assms(1)] unat_Pack [OF assms(2)] by linarith
  then show ?thesis by (auto simp: icmp_def mkInternalKey_eq ikey_compare slice_compare_eq_0)
qed

theorem internal_key_order_witness:
  "icmp (mkInternalKey [1] 5 kTypeDeletion) (mkInternalKey [1] 4 kTypeValue) < 0"
  using internal_key_order [of 5 4 "[1]" kTypeDeletion "[1]" kTypeValue] by (simp add: kMaxSequenceNumber_eq)

text \<open>
  C20: The separator that index blocks store between two adjacent internal keys is a valid internal
  key, not below any key up to the first and below every key from the second on.
\<close>

theorem internal_separator:
  assumes "valid_ikey start" "valid_ikey limit" "icmp start limit < 0"
    and "valid_ikey k" "icmp k start \<le> 0" "valid_ikey k'" "icmp limit k' \<le> 0"
  shows "let sep = InternalKeyComparator_FindShortestSeparator slice_compare FindShortestSeparator start limit
    in valid_ikey sep \<and> icmp k sep \<le> 0 \<and> icmp sep k' < 0"
  using ikey_order.sep_between [OF assms] ikey_order.sep_ok [OF assms(1,2)] by simp

theorem internal_separator_witness:
  "let sep = InternalKeyComparator_FindShortestSeparator slice_compare FindShortestSeparator
       (mkInternalKey [1, 1, 1] 5 kTypeValue) (mkInternalKey [3] 4 kTypeValue)
   in valid_ikey sep \<and> icmp (mkInternalKey [1, 1, 1] 5 kTypeValue) sep \<le> 0 \<and>
      icmp sep (mkInternalKey [3] 4 kTypeValue) < 0"
proof (rule internal_separator)
  show "valid_ikey (mkInternalKey [1, 1, 1] 5 kTypeValue)" "valid_ikey (mkInternalKey [3] 4 kTypeValue)"
    "valid_ikey (mkInternalKey [1, 1, 1] 5 kTypeValue)" "valid_ikey (mkInternalKey [3] 4 kTypeValue)"
    by (simp_all only: mkInternalKey_eq valid_ikey_Append)
  show "icmp (mkInternalKey [1, 1, 1] 5 kTypeValue) (mkInternalKey [3] 4 kTypeValue) < 0"
    "icmp (mkInternalKey [1, 1, 1] 5 kTypeValue) (mkInternalKey [1, 1, 1] 5 kTypeValue) \<le> 0"
    "icmp (mkInternalKey [3] 4 kTypeValue) (mkInternalKey [3] 4 kTypeValue) \<le> 0"
    by (simp_all only: icmp_def mkInternalKey_eq ikey_compare) simp_all
qed

end
