(* ===== verification/LdbMemTable.thy ===== *)
theory LdbMemTable
  imports LdbSkipList LdbFormat
begin

text \<open>
  \<^verbatim>\<open>db/memtable.h\<close> and \<^verbatim>\<open>db/memtable.cc\<close>: encoded entries in a skip list, ordered by
  their internal keys. A \<open>const char*\<close> key of the list is the byte string from that address on
  (the entry); the lookup key is such a string too. The arena only hands out memory: its
  accounting is not part of this model.

  The locale \<open>ordered_table\<close> is what the memtable needs of its table, and is interpreted on the
  skip list; the main lemma says that \<open>Get\<close> returns the newest version of a user key that is
  visible at the snapshot's sequence number.
\<close>

subsection \<open>The code\<close>

text \<open>
  \<open>GetLengthPrefixedSlice(data)\<close>: the slice, and the bytes behind it. The varint is looked for in
  five bytes; \<open>None\<close> is the corrupted case that the source excludes by assumption.
\<close>

definition mem_slice :: "bytes \<Rightarrow> (bytes \<times> bytes) option" where
  "mem_slice data =
     (case GetVarint32Ptr (take 5 data) of
        None \<Rightarrow> None
      | Some (len, q) \<Rightarrow>
          let p = drop (length (take 5 data) - length q) data
          in Some (take (unat len) p, drop (unat len) p))"

definition KeyComparator :: "(bytes \<Rightarrow> bytes \<Rightarrow> int) \<Rightarrow> bytes \<Rightarrow> bytes \<Rightarrow> int" where
  "KeyComparator ucmp aptr bptr =
     (case (mem_slice aptr, mem_slice bptr) of
        (Some (a, _), Some (b, _)) \<Rightarrow> InternalKeyComparator_Compare ucmp a b
      | _ \<Rightarrow> 0)"

definition EncodeKey :: "bytes \<Rightarrow> bytes" where
  "EncodeKey target = PutVarint32 [] (of_nat (length target)) @ target"

record memtable =
  table :: "bytes skiplist"
  refs :: int

definition mkMemTable :: memtable where
  "mkMemTable = \<lparr>table = mkSkipList [], refs = 0\<rparr>"

definition MemTable_Ref :: "memtable \<Rightarrow> memtable" where
  "MemTable_Ref m = m\<lparr>refs := refs m + 1\<rparr>"

text \<open>\<open>None\<close>: the last reference is gone and the object is deleted.\<close>

definition MemTable_Unref :: "memtable \<Rightarrow> memtable option" where
  "MemTable_Unref m = (let m = m\<lparr>refs := refs m - 1\<rparr> in if refs m \<le> 0 then None else Some m)"

text \<open>The size that is allocated for an entry and the bytes that are stored into it.\<close>

definition encoded_len :: "bytes \<Rightarrow> bytes \<Rightarrow> nat" where
  "encoded_len key v =
     (let internal_key_size = length key + 8
      in VarintLength (of_nat internal_key_size) + internal_key_size +
         VarintLength (of_nat (length v)) + length v)"

definition encode_entry :: "u64 \<Rightarrow> ValueType \<Rightarrow> bytes \<Rightarrow> bytes \<Rightarrow> bytes" where
  "encode_entry s t key v =
     EncodeVarint32 (of_nat (length key + 8)) @ key @ EncodeFixed64 (push_bit 8 s OR type_code t) @
     EncodeVarint32 (of_nat (length v)) @ v"

definition MemTable_Add ::
  "(bytes \<Rightarrow> bytes \<Rightarrow> int) \<Rightarrow> u64 \<Rightarrow> ValueType \<Rightarrow> bytes \<Rightarrow> bytes \<Rightarrow> memtable \<Rightarrow> memtable option" where
  "MemTable_Add ucmp s t key v m =
     map_option (\<lambda>tb. m\<lparr>table := tb\<rparr>) (Insert (KeyComparator ucmp) (table m) (encode_entry s t key v))"

text \<open>
  The outcomes of \<open>Get\<close>: a value (returns true), a deletion (true, with the status NotFound),
  or false.
\<close>

datatype get_result = Value bytes | Deleted | Absent

text \<open>What \<open>Get\<close> does with the entry that \<open>Seek\<close> found.\<close>

definition check_entry :: "(bytes \<Rightarrow> bytes \<Rightarrow> int) \<Rightarrow> LookupKey \<Rightarrow> bytes \<Rightarrow> get_result option" where
  "check_entry ucmp k entry =
     (case GetVarint32Ptr (take 5 entry) of
        None \<Rightarrow> None
      | Some (key_length, q) \<Rightarrow>
          let key_ptr = drop (length (take 5 entry) - length q) entry
          in if ucmp (take (unat (key_length - 8)) key_ptr) (lookup_user_key k) = 0
             then
               let tag = DecodeFixed64 (drop (unat (key_length - 8)) key_ptr)
               in (case type_of_code (ucast (tag AND 0xff)) of
                     Some kTypeValue \<Rightarrow>
                       map_option (\<lambda>(v, _). Value v) (mem_slice (drop (unat key_length) key_ptr))
                   | Some kTypeDeletion \<Rightarrow> Some Deleted
                   | None \<Rightarrow> Some Absent)
             else Some Absent)"

definition MemTable_Get :: "(bytes \<Rightarrow> bytes \<Rightarrow> int) \<Rightarrow> LookupKey \<Rightarrow> memtable \<Rightarrow> get_result option" where
  "MemTable_Get ucmp k m =
     (case Iterator_Seek (KeyComparator ucmp) (table m) (memtable_key k) of
        None \<Rightarrow> None
      | Some it \<Rightarrow>
          if Iterator_Valid it then check_entry ucmp k (Iterator_key (table m) it) else Some Absent)"

subsection \<open>Iterators\<close>

definition MemTableIterator_Seek :: "(bytes \<Rightarrow> bytes \<Rightarrow> int) \<Rightarrow> memtable \<Rightarrow> bytes \<Rightarrow> node option" where
  "MemTableIterator_Seek ucmp m k = Iterator_Seek (KeyComparator ucmp) (table m) (EncodeKey k)"

definition MemTableIterator_key :: "memtable \<Rightarrow> node \<Rightarrow> bytes option" where
  "MemTableIterator_key m it = map_option fst (mem_slice (Iterator_key (table m) it))"

definition MemTableIterator_value :: "memtable \<Rightarrow> node \<Rightarrow> bytes option" where
  "MemTableIterator_value m it =
     (case mem_slice (Iterator_key (table m) it) of
        None \<Rightarrow> None
      | Some (_, rest) \<Rightarrow> map_option fst (mem_slice rest))"

subsection \<open>The table as an interface\<close>

locale ordered_table = comparator cmp ok
  for cmp :: "'k \<Rightarrow> 'k \<Rightarrow> int" and ok :: "'k \<Rightarrow> bool" +
  fixes inv :: "'t \<Rightarrow> bool" and entries :: "'t \<Rightarrow> 'k list" and ins :: "'t \<Rightarrow> 'k \<Rightarrow> 't option"
    and seek :: "'t \<Rightarrow> 'k \<Rightarrow> 'k option option"
  assumes entries_sorted: "inv t \<Longrightarrow> sorted_wrt (\<lambda>a b. cmp a b < 0) (entries t) \<and> (\<forall>e \<in> set (entries t). ok e)"
    and ins_ok: "inv t \<Longrightarrow> ok k \<Longrightarrow> \<forall>e \<in> set (entries t). cmp e k \<noteq> 0 \<Longrightarrow>
      \<exists>t'. ins t k = Some t' \<and> inv t' \<and> entries t' = insert_key cmp k (entries t)"
    and seek_ok: "inv t \<Longrightarrow> ok k \<Longrightarrow> seek t k = Some (List.find (\<lambda>e. cmp e k \<ge> 0) (entries t))"
begin

text \<open>The entry a seek returns is the least one that is not below the target.\<close>

lemma seek_least:
  assumes "inv t" "ok k"
  shows "(seek t k = Some None \<and> (\<forall>e \<in> set (entries t). cmp e k < 0)) \<or>
    (\<exists>e \<in> set (entries t). seek t k = Some (Some e) \<and> cmp e k \<ge> 0 \<and>
       (\<forall>e' \<in> set (entries t). cmp e' k \<ge> 0 \<longrightarrow> cmp e e' \<le> 0))"
proof (cases "List.find (\<lambda>e. cmp e k \<ge> 0) (entries t)")
  case None
  then show ?thesis using seek_ok [OF assms] by (auto simp: find_None_iff not_le)
next
  case (Some e)
  then obtain i where i: "i < length (entries t)" "e = entries t ! i" "cmp e k \<ge> 0"
    "\<And>j. j < i \<Longrightarrow> cmp (entries t ! j) k < 0"
    by (auto simp: find_Some_iff not_le)
  have s: "sorted_wrt (\<lambda>a b. cmp a b < 0) (entries t)" "\<And>e. e \<in> set (entries t) \<Longrightarrow> ok e"
    using entries_sorted [OF assms(1)] by auto
  have "cmp e e' \<le> 0" if "e' \<in> set (entries t)" "cmp e' k \<ge> 0" for e'
  proof -
    obtain j where j: "j < length (entries t)" "e' = entries t ! j" using \<open>e' \<in> set (entries t)\<close> by (auto simp: in_set_conv_nth)
    then have "i \<le> j" using i(4) [of j] that(2) by (meson leD not_le)
    then show ?thesis
      using j i s cmp_self by (cases "i = j") (auto simp: sorted_wrt_iff_nth_less less_imp_le)
  qed
  then show ?thesis using Some i seek_ok [OF assms] by (auto intro!: bexI [of _ e])
qed

end

definition seek_key :: "('k \<Rightarrow> 'k \<Rightarrow> int) \<Rightarrow> 'k skiplist \<Rightarrow> 'k \<Rightarrow> 'k option option" where
  "seek_key cmp sl k =
     map_option (\<lambda>n. if Iterator_Valid n then Some (Iterator_key sl n) else None) (Iterator_Seek cmp sl k)"

lemma ordered_table_skiplist:
  assumes "comparator cmp ok"
  shows "ordered_table cmp ok (sl_inv cmp ok) contents (Insert cmp) (seek_key cmp)"
proof (intro ordered_table.intro ordered_table_axioms.intro assms)
  fix sl k
  assume inv: "sl_inv cmp ok sl"
  show "sorted_wrt (\<lambda>a b. cmp a b < 0) (contents sl) \<and> (\<forall>e \<in> set (contents sl). ok e)"
    using comparator.contents_sorted [OF assms inv] by simp
  show "ok k \<Longrightarrow> \<forall>e \<in> set (contents sl). cmp e k \<noteq> 0 \<Longrightarrow>
      \<exists>t'. Insert cmp sl k = Some t' \<and> sl_inv cmp ok t' \<and> contents t' = insert_key cmp k (contents sl)"
    using comparator.insert_spec [OF assms inv] by blast
  assume "ok k"
  obtain L where r: "rep cmp ok sl L" using inv by (auto simp: sl_inv_def)
  have n: "n \<noteq> 0" if "n \<in> set (L 0)" for n using rep_node [OF r that] by auto
  have f: "(let n = first (filter (\<lambda>n. 0 \<le> cmp (keys sl n) k) ns) in if n \<noteq> 0 then Some (keys sl n) else None) =
      List.find (\<lambda>e. 0 \<le> cmp e k) (map (keys sl) ns)" if "\<forall>n \<in> set ns. n \<noteq> 0" for ns
    using that by (induction ns) (auto simp: first_def Let_def)
  show "seek_key cmp sl k = Some (List.find (\<lambda>e. 0 \<le> cmp e k) (contents sl))"
    using comparator.Iterator_specs(3) [OF assms r \<open>ok k\<close>] comparator.contents_rep [OF assms r] f [of "L 0"] n
    by (auto simp add: seek_key_def Iterator_Valid_def Iterator_key_def Let_def)
qed

subsection \<open>Entries\<close>

lemma length_EncodeVarint32: "length (EncodeVarint32 v) \<le> 5"
  using length_uvarint_le [of "unat v" 4] unat_bound [of v] by (simp add: EncodeVarint32_eq)

lemma varint_in_five:
  "GetVarint32Ptr (take 5 (EncodeVarint32 n @ rest)) = Some (n, take (5 - length (EncodeVarint32 n)) rest)"
  "length (take 5 (EncodeVarint32 n @ rest)) - length (take (5 - length (EncodeVarint32 n)) rest) =
    length (EncodeVarint32 n)"
  using length_EncodeVarint32 [of n] by (simp_all add: varint32_codec.dec_enc)

lemma mem_slice_Put: "short_string v \<Longrightarrow> mem_slice (PutLengthPrefixedSlice [] v @ rest) = Some (v, rest)"
proof -
  assume v: "short_string v"
  let ?e = "EncodeVarint32 (of_nat (length v))"
  note five = varint_in_five [of "of_nat (length v)" "v @ rest"]
  have "mem_slice (?e @ v @ rest) = Some (take (length v) (v @ rest), drop (length v) (v @ rest))"
    unfolding mem_slice_def five(1) by (simp only: option.case prod.case five(2) Let_def unat_length [OF v]) simp
  then show ?thesis by (simp add: PutLengthPrefixedSlice_def PutVarint32_def)
qed

definition mem_ok :: "bytes \<Rightarrow> bool" where
  "mem_ok e \<longleftrightarrow> (\<exists>k rest. e = PutLengthPrefixedSlice [] k @ rest \<and> valid_ikey k \<and> short_string k)"

lemma KeyComparator_Put:
  "short_string a \<Longrightarrow> short_string b \<Longrightarrow>
   KeyComparator ucmp (PutLengthPrefixedSlice [] a @ r) (PutLengthPrefixedSlice [] b @ r') =
     InternalKeyComparator_Compare ucmp a b"
  by (simp add: KeyComparator_def mem_slice_Put)

lemma comparator_mem:
  assumes "comparator ucmp (\<lambda>_. True)"
  shows "comparator (KeyComparator ucmp) mem_ok"
proof
  note ik = comparator_ikey [OF assms]
  show "KeyComparator ucmp a b < 0 \<longleftrightarrow> 0 < KeyComparator ucmp b a" if "mem_ok a" "mem_ok b" for a b
    using that comparator.flip [OF ik] by (auto simp: mem_ok_def KeyComparator_Put)
  show "KeyComparator ucmp a c \<le> 0"
    if m: "mem_ok a" "mem_ok b" "mem_ok c" and le: "KeyComparator ucmp a b \<le> 0" "KeyComparator ucmp b c \<le> 0" for a b c
  proof -
    obtain ka ra kb rb kc rc where k: "a = PutLengthPrefixedSlice [] ka @ ra" "valid_ikey ka" "short_string ka"
      "b = PutLengthPrefixedSlice [] kb @ rb" "valid_ikey kb" "short_string kb"
      "c = PutLengthPrefixedSlice [] kc @ rc" "valid_ikey kc" "short_string kc"
      using m unfolding mem_ok_def by blast
    then show ?thesis
      using le comparator.trans_le [OF ik, of ka kb kc] by (simp add: KeyComparator_Put)
  qed
qed

interpretation mem_table: ordered_table "KeyComparator slice_compare" mem_ok
  "sl_inv (KeyComparator slice_compare) mem_ok" contents "Insert (KeyComparator slice_compare)"
  "seek_key (KeyComparator slice_compare)"
  by (rule ordered_table_skiplist [OF comparator_mem [OF slice_order.comparator_axioms]])

lemma encode_entry_eq:
  "encode_entry s t k v = PutLengthPrefixedSlice [] (mkInternalKey k s t) @ PutLengthPrefixedSlice [] v"
  by (simp add: encode_entry_def PutLengthPrefixedSlice_def PutVarint32_def mkInternalKey_eq PackSequenceAndType_def)

lemma lookup_key_simps:
  "memtable_key (mkLookupKey u s) = PutLengthPrefixedSlice [] (mkInternalKey u s kTypeValue)"
  "lookup_user_key (mkLookupKey u s) = u"
  "internal_key (mkLookupKey u s) = mkInternalKey u s kTypeValue"
  by (simp_all add: memtable_key_def mkLookupKey_def lookup_user_key_def internal_key_def Let_def
      PutLengthPrefixedSlice_def PutVarint32_def mkInternalKey_eq kValueTypeForSeek_def)

lemma length_mkInternalKey [simp]: "length (mkInternalKey k s t) = length k + 8"
  by (simp add: mkInternalKey_eq)

text \<open>The buffer that \<open>Add\<close> allocates has exactly the size of the entry.\<close>

lemma encoded_len_exact:
  assumes "length k + 8 < 2 ^ 32" "length v < 2 ^ 32"
  shows "encoded_len k v = length (encode_entry s t k v)"
proof -
  have "unat (of_nat n :: u64) = n" "unat (of_nat n :: u32) = n" if "n < 2 ^ 32" for n
    using that by (simp_all add: unat_of_nat)
  from this [OF assms(1)] this [OF assms(2)] show ?thesis
    by (simp add: encoded_len_def encode_entry_def VarintLength_eq EncodeVarint32_eq Let_def
        del: of_nat_add)
qed

subsection \<open>The memtable as a multi-version map\<close>

type_synonym mem_op = "u64 \<times> ValueType \<times> bytes \<times> bytes"

definition valid_op :: "mem_op \<Rightarrow> bool" where
  "valid_op o1 = (case o1 of (s, t, k, v) \<Rightarrow>
     s \<le> kMaxSequenceNumber \<and> length k + 8 < 2 ^ 32 \<and> length v < 2 ^ 32)"

fun add_all :: "(bytes \<Rightarrow> bytes \<Rightarrow> int) \<Rightarrow> mem_op list \<Rightarrow> memtable \<Rightarrow> memtable option" where
  "add_all ucmp [] m = Some m"
| "add_all ucmp ((s, t, k, v) # ops) m =
     (case MemTable_Add ucmp s t k v m of None \<Rightarrow> None | Some m \<Rightarrow> add_all ucmp ops m)"

text \<open>The version that is visible at sequence number \<open>s\<close>: the one with the largest number.\<close>

fun newest_of :: "mem_op list \<Rightarrow> mem_op option" where
  "newest_of [] = None"
| "newest_of (p # ops) =
     (case newest_of ops of None \<Rightarrow> Some p | Some q \<Rightarrow> if fst q < fst p then Some p else Some q)"

definition visible :: "(bytes \<Rightarrow> bytes \<Rightarrow> int) \<Rightarrow> bytes \<Rightarrow> u64 \<Rightarrow> mem_op \<Rightarrow> bool" where
  "visible ucmp u s p = (case p of (q, t, k, v) \<Rightarrow> ucmp k u = 0 \<and> q \<le> s)"

definition lookup_spec :: "(bytes \<Rightarrow> bytes \<Rightarrow> int) \<Rightarrow> mem_op list \<Rightarrow> bytes \<Rightarrow> u64 \<Rightarrow> get_result" where
  "lookup_spec ucmp ops u s =
     (case newest_of (filter (visible ucmp u s) ops) of
        None \<Rightarrow> Absent
      | Some (q, t, k, v) \<Rightarrow> (case t of kTypeValue \<Rightarrow> Value v | kTypeDeletion \<Rightarrow> Deleted))"

definition entry_of :: "mem_op \<Rightarrow> bytes" where
  "entry_of p = (case p of (s, t, k, v) \<Rightarrow> encode_entry s t k v)"

lemma newest_of_None [simp]: "newest_of ops = None \<longleftrightarrow> ops = []"
  by (cases ops) (auto split: option.splits)

lemma newest_of_max: "newest_of ops = Some p \<Longrightarrow> p \<in> set ops \<and> (\<forall>q \<in> set ops. fst q \<le> fst p)"
proof (induction ops arbitrary: p)
  case (Cons a ops)
  then show ?case by (cases "newest_of ops") (fastforce split: if_splits)+
qed simp

lemma newest_of_eq:
  assumes "distinct (map fst ops)" "p \<in> set ops" "\<And>q. q \<in> set ops \<Longrightarrow> fst q \<le> fst p"
  shows "newest_of ops = Some p"
proof -
  obtain r where r: "newest_of ops = Some r" using assms(2) by (cases "newest_of ops") auto
  then have "r \<in> set ops" "fst r = fst p"
    using newest_of_max [OF r] assms(2) assms(3) [of r] by (auto intro: antisym)
  then have "r = p" using assms(1,2) by (metis distinct_map inj_onD)
  then show ?thesis using r by simp
qed

lemma entry_simps:
  assumes "valid_op (s, t, k, v)"
  shows "short_string (mkInternalKey k s t)" "short_string v" "mem_ok (encode_entry s t k v)"
proof -
  show sh: "short_string (mkInternalKey k s t)" "short_string v"
    using assms by (auto simp: valid_op_def short_string_def)
  show "mem_ok (encode_entry s t k v)"
    using sh by (auto simp: mem_ok_def encode_entry_eq mkInternalKey_eq)
qed

lemma entry_compare:
  assumes "valid_op (s, t, k, v)" "valid_op (s', t', k', v')"
  shows "KeyComparator ucmp (encode_entry s t k v) (encode_entry s' t' k' v') =
    (if ucmp k k' = 0
     then (if PackSequenceAndType s t > PackSequenceAndType s' t' then -1
           else if PackSequenceAndType s t < PackSequenceAndType s' t' then 1 else 0)
     else ucmp k k')"
  using entry_simps [OF assms(1)] entry_simps [OF assms(2)]
  by (simp add: encode_entry_eq KeyComparator_Put) (simp add: mkInternalKey_eq ikey_compare)

lemma Pack_le_iff:
  assumes "q \<le> kMaxSequenceNumber" "s \<le> kMaxSequenceNumber"
  shows "PackSequenceAndType q t \<le> PackSequenceAndType s kTypeValue \<longleftrightarrow> q \<le> s"
    and "PackSequenceAndType q t \<le> PackSequenceAndType s t' \<Longrightarrow> q \<le> s"
proof -
  note p = word_le_nat_alt unat_Pack [OF assms(1)] unat_Pack [OF assms(2)]
  have "unat (type_code kTypeValue) = 1" by (simp add: type_code_def)
  then show "PackSequenceAndType q t \<le> PackSequenceAndType s kTypeValue \<longleftrightarrow> q \<le> s"
    unfolding p using type_code_less [of t] by linarith
  show "PackSequenceAndType q t \<le> PackSequenceAndType s t' \<Longrightarrow> q \<le> s"
    unfolding p using type_code_less [of t] type_code_less [of t'] by linarith
qed

lemma check_entry_eq:
  assumes "valid_op (q, t, k, v)"
  shows "check_entry ucmp (mkLookupKey u s) (encode_entry q t k v) =
    Some (if ucmp k u = 0 then (case t of kTypeValue \<Rightarrow> Value v | kTypeDeletion \<Rightarrow> Deleted) else Absent)"
proof -
  let ?n = "of_nat (length k + 8) :: u32" and ?tag = "EncodeFixed64 (PackSequenceAndType q t)"
  let ?rest = "k @ ?tag @ PutLengthPrefixedSlice [] v"
  have e: "encode_entry q t k v = EncodeVarint32 ?n @ ?rest"
    by (simp add: encode_entry_def PutLengthPrefixedSlice_def PutVarint32_def PackSequenceAndType_def)
  have "?n - 8 = of_nat (length k)" by simp
  then have n: "unat ?n = length k + 8" "unat (?n - 8) = length k"
    using assms by (simp_all add: valid_op_def unat_of_nat del: of_nat_add)
  note five = varint_in_five [of ?n ?rest]
  have d: "drop (length k + 8) ?rest = PutLengthPrefixedSlice [] v" by simp
  have "mem_slice (PutLengthPrefixedSlice [] v) = Some (v, [])"
    using mem_slice_Put [OF entry_simps(2) [OF assms], of "[]"] by simp
  moreover have "type_of_code (ucast (PackSequenceAndType q t AND 0xff)) = Some t"
    using assms by (intro Pack_type) (simp add: valid_op_def)
  ultimately show ?thesis
    unfolding check_entry_def e five(1)
    by (simp only: option.case prod.case five(2) Let_def n d append_eq_conv_conj [symmetric] lookup_key_simps)
       (cases t; simp add: codec_simps)
qed

definition mem_rep :: "(bytes \<Rightarrow> bytes \<Rightarrow> int) \<Rightarrow> mem_op list \<Rightarrow> memtable \<Rightarrow> bool" where
  "mem_rep ucmp ops m \<longleftrightarrow>
     sl_inv (KeyComparator ucmp) mem_ok (table m) \<and> set (contents (table m)) = entry_of ` set ops \<and>
     (\<forall>p \<in> set ops. valid_op p) \<and> distinct (map fst ops)"

lemma mem_rep_empty: "mem_rep ucmp [] mkMemTable"
  by (simp add: mem_rep_def mkMemTable_def sl_inv_mkSkipList)

lemma mem_rep_Add:
  assumes u: "comparator ucmp (\<lambda>_. True)" and r: "mem_rep ucmp ops m"
    and p: "valid_op (s, t, k, v)" "s \<notin> fst ` set ops"
  shows "\<exists>m'. MemTable_Add ucmp s t k v m = Some m' \<and> mem_rep ucmp ((s, t, k, v) # ops) m'"
proof -
  note c = comparator_mem [OF u]
  have "KeyComparator ucmp e (encode_entry s t k v) \<noteq> 0" if e: "e \<in> set (contents (table m))" for e
  proof -
    obtain q where q: "q \<in> set ops" "e = entry_of q" using e r by (auto simp: mem_rep_def)
    obtain s' t' k' v' where "q = (s', t', k', v')" by (cases q)
    with q have q': "valid_op (s', t', k', v')" "e = encode_entry s' t' k' v'" "s' \<noteq> s"
      using r p(2) by (auto simp: mem_rep_def entry_of_def intro: rev_image_eqI)
    have "PackSequenceAndType s' t' \<noteq> PackSequenceAndType s t"
      using q'(1,3) p(1) Pack_seq [of s' t'] Pack_seq [of s t] by (auto simp: valid_op_def)
    then show ?thesis
      using q' entry_compare [OF q'(1) p(1), of ucmp] by (auto simp: not_less_iff_gr_or_eq)
  qed
  then obtain sl where sl: "Insert (KeyComparator ucmp) (table m) (encode_entry s t k v) = Some sl"
    "sl_inv (KeyComparator ucmp) mem_ok sl"
    "contents sl = insert_key (KeyComparator ucmp) (encode_entry s t k v) (contents (table m))"
    using comparator.insert_spec [OF c, of "table m" "encode_entry s t k v"] r entry_simps(3) [OF p(1)]
    by (auto simp: mem_rep_def)
  then show ?thesis
    using r p by (auto simp: MemTable_Add_def mem_rep_def entry_of_def)
qed

lemma add_all_spec:
  assumes u: "comparator ucmp (\<lambda>_. True)" and "mem_rep ucmp ops m" "\<forall>p \<in> set ops'. valid_op p"
    "distinct (map fst (rev ops' @ ops))"
  shows "\<exists>m'. add_all ucmp ops' m = Some m' \<and> mem_rep ucmp (rev ops' @ ops) m'"
  using assms(2-)
proof (induction ops' arbitrary: ops m)
  case (Cons p ops')
  obtain s t k v where p: "p = (s, t, k, v)" by (cases p)
  then obtain m' where "MemTable_Add ucmp s t k v m = Some m'" "mem_rep ucmp (p # ops) m'"
    using mem_rep_Add [OF u Cons.prems(1), of s t k v] Cons.prems(2,3) by auto
  then show ?case using Cons.IH [of "p # ops" m'] Cons.prems p by auto
qed simp

lemma entry_target:
  assumes "valid_op (q, t, k, v)" "s \<le> kMaxSequenceNumber" "length u + 8 < 2 ^ 32"
  shows "KeyComparator ucmp (encode_entry q t k v) (memtable_key (mkLookupKey u s)) =
    (if ucmp k u = 0
     then (if PackSequenceAndType q t > PackSequenceAndType s kTypeValue then -1
           else if PackSequenceAndType q t < PackSequenceAndType s kTypeValue then 1 else 0)
     else ucmp k u)"
  using entry_simps [OF assms(1)] assms(3) KeyComparator_Put [of _ "mkInternalKey u s kTypeValue" ucmp _ "[]"]
  by (simp add: encode_entry_eq lookup_key_simps short_string_def) (simp add: mkInternalKey_eq ikey_compare)

text \<open>An entry is not below the lookup key exactly if its key is larger, or the same and visible.\<close>

lemma entry_reached:
  assumes "valid_op (q, t, k, v)" "s \<le> kMaxSequenceNumber" "length u + 8 < 2 ^ 32"
  shows "KeyComparator ucmp (encode_entry q t k v) (memtable_key (mkLookupKey u s)) \<ge> 0 \<longleftrightarrow>
    0 < ucmp k u \<or> visible ucmp u s (q, t, k, v)"
  using Pack_le_iff(1) [of q s t] assms
  by (auto simp: entry_target [OF assms] visible_def valid_op_def not_less)

lemma MemTable_Get_spec:
  assumes u: "comparator ucmp (\<lambda>_. True)" and r: "mem_rep ucmp ops m"
    and s: "s \<le> kMaxSequenceNumber" "length key + 8 < 2 ^ 32"
  shows "MemTable_Get ucmp (mkLookupKey key s) m = Some (lookup_spec ucmp ops key s)"
proof -
  let ?cmp = "KeyComparator ucmp" and ?k = "memtable_key (mkLookupKey key s)" and ?vis = "visible ucmp key s"
  have tab: "ordered_table ?cmp mem_ok (sl_inv ?cmp mem_ok) contents (Insert ?cmp) (seek_key ?cmp)"
    by (rule ordered_table_skiplist [OF comparator_mem [OF u]])
  have "short_string (mkInternalKey key s kTypeValue)" using s(2) by (simp add: short_string_def)
  then have "mem_ok ?k"
    unfolding mem_ok_def lookup_key_simps
    by (intro exI [of _ "mkInternalKey key s kTypeValue"] exI [of _ "[]"]) (simp add: mkInternalKey_eq)
  have inv: "sl_inv ?cmp mem_ok (table m)" using r by (simp add: mem_rep_def)
  have ent: "e \<in> set (contents (table m)) \<longleftrightarrow> (\<exists>q t k v. (q, t, k, v) \<in> set ops \<and> e = encode_entry q t k v)" for e
    using r by (force simp: mem_rep_def entry_of_def)
  have val: "valid_op p" if "p \<in> set ops" for p using r that by (simp add: mem_rep_def)
  note reach = entry_reached [OF val s]
  have get: "MemTable_Get ucmp (mkLookupKey key s) m =
      (case seek_key ?cmp (table m) ?k of None \<Rightarrow> None
       | Some e \<Rightarrow> (case e of None \<Rightarrow> Some Absent | Some e \<Rightarrow> check_entry ucmp (mkLookupKey key s) e))"
    by (auto simp: MemTable_Get_def seek_key_def split: option.splits)
  from ordered_table.seek_least [OF tab inv \<open>mem_ok ?k\<close>] show ?thesis
  proof (elim disjE conjE bexE)
    assume seek: "seek_key ?cmp (table m) ?k = Some None" and all: "\<forall>e \<in> set (contents (table m)). ?cmp e ?k < 0"
    have "\<not> ?vis (q, t, k, v)" if "(q, t, k, v) \<in> set ops" for q t k v
    proof -
      have "encode_entry q t k v \<in> set (contents (table m))" using ent that by blast
      then have "?cmp (encode_entry q t k v) ?k < 0" using all by blast
      then show ?thesis using reach [OF that, of ucmp] by simp
    qed
    then have "filter ?vis ops = []" by (auto simp: filter_empty_conv)
    then show ?thesis using get seek by (simp add: lookup_spec_def)
  next
    fix e assume seek: "seek_key ?cmp (table m) ?k = Some (Some e)" and ge: "?cmp e ?k \<ge> 0"
      and "e \<in> set (contents (table m))" and least: "\<forall>e' \<in> set (contents (table m)). ?cmp e' ?k \<ge> 0 \<longrightarrow> ?cmp e e' \<le> 0"
    then obtain q t k v where e: "(q, t, k, v) \<in> set ops" "e = encode_entry q t k v" using ent by blast
    have le: "ucmp k k' < 0 \<or> ucmp k k' = 0 \<and> q' \<le> q"
      if "(q', t', k', v') \<in> set ops" "?vis (q', t', k', v')" for q' t' k' v'
    proof -
      have "?cmp e (encode_entry q' t' k' v') \<le> 0" using least reach that ent by blast
      then show ?thesis
        using entry_compare [OF val [OF e(1)] val [OF that(1)], of ucmp] e(2)
          Pack_le_iff(2) [of q' q t' t] val [OF e(1)] val [OF that(1)]
        by (auto simp: valid_op_def not_less split: if_splits)
    qed
    show ?thesis
    proof (cases "ucmp k key = 0")
      case True
      then have "?vis (q, t, k, v)" using ge e reach [OF e(1)] by simp
      moreover have "q' \<le> q" if "(q', t', k', v') \<in> set ops" "?vis (q', t', k', v')" for q' t' k' v'
      proof -
        have "ucmp k k' = 0"
          using True that(2) comparator.eq_sym [OF u, of k' key] comparator.eq_trans [OF u, of k key k']
          by (auto simp: visible_def)
        then show ?thesis using le [OF that] by simp
      qed
      moreover have "distinct (map fst (filter ?vis ops))" using r by (simp add: mem_rep_def distinct_map_filter)
      ultimately have "newest_of (filter ?vis ops) = Some (q, t, k, v)"
        using e(1) by (intro newest_of_eq) auto
      then show ?thesis
        using get seek e check_entry_eq [OF val [OF e(1)]] True by (simp add: lookup_spec_def)
    next
      case False
      then have pos: "0 < ucmp k key" using ge e reach [OF e(1)] by (auto simp: visible_def)
      have "filter ?vis ops = []"
      proof (rule ccontr)
        assume "filter ?vis ops \<noteq> []"
        then obtain q' t' k' v' where o: "(q', t', k', v') \<in> set ops" "?vis (q', t', k', v')"
          by (fastforce simp: filter_empty_conv)
        then have "ucmp k k' \<le> 0" "ucmp k' key \<le> 0" using le [OF o] by (auto simp: visible_def)
        then show False using comparator.trans_le [OF u, of k k' key] pos by simp
      qed
      then show ?thesis
        using get seek e check_entry_eq [OF val [OF e(1)]] False by (simp add: lookup_spec_def)
    qed
  qed
qed

lemma lookup_spec_set:
  assumes "distinct (map fst ops)" "distinct (map fst ops')" "set ops = set ops'"
  shows "lookup_spec ucmp ops u s = lookup_spec ucmp ops' u s"
proof -
  let ?f = "filter (visible ucmp u s)"
  have "newest_of (?f ops) = newest_of (?f ops')"
  proof (cases "newest_of (?f ops)")
    case None
    then show ?thesis using assms(3) by (auto simp: filter_empty_conv eq_commute [of None])
  next
    case (Some p)
    have "set (?f ops) = set (?f ops')" using assms(3) by simp
    then have "p \<in> set (?f ops')" "\<forall>q \<in> set (?f ops'). fst q \<le> fst p"
      using newest_of_max [OF Some] by blast+
    moreover have "distinct (map fst (?f ops'))" using assms(2) by (rule distinct_map_filter)
    ultimately have "newest_of (?f ops') = Some p" by (intro newest_of_eq) blast+
    then show ?thesis using Some by simp
  qed
  then show ?thesis by (simp add: lookup_spec_def)
qed

lemma add_all_get:
  assumes "comparator ucmp (\<lambda>_. True)" "\<forall>p \<in> set ops. valid_op p" "distinct (map fst ops)"
    and "s \<le> kMaxSequenceNumber" "length key + 8 < 2 ^ 32"
  shows "\<exists>m. add_all ucmp ops mkMemTable = Some m \<and>
    MemTable_Get ucmp (mkLookupKey key s) m = Some (lookup_spec ucmp ops key s)"
proof -
  have d: "distinct (map fst (rev ops))" using assms(3) by (simp add: rev_map [symmetric])
  then obtain m where "add_all ucmp ops mkMemTable = Some m" "mem_rep ucmp (rev ops) m"
    using add_all_spec [OF assms(1) mem_rep_empty assms(2)] by auto
  then show ?thesis
    using MemTable_Get_spec [OF assms(1) _ assms(4,5)] lookup_spec_set [OF d assms(3)] by auto
qed

subsection \<open>Properties\<close>

text \<open>
  C17: A memtable is a multi-version map. After any sequence of \<open>Add\<close> calls with distinct
  sequence numbers, in whatever order of keys and numbers, \<open>Get\<close> returns the value of the newest
  version of the user key that is not newer than the snapshot, reports a deletion if that version
  is one, and returns false if there is none; all calls return.
\<close>

theorem memtable_get_newest:
  assumes "comparator ucmp (\<lambda>_. True)" "\<forall>p \<in> set ops. valid_op p" "distinct (map fst ops)"
    and "s \<le> kMaxSequenceNumber" "length key + 8 < 2 ^ 32"
  shows "\<exists>m. add_all ucmp ops mkMemTable = Some m \<and>
    MemTable_Get ucmp (mkLookupKey key s) m = Some (lookup_spec ucmp ops key s)"
  using assms by (rule add_all_get)

theorem memtable_get_newest_witness:
  "\<exists>m. add_all slice_compare [(1, kTypeValue, [7], [1, 2]), (3, kTypeDeletion, [7], []), (2, kTypeValue, [7], [9])]
      mkMemTable = Some m \<and> MemTable_Get slice_compare (mkLookupKey [7] 2) m = Some (Value [9])"
proof -
  let ?ops = "[(1, kTypeValue, [7], [1, 2]), (3, kTypeDeletion, [7], []), (2, kTypeValue, [7], [9])] :: mem_op list"
  have "lookup_spec slice_compare ?ops [7] 2 = Value [9]" by (simp add: lookup_spec_def visible_def)
  moreover have "\<forall>p \<in> set ?ops. valid_op p" by (simp add: valid_op_def kMaxSequenceNumber_eq)
  ultimately show ?thesis
    using memtable_get_newest [of slice_compare ?ops 2 "[7]"] slice_order.comparator_axioms
    by (simp add: kMaxSequenceNumber_eq)
qed

text \<open>
  The buffer that \<open>Add\<close> allocates has exactly the size of what is written into it, for keys
  and values below 4 GB.
\<close>

theorem memtable_entry_size:
  assumes "length key + 8 < 2 ^ 32" "length v < 2 ^ 32"
  shows "encoded_len key v = length (encode_entry s t key v)"
  using assms by (rule encoded_len_exact)

theorem memtable_entry_size_witness:
  "encoded_len [1, 2] [3] = length (encode_entry 5 kTypeValue [1, 2] [3])"
  by (rule memtable_entry_size) simp_all

end
