(* ===== verification/LdbWriteBatch.thy ===== *)
theory LdbWriteBatch
  imports LdbMemTable LdbStatus
begin

text \<open>
  \<^verbatim>\<open>db/write_batch.cc\<close>: a batch is the string \<open>rep_\<close> (sequence number, count, records). A
  \<open>WriteBatch::Handler\<close> is a pair of operations on a state of its own; \<open>None\<close> is a handler that
  does not return. \<open>MemTableInserter\<close> is the handler that adds the records to a memtable.

  The lemmas show that building a batch and replaying it are inverse, that a batch is applied to
  the memtable in order and under consecutive sequence numbers, and what a reader sees before and
  after.
\<close>

subsection \<open>The code\<close>

type_synonym WriteBatch = bytes

record 'h Handler =
  Handler_Put :: "bytes \<Rightarrow> bytes \<Rightarrow> 'h \<Rightarrow> 'h option"
  Handler_Delete :: "bytes \<Rightarrow> 'h \<Rightarrow> 'h option"

definition kHeader :: nat where
  "kHeader = 12"

definition WriteBatch_Clear :: WriteBatch where
  "WriteBatch_Clear = replicate kHeader 0"

definition WriteBatch_Count :: "WriteBatch \<Rightarrow> u32" where
  "WriteBatch_Count b = DecodeFixed32 (drop 8 b)"

definition WriteBatch_SetCount :: "WriteBatch \<Rightarrow> u32 \<Rightarrow> WriteBatch" where
  "WriteBatch_SetCount b n = take 8 b @ EncodeFixed32 n @ drop 12 b"

definition WriteBatch_Sequence :: "WriteBatch \<Rightarrow> u64" where
  "WriteBatch_Sequence b = DecodeFixed64 b"

definition WriteBatch_SetSequence :: "WriteBatch \<Rightarrow> u64 \<Rightarrow> WriteBatch" where
  "WriteBatch_SetSequence b s = EncodeFixed64 s @ drop 8 b"

definition WriteBatch_Put :: "WriteBatch \<Rightarrow> bytes \<Rightarrow> bytes \<Rightarrow> WriteBatch" where
  "WriteBatch_Put b key v =
     (let b = WriteBatch_SetCount b (WriteBatch_Count b + 1);
          b = b @ [ucast (type_code kTypeValue)];
          b = PutLengthPrefixedSlice b key
      in PutLengthPrefixedSlice b v)"

definition WriteBatch_Delete :: "WriteBatch \<Rightarrow> bytes \<Rightarrow> WriteBatch" where
  "WriteBatch_Delete b key =
     (let b = WriteBatch_SetCount b (WriteBatch_Count b + 1);
          b = b @ [ucast (type_code kTypeDeletion)]
      in PutLengthPrefixedSlice b key)"

definition WriteBatch_Append :: "WriteBatch \<Rightarrow> WriteBatch \<Rightarrow> WriteBatch" where
  "WriteBatch_Append dst src =
     WriteBatch_SetCount dst (WriteBatch_Count dst + WriteBatch_Count src) @ drop kHeader src"

definition WriteBatch_SetContents :: "bytes \<Rightarrow> WriteBatch" where
  "WriteBatch_SetContents cont = cont"

text \<open>
  The loop of \<open>Iterate\<close>: an early return of a status, or the number of records \<open>found\<close> at the
  end of the input.
\<close>

function iterate_loop :: "'h Handler \<Rightarrow> u32 \<Rightarrow> bytes \<Rightarrow> 'h \<Rightarrow> ((Status + u32) \<times> 'h) option" where
  "iterate_loop hn found input h =
     (case input of
        [] \<Rightarrow> Some (Inr found, h)
      | tag # input \<Rightarrow>
          (case type_of_code tag of
             Some kTypeValue \<Rightarrow>
               (case GetLengthPrefixedSlice input of
                  (None, input) \<Rightarrow> Some (Inl (Corruption (lit ''bad WriteBatch Put'') []), h)
                | (Some key, input) \<Rightarrow>
                    (case GetLengthPrefixedSlice input of
                       (None, input) \<Rightarrow> Some (Inl (Corruption (lit ''bad WriteBatch Put'') []), h)
                     | (Some v, input) \<Rightarrow>
                         (case Handler_Put hn key v h of
                            None \<Rightarrow> None
                          | Some h \<Rightarrow> iterate_loop hn (found + 1) input h)))
           | Some kTypeDeletion \<Rightarrow>
               (case GetLengthPrefixedSlice input of
                  (None, input) \<Rightarrow> Some (Inl (Corruption (lit ''bad WriteBatch Delete'') []), h)
                | (Some key, input) \<Rightarrow>
                    (case Handler_Delete hn key h of
                       None \<Rightarrow> None
                     | Some h \<Rightarrow> iterate_loop hn (found + 1) input h))
           | None \<Rightarrow> Some (Inl (Corruption (lit ''unknown WriteBatch tag'') []), h)))"
  by pat_completeness auto
termination
  by (relation "measure (\<lambda>(hn, found, input, h). length input)")
     (auto dest!: GetLengthPrefixedSlice_shorter [OF sym])

declare iterate_loop.simps [simp del]

definition WriteBatch_Iterate :: "'h Handler \<Rightarrow> WriteBatch \<Rightarrow> 'h \<Rightarrow> (Status \<times> 'h) option" where
  "WriteBatch_Iterate hn b h =
     (if length b < kHeader then Some (Corruption (lit ''malformed WriteBatch (too small)'') [], h)
      else
        (case iterate_loop hn 0 (drop kHeader b) h of
           None \<Rightarrow> None
         | Some (Inl s, h) \<Rightarrow> Some (s, h)
         | Some (Inr found, h) \<Rightarrow>
             if found \<noteq> WriteBatch_Count b then Some (Corruption (lit ''WriteBatch has wrong count'') [], h)
             else Some (OK, h)))"

text \<open>The state of \<open>MemTableInserter\<close>: \<open>sequence_\<close> and \<open>*mem_\<close>.\<close>

definition MemTableInserter :: "(bytes \<Rightarrow> bytes \<Rightarrow> int) \<Rightarrow> (u64 \<times> memtable) Handler" where
  "MemTableInserter ucmp =
     \<lparr>Handler_Put = (\<lambda>key v (s, m). map_option (Pair (s + 1)) (MemTable_Add ucmp s kTypeValue key v m)),
      Handler_Delete = (\<lambda>key (s, m). map_option (Pair (s + 1)) (MemTable_Add ucmp s kTypeDeletion key [] m))\<rparr>"

definition WriteBatch_InsertInto ::
  "(bytes \<Rightarrow> bytes \<Rightarrow> int) \<Rightarrow> WriteBatch \<Rightarrow> memtable \<Rightarrow> (Status \<times> memtable) option" where
  "WriteBatch_InsertInto ucmp b m =
     map_option (\<lambda>(st, _, m). (st, m)) (WriteBatch_Iterate (MemTableInserter ucmp) b (WriteBatch_Sequence b, m))"

subsection \<open>Batches of updates\<close>

datatype update = UPut bytes bytes | UDelete bytes

primrec apply_update :: "WriteBatch \<Rightarrow> update \<Rightarrow> WriteBatch" where
  "apply_update b (UPut k v) = WriteBatch_Put b k v"
| "apply_update b (UDelete k) = WriteBatch_Delete b k"

definition batch_of :: "update list \<Rightarrow> WriteBatch" where
  "batch_of us = foldl apply_update WriteBatch_Clear us"

primrec short_update :: "update \<Rightarrow> bool" where
  "short_update (UPut k v) \<longleftrightarrow> length k + 8 < 2 ^ 32 \<and> length v < 2 ^ 32"
| "short_update (UDelete k) \<longleftrightarrow> length k + 8 < 2 ^ 32"

primrec record_of :: "update \<Rightarrow> bytes" where
  "record_of (UPut k v) = 1 # PutLengthPrefixedSlice [] k @ PutLengthPrefixedSlice [] v"
| "record_of (UDelete k) = 0 # PutLengthPrefixedSlice [] k"

lemma type_bytes [simp]: "(ucast (type_code kTypeValue) :: byte) = 1" "(ucast (type_code kTypeDeletion) :: byte) = 0"
  by (simp_all add: type_code_def)

lemma type_of_code_simps [simp]: "type_of_code 1 = Some kTypeValue" "type_of_code 0 = Some kTypeDeletion"
  by (simp_all add: type_of_code_def)

definition batch_rep :: "bytes \<Rightarrow> u32 \<Rightarrow> bytes \<Rightarrow> WriteBatch" where
  "batch_rep hn n recs = hn @ EncodeFixed32 n @ recs"

lemma batch_rep_simps:
  assumes "length hn = 8"
  shows "WriteBatch_Count (batch_rep hn n recs) = n"
    "WriteBatch_SetCount (batch_rep hn n recs) n' = batch_rep hn n' recs"
    "WriteBatch_SetSequence (batch_rep hn n recs) s = batch_rep (EncodeFixed64 s) n recs"
    "drop kHeader (batch_rep hn n recs) = recs" "batch_rep hn n recs @ r = batch_rep hn n (recs @ r)"
    "\<not> length (batch_rep hn n recs) < kHeader"
  using assms
  by (simp_all add: batch_rep_def WriteBatch_Count_def WriteBatch_SetCount_def WriteBatch_SetSequence_def
      kHeader_def codec_simps)

lemma apply_update_rep:
  assumes "length hn = 8"
  shows "apply_update (batch_rep hn n recs) u = batch_rep hn (n + 1) (recs @ record_of u)"
  by (cases u)
     (simp_all add: WriteBatch_Put_def WriteBatch_Delete_def Let_def batch_rep_simps [OF assms]
       PutLengthPrefixedSlice_append [of "batch_rep _ _ _"] PutLengthPrefixedSlice_append [of "_ @ PutLengthPrefixedSlice _ _"])

lemma batch_of_rep: "batch_of us = batch_rep (replicate 8 0) (of_nat (length us)) (concat (map record_of us))"
proof (induction us rule: rev_induct)
  case Nil
  show ?case
    by (simp add: batch_of_def WriteBatch_Clear_def batch_rep_def kHeader_def EncodeFixed32_eq numeral_eq_Suc)
next
  case (snoc u us)
  then show ?case by (simp add: batch_of_def apply_update_rep add.commute)
qed

subsection \<open>Replaying a batch\<close>

text \<open>Feeding a list of updates to a handler.\<close>

fun handle_all :: "'h Handler \<Rightarrow> update list \<Rightarrow> 'h \<Rightarrow> 'h option" where
  "handle_all hn [] h = Some h"
| "handle_all hn (UPut k v # us) h =
     (case Handler_Put hn k v h of None \<Rightarrow> None | Some h \<Rightarrow> handle_all hn us h)"
| "handle_all hn (UDelete k # us) h =
     (case Handler_Delete hn k h of None \<Rightarrow> None | Some h \<Rightarrow> handle_all hn us h)"

lemma short_update_strings [simp]:
  "short_update (UPut k v) \<Longrightarrow> short_string k" "short_update (UPut k v) \<Longrightarrow> short_string v"
  "short_update (UDelete k) \<Longrightarrow> short_string k"
  by (simp_all add: short_string_def)

lemma iterate_loop_records:
  assumes "\<forall>u \<in> set us. short_update u"
  shows "iterate_loop hn found (concat (map record_of us)) h =
    map_option (Pair (Inr (found + of_nat (length us)))) (handle_all hn us h)"
  using assms
proof (induction us arbitrary: found h)
  case Nil
  then show ?case by (simp add: iterate_loop.simps)
next
  case (Cons u us)
  show ?case
  proof (cases u)
    case (UPut k v)
    then have "iterate_loop hn found (concat (map record_of (u # us))) h =
        (case Handler_Put hn k v h of None \<Rightarrow> None
         | Some h \<Rightarrow> iterate_loop hn (found + 1) (concat (map record_of us)) h)"
      using Cons.prems by (subst iterate_loop.simps) (simp add: codec_simps short_string_def)
    then show ?thesis using Cons UPut by (simp add: add.assoc split: option.splits)
  next
    case (UDelete k)
    then have "iterate_loop hn found (concat (map record_of (u # us))) h =
        (case Handler_Delete hn k h of None \<Rightarrow> None
         | Some h \<Rightarrow> iterate_loop hn (found + 1) (concat (map record_of us)) h)"
      using Cons.prems by (subst iterate_loop.simps) (simp add: codec_simps short_string_def)
    then show ?thesis using Cons UDelete by (simp add: add.assoc split: option.splits)
  qed
qed

lemma Iterate_batch:
  assumes "\<forall>u \<in> set us. short_update u" "length hn8 = 8"
  shows "WriteBatch_Iterate hn (batch_rep hn8 (of_nat (length us)) (concat (map record_of us))) h =
    map_option (Pair OK) (handle_all hn us h)"
  using assms(2)
  by (auto simp: WriteBatch_Iterate_def batch_rep_simps iterate_loop_records [OF assms(1)] option.map_comp
      comp_def split: option.splits)

text \<open>On arbitrary bytes: some updates are handled, then the loop ends or reports a corruption.\<close>

definition handled :: "'h Handler \<Rightarrow> u32 \<Rightarrow> 'h \<Rightarrow> ((Status + u32) \<times> 'h) option \<Rightarrow> bool" where
  "handled hn found h res \<longleftrightarrow> (\<exists>r us h'. res = Some (r, h') \<and> handle_all hn us h = Some h' \<and>
    (case r of Inl st \<Rightarrow> IsCorruption st | Inr n \<Rightarrow> n = found + of_nat (length us)))"

lemma handled_stop: "handled hn found h (Some (Inl (Corruption msg []), h))" "handled hn found h (Some (Inr found, h))"
  by (auto simp: handled_def intro: exI [of _ "[]"])

lemma handled_step:
  assumes "handled hn (found + 1) h' res" "handle_all hn [u] h = Some h'"
  shows "handled hn found h res"
proof -
  obtain r us h'' where r: "res = Some (r, h'')" "handle_all hn us h' = Some h''"
    "case r of Inl st \<Rightarrow> IsCorruption st | Inr n \<Rightarrow> n = found + 1 + of_nat (length us)"
    using assms(1) unfolding handled_def by blast
  moreover have "handle_all hn (u # us) h = Some h''"
    using assms(2) r(2) by (cases u) (simp_all split: option.splits)
  ultimately show ?thesis
    unfolding handled_def by (intro exI [of _ r] exI [of _ "u # us"]) (simp add: add.assoc split: sum.splits)
qed

lemma iterate_loop_any:
  assumes "\<And>k v h. Handler_Put hn k v h \<noteq> None" "\<And>k h. Handler_Delete hn k h \<noteq> None"
  shows "handled hn found h (iterate_loop hn found input h)"
proof (induction input arbitrary: found h rule: length_induct)
  case (1 input)
  have IH: "handled hn f h' (iterate_loop hn f rest h')" if "length rest < length input" for f h' rest
    using 1 that by blast
  show ?case
  proof (cases input)
    case Nil
    then show ?thesis by (simp add: iterate_loop.simps handled_stop)
  next
    case (Cons tag rest)
    obtain key rest1 where g: "GetLengthPrefixedSlice rest = (key, rest1)" by fastforce
    have l1: "length rest1 < length input" if "key \<noteq> None"
      using g that Cons by (auto dest: GetLengthPrefixedSlice_shorter)
    obtain v rest2 where g2: "GetLengthPrefixedSlice rest1 = (v, rest2)" by fastforce
    have l2: "length rest2 < length input" if "key \<noteq> None" "v \<noteq> None"
      using g2 l1 that by (auto dest: GetLengthPrefixedSlice_shorter)
    have put: "handled hn found h (case Handler_Put hn k w h of None \<Rightarrow> None | Some h \<Rightarrow> iterate_loop hn (found + 1) rest2 h)"
      if "key = Some k" "v = Some w" for k w
    proof -
      obtain h1 where h1: "Handler_Put hn k w h = Some h1" using assms(1) [of k w h] by blast
      have "handled hn (found + 1) h1 (iterate_loop hn (found + 1) rest2 h1)" using l2 that by (intro IH) simp
      then show ?thesis using handled_step [of hn found h1 _ "UPut k w" h] h1 by simp
    qed
    have del: "handled hn found h (case Handler_Delete hn k h of None \<Rightarrow> None | Some h \<Rightarrow> iterate_loop hn (found + 1) rest1 h)"
      if "key = Some k" for k
    proof -
      obtain h1 where h1: "Handler_Delete hn k h = Some h1" using assms(2) [of k h] by blast
      have "handled hn (found + 1) h1 (iterate_loop hn (found + 1) rest1 h1)" using l1 that by (intro IH) simp
      then show ?thesis using handled_step [of hn found h1 _ "UDelete k" h] h1 by simp
    qed
    note unfolded = iterate_loop.simps [of hn found input h, unfolded Cons list.case g prod.case g2]
    show ?thesis
    proof (cases "type_of_code tag")
      case None
      then show ?thesis using handled_stop by (simp only: Cons unfolded option.case)
    next
      case (Some t)
      then show ?thesis
      proof (cases t)
        case kTypeDeletion
        then show ?thesis
          using Some del handled_stop
          by (cases key) (simp_all only: Cons unfolded option.case ValueType.case g prod.case)
      next
        case kTypeValue
        then show ?thesis
          using Some put handled_stop
          by (cases key; cases v) (simp_all only: Cons unfolded option.case ValueType.case g g2 prod.case)
      qed
    qed
  qed
qed

subsection \<open>Inserting a batch\<close>

text \<open>The updates of a batch as operations on the memtable, numbered from \<open>s\<close> on.\<close>

primrec op_of :: "u64 \<Rightarrow> update \<Rightarrow> mem_op" where
  "op_of s (UPut k v) = (s, kTypeValue, k, v)"
| "op_of s (UDelete k) = (s, kTypeDeletion, k, [])"

primrec ops_of :: "u64 \<Rightarrow> update list \<Rightarrow> mem_op list" where
  "ops_of s [] = []"
| "ops_of s (u # us) = op_of s u # ops_of (s + 1) us"

lemma handle_all_inserter:
  "handle_all (MemTableInserter ucmp) us (s, m) =
     map_option (Pair (s + of_nat (length us))) (add_all ucmp (ops_of s us) m)"
proof (induction us arbitrary: s m)
  case (Cons u us)
  show ?case
    by (cases u)
       (auto simp: MemTableInserter_def Cons.IH [unfolded MemTableInserter_def] add.assoc [symmetric]
         split: option.splits)
qed simp

lemma InsertInto_batch:
  assumes "\<forall>u \<in> set us. short_update u"
  shows "WriteBatch_InsertInto ucmp (WriteBatch_SetSequence (batch_of us) s) m =
    map_option (Pair OK) (add_all ucmp (ops_of s us) m)"
proof -
  let ?b = "batch_rep (EncodeFixed64 s) (of_nat (length us)) (concat (map record_of us))"
  have b: "WriteBatch_SetSequence (batch_of us) s = ?b"
    by (simp add: batch_of_rep batch_rep_simps)
  have "WriteBatch_Sequence ?b = s" by (simp add: WriteBatch_Sequence_def batch_rep_def codec_simps)
  then show ?thesis
    unfolding b by (simp add: WriteBatch_InsertInto_def Iterate_batch [OF assms] handle_all_inserter option.map_comp comp_def)
qed

text \<open>The result of the last update of a key in a batch.\<close>

primrec update_result :: "update \<Rightarrow> get_result" where
  "update_result (UPut k v) = Value v"
| "update_result (UDelete k) = Deleted"

primrec update_key :: "update \<Rightarrow> bytes" where
  "update_key (UPut k v) = k"
| "update_key (UDelete k) = k"

fun batch_result :: "(bytes \<Rightarrow> bytes \<Rightarrow> int) \<Rightarrow> bytes \<Rightarrow> update list \<Rightarrow> get_result option" where
  "batch_result ucmp key [] = None"
| "batch_result ucmp key (u # us) =
     (case batch_result ucmp key us of
        Some r \<Rightarrow> Some r
      | None \<Rightarrow> if ucmp (update_key u) key = 0 then Some (update_result u) else None)"

lemma fst_op_of [simp]: "fst (op_of s u) = s"
  by (cases u) simp_all

lemma unat_plus_one: "unat (s :: u64) < 2 ^ 60 \<Longrightarrow> unat (s + 1) = unat s + 1"
  by (simp add: unat_word_ariths)

lemma fst_ops_of: "unat s + length us < 2 ^ 60 \<Longrightarrow> p \<in> set (ops_of s us) \<Longrightarrow> unat s \<le> unat (fst p) \<and> unat (fst p) < unat s + length us"
proof (induction us arbitrary: s)
  case (Cons u us)
  then show ?case using Cons.IH [of "s + 1"] unat_plus_one [of s] by auto
qed simp

lemma distinct_ops_of: "unat s + length us < 2 ^ 60 \<Longrightarrow> distinct (map fst (ops_of s us))"
proof (induction us arbitrary: s)
  case (Cons u us)
  moreover have "unat (s + 1) = unat s + 1" using Cons.prems by (intro unat_plus_one) simp
  ultimately show ?case using fst_ops_of [of "s + 1" us] by fastforce
qed simp

lemma valid_ops_of:
  assumes "unat s + length us \<le> 2 ^ 56" "\<forall>u \<in> set us. short_update u"
  shows "\<forall>p \<in> set (ops_of s us). valid_op p"
  using assms
proof (induction us arbitrary: s)
  case (Cons u us)
  have "unat (s + 1) = unat s + 1" using Cons.prems by (intro unat_plus_one) simp
  then have "\<forall>p \<in> set (ops_of (s + 1) us). valid_op p"
    using Cons.prems by (intro Cons.IH) simp_all
  moreover have "s \<le> kMaxSequenceNumber" using Cons.prems by (simp add: kMaxSequenceNumber_eq word_le_nat_alt)
  ultimately show ?case using Cons.prems by (cases u) (simp_all add: valid_op_def)
qed simp

lemma newest_of_append:
  "\<forall>x \<in> set xs. \<forall>y \<in> set ys. fst x < fst y \<Longrightarrow>
   newest_of (xs @ ys) = (case newest_of ys of None \<Rightarrow> newest_of xs | Some p \<Rightarrow> Some p)"
proof (induction xs)
  case Nil
  then show ?case by (simp split: option.splits)
next
  case (Cons x xs)
  show ?case
  proof (cases "newest_of ys")
    case None
    then show ?thesis by simp
  next
    case (Some p)
    then have "fst x < fst p" using newest_of_max [of ys p] Cons.prems by simp
    then show ?thesis using Cons Some by (auto simp: not_less)
  qed
qed

lemma batch_result_newest:
  assumes "unat s + length us < 2 ^ 60" "\<forall>p \<in> set (ops_of s us). fst p \<le> q"
  shows "batch_result ucmp key us =
    (case newest_of (filter (visible ucmp key q) (ops_of s us)) of
       None \<Rightarrow> None
     | Some (q, t, k, v) \<Rightarrow> Some (case t of kTypeValue \<Rightarrow> Value v | kTypeDeletion \<Rightarrow> Deleted))"
  using assms
proof (induction us arbitrary: s)
  case (Cons u us)
  let ?f = "filter (visible ucmp key q)"
  have s1: "unat (s + 1) = unat s + 1" using Cons.prems by (intro unat_plus_one) simp
  then have IH: "batch_result ucmp key us = (case newest_of (?f (ops_of (s + 1) us)) of
       None \<Rightarrow> None
     | Some (q, t, k, v) \<Rightarrow> Some (case t of kTypeValue \<Rightarrow> Value v | kTypeDeletion \<Rightarrow> Deleted))"
    using Cons.prems by (intro Cons.IH) simp_all
  have lt: "fst x < fst y" if "x \<in> set (?f [op_of s u])" "y \<in> set (?f (ops_of (s + 1) us))" for x y
    using fst_ops_of [of "s + 1" us y] that s1 Cons.prems by (auto simp: word_less_nat_alt split: if_splits)
  have n: "newest_of (?f (ops_of s (u # us))) = (case newest_of (?f (ops_of (s + 1) us)) of
      None \<Rightarrow> newest_of (?f [op_of s u]) | Some p \<Rightarrow> Some p)"
  proof -
    have "?f (ops_of s (u # us)) = ?f [op_of s u] @ ?f (ops_of (s + 1) us)" by simp
    moreover have "\<forall>x \<in> set (?f [op_of s u]). \<forall>y \<in> set (?f (ops_of (s + 1) us)). fst x < fst y"
      using lt by blast
    ultimately show ?thesis by (simp only: newest_of_append)
  qed
  have e: "newest_of (?f [op_of s u]) = (if ucmp (update_key u) key = 0 then Some (op_of s u) else None)"
    using Cons.prems by (cases u) (simp_all add: visible_def)
  show ?case
  proof (cases "newest_of (?f (ops_of (s + 1) us))")
    case None
    then have n': "newest_of (?f (ops_of s (u # us))) = (if ucmp (update_key u) key = 0 then Some (op_of s u) else None)"
      unfolding n e by simp
    show ?thesis unfolding n' using IH None by (cases u) simp_all
  next
    case (Some p)
    then have n': "newest_of (?f (ops_of s (u # us))) = Some p" unfolding n by simp
    show ?thesis unfolding n' using IH Some by (cases p) simp
  qed
qed simp

lemma lookup_spec_batch:
  assumes "unat s + length us < 2 ^ 60" "\<forall>p \<in> set (ops_of s us). fst p \<le> q" "\<forall>p \<in> set ops. fst p < s"
  shows "lookup_spec ucmp (ops @ ops_of s us) key q =
    (case batch_result ucmp key us of Some r \<Rightarrow> r | None \<Rightarrow> lookup_spec ucmp ops key q)"
proof -
  let ?f = "filter (visible ucmp key q)"
  have "fst x < fst y" if "x \<in> set ops" "y \<in> set (ops_of s us)" for x y
    using fst_ops_of [OF assms(1) that(2)] assms(3) that(1) by (force simp: word_less_nat_alt)
  then have "newest_of (?f (ops @ ops_of s us)) =
      (case newest_of (?f (ops_of s us)) of None \<Rightarrow> newest_of (?f ops) | Some p \<Rightarrow> Some p)"
    by (simp add: newest_of_append)
  then show ?thesis
    unfolding lookup_spec_def batch_result_newest [OF assms(1,2)]
    by (cases "newest_of (?f (ops_of s us))") (auto split: prod.splits)
qed

lemma lookup_spec_before:
  assumes "unat s + length us < 2 ^ 60" "q < s"
  shows "lookup_spec ucmp (ops @ ops_of s us) key q = lookup_spec ucmp ops key q"
proof -
  have "\<not> visible ucmp key q p" if "p \<in> set (ops_of s us)" for p
    using fst_ops_of [OF assms(1) that] assms(2)
    by (cases p) (simp add: visible_def word_less_nat_alt word_le_nat_alt)
  then show ?thesis by (simp add: lookup_spec_def filter_empty_conv)
qed

lemma add_all_append:
  "add_all ucmp (xs @ ys) m = (case add_all ucmp xs m of None \<Rightarrow> None | Some m \<Rightarrow> add_all ucmp ys m)"
proof (induction xs arbitrary: m)
  case (Cons x xs)
  then show ?case by (cases x) (simp split: option.splits)
qed simp

subsection \<open>Properties\<close>

text \<open>
  C25: A write batch is applied in order. Replaying the batch that was built from any updates with
  \<open>Put\<close> and \<open>Delete\<close> calls the handler's operations for exactly these updates in that order and
  reports success.
\<close>

theorem batch_replay:
  assumes "\<forall>u \<in> set us. short_update u"
  shows "WriteBatch_Iterate hn (batch_of us) h = map_option (Pair OK) (handle_all hn us h)"
  unfolding batch_of_rep by (rule Iterate_batch [OF assms]) simp

theorem batch_replay_witness:
  "WriteBatch_Iterate \<lparr>Handler_Put = \<lambda>k v us. Some (us @ [UPut k v]), Handler_Delete = \<lambda>k us. Some (us @ [UDelete k])\<rparr>
     (batch_of [UPut [1] [2], UDelete [1]]) [] = Some (OK, [UPut [1] [2], UDelete [1]])"
  using batch_replay [of "[UPut [1] [2], UDelete [1]]"
      "\<lparr>Handler_Put = \<lambda>k v us. Some (us @ [UPut k v]), Handler_Delete = \<lambda>k us. Some (us @ [UDelete k])\<rparr>" "[]"]
  by simp

text \<open>
  C24: Inserting a batch into a memtable is atomic for readers: at a snapshot before the batch's
  sequence number \<open>Get\<close> answers as before, and at a snapshot from its last number on it returns the
  last update that the batch has for the key, or the old answer if it has none.
\<close>

theorem batch_insert_atomic:
  assumes "comparator ucmp (\<lambda>_. True)" "\<forall>p \<in> set ops. valid_op p \<and> fst p < s" "distinct (map fst ops)"
    and "\<forall>u \<in> set us. short_update u" "unat s + length us \<le> 2 ^ 56" "length key + 8 < 2 ^ 32"
    and "add_all ucmp ops mkMemTable = Some m"
  shows "\<exists>m'. WriteBatch_InsertInto ucmp (WriteBatch_SetSequence (batch_of us) s) m = Some (OK, m') \<and>
    (\<forall>q < s. q \<le> kMaxSequenceNumber \<longrightarrow>
       MemTable_Get ucmp (mkLookupKey key q) m' = MemTable_Get ucmp (mkLookupKey key q) m) \<and>
    (\<forall>q \<le> kMaxSequenceNumber. unat s + length us \<le> unat q + 1 \<longrightarrow>
       MemTable_Get ucmp (mkLookupKey key q) m' =
         (case batch_result ucmp key us of
            Some r \<Rightarrow> Some r
          | None \<Rightarrow> MemTable_Get ucmp (mkLookupKey key q) m))"
proof -
  let ?ops = "ops @ ops_of s us"
  have lt: "unat s + length us < 2 ^ 60" using assms(5) by simp
  have old: "MemTable_Get ucmp (mkLookupKey key q) m = Some (lookup_spec ucmp ops key q)"
    if "q \<le> kMaxSequenceNumber" for q
    using add_all_get [OF assms(1) _ assms(3) that assms(6)] assms(2,7) by auto
  have "fst x \<noteq> fst y" if "x \<in> set ops" "y \<in> set (ops_of s us)" for x y
    using fst_ops_of [OF lt that(2)] assms(2) that(1) by (force simp: word_less_nat_alt)
  then have d: "distinct (map fst ?ops)"
    using assms(3) distinct_ops_of [OF lt] by auto
  have v: "\<forall>p \<in> set ?ops. valid_op p" using assms(2) valid_ops_of [OF assms(5,4)] by auto
  obtain m' where m': "add_all ucmp (ops_of s us) m = Some m'"
    using add_all_get [OF assms(1) v d, of 0 "[]"] assms(7) by (auto simp: add_all_append)
  have new: "MemTable_Get ucmp (mkLookupKey key q) m' = Some (lookup_spec ucmp ?ops key q)"
    if "q \<le> kMaxSequenceNumber" for q
    using add_all_get [OF assms(1) v d that assms(6)] assms(7) m' by (auto simp: add_all_append)
  have "fst p \<le> q" if "p \<in> set (ops_of s us)" "unat s + length us \<le> unat q + 1" for p q
    using fst_ops_of [OF lt that(1)] that(2) by (simp add: word_le_nat_alt)
  then show ?thesis
    using InsertInto_batch [OF assms(4), of ucmp s m] m' old new lookup_spec_before [OF lt]
      lookup_spec_batch [OF lt] assms(2)
    by (auto split: option.splits)
qed

theorem batch_insert_atomic_witness:
  "\<exists>m. WriteBatch_InsertInto slice_compare (WriteBatch_SetSequence (batch_of [UPut [1] [2], UDelete [1]]) 5) mkMemTable
     = Some (OK, m) \<and> MemTable_Get slice_compare (mkLookupKey [1] 6) m = Some Deleted"
  using batch_insert_atomic [where ops = "[]" and us = "[UPut [1] [2], UDelete [1]]" and s = 5 and key = "[1]",
      OF slice_order.comparator_axioms]
  by (fastforce simp: slice_compare_eq_0 kMaxSequenceNumber_eq)

text \<open>
  C26: Replaying arbitrary bytes, with a handler whose operations return, returns: either success,
  and then the header's count is the number of updates that were handled, or a corruption status
  after some updates.
\<close>

theorem batch_iterate_status:
  assumes "\<And>k v h. Handler_Put hn k v h \<noteq> None" "\<And>k h. Handler_Delete hn k h \<noteq> None"
  shows "\<exists>st us h'. WriteBatch_Iterate hn b h = Some (st, h') \<and> handle_all hn us h = Some h' \<and>
    (st = OK \<and> kHeader \<le> length b \<and> WriteBatch_Count b = of_nat (length us) \<or> IsCorruption st)"
proof (cases "length b < kHeader")
  case True
  then show ?thesis by (intro exI [of _ "Corruption _ _"] exI [of _ "[]"]) (simp add: WriteBatch_Iterate_def)
next
  case False
  obtain r us h' where r: "iterate_loop hn 0 (drop kHeader b) h = Some (r, h')" "handle_all hn us h = Some h'"
    "case r of Inl st \<Rightarrow> IsCorruption st | Inr n \<Rightarrow> n = 0 + of_nat (length us)"
    using iterate_loop_any [OF assms, of 0 h "drop kHeader b"] unfolding handled_def by blast
  show ?thesis
  proof (cases r)
    case (Inl st)
    then show ?thesis
      using r False by (intro exI [of _ st] exI [of _ us]) (simp add: WriteBatch_Iterate_def)
  next
    case (Inr n)
    then show ?thesis
      using r False
      by (intro exI [of _ "if n \<noteq> WriteBatch_Count b then Corruption (lit ''WriteBatch has wrong count'') [] else OK"]
          exI [of _ us]) (auto simp add: WriteBatch_Iterate_def)
  qed
qed

theorem batch_iterate_status_witness:
  "\<exists>st n. WriteBatch_Iterate \<lparr>Handler_Put = \<lambda>k v n. Some (n + 1), Handler_Delete = \<lambda>k n. Some (n + 1)\<rparr>
     [1, 2, 3] (0 :: nat) = Some (st, n) \<and> IsCorruption st"
  using batch_iterate_status [where hn = "\<lparr>Handler_Put = \<lambda>k v n. Some (n + 1), Handler_Delete = \<lambda>k n. Some (n + 1)\<rparr>"
      and b = "[1, 2, 3]" and h = "0 :: nat"]
  by (auto simp: kHeader_def)

text \<open>
  \<open>Append\<close> concatenates batches: the result is the batch that had both lists of updates put
  into it.
\<close>

theorem batch_append: "WriteBatch_Append (batch_of us) (batch_of vs) = batch_of (us @ vs)"
  by (simp add: WriteBatch_Append_def batch_of_rep batch_rep_simps kHeader_def)
     (simp add: batch_rep_def)

end
