(* ===== verification/LdbFile.thy ===== *)
theory LdbFile
  imports LdbStatus
begin

text \<open>
  The file classes of \<^verbatim>\<open>util/env_posix.cc\<close>. A \<open>FILE*\<close> of the C library is a record with the
  contents, the position, the end-of-file flag and, to have the error paths, a \<open>fault\<close>: \<open>Some k\<close>
  makes the device fail after \<open>k\<close> more bytes. The text that \<open>strerror(errno)\<close> gives is a field too.

  The locales \<open>sequential_file\<close> and \<open>writable_file\<close> are what the clients (the log) use of
  \<^verbatim>\<open>include/leveldb/env.h\<close> while no fault occurs; they are interpreted on the POSIX classes.
\<close>

subsection \<open>Streams of the C library\<close>

record FILE =
  fdata :: bytes
  fpos :: nat
  feof :: bool
  fault :: "nat option"
  strerror :: bytes

definition fread :: "nat \<Rightarrow> FILE \<Rightarrow> bytes \<times> FILE" where
  "fread n f =
     (let want = take n (drop (fpos f) (fdata f));
          got = (case fault f of None \<Rightarrow> want | Some k \<Rightarrow> take k want)
      in (got, f\<lparr>fpos := fpos f + length got,
                 feof := (feof f \<or> length got = length want \<and> length want < n),
                 fault := map_option (\<lambda>k. k - length got) (fault f)\<rparr>))"

definition fwrite :: "bytes \<Rightarrow> FILE \<Rightarrow> nat \<times> FILE" where
  "fwrite bs f =
     (let put = (case fault f of None \<Rightarrow> bs | Some k \<Rightarrow> take k bs)
      in (length put, f\<lparr>fdata := fdata f @ put, fault := map_option (\<lambda>k. k - length put) (fault f)\<rparr>))"

definition fflush :: "FILE \<Rightarrow> int" where
  "fflush f = (if fault f = Some 0 then - 1 else 0)"

definition fseek_cur :: "u64 \<Rightarrow> FILE \<Rightarrow> int \<times> FILE" where
  "fseek_cur n f =
     (if fault f = Some 0 then (- 1, f) else (0, f\<lparr>fpos := fpos f + unat n, feof := False\<rparr>))"

definition fclose :: "FILE \<Rightarrow> int" where
  "fclose f = (if fault f = Some 0 then - 1 else 0)"

subsection \<open>Sequential and writable files\<close>

definition posix_IOError :: "bytes \<Rightarrow> FILE \<Rightarrow> Status" where
  "posix_IOError context f = IOError context (strerror f)"

record PosixFile =
  pfilename :: bytes
  pfile :: FILE

definition PosixSequentialFile_Read :: "nat \<Rightarrow> PosixFile \<Rightarrow> Status \<times> bytes \<times> PosixFile" where
  "PosixSequentialFile_Read n pf =
     (let (result, f) = fread n (pfile pf);
          s = (if length result < n
               then if feof f then OK else posix_IOError (pfilename pf) f
               else OK)
      in (s, result, pf\<lparr>pfile := f\<rparr>))"

definition PosixSequentialFile_Skip :: "u64 \<Rightarrow> PosixFile \<Rightarrow> Status \<times> PosixFile" where
  "PosixSequentialFile_Skip n pf =
     (let (r, f) = fseek_cur n (pfile pf)
      in if r \<noteq> 0 then (posix_IOError (pfilename pf) f, pf\<lparr>pfile := f\<rparr>) else (OK, pf\<lparr>pfile := f\<rparr>))"

definition PosixWritableFile_Append :: "bytes \<Rightarrow> PosixFile \<Rightarrow> Status \<times> PosixFile" where
  "PosixWritableFile_Append data pf =
     (let (r, f) = fwrite data (pfile pf)
      in if r \<noteq> length data then (posix_IOError (pfilename pf) f, pf\<lparr>pfile := f\<rparr>) else (OK, pf\<lparr>pfile := f\<rparr>))"

definition PosixWritableFile_Flush :: "PosixFile \<Rightarrow> Status \<times> PosixFile" where
  "PosixWritableFile_Flush pf =
     (if fflush (pfile pf) \<noteq> 0 then (posix_IOError (pfilename pf) (pfile pf), pf) else (OK, pf))"

text \<open>\<open>Close\<close> returns the status; the object has no file afterwards.\<close>

definition PosixWritableFile_Close :: "PosixFile \<Rightarrow> Status" where
  "PosixWritableFile_Close pf =
     (if fclose (pfile pf) \<noteq> 0 then posix_IOError (pfilename pf) (pfile pf) else OK)"

subsection \<open>Random access files\<close>

text \<open>
  A read gives the status, the bytes of the slice and whether the slice is the caller's buffer.
  \<open>None\<close> stands for a slice outside the mapped region. A file of the operating system is its
  contents and whether \<^verbatim>\<open>open\<close> and \<^verbatim>\<open>pread\<close> fail on it; a negative \<^verbatim>\<open>off_t\<close> is an error too.
\<close>

record OsFile =
  os_data :: bytes
  os_open_fails :: bool
  os_read_fails :: bool
  os_strerror :: bytes

definition pread :: "OsFile \<Rightarrow> u64 \<Rightarrow> u64 \<Rightarrow> bytes option" where
  "pread fd n offset =
     (if os_read_fails fd \<or> sint offset < 0 then None else Some (take (unat n) (drop (unat offset) (os_data fd))))"

record PosixRandomAccessFile =
  ra_filename :: bytes
  ra_temporary_fd :: bool
  ra_fd :: OsFile

definition PosixRandomAccessFile_Read ::
  "PosixRandomAccessFile \<Rightarrow> u64 \<Rightarrow> u64 \<Rightarrow> (Status \<times> bytes \<times> bool) option" where
  "PosixRandomAccessFile_Read rf offset n =
     (if ra_temporary_fd rf \<and> os_open_fails (ra_fd rf) then Some (IOError (ra_filename rf) (os_strerror (ra_fd rf)), [], True)
      else
        case pread (ra_fd rf) n offset of
          None \<Rightarrow> Some (IOError (ra_filename rf) (os_strerror (ra_fd rf)), [], True)
        | Some r \<Rightarrow> Some (OK, r, True))"

record PosixMmapReadableFile =
  mmap_filename :: bytes
  mmapped_region :: bytes

text \<open>\<open>offset + n\<close> is a 64-bit sum; \<open>EINVAL\<close> is the text of that error.\<close>

definition PosixMmapReadableFile_Read ::
  "bytes \<Rightarrow> PosixMmapReadableFile \<Rightarrow> u64 \<Rightarrow> u64 \<Rightarrow> (Status \<times> bytes \<times> bool) option" where
  "PosixMmapReadableFile_Read EINVAL mf offset n =
     (if offset + n > of_nat (length (mmapped_region mf))
      then Some (IOError (mmap_filename mf) EINVAL, [], False)
      else if length (mmapped_region mf) < unat offset + unat n then None
      else Some (OK, take (unat n) (drop (unat offset) (mmapped_region mf)), False))"

subsection \<open>Limits and locks\<close>

text \<open>\<open>allowed_\<close> of a \<open>Limiter\<close>.\<close>

definition Limiter_Acquire :: "int \<Rightarrow> bool \<times> int" where
  "Limiter_Acquire allowed = (if allowed \<le> 0 then (False, allowed) else (True, allowed - 1))"

definition Limiter_Release :: "int \<Rightarrow> int" where
  "Limiter_Release allowed = allowed + 1"

definition PosixLockTable_Insert :: "bytes \<Rightarrow> bytes set \<Rightarrow> bool \<times> bytes set" where
  "PosixLockTable_Insert fname locked = (fname \<notin> locked, insert fname locked)"

definition PosixLockTable_Remove :: "bytes \<Rightarrow> bytes set \<Rightarrow> bytes set" where
  "PosixLockTable_Remove fname locked = locked - {fname}"

subsection \<open>The interfaces\<close>

locale sequential_file =
  fixes Read :: "nat \<Rightarrow> 'f \<Rightarrow> Status \<times> bytes \<times> 'f" and rest :: "'f \<Rightarrow> bytes" and good :: "'f \<Rightarrow> bool"
  assumes Read_ok: "good f \<Longrightarrow> \<exists>f'. Read n f = (OK, take n (rest f), f') \<and> rest f' = drop n (rest f) \<and> good f'"
begin

lemma ReadE:
  assumes "good f"
  obtains f' where "Read n f = (OK, take n (rest f), f')" "rest f' = drop n (rest f)" "good f'"
  using Read_ok [OF assms] by blast

end

locale writable_file =
  fixes Append :: "bytes \<Rightarrow> 'f \<Rightarrow> Status \<times> 'f" and Flush :: "'f \<Rightarrow> Status \<times> 'f"
    and written :: "'f \<Rightarrow> bytes" and fine :: "'f \<Rightarrow> bool"
  assumes Append_ok: "fine f \<Longrightarrow> \<exists>f'. Append bs f = (OK, f') \<and> written f' = written f @ bs \<and> fine f'"
    and Flush_ok: "fine f \<Longrightarrow> \<exists>f'. Flush f = (OK, f') \<and> written f' = written f \<and> fine f'"
begin

lemma AppendE:
  assumes "fine f"
  obtains f' where "Append bs f = (OK, f')" "written f' = written f @ bs" "fine f'"
  using Append_ok [OF assms] by blast

lemma FlushE:
  assumes "fine f"
  obtains f' where "Flush f = (OK, f')" "written f' = written f" "fine f'"
  using Flush_ok [OF assms] by blast

end

text \<open>What tables rely on: a range inside the file is read in full.\<close>

locale random_access_file =
  fixes Read :: "u64 \<Rightarrow> u64 \<Rightarrow> (Status \<times> bytes \<times> bool) option" and cont :: bytes
  assumes Read_range: "length cont < 2 ^ 63 \<Longrightarrow> unat offset + unat n \<le> length cont \<Longrightarrow>
    \<exists>own. Read offset n = Some (OK, take (unat n) (drop (unat offset) cont), own)"

definition posix_rest :: "PosixFile \<Rightarrow> bytes" where
  "posix_rest pf = drop (fpos (pfile pf)) (fdata (pfile pf))"

definition posix_good :: "PosixFile \<Rightarrow> bool" where
  "posix_good pf \<longleftrightarrow> fault (pfile pf) = None"

definition posix_written :: "PosixFile \<Rightarrow> bytes" where
  "posix_written pf = fdata (pfile pf)"

interpretation posix_sequential: sequential_file PosixSequentialFile_Read posix_rest posix_good
proof
  fix n and pf :: PosixFile assume "posix_good pf"
  then show "\<exists>pf'. PosixSequentialFile_Read n pf = (OK, take n (posix_rest pf), pf') \<and>
      posix_rest pf' = drop n (posix_rest pf) \<and> posix_good pf'"
    by (cases "length (fdata (pfile pf)) - fpos (pfile pf) < n")
       (auto simp: PosixSequentialFile_Read_def fread_def posix_rest_def posix_good_def Let_def add.commute)
qed

interpretation posix_writable: writable_file PosixWritableFile_Append PosixWritableFile_Flush posix_written posix_good
  by standard
     (simp_all add: PosixWritableFile_Append_def PosixWritableFile_Flush_def fwrite_def fflush_def posix_written_def
       posix_good_def)

lemma sum_in_range:
  "(l :: nat) < 2 ^ 63 \<Longrightarrow> unat (offset :: u64) + unat (n :: u64) \<le> l \<Longrightarrow> \<not> offset + n > of_nat l"
  by (simp add: word_less_nat_alt unat_word_ariths unat_of_nat)

interpretation mmap_file: random_access_file "PosixMmapReadableFile_Read EINVAL mf" "mmapped_region mf"
  by standard (auto simp: PosixMmapReadableFile_Read_def sum_in_range)

definition healthy :: "PosixRandomAccessFile \<Rightarrow> bytes \<Rightarrow> bool" where
  "healthy rf cont \<longleftrightarrow> os_data (ra_fd rf) = cont \<and> \<not> os_open_fails (ra_fd rf) \<and> \<not> os_read_fails (ra_fd rf)"

lemma pread_file:
  assumes "healthy rf cont"
  shows "random_access_file (PosixRandomAccessFile_Read rf) cont"
proof
  fix offset n :: u64
  assume "length cont < 2 ^ 63" "unat offset + unat n \<le> length cont"
  then have "unat offset < 2 ^ 63" by simp
  then have "int (unat offset) < int (2 ^ 63)" by (simp only: of_nat_less_iff)
  then have "uint offset < 2 ^ 63" by simp
  then have "\<not> bit (uint offset) 63" by (simp add: bit_iff_odd)
  then have "\<not> sint offset < 0" by (simp add: sint_uint not_less)
  then show "\<exists>own. PosixRandomAccessFile_Read rf offset n = Some (OK, take (unat n) (drop (unat offset) cont), own)"
    using assms by (intro exI [of _ True]) (simp add: PosixRandomAccessFile_Read_def pread_def healthy_def)
qed

subsection \<open>Error paths\<close>

text \<open>A short read is either the end of the file or an error status; nothing is invented.\<close>

lemma Read_eq:
  assumes "\<not> feof (pfile pf)" "got = (case fault (pfile pf) of None \<Rightarrow> take n (posix_rest pf) | Some k \<Rightarrow> take k (take n (posix_rest pf)))"
  shows "\<exists>pf'. PosixSequentialFile_Read n pf =
      (if length got < n \<and> length got \<noteq> length (take n (posix_rest pf)) then posix_IOError (pfilename pf) (pfile pf) else OK,
       got, pf') \<and> posix_rest pf' = drop (length got) (posix_rest pf)"
proof (cases "fault (pfile pf)")
  case None
  then show ?thesis
    using assms by (auto simp: PosixSequentialFile_Read_def fread_def posix_rest_def Let_def posix_IOError_def add.commute)
next
  case (Some k)
  then show ?thesis
    using assms
    by (cases "k = n") (simp_all add: PosixSequentialFile_Read_def fread_def posix_rest_def Let_def posix_IOError_def add.commute)
qed

lemma Read_status:
  assumes "PosixSequentialFile_Read n pf = (s, bs, pf')" "\<not> feof (pfile pf)"
  shows "bs = take (length bs) (posix_rest pf) \<and> posix_rest pf' = drop (length bs) (posix_rest pf) \<and>
    (status_ok s \<longleftrightarrow> bs = take n (posix_rest pf)) \<and> (\<not> status_ok s \<longrightarrow> IsIOError s)"
proof -
  let ?r = "posix_rest pf"
  define got where "got = (case fault (pfile pf) of None \<Rightarrow> take n ?r | Some k \<Rightarrow> take k (take n ?r))"
  have s: "s = (if length got < n \<and> length got \<noteq> length (take n ?r) then posix_IOError (pfilename pf) (pfile pf) else OK)"
    "bs = got" "posix_rest pf' = drop (length got) ?r"
    using Read_eq [OF assms(2) got_def] assms(1) by auto
  obtain k where k: "got = take k ?r" "k \<le> n"
  proof (cases "fault (pfile pf)")
    case None
    then show ?thesis using that [of n] by (simp add: got_def)
  next
    case (Some k)
    then show ?thesis using that [of "min k n"] by (simp add: got_def)
  qed
  have p: "got = take (length got) ?r" using k(1) by (simp add: min_def)
  have l: "got = take n ?r \<longleftrightarrow> length got = length (take n ?r)"
  proof
    assume "length got = length (take n ?r)"
    then have "length (take k ?r) = length (take n ?r)" using k(1) by simp
    then have "k = n \<or> length ?r \<le> k \<and> length ?r \<le> n" using k(2) by (auto simp: min_def split: if_splits)
    then show "got = take n ?r" using k(1) by auto
  qed simp
  have "length got \<noteq> length (take n ?r) \<Longrightarrow> length got < n" using k by (auto simp: min_def split: if_splits)
  then show ?thesis
    using p l unfolding s by (auto simp: posix_IOError_def)
qed

end
