(* ===== verification/LdbLog.thy ===== *)
theory LdbLog
  imports LdbFile LdbCrc
begin

text \<open>
  \<^verbatim>\<open>db/log_format.h\<close>, \<^verbatim>\<open>db/log_writer.cc\<close> and \<^verbatim>\<open>db/log_reader.cc\<close>: the write-ahead log. Records are
  cut into fragments that do not cross the 32 KiB blocks of the file; every fragment has a header
  with a masked checksum, a length and a type. The operations take the calls on the file as
  arguments; addresses of buffers are kept because \<open>crc32c::Extend\<close> looks at them.
\<close>

subsection \<open>Format\<close>

datatype RecordType = kZeroType | kFullType | kFirstType | kMiddleType | kLastType

fun record_code :: "RecordType \<Rightarrow> u32" where
  "record_code kZeroType = 0"
| "record_code kFullType = 1"
| "record_code kFirstType = 2"
| "record_code kMiddleType = 3"
| "record_code kLastType = 4"

definition kMaxRecordType :: nat where
  "kMaxRecordType = 4"

definition kBlockSize :: nat where
  "kBlockSize = 32768"

definition kHeaderSize :: nat where
  "kHeaderSize = 4 + 2 + 1"

subsection \<open>The writer\<close>

record 'f log_writer =
  wdest :: 'f
  block_offset :: nat
  type_crc :: "u32 list"

text \<open>\<open>a\<close> is the address of the local variable \<open>t\<close>.\<close>

definition InitTypeCrc :: "addr \<Rightarrow> u32 list" where
  "InitTypeCrc a = map (\<lambda>i. crc_value a [of_nat i]) [0..<kMaxRecordType + 1]"

definition mkWriter :: "addr \<Rightarrow> 'f \<Rightarrow> 'f log_writer" where
  "mkWriter a f = \<lparr>wdest = f, block_offset = 0, type_crc = InitTypeCrc a\<rparr>"

definition mkWriter_at :: "addr \<Rightarrow> 'f \<Rightarrow> u64 \<Rightarrow> 'f log_writer" where
  "mkWriter_at a f dest_length =
     \<lparr>wdest = f, block_offset = unat (dest_length mod of_nat kBlockSize), type_crc = InitTypeCrc a\<rparr>"

definition EmitPhysicalRecord ::
  "(bytes \<Rightarrow> 'f \<Rightarrow> Status \<times> 'f) \<Rightarrow> ('f \<Rightarrow> Status \<times> 'f) \<Rightarrow> RecordType \<Rightarrow> addr \<Rightarrow> bytes \<Rightarrow>
   'f log_writer \<Rightarrow> Status \<times> 'f log_writer" where
  "EmitPhysicalRecord Append Flush t a ptr w =
     (let n = length ptr;
          crc = Mask (Extend a (type_crc w ! unat (record_code t)) ptr);
          buf = EncodeFixed32 crc @ [of_nat (n mod 256), of_nat (n div 256), ucast (record_code t)];
          (s, f) = Append buf (wdest w);
          (s, f) = (if status_ok s
                    then
                      let (s, f) = Append ptr f
                      in if status_ok s then Flush f else (s, f)
                    else (s, f))
      in (s, w\<lparr>wdest := f, block_offset := block_offset w + (kHeaderSize + n)\<rparr>))"

text \<open>The start of a round of \<open>AddRecord\<close>: switch to a new block if no header fits.\<close>

definition switch_block :: "(bytes \<Rightarrow> 'f \<Rightarrow> Status \<times> 'f) \<Rightarrow> 'f log_writer \<Rightarrow> 'f log_writer" where
  "switch_block Append w =
     (let leftover = int kBlockSize - int (block_offset w)
      in if leftover < int kHeaderSize
         then w\<lparr>wdest := (if leftover > 0 then snd (Append (replicate (nat leftover) 0) (wdest w)) else wdest w),
                block_offset := 0\<rparr>
         else w)"

definition fragment_length :: "nat \<Rightarrow> 'f log_writer \<Rightarrow> nat" where
  "fragment_length left w =
     (let avail = kBlockSize - block_offset w - kHeaderSize in if left < avail then left else avail)"

definition fragment_type :: "bool \<Rightarrow> bool \<Rightarrow> RecordType" where
  "fragment_type first_frag last_frag =
     (if first_frag \<and> last_frag then kFullType else if first_frag then kFirstType else if last_frag then kLastType else kMiddleType)"

lemma offset_Emit [simp]:
  "block_offset (snd (EmitPhysicalRecord Append Flush t a ptr w)) = block_offset w + (kHeaderSize + length ptr)"
  "type_crc (snd (EmitPhysicalRecord Append Flush t a ptr w)) = type_crc w"
  by (simp_all add: EmitPhysicalRecord_def Let_def case_prod_unfold)

lemma offset_switch: "block_offset (switch_block Append w) \<le> kBlockSize - kHeaderSize"
  by (auto simp: switch_block_def Let_def kBlockSize_def kHeaderSize_def)

function add_loop ::
  "(bytes \<Rightarrow> 'f \<Rightarrow> Status \<times> 'f) \<Rightarrow> ('f \<Rightarrow> Status \<times> 'f) \<Rightarrow> bool \<Rightarrow> addr \<Rightarrow> bytes \<Rightarrow>
   'f log_writer \<Rightarrow> Status \<times> 'f log_writer" where
  "add_loop Append Flush first_frag a ptr w =
     (let w = switch_block Append w;
          n = fragment_length (length ptr) w;
          r = EmitPhysicalRecord Append Flush (fragment_type first_frag (length ptr = n)) a (take n ptr) w
      in if status_ok (fst r) \<and> drop n ptr \<noteq> []
         then add_loop Append Flush False (a + of_nat n) (drop n ptr) (snd r)
         else r)"
  by pat_completeness auto
termination
proof (relation "measure (\<lambda>(Append, Flush, first_frag, a, ptr, w).
    2 * length ptr + (if block_offset w = kBlockSize - kHeaderSize then 1 else 0))")
  fix Append :: "bytes \<Rightarrow> 'f \<Rightarrow> Status \<times> 'f" and Flush first_frag a ptr and w :: "'f log_writer" and w' n r
  assume w': "w' = switch_block Append w" and n: "n = fragment_length (length ptr) w'"
    and r: "r = EmitPhysicalRecord Append Flush (fragment_type first_frag (length ptr = n)) a (take n ptr) w'"
    and "status_ok (fst r) \<and> drop n ptr \<noteq> []"
  then have "n < length ptr" by simp
  then have "n = kBlockSize - block_offset w' - kHeaderSize" using n by (auto simp: fragment_length_def Let_def split: if_splits)
  moreover have "block_offset w' = kBlockSize - kHeaderSize \<longrightarrow> block_offset w = kBlockSize - kHeaderSize"
    by (auto simp: w' switch_block_def Let_def kBlockSize_def kHeaderSize_def)
  ultimately show "((Append, Flush, False, a + of_nat n, drop n ptr, snd r), (Append, Flush, first_frag, a, ptr, w))
      \<in> measure (\<lambda>(Append, Flush, first_frag, a, ptr, w).
        2 * length ptr + (if block_offset w = kBlockSize - kHeaderSize then 1 else 0))"
    using offset_switch [of Append w] \<open>n < length ptr\<close>
    by (auto simp: r w' [symmetric] kBlockSize_def kHeaderSize_def)
qed simp

declare add_loop.simps [simp del]

text \<open>\<open>a\<close> is the address of the record's data.\<close>

definition AddRecord ::
  "(bytes \<Rightarrow> 'f \<Rightarrow> Status \<times> 'f) \<Rightarrow> ('f \<Rightarrow> Status \<times> 'f) \<Rightarrow> addr \<Rightarrow> bytes \<Rightarrow> 'f log_writer \<Rightarrow>
   Status \<times> 'f log_writer" where
  "AddRecord Append Flush a record w = add_loop Append Flush True a record w"

subsection \<open>The reader\<close>

record 'f log_reader =
  rfile :: 'f
  has_reporter :: bool
  checksum :: bool
  backing_store :: addr
  buffer_data :: addr
  buffer :: bytes
  eof :: bool
  last_record_offset :: u64
  end_of_buffer_offset :: u64
  initial_offset :: u64
  resyncing :: bool
  reports :: "(u64 \<times> Status) list"

definition mkReader :: "'f \<Rightarrow> bool \<Rightarrow> bool \<Rightarrow> u64 \<Rightarrow> addr \<Rightarrow> 'f log_reader" where
  "mkReader f reporter chk offset store =
     \<lparr>rfile = f, has_reporter = reporter, checksum = chk, backing_store = store, buffer_data = 0, buffer = [],
      eof = False, last_record_offset = 0, end_of_buffer_offset = 0, initial_offset = offset,
      resyncing = (offset > 0), reports = []\<rparr>"

text \<open>The calls of the reporter are collected in \<open>reports\<close>.\<close>

definition ReportDrop :: "u64 \<Rightarrow> Status \<Rightarrow> 'f log_reader \<Rightarrow> 'f log_reader" where
  "ReportDrop bs reason r =
     (if has_reporter r \<and> end_of_buffer_offset r - of_nat (length (buffer r)) - bs \<ge> initial_offset r
      then r\<lparr>reports := reports r @ [(bs, reason)]\<rparr> else r)"

definition ReportCorruption :: "u64 \<Rightarrow> bytes \<Rightarrow> 'f log_reader \<Rightarrow> 'f log_reader" where
  "ReportCorruption bs reason r = ReportDrop bs (Corruption reason []) r"

definition kEof :: u32 where
  "kEof = of_nat kMaxRecordType + 1"

definition kBadRecord :: u32 where
  "kBadRecord = of_nat kMaxRecordType + 2"

definition SkipToInitialBlock :: "(u64 \<Rightarrow> 'f \<Rightarrow> Status \<times> 'f) \<Rightarrow> 'f log_reader \<Rightarrow> bool \<times> 'f log_reader" where
  "SkipToInitialBlock Skip r =
     (let offset_in_block = initial_offset r mod of_nat kBlockSize;
          block_start_location = initial_offset r - offset_in_block;
          block_start_location =
            (if offset_in_block > of_nat kBlockSize - 6 then block_start_location + of_nat kBlockSize
             else block_start_location);
          r = r\<lparr>end_of_buffer_offset := block_start_location\<rparr>
      in if block_start_location > 0
         then
           let (skip_status, f) = Skip block_start_location (rfile r);
               r = r\<lparr>rfile := f\<rparr>
           in if \<not> status_ok skip_status then (False, ReportDrop block_start_location skip_status r)
              else (True, r)
         else (True, r))"

text \<open>The read of a block in \<open>ReadPhysicalRecord\<close>: a type to return, or \<open>None\<close> to continue.\<close>

definition refill :: "(nat \<Rightarrow> 'f \<Rightarrow> Status \<times> bytes \<times> 'f) \<Rightarrow> 'f log_reader \<Rightarrow> u32 option \<times> 'f log_reader" where
  "refill Read r =
     (let (status, buf, f) = Read kBlockSize (rfile r);
          r = r\<lparr>rfile := f, buffer := buf, buffer_data := backing_store r,
                end_of_buffer_offset := end_of_buffer_offset r + of_nat (length buf)\<rparr>
      in if \<not> status_ok status
         then (Some kEof, (ReportDrop (of_nat kBlockSize) status (r\<lparr>buffer := []\<rparr>))\<lparr>eof := True\<rparr>)
         else (None, if length buf < kBlockSize then r\<lparr>eof := True\<rparr> else r))"

text \<open>The parsing of the record at the start of the buffer; \<open>result\<close> is the caller's slice.\<close>

definition parse_record :: "bytes \<Rightarrow> 'f log_reader \<Rightarrow> u32 \<times> bytes \<times> 'f log_reader" where
  "parse_record result r =
     (let header = buffer r;
          a = ucast (header ! 4) AND 0xff :: u32;
          b = ucast (header ! 5) AND 0xff :: u32;
          type = scast (header ! 6) :: u32;
          len = a OR push_bit 8 b
      in if kHeaderSize + unat len > length (buffer r)
         then
           let drop_size = of_nat (length (buffer r)); r = r\<lparr>buffer := []\<rparr>
           in if \<not> eof r then (kBadRecord, result, ReportCorruption drop_size (lit ''bad record length'') r)
              else (kEof, result, r)
         else if type = record_code kZeroType \<and> len = 0 then (kBadRecord, result, r\<lparr>buffer := []\<rparr>)
         else
           let expected_crc = Unmask (DecodeFixed32 header);
               actual_crc = crc_value (buffer_data r + 6) (take (1 + unat len) (drop 6 header))
           in if checksum r \<and> actual_crc \<noteq> expected_crc
              then
                let drop_size = of_nat (length (buffer r)); r = r\<lparr>buffer := []\<rparr>
                in (kBadRecord, result, ReportCorruption drop_size (lit ''checksum mismatch'') r)
              else
                let r = r\<lparr>buffer := drop (kHeaderSize + unat len) (buffer r),
                          buffer_data := buffer_data r + of_nat (kHeaderSize + unat len)\<rparr>
                in if end_of_buffer_offset r - of_nat (length (buffer r)) - of_nat kHeaderSize - ucast len
                      < initial_offset r
                   then (kBadRecord, [], r)
                   else (type, take (unat len) (drop kHeaderSize header), r))"

lemma refill_progress: "refill Read r = (None, r') \<Longrightarrow> eof r' \<or> kHeaderSize \<le> length (buffer r')"
  by (auto simp: refill_def Let_def case_prod_unfold kHeaderSize_def kBlockSize_def split: if_splits)

function ReadPhysicalRecord ::
  "(nat \<Rightarrow> 'f \<Rightarrow> Status \<times> bytes \<times> 'f) \<Rightarrow> bytes \<Rightarrow> 'f log_reader \<Rightarrow> u32 \<times> bytes \<times> 'f log_reader" where
  "ReadPhysicalRecord Read result r =
     (if length (buffer r) < kHeaderSize
      then
        if \<not> eof r
        then
          (case refill Read r of
             (Some type, r) \<Rightarrow> (type, result, r)
           | (None, r) \<Rightarrow> ReadPhysicalRecord Read result r)
        else (kEof, result, r\<lparr>buffer := []\<rparr>)
      else parse_record result r)"
  by pat_completeness auto
termination
  by (relation "measure (\<lambda>(Read, result, r). if length (buffer r) < kHeaderSize \<and> \<not> eof r then 1 else 0)")
     (auto dest!: refill_progress [OF sym])

declare ReadPhysicalRecord.simps [simp del]

text \<open>
  One round of the loop of \<open>ReadRecord\<close>: \<open>Inl\<close> returns the status, the record and the reader,
  \<open>Inr\<close> continues with \<open>*scratch\<close>, \<open>in_fragmented_record\<close>, \<open>prospective_record_offset\<close>,
  \<open>fragment\<close> and the reader.
\<close>

type_synonym 'f read_state = "bytes \<times> bool \<times> u64 \<times> bytes \<times> 'f log_reader"

definition handle_record ::
  "u32 \<Rightarrow> 'f read_state \<Rightarrow> (bool \<times> bytes \<times> 'f log_reader) + 'f read_state" where
  "handle_record record_type st =
     (case st of (scratch, in_frag, prospective, fragment, r) \<Rightarrow>
        let physical = end_of_buffer_offset r - of_nat (length (buffer r)) - of_nat kHeaderSize
                         - of_nat (length fragment)
        in if record_type = record_code kFullType
           then
             let r = (if in_frag \<and> scratch \<noteq> []
                      then ReportCorruption (of_nat (length scratch)) (lit ''partial record without end(1)'') r
                      else r)
             in Inl (True, fragment, r\<lparr>last_record_offset := physical\<rparr>)
           else if record_type = record_code kFirstType
           then
             let r = (if in_frag \<and> scratch \<noteq> []
                      then ReportCorruption (of_nat (length scratch)) (lit ''partial record without end(2)'') r
                      else r)
             in Inr (fragment, True, physical, fragment, r)
           else if record_type = record_code kMiddleType
           then
             if \<not> in_frag
             then Inr (scratch, in_frag, prospective, fragment,
                       ReportCorruption (of_nat (length fragment)) (lit ''missing start of fragmented record(1)'') r)
             else Inr (scratch @ fragment, in_frag, prospective, fragment, r)
           else if record_type = record_code kLastType
           then
             if \<not> in_frag
             then Inr (scratch, in_frag, prospective, fragment,
                       ReportCorruption (of_nat (length fragment)) (lit ''missing start of fragmented record(2)'') r)
             else Inl (True, scratch @ fragment, r\<lparr>last_record_offset := prospective\<rparr>)
           else if record_type = kEof then Inl (False, [], r)
           else if record_type = kBadRecord
           then
             if in_frag
             then Inr ([], False, prospective, fragment,
                       ReportCorruption (of_nat (length scratch)) (lit ''error in middle of record'') r)
             else Inr (scratch, in_frag, prospective, fragment, r)
           else
             Inr ([], False, prospective, fragment,
                  ReportCorruption (of_nat (length fragment + (if in_frag then length scratch else 0)))
                    (snprintf 40 (lit ''unknown record type '' @ decimal (unat record_type))) r))"

definition read_step ::
  "(nat \<Rightarrow> 'f \<Rightarrow> Status \<times> bytes \<times> 'f) \<Rightarrow> 'f read_state \<Rightarrow> (bool \<times> bytes \<times> 'f log_reader) + 'f read_state" where
  "read_step Read st =
     (case st of (scratch, in_frag, prospective, fragment, r) \<Rightarrow>
        let (record_type, fragment, r) = ReadPhysicalRecord Read fragment r
        in if resyncing r \<and> record_type = record_code kMiddleType
           then Inr (scratch, in_frag, prospective, fragment, r)
           else if resyncing r \<and> record_type = record_code kLastType
           then Inr (scratch, in_frag, prospective, fragment, r\<lparr>resyncing := False\<rparr>)
           else handle_record record_type (scratch, in_frag, prospective, fragment, r\<lparr>resyncing := False\<rparr>))"

text \<open>The loop itself ends when \<open>read_step\<close> returns; on an endless file it may not.\<close>

partial_function (option) read_loop ::
  "(nat \<Rightarrow> 'f \<Rightarrow> Status \<times> bytes \<times> 'f) \<Rightarrow> 'f read_state \<Rightarrow> (bool \<times> bytes \<times> 'f log_reader) option" where
  "read_loop Read st = (case read_step Read st of Inl res \<Rightarrow> Some res | Inr st' \<Rightarrow> read_loop Read st')"

text \<open>If the skip fails the caller's record is left alone; the model returns an empty one.\<close>

definition ReadRecord ::
  "(nat \<Rightarrow> 'f \<Rightarrow> Status \<times> bytes \<times> 'f) \<Rightarrow> (u64 \<Rightarrow> 'f \<Rightarrow> Status \<times> 'f) \<Rightarrow> 'f log_reader \<Rightarrow>
   (bool \<times> bytes \<times> 'f log_reader) option" where
  "ReadRecord Read Skip r =
     (let (go, r) = (if last_record_offset r < initial_offset r then SkipToInitialBlock Skip r else (True, r))
      in if \<not> go then Some (False, [], r) else read_loop Read ([], False, 0, [], r))"

definition LastRecordOffset :: "'f log_reader \<Rightarrow> u64" where
  "LastRecordOffset r = last_record_offset r"

end
