(* ===== verification/LdbLogProof.thy ===== *)
theory LdbLogProof
  imports LdbLog
begin

text \<open>
  What the log promises. The inductive predicate \<open>log_record\<close> describes the bytes of a record from a
  block offset on; \<open>AddRecord\<close> writes such bytes, and the reader recovers the record from them, also
  when the file is cut off in the middle of a later record.
\<close>

subsection \<open>The format of a log\<close>

definition phys :: "RecordType \<Rightarrow> bytes \<Rightarrow> bytes" where
  "phys t p = EncodeFixed32 (Mask (crc_ref 0 (ucast (record_code t) # p))) @
     [of_nat (length p mod 256), of_nat (length p div 256), ucast (record_code t)] @ p"

definition pad :: "nat \<Rightarrow> bytes" where
  "pad off = (if kBlockSize < off + kHeaderSize then replicate (kBlockSize - off) 0 else [])"

definition start :: "nat \<Rightarrow> nat" where
  "start off = (if kBlockSize < off + kHeaderSize then 0 else off)"

inductive log_record :: "nat \<Rightarrow> bool \<Rightarrow> bytes \<Rightarrow> bytes \<Rightarrow> nat \<Rightarrow> bool" where
  last: "start off + kHeaderSize + length p \<le> kBlockSize \<Longrightarrow>
    log_record off fst_frag p (pad off @ phys (fragment_type fst_frag True) p) (start off + kHeaderSize + length p)"
| more: "start off + kHeaderSize + length q = kBlockSize \<Longrightarrow> log_record kBlockSize False p bs off' \<Longrightarrow>
    log_record off fst_frag (q @ p) (pad off @ phys (fragment_type fst_frag False) q @ bs) off'"

inductive log_records :: "nat \<Rightarrow> bytes list \<Rightarrow> bytes \<Rightarrow> nat \<Rightarrow> bool" where
  none: "log_records off [] [] off"
| some: "log_record off True p bs off' \<Longrightarrow> log_records off' ps bs' off'' \<Longrightarrow>
    log_records off (p # ps) (bs @ bs') off''"

lemma log_records_snoc:
  "log_records off ps bs off' \<Longrightarrow> log_record off' True p bs' off'' \<Longrightarrow> log_records off (ps @ [p]) (bs @ bs') off''"
proof (induction rule: log_records.induct)
  case (none off)
  then show ?case using log_records.some [OF _ log_records.none] by fastforce
next
  case (some off q bs off1 ps bs1 off2)
  then show ?case using log_records.some by fastforce
qed

lemma length_phys [simp]: "length (phys t p) = kHeaderSize + length p"
  by (simp add: phys_def kHeaderSize_def)

lemma start_le: "start off + kHeaderSize \<le> kBlockSize"
  by (simp add: start_def kHeaderSize_def kBlockSize_def)

lemma log_record_end: "log_record off b p bs off' \<Longrightarrow> off' \<le> kBlockSize"
  by (induction rule: log_record.induct) simp_all

subsection \<open>Writing\<close>

lemma type_crc_entry: "InitTypeCrc a ! unat (record_code t) = crc_ref 0 [ucast (record_code t)]"
  by (cases t) (simp_all add: InitTypeCrc_def kMaxRecordType_def crc_value_def Extend_ref upt_rec)

context writable_file
begin

lemma Emit_ok:
  assumes "fine (wdest w)" "type_crc w = InitTypeCrc a0"
  shows "\<exists>w'. EmitPhysicalRecord Append Flush t a p w = (OK, w') \<and> fine (wdest w') \<and>
    written (wdest w') = written (wdest w) @ phys t p \<and> type_crc w' = InitTypeCrc a0 \<and>
    block_offset w' = block_offset w + kHeaderSize + length p"
proof -
  let ?h = "EncodeFixed32 (Mask (Extend a (type_crc w ! unat (record_code t)) p)) @
    [of_nat (length p mod 256), of_nat (length p div 256), ucast (record_code t)]"
  have "?h @ p = phys t p"
    by (simp add: phys_def assms(2) type_crc_entry Extend_ref crc_ref_append)
  moreover obtain f1 where f1: "Append ?h (wdest w) = (OK, f1)" "written f1 = written (wdest w) @ ?h" "fine f1"
    using AppendE [OF assms(1)] .
  moreover obtain f2 where f2: "Append p f1 = (OK, f2)" "written f2 = written f1 @ p" "fine f2"
    using AppendE [OF f1(3)] .
  moreover obtain f3 where "Flush f2 = (OK, f3)" "written f3 = written f2" "fine f3"
    using FlushE [OF f2(3)] .
  ultimately show ?thesis
    using assms(2) by (simp add: EmitPhysicalRecord_def Let_def)
qed

lemma switch_ok:
  assumes "fine (wdest w)" "block_offset w \<le> kBlockSize"
  shows "fine (wdest (switch_block Append w)) \<and> type_crc (switch_block Append w) = type_crc w \<and>
    written (wdest (switch_block Append w)) = written (wdest w) @ pad (block_offset w) \<and>
    block_offset (switch_block Append w) = start (block_offset w)"
proof -
  obtain f where "Append (replicate (kBlockSize - block_offset w) 0) (wdest w) = (OK, f)"
    "written f = written (wdest w) @ replicate (kBlockSize - block_offset w) 0" "fine f"
    using AppendE [OF assms(1)] .
  then show ?thesis
    using assms
    by (auto simp: switch_block_def Let_def pad_def start_def nat_diff_distrib simp flip: of_nat_diff)
qed

lemma add_loop_ok:
  assumes "fine (wdest w)" "block_offset w \<le> kBlockSize" "type_crc w = InitTypeCrc a0"
  shows "\<exists>w' bs. add_loop Append Flush b a p w = (OK, w') \<and> fine (wdest w') \<and> type_crc w' = InitTypeCrc a0 \<and>
    block_offset w' \<le> kBlockSize \<and> written (wdest w') = written (wdest w) @ bs \<and>
    log_record (block_offset w) b p bs (block_offset w')"
  using assms
proof (induction "2 * length p + (if block_offset w = kBlockSize - kHeaderSize then 1 else 0)"
    arbitrary: b a p w rule: less_induct)
  case (less p w)
  let ?w = "switch_block Append w" and ?o = "start (block_offset w)"
  define n where "n = fragment_length (length p) ?w"
  have sw: "fine (wdest ?w)" "type_crc ?w = InitTypeCrc a0" "written (wdest ?w) = written (wdest w) @ pad (block_offset w)"
    "block_offset ?w = ?o"
    using switch_ok [OF less.prems(1,2)] less.prems(3) by simp_all
  then have n: "n = min (length p) (kBlockSize - ?o - kHeaderSize)"
    by (simp add: n_def fragment_length_def Let_def)
  let ?t = "fragment_type b (length p = n)"
  obtain w1 where w1: "EmitPhysicalRecord Append Flush ?t a (take n p) ?w = (OK, w1)" "fine (wdest w1)"
    "written (wdest w1) = written (wdest ?w) @ phys ?t (take n p)" "type_crc w1 = InitTypeCrc a0"
    "block_offset w1 = ?o + kHeaderSize + n"
    using Emit_ok [OF sw(1,2), of ?t a "take n p"] n sw(4) by auto
  have step: "add_loop Append Flush b a p w =
      (if drop n p \<noteq> [] then add_loop Append Flush False (a + of_nat n) (drop n p) w1 else (OK, w1))"
    unfolding add_loop.simps [of Append Flush b a p w] Let_def n_def [symmetric] w1(1) by simp
  show ?case
  proof (cases "drop n p = []")
    case True
    then have "n = length p" using n by simp
    then have l: "log_record (block_offset w) b p (pad (block_offset w) @ phys ?t p) (block_offset w1)"
      using log_record.last [of "block_offset w" p b] start_le [of "block_offset w"] n w1(5) by auto
    then show ?thesis
      using step True w1 sw(3) \<open>n = length p\<close> log_record_end [OF l] by auto
  next
    case False
    then have full: "?o + kHeaderSize + n = kBlockSize" "n < length p"
      using n start_le [of "block_offset w"] by (auto simp: min_def split: if_splits)
    have smaller: "2 * length (drop n p) + (if block_offset w1 = kBlockSize - kHeaderSize then 1 else 0) <
        2 * length p + (if block_offset w = kBlockSize - kHeaderSize then 1 else 0)"
      using full w1(5) by (auto simp: start_def kBlockSize_def kHeaderSize_def split: if_splits)
    have "block_offset w1 \<le> kBlockSize" using full w1(5) by simp
    from less.hyps [OF smaller w1(2) this w1(4), of False "a + of_nat n"] obtain w' bs where
      w': "add_loop Append Flush False (a + of_nat n) (drop n p) w1 = (OK, w')" "fine (wdest w')"
      "type_crc w' = InitTypeCrc a0" "block_offset w' \<le> kBlockSize" "written (wdest w') = written (wdest w1) @ bs"
      "log_record (block_offset w1) False (drop n p) bs (block_offset w')"
      by blast
    have "log_record (block_offset w) b (take n p @ drop n p)
        (pad (block_offset w) @ phys (fragment_type b False) (take n p) @ bs) (block_offset w')"
      using full w'(6) w1(5) by (intro log_record.more) (auto simp: min_def)
    then show ?thesis
      using step False w' w1(3) sw(3) full(2) by auto
  qed
qed

lemma AddRecord_ok:
  assumes "fine (wdest w)" "block_offset w \<le> kBlockSize" "type_crc w = InitTypeCrc a0"
  shows "\<exists>w' bs. AddRecord Append Flush a p w = (OK, w') \<and> fine (wdest w') \<and> type_crc w' = InitTypeCrc a0 \<and>
    block_offset w' \<le> kBlockSize \<and> written (wdest w') = written (wdest w) @ bs \<and>
    log_record (block_offset w) True p bs (block_offset w')"
  unfolding AddRecord_def by (rule add_loop_ok [OF assms])

end

subsection \<open>Reading\<close>

text \<open>
  The reader stands at offset \<open>off\<close> of a block and \<open>bs\<close> is the rest of the file: its buffer has the
  rest of the block, and it knows whether the file ends in it.
\<close>

definition reader_at :: "('f \<Rightarrow> bytes) \<Rightarrow> ('f \<Rightarrow> bool) \<Rightarrow> nat \<Rightarrow> bytes \<Rightarrow> 'f log_reader \<Rightarrow> bool" where
  "reader_at rest good off bs r \<longleftrightarrow>
     off \<le> kBlockSize \<and> buffer r = take (kBlockSize - off) bs \<and> rest (rfile r) = drop (kBlockSize - off) bs \<and>
     (eof r \<longleftrightarrow> length bs < kBlockSize - off) \<and> good (rfile r) \<and> initial_offset r = 0 \<and> \<not> resyncing r"

lemma code_byte [simp]: "scast (ucast (record_code t) :: byte) = record_code t"
  by (cases t) simp_all

lemma code_nonzero: "t \<noteq> kZeroType \<Longrightarrow> record_code t \<noteq> 0"
  by (cases t) simp_all

text \<open>The two length bytes.\<close>

lemma length_bytes:
  assumes "n < 65536"
  shows "(ucast (of_nat (n mod 256) :: byte) AND 0xff) OR push_bit 8 (ucast (of_nat (n div 256) :: byte) AND 0xff) =
    (of_nat n :: u32)"
proof -
  have "n div 256 < 256" using assms by simp
  then have u: "(ucast (of_nat (n mod 256) :: byte) :: u32) = of_nat (n mod 256)"
    "(ucast (of_nat (n div 256) :: byte) :: u32) = of_nat (n div 256)"
    by (simp_all add: ucast_of_nat_byte)
  have m: "(of_nat k :: u32) AND 0xff = of_nat k" if "k < 256" for k
    using that by (simp only: low_byte take_bit_of_nat) (simp add: take_bit_nat_eq_self)
  have "(of_nat (n mod 256) :: u32) AND push_bit 8 (of_nat (n div 256)) = 0"
  proof (rule bit_word_eqI)
    fix i
    have "(of_nat (n mod 256) :: u32) = take_bit 8 (of_nat (n mod 256))"
      using m [of "n mod 256"] by (simp only: low_byte)
    then have "\<not> bit (of_nat (n mod 256) :: u32) i" if "8 \<le> i" using that by (metis bit_take_bit_iff not_less)
    then show "bit ((of_nat (n mod 256) :: u32) AND push_bit 8 (of_nat (n div 256))) i = bit (0 :: u32) i"
      by (auto simp: bit_simps)
  qed
  then have "(of_nat (n mod 256) :: u32) OR push_bit 8 (of_nat (n div 256)) = of_nat (n mod 256) + push_bit 8 (of_nat (n div 256))"
    by (rule disjunctive_add_eq_or [symmetric])
  also have "\<dots> = of_nat (n mod 256 + 256 * (n div 256))" by (simp only: push_bit_eq_mult of_nat_add of_nat_mult) simp
  also have "n mod 256 + 256 * (n div 256) = n" by simp
  finally show ?thesis using \<open>n div 256 < 256\<close> by (simp only: u m [of "n mod 256", simplified] m [of "n div 256"])
qed

text \<open>The parser on a whole record and on one that the end of the file cuts off.\<close>

lemma nth_phys [simp]:
  "phys t p ! 4 = of_nat (length p mod 256)" "phys t p ! 5 = of_nat (length p div 256)"
  "phys t p ! 6 = ucast (record_code t)"
  by (simp_all add: phys_def nth_append)

lemma nth_phys_data: "phys t p ! (7 + k) = p ! k"
  by (simp add: phys_def nth_append)

lemma nth_phys_take:
  assumes "kHeaderSize \<le> k"
  shows "take k (phys t p @ bs) ! 4 = of_nat (length p mod 256)" "take k (phys t p @ bs) ! 5 = of_nat (length p div 256)"
    "take k (phys t p @ bs) ! 6 = ucast (record_code t)"
  using assms by (simp_all add: nth_append kHeaderSize_def)

lemma parse_record_phys:
  assumes "buffer r = phys t p @ bs" "t \<noteq> kZeroType" "length p < 65536" "initial_offset r = 0"
  shows "parse_record res r =
    (record_code t, p, r\<lparr>buffer := bs, buffer_data := buffer_data r + of_nat (kHeaderSize + length p)\<rparr>)"
proof -
  let ?h = "phys t p @ bs"
  have len: "(ucast (?h ! 4) AND 0xff) OR push_bit 8 (ucast (?h ! 5) AND 0xff) = (of_nat (length p) :: u32)"
    using length_bytes [OF assms(3)] by (simp add: nth_append kHeaderSize_def)
  have u: "unat (of_nat (length p) :: u32) = length p" using assms(3) by (simp add: unat_of_nat)
  have ty: "(scast (?h ! 6) :: u32) = record_code t" by (simp add: nth_append kHeaderSize_def)
  have "drop 6 ?h = ucast (record_code t) # p @ bs" by (simp add: phys_def)
  then have "take (1 + length p) (drop 6 ?h) = ucast (record_code t) # p" by simp
  moreover have "DecodeFixed32 ?h = Mask (crc_ref 0 (ucast (record_code t) # p))"
    by (simp add: phys_def codec_simps)
  ultimately have crc: "crc_value (buffer_data r + 6) (take (1 + length p) (drop 6 ?h)) = Unmask (DecodeFixed32 ?h)"
    by (simp add: crc_value_def Extend_ref codec_simps)
  have d: "drop (kHeaderSize + length p) ?h = bs" "take (length p) (drop kHeaderSize ?h) = p"
    by (simp_all, simp add: phys_def kHeaderSize_def)
  show ?thesis
    unfolding parse_record_def Let_def assms(1) len ty u crc d
    using code_nonzero [OF assms(2)] assms(4) by simp
qed

lemma parse_record_cut:
  assumes "buffer r = take k (phys t p @ bs)" "kHeaderSize \<le> k" "k < kHeaderSize + length p" "length p < 65536" "eof r"
  shows "parse_record res r = (kEof, res, r\<lparr>buffer := []\<rparr>)"
proof -
  let ?h = "take k (phys t p @ bs)"
  have len: "(ucast (?h ! 4) AND 0xff) OR push_bit 8 (ucast (?h ! 5) AND 0xff) = (of_nat (length p) :: u32)"
    using length_bytes [OF assms(4)] nth_phys_take [OF assms(2), of t p bs] by simp
  have u: "unat (of_nat (length p) :: u32) = length p" using assms(4) by (simp add: unat_of_nat)
  have g: "(length ?h < kHeaderSize + length p) = True" using assms(3) by simp
  show ?thesis
    unfolding parse_record_def Let_def assms(1) len u g if_True using assms(5) by simp
qed

context sequential_file
begin

abbreviation at_offset :: "nat \<Rightarrow> bytes \<Rightarrow> 'f log_reader \<Rightarrow> bool" where
  "at_offset \<equiv> reader_at rest good"

text \<open>A trailer that is too short for a header is skipped.\<close>

lemma read_pad:
  assumes "at_offset off bs r" "kBlockSize < off + kHeaderSize" "kBlockSize - off \<le> length bs"
  shows "\<exists>r'. ReadPhysicalRecord Read res r = ReadPhysicalRecord Read res r' \<and>
    at_offset 0 (drop (kBlockSize - off) bs) r' \<and> reports r' = reports r"
proof -
  let ?d = "drop (kBlockSize - off) bs"
  have r: "length (buffer r) < kHeaderSize" "\<not> eof r" "rest (rfile r) = ?d" "good (rfile r)"
    "initial_offset r = 0" "\<not> resyncing r"
    using assms by (auto simp: reader_at_def)
  obtain f where f: "Read kBlockSize (rfile r) = (OK, take kBlockSize ?d, f)" "rest f = drop kBlockSize ?d" "good f"
    using ReadE [OF r(4)] r(3) by metis
  define r' where "r' = (let r' = r\<lparr>rfile := f, buffer := take kBlockSize ?d, buffer_data := backing_store r,
      end_of_buffer_offset := end_of_buffer_offset r + of_nat (length (take kBlockSize ?d))\<rparr>
    in if length (take kBlockSize ?d) < kBlockSize then r'\<lparr>eof := True\<rparr> else r')"
  have "refill Read r = (None, r')" by (simp add: refill_def f r'_def Let_def)
  then have "ReadPhysicalRecord Read res r = ReadPhysicalRecord Read res r'"
    using r(1,2) by (simp add: ReadPhysicalRecord.simps [of Read res r])
  moreover have "at_offset 0 ?d r'"
    using r f by (auto simp: reader_at_def r'_def Let_def)
  moreover have "reports r' = reports r" by (simp add: r'_def Let_def)
  ultimately show ?thesis by blast
qed

lemma read_phys:
  assumes "at_offset off (pad off @ phys t p @ bs) r" "start off + kHeaderSize + length p \<le> kBlockSize" "t \<noteq> kZeroType"
  shows "\<exists>r'. ReadPhysicalRecord Read res r = (record_code t, p, r') \<and>
    at_offset (start off + kHeaderSize + length p) bs r' \<and> reports r' = reports r"
proof -
  have here: "\<exists>r'. ReadPhysicalRecord Read res r = (record_code t, p, r') \<and>
      at_offset (off + kHeaderSize + length p) bs r' \<and> reports r' = reports r"
    if at: "at_offset off (phys t p @ bs) r" and le: "off + kHeaderSize + length p \<le> kBlockSize" for off r
  proof -
    have buf: "buffer r = phys t p @ take (kBlockSize - (off + kHeaderSize + length p)) bs"
      using at le by (simp add: reader_at_def add.assoc)
    have "length p < 65536" using le by (simp add: kBlockSize_def)
    with buf at le assms(3) show ?thesis
      by (subst ReadPhysicalRecord.simps)
         (auto simp: parse_record_phys [OF buf] reader_at_def add.assoc)
  qed
  show ?thesis
  proof (cases "kBlockSize < off + kHeaderSize")
    case True
    then have p: "pad off = replicate (kBlockSize - off) 0" "start off = 0" by (simp_all add: pad_def start_def)
    obtain r1 where r1: "ReadPhysicalRecord Read res r = ReadPhysicalRecord Read res r1"
      "at_offset 0 (phys t p @ bs) r1" "reports r1 = reports r"
      using read_pad [OF assms(1) True] by (auto simp: p)
    then show ?thesis using here [OF r1(2)] assms(2) p by simp
  next
    case False
    then show ?thesis using here [of off r] assms(1,2) by (simp add: pad_def start_def)
  qed
qed

lemma read_cut:
  assumes "at_offset off (take k (pad off @ phys t p @ bs)) r" "start off + kHeaderSize + length p \<le> kBlockSize"
    and "k < length (pad off) + kHeaderSize + length p"
  shows "\<exists>r'. ReadPhysicalRecord Read res r = (kEof, res, r') \<and> reports r' = reports r"
proof -
  have here: "\<exists>r'. ReadPhysicalRecord Read res r = (kEof, res, r') \<and> reports r' = reports r"
    if at: "at_offset off (take k (phys t p @ bs)) r" and le: "off + kHeaderSize + length p \<le> kBlockSize"
      and k: "k < kHeaderSize + length p" for off r k
  proof -
    have buf: "buffer r = take k (phys t p @ bs)" "eof r" using at le k by (auto simp: reader_at_def)
    have l: "length p < 65536" using le by (simp add: kBlockSize_def)
    show ?thesis
    proof (cases "k < kHeaderSize")
      case True
      then show ?thesis using buf by (subst ReadPhysicalRecord.simps) simp
    next
      case False
      then show ?thesis
        using parse_record_cut [OF buf(1) _ k l buf(2), of res] buf k by (subst ReadPhysicalRecord.simps) simp
    qed
  qed
  show ?thesis
  proof (cases "kBlockSize < off + kHeaderSize")
    case True
    then have p: "pad off = replicate (kBlockSize - off) 0" "start off = 0" by (simp_all add: pad_def start_def)
    show ?thesis
    proof (cases "k < kBlockSize - off")
      case True
      then have "length (buffer r) < kHeaderSize" "eof r"
        using assms(1) \<open>kBlockSize < off + kHeaderSize\<close> p by (auto simp: reader_at_def)
      then show ?thesis by (subst ReadPhysicalRecord.simps) simp
    next
      case False
      obtain r1 where r1: "ReadPhysicalRecord Read res r = ReadPhysicalRecord Read res r1"
        "at_offset 0 (take (k - (kBlockSize - off)) (phys t p @ bs)) r1" "reports r1 = reports r"
        using read_pad [OF assms(1) True] False by (auto simp: p)
      then show ?thesis using here [OF r1(2)] assms(2,3) p False by auto
    qed
  next
    case False
    then show ?thesis using here [of off k r] assms by (simp add: pad_def start_def)
  qed
qed

end

subsection \<open>Whole records\<close>

context sequential_file
begin

lemma read_loop_unfold: "read_loop Read st = (case read_step Read st of Inl res \<Rightarrow> Some res | Inr st' \<Rightarrow> read_loop Read st')"
  by (rule read_loop.simps)

lemma fragment_type_simps [simp]:
  "fragment_type True True = kFullType" "fragment_type True False = kFirstType"
  "fragment_type False True = kLastType" "fragment_type False False = kMiddleType"
  by (simp_all add: fragment_type_def)

lemma fragment_type_nonzero [simp]: "fragment_type a b \<noteq> kZeroType"
  by (simp add: fragment_type_def)

text \<open>One round of the loop on a whole fragment of the record, and at the end of the file.\<close>

lemma step_last:
  assumes "ReadPhysicalRecord Read fr r = (record_code (fragment_type b True), p, r')" "\<not> resyncing r'" "b \<longrightarrow> s = []"
  shows "\<exists>r''. read_step Read (s, \<not> b, pr, fr, r) = Inl (True, s @ p, r'') \<and>
    (\<forall>off bs. at_offset off bs r' \<longrightarrow> at_offset off bs r'') \<and> reports r'' = reports r'"
  using assms by (cases b) (auto simp: read_step_def handle_record_def Let_def reader_at_def)

lemma step_more:
  assumes "ReadPhysicalRecord Read fr r = (record_code (fragment_type b False), p, r')" "\<not> resyncing r'" "b \<longrightarrow> s = []"
  shows "\<exists>pr'. read_step Read (s, \<not> b, pr, fr, r) = Inr (s @ p, True, pr', p, r')"
  using assms by (cases b) (auto simp: read_step_def handle_record_def Let_def)

lemma step_eof:
  assumes "ReadPhysicalRecord Read fr r = (kEof, fr', r')"
  shows "\<exists>r''. read_step Read (s, b, pr, fr, r) = Inl (False, [], r'') \<and> reports r'' = reports r'"
  using assms
  by (auto simp: read_step_def handle_record_def Let_def kEof_def kMaxRecordType_def)

lemma at_offset_resync: "at_offset off bs r \<Longrightarrow> \<not> resyncing r"
  by (simp add: reader_at_def)

lemma read_record:
  assumes "log_record off b p bs off'" "at_offset off (bs @ more_bytes) r" "b \<longrightarrow> s = []"
  shows "\<exists>r'. read_loop Read (s, \<not> b, pr, fr, r) = Some (True, s @ p, r') \<and> at_offset off' more_bytes r' \<and>
    reports r' = reports r"
  using assms
proof (induction arbitrary: r s pr fr rule: log_record.induct)
  case (last off p b)
  obtain r1 where r1: "ReadPhysicalRecord Read fr r = (record_code (fragment_type b True), p, r1)"
    "at_offset (start off + kHeaderSize + length p) more_bytes r1" "reports r1 = reports r"
    using read_phys [of off "fragment_type b True" p more_bytes r fr] last by auto
  show ?case
    using step_last [OF r1(1) at_offset_resync [OF r1(2)] last(3), of pr] r1
    by (subst read_loop_unfold) auto
next
  case (more off q p bs off' b)
  obtain r1 where r1: "ReadPhysicalRecord Read fr r = (record_code (fragment_type b False), q, r1)"
    "at_offset (start off + kHeaderSize + length q) (bs @ more_bytes) r1" "reports r1 = reports r"
    using read_phys [of off "fragment_type b False" q "bs @ more_bytes" r fr] more by auto
  then have at: "at_offset kBlockSize (bs @ more_bytes) r1" using more.hyps by simp
  obtain pr' where "read_step Read (s, \<not> b, pr, fr, r) = Inr (s @ q, True, pr', q, r1)"
    using step_more [OF r1(1) at_offset_resync [OF r1(2)] more.prems(2)] by blast
  then show ?case
    using more.IH [OF at, of "s @ q" pr' q] r1(3) by (subst read_loop_unfold) auto
qed

lemma read_record_cut:
  assumes "log_record off b p bs off'" "at_offset off (take k bs) r" "k < length bs" "b \<longrightarrow> s = []"
  shows "\<exists>r'. read_loop Read (s, \<not> b, pr, fr, r) = Some (False, [], r') \<and> reports r' = reports r"
  using assms
proof (induction arbitrary: r s pr fr k rule: log_record.induct)
  case (last off p b)
  obtain r1 where "ReadPhysicalRecord Read fr r = (kEof, fr, r1)" "reports r1 = reports r"
    using read_cut [of off k "fragment_type b True" p "[]" r fr] last by auto
  then show ?case using step_eof [of fr r fr r1 s "\<not> b" pr] by (subst read_loop_unfold) auto
next
  case (more off q p bs off' b)
  show ?case
  proof (cases "k < length (pad off) + kHeaderSize + length q")
    case True
    then obtain r1 where "ReadPhysicalRecord Read fr r = (kEof, fr, r1)" "reports r1 = reports r"
      using read_cut [of off k "fragment_type b False" q bs r fr] more by auto
    then show ?thesis using step_eof [of fr r fr r1 s "\<not> b" pr] by (subst read_loop_unfold) auto
  next
    case False
    let ?k = "k - (length (pad off) + kHeaderSize + length q)"
    have cut: "take k (pad off @ phys (fragment_type b False) q @ bs) = pad off @ phys (fragment_type b False) q @ take ?k bs"
      using False by (simp add: add.assoc)
    obtain r1 where r1: "ReadPhysicalRecord Read fr r = (record_code (fragment_type b False), q, r1)"
      "at_offset (start off + kHeaderSize + length q) (take ?k bs) r1" "reports r1 = reports r"
      using read_phys [of off "fragment_type b False" q "take ?k bs" r fr] more unfolding cut by auto
    then have at: "at_offset kBlockSize (take ?k bs) r1" using more.hyps by simp
    obtain pr' where "read_step Read (s, \<not> b, pr, fr, r) = Inr (s @ q, True, pr', q, r1)"
      using step_more [OF r1(1) at_offset_resync [OF r1(2)] more.prems(3)] by blast
    moreover have "?k < length bs" using more.prems(2) False by simp
    ultimately show ?thesis
      using more.IH [OF at, of "s @ q" pr' q] r1(3) by (subst read_loop_unfold) auto
  qed
qed

end

subsection \<open>Whole logs\<close>

fun add_records ::
  "(bytes \<Rightarrow> 'f \<Rightarrow> Status \<times> 'f) \<Rightarrow> ('f \<Rightarrow> Status \<times> 'f) \<Rightarrow> (addr \<times> bytes) list \<Rightarrow> 'f log_writer \<Rightarrow>
   Status \<times> 'f log_writer" where
  "add_records Append Flush [] w = (OK, w)"
| "add_records Append Flush ((a, p) # ps) w =
     (case AddRecord Append Flush a p w of (s, w) \<Rightarrow>
        if status_ok s then add_records Append Flush ps w else (s, w))"

text \<open>At most \<open>n\<close> calls of \<open>ReadRecord\<close>, until it returns false.\<close>

primrec read_records ::
  "(nat \<Rightarrow> 'f \<Rightarrow> Status \<times> bytes \<times> 'f) \<Rightarrow> (u64 \<Rightarrow> 'f \<Rightarrow> Status \<times> 'f) \<Rightarrow> nat \<Rightarrow> 'f log_reader \<Rightarrow>
   (bytes list \<times> 'f log_reader) option" where
  "read_records Read Skip 0 r = Some ([], r)"
| "read_records Read Skip (Suc n) r =
     (case ReadRecord Read Skip r of
        None \<Rightarrow> None
      | Some (ok, p, r) \<Rightarrow>
          if ok then map_option (\<lambda>(ps, r). (p # ps, r)) (read_records Read Skip n r) else Some ([], r))"

lemma log_record_block: "log_record 0 b p bs off' \<longleftrightarrow> log_record kBlockSize b p bs off'"
proof -
  have "pad 0 = pad kBlockSize" "start 0 = start kBlockSize"
    by (simp_all add: pad_def start_def kBlockSize_def kHeaderSize_def)
  then show ?thesis
    by (subst log_record.simps [of 0 b p bs off'], subst log_record.simps [of kBlockSize b p bs off']) simp
qed

text \<open>The file starts like a block: a writer at offset 0 and a reader with an empty buffer agree.\<close>

lemma log_records_block:
  assumes "log_records 0 ps bs off'"
  shows "\<exists>off''. log_records kBlockSize ps bs off'' \<and> (\<forall>b p bs e. log_record off' b p bs e \<longleftrightarrow> log_record off'' b p bs e)"
  using assms
proof (cases rule: log_records.cases)
  case none
  then show ?thesis using log_records.none log_record_block by blast
next
  case (some p bs off1 ps bs')
  then show ?thesis using log_records.some log_record_block by blast
qed

context writable_file
begin

lemma add_records_ok:
  assumes "fine (wdest w)" "block_offset w \<le> kBlockSize" "type_crc w = InitTypeCrc a0"
  shows "\<exists>w' bs. add_records Append Flush ps w = (OK, w') \<and> fine (wdest w') \<and> type_crc w' = InitTypeCrc a0 \<and>
    block_offset w' \<le> kBlockSize \<and> written (wdest w') = written (wdest w) @ bs \<and>
    log_records (block_offset w) (map snd ps) bs (block_offset w')"
  using assms
proof (induction ps arbitrary: w)
  case Nil
  then show ?case using log_records.none by auto
next
  case (Cons q ps)
  obtain a p where q: "q = (a, p)" by fastforce
  obtain w1 bs1 where w1: "AddRecord Append Flush a p w = (OK, w1)" "fine (wdest w1)" "type_crc w1 = InitTypeCrc a0"
    "block_offset w1 \<le> kBlockSize" "written (wdest w1) = written (wdest w) @ bs1"
    "log_record (block_offset w) True p bs1 (block_offset w1)"
    using AddRecord_ok [OF Cons.prems] by blast
  obtain w2 bs2 where "add_records Append Flush ps w1 = (OK, w2)" "fine (wdest w2)" "type_crc w2 = InitTypeCrc a0"
    "block_offset w2 \<le> kBlockSize" "written (wdest w2) = written (wdest w1) @ bs2"
    "log_records (block_offset w1) (map snd ps) bs2 (block_offset w2)"
    using Cons.IH [OF w1(2,4,3)] by blast
  then show ?case using w1 q log_records.some [OF w1(6)] by auto
qed

lemma add_records_append:
  "add_records Append Flush (ps @ qs) w =
     (let (s, w) = add_records Append Flush ps w in if status_ok s then add_records Append Flush qs w else (s, w))"
proof (induction ps arbitrary: w)
  case (Cons q ps)
  then show ?case by (cases q) (simp add: case_prod_unfold Let_def)
qed simp

end

context sequential_file
begin

lemma ReadRecord_start: "at_offset off bs r \<Longrightarrow> ReadRecord Read Skip r = read_loop Read ([], False, 0, [], r)"
  by (simp add: ReadRecord_def reader_at_def)

lemma read_records_ok:
  assumes "log_records off ps bs off'" "at_offset off (bs @ take k tail_bs) r"
    and "log_record off' True q tail_bs e" "k < length tail_bs"
  shows "\<exists>r'. read_records Read Skip (Suc (length ps)) r = Some (ps, r') \<and> reports r' = reports r"
  using assms(1,2,3)
proof (induction arbitrary: r rule: log_records.induct)
  case (none off)
  then have at: "at_offset off (take k tail_bs) r" by simp
  show ?case
    using read_record_cut [OF none(2) at assms(4), of "[]" 0 "[]"] ReadRecord_start [OF at, of Skip] by auto
next
  case (some off p bs off1 ps bs' off2)
  have at: "at_offset off (bs @ (bs' @ take k tail_bs)) r" using some.prems(1) by simp
  obtain r1 where r1: "read_loop Read ([], False, 0, [], r) = Some (True, p, r1)" "at_offset off1 (bs' @ take k tail_bs) r1"
    "reports r1 = reports r"
    using read_record [OF some.hyps(1) at, of "[]" 0 "[]"] by auto
  obtain r2 where "read_records Read Skip (Suc (length ps)) r1 = Some (ps, r2)" "reports r2 = reports r1"
    using some.IH [OF r1(2) some.prems(2)] by blast
  then show ?case using r1 ReadRecord_start [OF at, of Skip] by auto
qed

lemma mkReader_at: "good f \<Longrightarrow> at_offset kBlockSize (rest f) (mkReader f rep chk 0 store)"
  by (simp add: mkReader_def reader_at_def)

end

subsection \<open>Properties\<close>

abbreviation posix_add :: "(addr \<times> bytes) list \<Rightarrow> PosixFile log_writer \<Rightarrow> Status \<times> PosixFile log_writer" where
  "posix_add \<equiv> add_records PosixWritableFile_Append PosixWritableFile_Flush"

abbreviation posix_read :: "nat \<Rightarrow> PosixFile log_reader \<Rightarrow> (bytes list \<times> PosixFile log_reader) option" where
  "posix_read \<equiv> read_records PosixSequentialFile_Read PosixSequentialFile_Skip"

lemma posix_add_new:
  assumes "posix_good f" "posix_written f = []"
  shows "\<exists>w bs. posix_add ps (mkWriter a f) = (OK, w) \<and> posix_written (wdest w) = bs \<and>
    log_records 0 (map snd ps) bs (block_offset w) \<and> posix_good (wdest w) \<and> block_offset w \<le> kBlockSize \<and>
    type_crc w = InitTypeCrc a"
  using posix_writable.add_records_ok [of "mkWriter a f" a ps] assms by (auto simp: mkWriter_def)

lemma posix_log_read:
  assumes "log_records 0 ps bs off" "log_record off True q bs' e" "k < length bs'"
    and "posix_good g" "posix_rest g = bs @ take k bs'"
  shows "\<exists>r. posix_read (Suc (length ps)) (mkReader g rep chk 0 store) = Some (ps, r) \<and> reports r = []"
proof -
  obtain off' where o: "log_records kBlockSize ps bs off'" "log_record off' True q bs' e"
    using log_records_block [OF assms(1)] assms(2) by blast
  have "reports (mkReader g rep chk 0 store) = []" by (simp add: mkReader_def)
  then show ?thesis
    using posix_sequential.read_records_ok [OF o(1) _ o(2) assms(3)]
      posix_sequential.mkReader_at [OF assms(4), of rep chk store] assms(5) by metis
qed

text \<open>
  C21: Whatever records are appended to a new log file, all appends succeed and a reader returns the
  same records in the same order and then the end of the log, without reporting a corruption, with
  or without checksums; records may be empty and may span any number of blocks.
\<close>

theorem log_roundtrip:
  assumes "posix_good f" "posix_written f = []" "posix_good g"
    and "posix_rest g = posix_written (wdest (snd (posix_add ps (mkWriter a f))))"
  shows "fst (posix_add ps (mkWriter a f)) = OK \<and>
    (\<exists>r. posix_read (Suc (length ps)) (mkReader g rep chk 0 store) = Some (map snd ps, r) \<and> reports r = [])"
proof -
  obtain w bs where w: "posix_add ps (mkWriter a f) = (OK, w)" "posix_written (wdest w) = bs"
    "log_records 0 (map snd ps) bs (block_offset w)"
    using posix_add_new [OF assms(1,2)] by blast
  have "log_record (block_offset w) True [] (pad (block_offset w) @ phys (fragment_type True True) [])
      (start (block_offset w) + kHeaderSize + length ([] :: bytes))"
    using start_le [of "block_offset w"] by (intro log_record.last) simp
  from posix_log_read [OF w(3) this, of 0 g rep chk store] show ?thesis
    using assms(3,4) w by (simp add: kHeaderSize_def)
qed

definition ex_file :: "bytes \<Rightarrow> PosixFile" where
  "ex_file bs = \<lparr>pfilename = [], pfile = \<lparr>fdata = bs, fpos = 0, feof = False, fault = None, strerror = []\<rparr>\<rparr>"

definition ex_log :: "(addr \<times> bytes) list \<Rightarrow> bytes" where
  "ex_log ps = posix_written (wdest (snd (posix_add ps (mkWriter 0 (ex_file [])))))"

lemma ex_file_simps [simp]:
  "posix_good (ex_file bs)" "posix_written (ex_file bs) = bs" "posix_rest (ex_file bs) = bs"
  by (simp_all add: ex_file_def posix_good_def posix_written_def posix_rest_def)

theorem log_roundtrip_witness:
  "\<exists>r. posix_read 3 (mkReader (ex_file (ex_log [(0, [1, 2]), (8, [])])) True True 0 0) = Some ([[1, 2], []], r) \<and>
     reports r = []"
  using log_roundtrip [where ps = "[(0, [1, 2]), (8, [])]" and a = 0 and rep = True and chk = True and store = 0
      and f = "ex_file []" and g = "ex_file (ex_log [(0, [1, 2]), (8, [])])"]
  by (simp add: ex_log_def numeral_3_eq_3 del: add_records.simps read_records.simps)

text \<open>
  C22: A crash loses at most the record that was being written. If the file is cut off anywhere inside
  the bytes of the last record, the reader returns all earlier records and then the end of the log,
  and reports no corruption.
\<close>

theorem log_crash:
  assumes "posix_good f" "posix_written f = []" "posix_good g"
    and "posix_rest g = take k (posix_written (wdest (snd (posix_add (ps @ [p]) (mkWriter a f)))))"
    and "length (posix_written (wdest (snd (posix_add ps (mkWriter a f))))) \<le> k"
    and "k < length (posix_written (wdest (snd (posix_add (ps @ [p]) (mkWriter a f)))))"
  shows "\<exists>r. posix_read (Suc (length ps)) (mkReader g rep chk 0 store) = Some (map snd ps, r) \<and> reports r = []"
proof -
  obtain w bs where w: "posix_add ps (mkWriter a f) = (OK, w)" "posix_written (wdest w) = bs"
    "log_records 0 (map snd ps) bs (block_offset w)" "posix_good (wdest w)" "block_offset w \<le> kBlockSize"
    "type_crc w = InitTypeCrc a"
    using posix_add_new [OF assms(1,2)] by blast
  obtain w' bs' where w': "posix_add [p] w = (OK, w')" "posix_written (wdest w') = posix_written (wdest w) @ bs'"
    "log_records (block_offset w) [snd p] bs' (block_offset w')"
    using posix_writable.add_records_ok [OF w(4,5,6), of "[p]"] by auto
  have all: "posix_add (ps @ [p]) (mkWriter a f) = (OK, w')"
    using w(1) w'(1) by (simp add: posix_writable.add_records_append)
  obtain e where e: "log_record (block_offset w) True (snd p) bs' e"
    using w'(3) by (auto elim!: log_records.cases)
  show ?thesis
    using posix_log_read [OF w(3) e, of "k - length bs" g rep chk store] assms(3-6) w w'(2) all by simp
qed

lemma ex_log_length: "length (ex_log [(0, [1])]) = 8" "length (ex_log [(0, [1]), (8, [2])]) = 16"
  by (simp_all add: ex_log_def ex_file_def mkWriter_def AddRecord_def add_loop.simps switch_block_def fragment_length_def
      EmitPhysicalRecord_def PosixWritableFile_Append_def PosixWritableFile_Flush_def fwrite_def fflush_def
      kBlockSize_def kHeaderSize_def posix_written_def Let_def)

theorem log_crash_witness:
  "\<exists>r. posix_read 2 (mkReader (ex_file (take 9 (ex_log ([(0, [1])] @ [(8, [2])])))) True True 0 0) = Some ([[1]], r) \<and>
     reports r = []"
  using log_crash [where ps = "[(0, [1])]" and p = "(8, [2])" and a = 0 and rep = True and chk = True and store = 0
      and f = "ex_file []" and g = "ex_file (take 9 (ex_log ([(0, [1])] @ [(8, [2])])))" and k = 9] ex_log_length
  by (simp add: ex_log_def [symmetric] numeral_2_eq_2 del: add_records.simps read_records.simps)

lemma signed_byte_zero:
  assumes "(scast (x :: byte) :: u32) = 0"
  shows "x = 0"
proof (rule bit_word_eqI)
  fix k assume "k < LENGTH(8)"
  moreover have "\<not> bit (scast x :: u32) k" using assms by simp
  ultimately show "bit x k = bit (0 :: byte) k" by (cases "k = 7") (auto simp: bit_signed_iff min_def split: if_splits)
qed

text \<open>A change of one byte of the checksum, the type or the data makes the checksums differ.\<close>

lemma changed_checksum:
  assumes "length e = 4" "EncodeFixed32 v \<noteq> e"
  shows "Unmask (DecodeFixed32 (e @ rest)) \<noteq> Unmask v"
proof -
  have "DecodeFixed32 e \<noteq> v" using EncodeFixed32_Decode [OF assms(1)] assms(2) by blast
  moreover have "DecodeFixed32 (e @ rest) = DecodeFixed32 e"
    using DecodeFixed32_Encode [of "DecodeFixed32 e" rest] EncodeFixed32_Decode [OF assms(1)] by simp
  ultimately show ?thesis using Mask_Unmask by metis
qed

lemma changed_record:
  assumes "i < length (phys t p)" "b \<noteq> phys t p ! i" "i \<noteq> 4" "i \<noteq> 5" "h = (phys t p)[i := b] @ bs"
  shows "crc_value a (take (1 + length p) (drop 6 h)) \<noteq> Unmask (DecodeFixed32 h)"
proof -
  let ?c = "ucast (record_code t) # p" and ?l = "[of_nat (length p mod 256), of_nat (length p div 256)] :: bytes"
  let ?e = "EncodeFixed32 (Mask (crc_ref 0 ?c))"
  have ph: "phys t p = ?e @ ?l @ ?c" by (simp add: phys_def)
  show ?thesis
  proof (cases "i < 4")
    case True
    have h: "h = ?e[i := b] @ ?l @ ?c @ bs" unfolding assms(5) ph using True by (simp add: list_update_append)
    have "b \<noteq> ?e ! i" using assms(2) True unfolding ph by (simp add: nth_append)
    moreover have "?e[i := b] ! i = b" using True by simp
    ultimately have "?e[i := b] \<noteq> ?e" by metis
    then have "Unmask (DecodeFixed32 h) \<noteq> Unmask (Mask (crc_ref 0 ?c))" unfolding h by (intro changed_checksum) auto
    moreover have "take (1 + length p) (drop 6 h) = ?c" unfolding h by simp
    ultimately show ?thesis by (simp add: crc_value_def Extend_ref codec_simps)
  next
    case False
    define j where "j = i - 6"
    have i: "i = 6 + j" "j < length ?c" using False assms(1,3,4) by (auto simp: j_def ph)
    have h: "h = ?e @ ?l @ ?c[j := b] @ bs" unfolding assms(5) ph i(1) by (simp add: list_update_append)
    have c: "?c = take j ?c @ ?c ! j # drop (Suc j) ?c" "?c[j := b] = take j ?c @ b # drop (Suc j) ?c"
      using i(2) by (simp_all only: id_take_nth_drop upd_conv_take_nth_drop)
    have "?c ! j \<noteq> b" using assms(2) unfolding ph i(1) by (auto simp: nth_append)
    then have "crc_ref 0 ?c \<noteq> crc_ref 0 (?c[j := b])" using crc_ref_changed c by metis
    moreover have "take (1 + length p) (drop 6 h) = ?c[j := b]" unfolding h by (simp split: nat.split)
    moreover have "DecodeFixed32 h = Mask (crc_ref 0 ?c)" unfolding h by (simp add: codec_simps)
    ultimately show ?thesis by (simp add: crc_value_def Extend_ref codec_simps)
  qed
qed

text \<open>
  C23: A record in the reader's buffer of which one byte differs from what was written, with checksums
  on, a reporter and no initial offset. If the byte belongs to the checksum, the type or the data, the
  record is not returned: the buffer is dropped and its size reported as a checksum mismatch; the only
  exception is an empty record whose type becomes zero, which looks like preallocated space. If it is a
  byte of the length and the length now reaches past the buffer, this is reported as a bad length,
  unless the file has ended: then it is taken for a record that was being written, the end of the log
  without a report. (A changed length that stays inside the buffer is compared with the checksum of
  other bytes, where nothing is certain.)
\<close>

theorem log_corruption_detected:
  assumes "buffer r = (phys t p)[i := b] @ more_bytes" "i < length (phys t p)" "b \<noteq> phys t p ! i" "length p < 65536"
    and "checksum r" "has_reporter r" "initial_offset r = 0" "t \<noteq> kZeroType"
  shows "(i \<noteq> 4 \<and> i \<noteq> 5 \<and> \<not> (i = 6 \<and> b = 0 \<and> p = []) \<longrightarrow>
      ReadPhysicalRecord Read res r =
        (kBadRecord, res, r\<lparr>buffer := [], reports := reports r @
           [(of_nat (length (buffer r)), Corruption (lit ''checksum mismatch'') [])]\<rparr>)) \<and>
    ((i = 4 \<or> i = 5) \<and> length (buffer r) < kHeaderSize + unat (buffer r ! 4) + 256 * unat (buffer r ! 5) \<longrightarrow>
      ReadPhysicalRecord Read res r =
        (if eof r then (kEof, res, r\<lparr>buffer := []\<rparr>)
         else (kBadRecord, res, r\<lparr>buffer := [], reports := reports r @
           [(of_nat (length (buffer r)), Corruption (lit ''bad record length'') [])]\<rparr>)))"
proof -
  have long: "\<not> length (buffer r) < kHeaderSize" using assms(1) by (simp add: phys_def kHeaderSize_def)
  have parse: "ReadPhysicalRecord Read res r = parse_record res r" using long by (subst ReadPhysicalRecord.simps) simp
  have report: "ReportCorruption n reason (r\<lparr>buffer := []\<rparr>) = r\<lparr>buffer := [], reports := reports r @ [(n, Corruption reason [])]\<rparr>" for n reason
    using assms(6,7) by (simp add: ReportCorruption_def ReportDrop_def)
  show ?thesis
  proof (intro conjI impI)
    assume i: "i \<noteq> 4 \<and> i \<noteq> 5 \<and> \<not> (i = 6 \<and> b = 0 \<and> p = [])"
    let ?h = "(phys t p)[i := b] @ more_bytes"
    have h: "?h ! 4 = of_nat (length p mod 256)" "?h ! 5 = of_nat (length p div 256)"
      using i by (simp_all add: nth_append kHeaderSize_def)
    have len: "(ucast (?h ! 4) AND 0xff) OR push_bit 8 (ucast (?h ! 5) AND 0xff) = (of_nat (length p) :: u32)"
      unfolding h by (rule length_bytes [OF assms(4)])
    have u: "unat (of_nat (length p) :: u32) = length p" using assms(4) by (simp add: unat_of_nat)
    have l: "(kHeaderSize + length p > length ?h) = False" by simp
    have z: "((scast (?h ! 6) :: u32) = record_code kZeroType \<and> (of_nat (length p) :: u32) = 0) = False"
    proof (cases "p = []")
      case True
      then have "?h ! 6 = (if i = 6 then b else ucast (record_code t))" "b = 0 \<longrightarrow> i \<noteq> 6"
        using i by (simp add: nth_append kHeaderSize_def, blast)
      moreover have "(ucast (record_code t) :: byte) \<noteq> 0" using assms(8) by (cases t) simp_all
      ultimately have "?h ! 6 \<noteq> 0" by auto
      then show ?thesis using signed_byte_zero [of "?h ! 6"] by auto
    next
      case False
      then show ?thesis using u by (metis length_greater_0_conv less_irrefl unat_0)
    qed
    have crc: "(crc_value (buffer_data r + 6) (take (1 + length p) (drop 6 ?h)) \<noteq> Unmask (DecodeFixed32 ?h)) = True"
      using changed_record [OF assms(2,3)] i by simp
    show "ReadPhysicalRecord Read res r =
        (kBadRecord, res, r\<lparr>buffer := [], reports := reports r @ [(of_nat (length (buffer r)), Corruption (lit ''checksum mismatch'') [])]\<rparr>)"
      unfolding parse parse_record_def Let_def assms(1) len u l z crc using assms(5) report by simp
  next
    assume i: "(i = 4 \<or> i = 5) \<and> length (buffer r) < kHeaderSize + unat (buffer r ! 4) + 256 * unat (buffer r ! 5)"
    have len: "unat ((ucast x AND 0xff) OR push_bit 8 (ucast y AND 0xff) :: u32) = unat x + 256 * unat y" for x y :: byte
    proof -
      define m where "m = unat x + 256 * unat y"
      have n: "unat x < 256" "unat y < 256" using unat_bound [of x] unat_bound [of y] by simp_all
      then have m: "m mod 256 = unat x" "m div 256 = unat y" "m < 65536" by (simp_all add: m_def)
      have "(of_nat (m mod 256) :: byte) = x" "(of_nat (m div 256) :: byte) = y" unfolding m by simp_all
      from length_bytes [OF m(3), unfolded this] m(3) show ?thesis by (simp only: unat_of_nat m_def) simp
    qed
    show "ReadPhysicalRecord Read res r =
        (if eof r then (kEof, res, r\<lparr>buffer := []\<rparr>)
         else (kBadRecord, res, r\<lparr>buffer := [], reports := reports r @ [(of_nat (length (buffer r)), Corruption (lit ''bad record length'') [])]\<rparr>))"
      unfolding parse parse_record_def Let_def len using i report by simp
  qed
qed

theorem log_corruption_detected_witness:
  "fst (ReadPhysicalRecord PosixSequentialFile_Read [] ((mkReader (ex_file []) True True 0 0)
     \<lparr>buffer := (phys kFullType [1, 2, 3])[8 := 7] @ []\<rparr>)) = kBadRecord"
proof -
  let ?r = "(mkReader (ex_file []) True True 0 0)\<lparr>buffer := (phys kFullType [1, 2, 3])[8 := 7] @ []\<rparr>"
  show ?thesis
    using log_corruption_detected [of ?r kFullType "[1, 2, 3]" 8 7 "[]" PosixSequentialFile_Read "[]"]
    nth_phys_data [of kFullType "[1, 2, 3]" 1]
    by (simp add: mkReader_def kHeaderSize_def)
qed

end
