(* ===== verification/LdbBloom.thy ===== *)
theory LdbBloom
  imports LdbFormat
begin

text \<open>
  \<^verbatim>\<open>util/hash.cc\<close> and \<^verbatim>\<open>util/bloom.cc\<close>: the hash function and the built-in Bloom filter policy.
  The locale \<open>filter_policy\<close> is the contract of \<^verbatim>\<open>include/leveldb/filter_policy.h\<close>: a filter is
  appended to the output, and it matches every key it was made from. It is interpreted on the Bloom
  filter and on the wrapper for internal keys.
\<close>

subsection \<open>The hash function\<close>

definition hash_m :: u32 where
  "hash_m = 0xc6a4a793"

definition hash_step :: "u32 \<Rightarrow> bytes \<Rightarrow> u32" where
  "hash_step h data = (let h = (h + DecodeFixed32 data) * hash_m in h XOR drop_bit 16 h)"

fun hash_loop :: "u32 \<Rightarrow> bytes \<Rightarrow> u32 \<times> bytes" where
  "hash_loop h data = (if 4 \<le> length data then hash_loop (hash_step h data) (drop 4 data) else (h, data))"

declare hash_loop.simps [simp del]

text \<open>The switch over the remaining bytes, with its fall-throughs.\<close>

definition hash_tail :: "u32 \<Rightarrow> bytes \<Rightarrow> u32" where
  "hash_tail h data =
     (let n = length data;
          h = (if n = 3 then h + push_bit 16 (ucast (data ! 2)) else h);
          h = (if n = 2 \<or> n = 3 then h + push_bit 8 (ucast (data ! 1)) else h)
      in if n = 1 \<or> n = 2 \<or> n = 3
         then let h = (h + ucast (data ! 0)) * hash_m in h XOR drop_bit 24 h
         else h)"

definition Hash :: "bytes \<Rightarrow> u32 \<Rightarrow> u32" where
  "Hash data seed =
     (let (h, rest) = hash_loop (seed XOR (of_nat (length data) * hash_m)) data in hash_tail h rest)"

subsection \<open>The Bloom filter\<close>

definition BloomHash :: "bytes \<Rightarrow> u32" where
  "BloomHash key = Hash key 0xbc9f1d34"

record BloomFilterPolicy =
  bits_per_key :: u64
  bloom_k :: nat

text \<open>
  \<open>static_cast<size_t>(bits_per_key * 0.69)\<close>: below 44 bits per key the product is no integer, so
  the conversion is the floor; from 44 on the result is 30 anyway.
\<close>

definition mkBloomFilterPolicy :: "nat \<Rightarrow> BloomFilterPolicy" where
  "mkBloomFilterPolicy bits =
     (let k = bits * 69 div 100; k = (if k < 1 then 1 else k); k = (if k > 30 then 30 else k)
      in \<lparr>bits_per_key = of_nat bits, bloom_k = k\<rparr>)"

definition bloom_delta :: "u32 \<Rightarrow> u32" where
  "bloom_delta h = drop_bit 17 h OR push_bit 15 h"

text \<open>The probes of one key: \<open>h % bits\<close> for \<open>j = 0, .., k - 1\<close>.\<close>

primrec probe_set :: "nat \<Rightarrow> u32 \<Rightarrow> u32 \<Rightarrow> nat \<Rightarrow> bytes \<Rightarrow> bytes" where
  "probe_set 0 h delta bits array = array"
| "probe_set (Suc k) h delta bits array =
     (let bitpos = unat h mod bits
      in probe_set k (h + delta) delta bits
           (array[bitpos div 8 := array ! (bitpos div 8) OR push_bit (bitpos mod 8) 1]))"

fun add_keys :: "nat \<Rightarrow> bytes list \<Rightarrow> nat \<Rightarrow> bytes \<Rightarrow> bytes" where
  "add_keys k [] bits array = array"
| "add_keys k (key # keys) bits array =
     (let h = BloomHash key in add_keys k keys bits (probe_set k h (bloom_delta h) bits array))"

text \<open>The size of the bit array in bytes.\<close>

definition bloom_bytes :: "BloomFilterPolicy \<Rightarrow> nat \<Rightarrow> nat" where
  "bloom_bytes p n =
     (let bits = of_nat n * bits_per_key p; bits = (if bits < 64 then 64 else bits) in unat ((bits + 7) div 8))"

definition Bloom_CreateFilter :: "BloomFilterPolicy \<Rightarrow> bytes list \<Rightarrow> bytes \<Rightarrow> bytes" where
  "Bloom_CreateFilter p keys dst =
     (let n = bloom_bytes p (length keys)
      in dst @ add_keys (bloom_k p) keys (n * 8) (replicate n 0) @ [of_nat (bloom_k p)])"

primrec probe_test :: "nat \<Rightarrow> u32 \<Rightarrow> u32 \<Rightarrow> nat \<Rightarrow> bytes \<Rightarrow> bool" where
  "probe_test 0 h delta bits array = True"
| "probe_test (Suc k) h delta bits array =
     (let bitpos = unat h mod bits
      in if array ! (bitpos div 8) AND push_bit (bitpos mod 8) 1 = 0 then False
         else probe_test k (h + delta) delta bits array)"

text \<open>The last byte is a signed character, so bytes from 128 on give a huge \<open>k\<close>.\<close>

definition Bloom_KeyMayMatch :: "bytes \<Rightarrow> bytes \<Rightarrow> bool" where
  "Bloom_KeyMayMatch key bloom_filter =
     (let len = length bloom_filter
      in if len < 2 then False
         else
           let bits = (len - 1) * 8; k = unat (scast (bloom_filter ! (len - 1)) :: u64)
           in if k > 30 then True
              else let h = BloomHash key in probe_test k h (bloom_delta h) bits bloom_filter)"

subsection \<open>The contract of filter policies\<close>

locale filter_policy =
  fixes create :: "bytes list \<Rightarrow> bytes \<Rightarrow> bytes" and may_match :: "bytes \<Rightarrow> bytes \<Rightarrow> bool"
  assumes create_append: "create keys dst = dst @ create keys []"
    and match_all: "key \<in> set keys \<Longrightarrow> length keys < 2 ^ 31 \<Longrightarrow> may_match key (create keys [])"
begin

lemma match_suffix: "key \<in> set keys \<Longrightarrow> length keys < 2 ^ 31 \<Longrightarrow> may_match key (drop (length dst) (create keys dst))"
  by (subst create_append) (simp add: match_all)

end

subsection \<open>Bits are only set\<close>

definition array_le :: "bytes \<Rightarrow> bytes \<Rightarrow> bool" where
  "array_le a b \<longleftrightarrow> length a = length b \<and> (\<forall>i < length a. \<forall>j. bit (a ! i) j \<longrightarrow> bit (b ! i) j)"

lemma array_le_refl [simp]: "array_le a a"
  by (simp add: array_le_def)

lemma array_le_trans: "array_le a b \<Longrightarrow> array_le b c \<Longrightarrow> array_le a c"
  by (simp add: array_le_def)

lemma array_le_set: "array_le a (a[i := a ! i OR w])"
  by (cases "i < length a") (auto simp: array_le_def nth_list_update bit_simps)

lemma probe_set_le: "array_le array (probe_set k h delta bits array)"
proof (induction k arbitrary: h array)
  case (Suc k)
  then show ?case by (auto simp: Let_def intro: array_le_trans [OF array_le_set])
qed simp

lemma add_keys_le: "array_le array (add_keys k keys bits array)"
  by (induction k keys bits array rule: add_keys.induct) (auto simp: Let_def intro: array_le_trans [OF probe_set_le])

lemma probe_test_mono:
  assumes "array_le a b" "0 < bits" "bits \<le> 8 * length a"
  shows "probe_test k h delta bits a \<Longrightarrow> probe_test k h delta bits b"
proof (induction k arbitrary: h)
  case (Suc k)
  have "unat h mod bits div 8 < length a"
    using assms(2,3) mod_less_divisor [OF assms(2), of "unat h"] by linarith
  then show ?case using Suc assms(1) by (auto simp: Let_def and_exp_eq_0_iff_not_bit array_le_def split: if_splits)
qed simp

lemma probe_test_set:
  assumes "0 < bits" "bits \<le> 8 * length a"
  shows "probe_test k h delta bits (probe_set k h delta bits a)"
  using assms(2)
proof (induction k arbitrary: h a)
  case (Suc k)
  let ?p = "unat h mod bits"
  let ?a = "a[?p div 8 := a ! (?p div 8) OR push_bit (?p mod 8) 1]"
  have i: "?p div 8 < length a"
    using Suc.prems mod_less_divisor [OF assms(1), of "unat h"] by linarith
  have "bit (?a ! (?p div 8)) (?p mod 8)" using i by (simp add: bit_simps)
  moreover have le: "array_le ?a (probe_set k (h + delta) delta bits ?a)" by (rule probe_set_le)
  ultimately have "bit (probe_set k (h + delta) delta bits ?a ! (?p div 8)) (?p mod 8)"
    using i by (auto simp: array_le_def)
  then show ?case using Suc.IH [of ?a "h + delta"] Suc.prems by (simp add: Let_def and_exp_eq_0_iff_not_bit)
qed simp

lemma add_keys_test:
  assumes "key \<in> set keys" "0 < bits" "bits \<le> 8 * length a"
  shows "probe_test k (BloomHash key) (bloom_delta (BloomHash key)) bits (add_keys k keys bits a)"
  using assms
proof (induction k keys bits a rule: add_keys.induct)
  case (2 k key' keys bits a)
  let ?a = "probe_set k (BloomHash key') (bloom_delta (BloomHash key')) bits a"
  have l: "length ?a = length a" using probe_set_le by (simp add: array_le_def)
  show ?case
  proof (cases "key = key'")
    case True
    have "probe_test k (BloomHash key') (bloom_delta (BloomHash key')) bits ?a"
      using 2(4) \<open>0 < bits\<close> by (intro probe_test_set)
    then have "probe_test k (BloomHash key') (bloom_delta (BloomHash key')) bits (add_keys k keys bits ?a)"
      using 2(4) \<open>0 < bits\<close> l by (intro probe_test_mono [OF add_keys_le]) simp_all
    then show ?thesis using True by (simp add: Let_def)
  next
    case False
    then show ?thesis using 2 l by (simp add: Let_def)
  qed
qed simp

subsection \<open>Sizes\<close>

lemma bloom_bytes_bound:
  assumes "n * unat (bits_per_key p) < 2 ^ 60"
  shows "8 \<le> bloom_bytes p n"
proof -
  let ?b = "of_nat n * bits_per_key p :: u64"
  have "unat ?b = n * unat (bits_per_key p)"
    using assms by (simp add: unat_word_ariths unat_of_nat mod_mult_left_eq)
  then have "unat (if ?b < 64 then 64 else ?b) \<le> 2 ^ 60" "64 \<le> unat (if ?b < 64 then 64 else ?b)"
    using assms by (auto simp: word_less_nat_alt)
  then have "unat ((if ?b < 64 then 64 else ?b) + 7) \<ge> 64" by (simp add: unat_word_ariths)
  then have "8 \<le> unat ((if ?b < 64 then 64 else ?b) + 7) div 8" by simp
  then show ?thesis by (simp add: bloom_bytes_def Let_def unat_div_distrib)
qed

lemma length_probe_set [simp]: "length (probe_set k h delta bits a) = length a"
  using probe_set_le [of a k h delta bits] by (simp add: array_le_def)

lemma length_add_keys [simp]: "length (add_keys k keys bits a) = length a"
  using add_keys_le [of a k keys bits] by (simp add: array_le_def)

lemma mkBloom_k: "1 \<le> bloom_k (mkBloomFilterPolicy b)" "bloom_k (mkBloomFilterPolicy b) \<le> 30"
  by (simp_all add: mkBloomFilterPolicy_def Let_def)

lemma bloom_matches:
  assumes "key \<in> set keys" "length keys * unat (bits_per_key p) < 2 ^ 60" "bloom_k p \<le> 30"
  shows "Bloom_KeyMayMatch key (Bloom_CreateFilter p keys [])"
proof -
  let ?n = "bloom_bytes p (length keys)"
  let ?a = "add_keys (bloom_k p) keys (?n * 8) (replicate ?n 0)"
  have n: "8 \<le> ?n" by (rule bloom_bytes_bound [OF assms(2)])
  have le: "bloom_k p < 2 ^ 7" using assms(3) by simp
  have k: "unat (scast (of_nat (bloom_k p) :: byte) :: u64) = bloom_k p"
  proof -
    have "(scast (of_nat (bloom_k p) :: byte) :: u64) = of_nat (bloom_k p)"
      using le by (simp add: signed_of_nat signed_take_bit_int_eq_self)
    then show ?thesis using le by (simp add: unat_of_nat)
  qed
  have "probe_test (bloom_k p) (BloomHash key) (bloom_delta (BloomHash key)) (?n * 8) ?a"
    using n by (intro add_keys_test [OF assms(1)]) simp_all
  moreover have "probe_test j h d (?n * 8) (?a @ [x]) = probe_test j h d (?n * 8) ?a" for j h d x
  proof (induction j arbitrary: h)
    case (Suc j)
    have "unat h mod (?n * 8) < ?n * 8" using n by (intro mod_less_divisor) simp
    then have "unat h mod (?n * 8) div 8 < ?n" by linarith
    then show ?case using Suc by (simp add: Let_def nth_append)
  qed simp
  ultimately show ?thesis
    using n assms(3) by (simp add: Bloom_KeyMayMatch_def Bloom_CreateFilter_def Let_def k nth_append)
qed

lemma filter_policy_bloom:
  assumes "b < 2 ^ 29"
  shows "filter_policy (Bloom_CreateFilter (mkBloomFilterPolicy b)) Bloom_KeyMayMatch"
proof
  fix keys dst key
  show "Bloom_CreateFilter (mkBloomFilterPolicy b) keys dst = dst @ Bloom_CreateFilter (mkBloomFilterPolicy b) keys []"
    by (simp add: Bloom_CreateFilter_def Let_def)
  assume "key \<in> set keys" "length keys < 2 ^ 31"
  have "length keys * b < 2 ^ 31 * 2 ^ 29" using \<open>length keys < 2 ^ 31\<close> assms by (intro mult_strict_mono) simp_all
  then have "length keys * unat (bits_per_key (mkBloomFilterPolicy b)) < 2 ^ 60"
    using assms by (simp add: mkBloomFilterPolicy_def Let_def unat_of_nat)
  then show "Bloom_KeyMayMatch key (Bloom_CreateFilter (mkBloomFilterPolicy b) keys [])"
    using \<open>key \<in> set keys\<close> mkBloom_k by (intro bloom_matches) simp_all
qed

lemma filter_policy_internal:
  assumes "filter_policy create may_match"
  shows "filter_policy (InternalFilterPolicy_CreateFilter create) (InternalFilterPolicy_KeyMayMatch may_match)"
proof
  fix keys dst key
  show "InternalFilterPolicy_CreateFilter create keys dst = dst @ InternalFilterPolicy_CreateFilter create keys []"
    unfolding InternalFilterPolicy_CreateFilter_def by (rule filter_policy.create_append [OF assms])
  assume "key \<in> set keys" "length keys < 2 ^ 31"
  then show "InternalFilterPolicy_KeyMayMatch may_match key (InternalFilterPolicy_CreateFilter create keys [])"
    by (simp add: InternalFilterPolicy_KeyMayMatch_def InternalFilterPolicy_CreateFilter_def filter_policy.match_all [OF assms])
qed

text \<open>The policy that the documentation recommends, ten bits per key, on user keys and internal keys.\<close>

interpretation bloom: filter_policy "Bloom_CreateFilter (mkBloomFilterPolicy 10)" Bloom_KeyMayMatch
  by (rule filter_policy_bloom) simp

interpretation internal_bloom: filter_policy
  "InternalFilterPolicy_CreateFilter (Bloom_CreateFilter (mkBloomFilterPolicy 10))"
  "InternalFilterPolicy_KeyMayMatch Bloom_KeyMayMatch"
  by (rule filter_policy_internal [OF bloom.filter_policy_axioms])

end
