(* ===== verification/LdbFilterBlock.thy ===== *)
theory LdbFilterBlock
  imports LdbBloom
begin

text \<open>
  \<^verbatim>\<open>table/filter_block.cc\<close>: one filter for every 2 KiB of table data, with an array of offsets. The
  builder gets the file offset of every data block and the keys in it; the reader asks the filter of
  a block's offset. The main lemma: no key of a block is ever ruled out, for any policy that keeps
  the contract \<open>filter_policy\<close>.
\<close>

subsection \<open>The code\<close>

definition kFilterBaseLg :: nat where
  "kFilterBaseLg = 11"

definition kFilterBase :: u64 where
  "kFilterBase = push_bit kFilterBaseLg 1"

record FilterBlockBuilder =
  fb_keys :: bytes
  fb_start :: "nat list"
  fb_result :: bytes
  fb_offsets :: "u32 list"

definition mkFilterBlockBuilder :: FilterBlockBuilder where
  "mkFilterBlockBuilder = \<lparr>fb_keys = [], fb_start = [], fb_result = [], fb_offsets = []\<rparr>"

text \<open>\<open>tmp_keys_\<close>: the keys, cut out of the flattened string.\<close>

definition tmp_keys :: "FilterBlockBuilder \<Rightarrow> bytes list" where
  "tmp_keys b =
     (let start = fb_start b @ [length (fb_keys b)]
      in map (\<lambda>i. take (start ! (i + 1) - start ! i) (drop (start ! i) (fb_keys b))) [0..<length (fb_start b)])"

definition GenerateFilter :: "(bytes list \<Rightarrow> bytes \<Rightarrow> bytes) \<Rightarrow> FilterBlockBuilder \<Rightarrow> FilterBlockBuilder" where
  "GenerateFilter create b =
     (if length (fb_start b) = 0 then b\<lparr>fb_offsets := fb_offsets b @ [of_nat (length (fb_result b))]\<rparr>
      else b\<lparr>fb_offsets := fb_offsets b @ [of_nat (length (fb_result b))],
             fb_result := create (tmp_keys b) (fb_result b), fb_keys := [], fb_start := []\<rparr>)"

lemma length_offsets_Generate [simp]: "length (fb_offsets (GenerateFilter create b)) = Suc (length (fb_offsets b))"
  by (simp add: GenerateFilter_def)

function generate_loop :: "(bytes list \<Rightarrow> bytes \<Rightarrow> bytes) \<Rightarrow> nat \<Rightarrow> FilterBlockBuilder \<Rightarrow> FilterBlockBuilder" where
  "generate_loop create filter_index b =
     (if filter_index > length (fb_offsets b) then generate_loop create filter_index (GenerateFilter create b) else b)"
  by pat_completeness auto
termination by (relation "measure (\<lambda>(create, n, b). n - length (fb_offsets b))") auto

declare generate_loop.simps [simp del]

definition StartBlock :: "(bytes list \<Rightarrow> bytes \<Rightarrow> bytes) \<Rightarrow> u64 \<Rightarrow> FilterBlockBuilder \<Rightarrow> FilterBlockBuilder" where
  "StartBlock create block_offset b = generate_loop create (unat (block_offset div kFilterBase)) b"

definition AddKey :: "bytes \<Rightarrow> FilterBlockBuilder \<Rightarrow> FilterBlockBuilder" where
  "AddKey key b = b\<lparr>fb_start := fb_start b @ [length (fb_keys b)], fb_keys := fb_keys b @ key\<rparr>"

definition FilterBlock_Finish :: "(bytes list \<Rightarrow> bytes \<Rightarrow> bytes) \<Rightarrow> FilterBlockBuilder \<Rightarrow> bytes" where
  "FilterBlock_Finish create b =
     (let b = (if fb_start b \<noteq> [] then GenerateFilter create b else b);
          array_offset = of_nat (length (fb_result b));
          result = foldl PutFixed32 (fb_result b) (fb_offsets b)
      in PutFixed32 result array_offset @ [of_nat kFilterBaseLg])"

text \<open>
  The reader: \<open>data_\<close> and \<open>offset_\<close> are the whole contents and the position of the array in it;
  without a valid array \<open>num_\<close> is 0.
\<close>

record FilterBlockReader =
  fr_data :: bytes
  fr_offset :: nat
  fr_num :: nat
  fr_base_lg :: nat

definition mkFilterBlockReader :: "bytes \<Rightarrow> FilterBlockReader" where
  "mkFilterBlockReader cont =
     (let n = length cont; r = \<lparr>fr_data = [], fr_offset = 0, fr_num = 0, fr_base_lg = 0\<rparr>
      in if n < 5 then r
         else
           let r = r\<lparr>fr_base_lg := unat (scast (cont ! (n - 1)) :: u64)\<rparr>;
               last_word = unat (DecodeFixed32 (drop (n - 5) cont))
           in if last_word > n - 5 then r
              else r\<lparr>fr_data := cont, fr_offset := last_word, fr_num := (n - 5 - last_word) div 4\<rparr>)"

definition FilterBlock_KeyMayMatch ::
  "(bytes \<Rightarrow> bytes \<Rightarrow> bool) \<Rightarrow> FilterBlockReader \<Rightarrow> u64 \<Rightarrow> bytes \<Rightarrow> bool" where
  "FilterBlock_KeyMayMatch may_match r block_offset key =
     (let index = unat (drop_bit (fr_base_lg r) block_offset)
      in if index < fr_num r
         then
           let start = DecodeFixed32 (drop (fr_offset r + index * 4) (fr_data r));
               limit = DecodeFixed32 (drop (fr_offset r + index * 4 + 4) (fr_data r))
           in if start \<le> limit \<and> unat limit \<le> fr_offset r
              then may_match key (take (unat (limit - start)) (drop (unat start) (fr_data r)))
              else if start = limit then False
              else True
         else True)"

subsection \<open>The builder's state\<close>

text \<open>The pending keys, flattened.\<close>

definition starts_of :: "bytes list \<Rightarrow> nat list" where
  "starts_of ks = map (\<lambda>i. length (concat (take i ks))) [0..<length ks]"

lemma starts_of_snoc: "starts_of (ks @ [k]) = starts_of ks @ [length (concat ks)]"
  by (simp add: starts_of_def)

definition pending :: "bytes list \<Rightarrow> FilterBlockBuilder \<Rightarrow> bool" where
  "pending ks b \<longleftrightarrow> fb_keys b = concat ks \<and> fb_start b = starts_of ks"

lemma length_starts_of [simp]: "length (starts_of ks) = length ks"
  by (simp add: starts_of_def)

lemma tmp_keys_pending: "pending ks b \<Longrightarrow> tmp_keys b = ks"
proof (rule nth_equalityI)
  assume p: "pending ks b"
  then show "length (tmp_keys b) = length ks" by (simp add: tmp_keys_def pending_def Let_def)
  fix i assume "i < length (tmp_keys b)"
  then have i: "i < length ks" using p by (simp add: tmp_keys_def pending_def Let_def)
  let ?start = "starts_of ks @ [length (concat ks)]"
  have s: "?start ! j = length (concat (take j ks))" if "j \<le> length ks" for j
    using that by (cases "j = length ks") (simp_all add: nth_append, simp add: starts_of_def)
  have "concat ks = concat (take i ks) @ ks ! i @ concat (drop (Suc i) ks)"
    using i by (metis concat.simps(2) concat_append id_take_nth_drop)
  moreover have "length (concat (take (i + 1) ks)) - length (concat (take i ks)) = length (ks ! i)"
    using i by (simp add: take_Suc_conv_app_nth)
  ultimately have "take (?start ! (i + 1) - ?start ! i) (drop (?start ! i) (concat ks)) = ks ! i"
    using i s [of i] s [of "i + 1"] by simp
  then show "tmp_keys b ! i = ks ! i" using i p by (simp add: tmp_keys_def pending_def Let_def)
qed

text \<open>The bytes of filter \<open>i\<close>, given the offsets and the filter data.\<close>

definition segment :: "nat list \<Rightarrow> bytes \<Rightarrow> nat \<Rightarrow> bytes" where
  "segment os r i = take ((os @ [length r]) ! Suc i - os ! i) (drop (os ! i) r)"

lemma segment_append:
  assumes "i < length os" "sorted (os @ [length r])"
  shows "segment (os @ [length r]) (r @ f) i = segment os r i"
proof -
  let ?n = "(os @ [length r]) ! Suc i"
  have "?n \<in> set (os @ [length r])" using assms(1) by (intro nth_mem) simp
  then have le: "?n \<le> length r" using assms(2) by (auto simp: sorted_append)
  have "os ! i \<le> ?n"
    using sorted_nth_mono [OF assms(2), of i "Suc i"] assms(1) by (simp add: nth_append)
  then have "take (?n - os ! i) (drop (os ! i) (r @ f)) = take (?n - os ! i) (drop (os ! i) r)"
    using le by simp
  moreover have "(os @ [length r, length (r @ f)]) ! Suc i = ?n" using assms(1) by (simp add: nth_append)
  ultimately show ?thesis using assms(1) by (simp add: segment_def nth_append)
qed

lemma segment_last: "segment (os @ [length r]) (r @ f) (length os) = f"
  by (simp add: segment_def nth_append)

text \<open>
  The invariant: \<open>B\<close> are the keys added so far, with the index of the filter they belong to; each of
  them is matched by a finished filter or still pending.
\<close>

definition fb_inv ::
  "(bytes \<Rightarrow> bytes \<Rightarrow> bool) \<Rightarrow> (nat \<times> bytes) set \<Rightarrow> nat \<Rightarrow> FilterBlockBuilder \<Rightarrow> bool" where
  "fb_inv may_match B n b \<longleftrightarrow> (\<exists>ks os. pending ks b \<and> length ks \<le> n \<and> fb_offsets b = map of_nat os \<and>
     sorted (os @ [length (fb_result b)]) \<and>
     (\<forall>(i, k) \<in> B. i < length os \<and> may_match k (segment os (fb_result b) i) \<or> i = length os \<and> k \<in> set ks))"

context filter_policy
begin

lemma inv_Generate:
  assumes "fb_inv may_match B n b" "n < 2 ^ 31"
  shows "fb_inv may_match B n (GenerateFilter create b) \<and> fb_start (GenerateFilter create b) = []"
proof -
  obtain ks os where p: "pending ks b" and n: "length ks \<le> n" and os: "fb_offsets b = map of_nat os"
    "sorted (os @ [length (fb_result b)])"
    and B: "\<And>i k. (i, k) \<in> B \<Longrightarrow> i < length os \<and> may_match k (segment os (fb_result b) i) \<or> i = length os \<and> k \<in> set ks"
    using assms(1) unfolding fb_inv_def by blast
  let ?r = "fb_result b"
  show ?thesis
  proof (cases ks)
    case Nil
    then have z: "fb_start b = []" using p by (simp add: pending_def starts_of_def)
    have "i < length os \<and> may_match k (segment (os @ [length ?r]) ?r i)" if "(i, k) \<in> B" for i k
      using B [OF that] Nil segment_append [OF _ os(2), of i "[]"] by auto
    then have "fb_inv may_match B n (b\<lparr>fb_offsets := fb_offsets b @ [of_nat (length ?r)]\<rparr>)"
      unfolding fb_inv_def using p n os Nil
      by (intro exI [of _ ks] exI [of _ "os @ [length ?r]"]) (fastforce simp: pending_def sorted_append)
    then show ?thesis using z by (simp add: GenerateFilter_def)
  next
    case (Cons k0 ks0)
    define f where "f = create ks []"
    have r: "create (tmp_keys b) ?r = ?r @ f"
      unfolding tmp_keys_pending [OF p] f_def by (rule create_append)
    have "i < Suc (length os) \<and> may_match k (segment (os @ [length ?r]) (?r @ f) i)" if "(i, k) \<in> B" for i k
      using B [OF that]
    proof
      assume "i < length os \<and> may_match k (segment os ?r i)"
      then show ?thesis using segment_append [OF _ os(2), of i f] by simp
    next
      assume "i = length os \<and> k \<in> set ks"
      then show ?thesis using match_all [of k ks] n assms(2) by (simp add: segment_last f_def)
    qed
    then have "fb_inv may_match B n (b\<lparr>fb_offsets := fb_offsets b @ [of_nat (length ?r)], fb_result := ?r @ f,
        fb_keys := [], fb_start := []\<rparr>)"
      unfolding fb_inv_def using os
      by (intro exI [of _ "[]"] exI [of _ "os @ [length ?r]"]) (fastforce simp: pending_def sorted_append starts_of_def)
    moreover have "fb_start b \<noteq> []" using p Cons by (auto simp: pending_def starts_of_def)
    ultimately show ?thesis by (simp add: GenerateFilter_def r)
  qed
qed

lemma inv_generate_loop:
  assumes "n < 2 ^ 31" "fb_inv may_match B n b" "length (fb_offsets b) \<le> m"
  shows "fb_inv may_match B n (generate_loop create m b) \<and> length (fb_offsets (generate_loop create m b)) = m"
  using assms(2,3)
proof (induction "m - length (fb_offsets b)" arbitrary: b)
  case 0
  then show ?case by (simp add: generate_loop.simps)
next
  case (Suc j)
  then have "generate_loop create m b = generate_loop create m (GenerateFilter create b)"
    by (subst generate_loop.simps) simp
  then show ?case using Suc inv_Generate [OF Suc.prems(1) assms(1)] by simp
qed

lemma inv_AddKey:
  assumes "fb_inv may_match B n b"
  shows "fb_inv may_match (insert (length (fb_offsets b), k) B) (Suc n) (AddKey k b)"
proof -
  obtain ks os where *: "pending ks b" "length ks \<le> n" "fb_offsets b = map of_nat os"
    "sorted (os @ [length (fb_result b)])"
    "\<forall>(i, k) \<in> B. i < length os \<and> may_match k (segment os (fb_result b) i) \<or> i = length os \<and> k \<in> set ks"
    using assms unfolding fb_inv_def by blast
  then show ?thesis
    unfolding fb_inv_def
    by (intro exI [of _ "ks @ [k]"] exI [of _ os]) (fastforce simp: pending_def starts_of_snoc AddKey_def)
qed

lemma inv_AddKeys:
  assumes "fb_inv may_match B n b"
  shows "fb_inv may_match (B \<union> {length (fb_offsets b)} \<times> set ks) (n + length ks) (fold AddKey ks b) \<and>
    fb_offsets (fold AddKey ks b) = fb_offsets b"
  using assms
proof (induction ks arbitrary: B n b)
  case (Cons k ks)
  have "fb_offsets (AddKey k b) = fb_offsets b" by (simp add: AddKey_def)
  then show ?case
    using Cons.IH [OF inv_AddKey [OF Cons.prems, of k]] by (simp add: insert_Times_insert Un_commute)
qed simp

end

fun build :: "(bytes list \<Rightarrow> bytes \<Rightarrow> bytes) \<Rightarrow> (u64 \<times> bytes list) list \<Rightarrow> FilterBlockBuilder \<Rightarrow> FilterBlockBuilder" where
  "build create [] b = b"
| "build create ((off, ks) # blocks) b = build create blocks (fold AddKey ks (StartBlock create off b))"

definition filter_index :: "u64 \<Rightarrow> nat" where
  "filter_index off = unat (off div kFilterBase)"

definition block_keys :: "(u64 \<times> bytes list) list \<Rightarrow> (nat \<times> bytes) set" where
  "block_keys blocks = {(filter_index off, k) |off ks k. (off, ks) \<in> set blocks \<and> k \<in> set ks}"

lemma filter_index_eq: "filter_index off = unat off div 2048"
  by (simp add: filter_index_def kFilterBase_def kFilterBaseLg_def unat_div_distrib)

lemma filter_index_mono: "off \<le> off' \<Longrightarrow> filter_index off \<le> filter_index off'"
  by (simp add: filter_index_eq word_le_nat_alt div_le_mono)

context filter_policy
begin

lemma inv_build:
  assumes "fb_inv may_match B n b" "sorted (map fst blocks)" "\<forall>(off, ks) \<in> set blocks. length (fb_offsets b) \<le> filter_index off"
    and "n + length (concat (map snd blocks)) < 2 ^ 31"
  shows "fb_inv may_match (B \<union> block_keys blocks) (n + length (concat (map snd blocks))) (build create blocks b)"
  using assms
proof (induction blocks arbitrary: B n b)
  case Nil
  then show ?case by (simp add: block_keys_def)
next
  case (Cons bl blocks)
  obtain off ks where bl: "bl = (off, ks)" by fastforce
  let ?b = "StartBlock create off b"
  have st: "fb_inv may_match B n ?b" "length (fb_offsets ?b) = filter_index off"
    using inv_generate_loop [of n B b "filter_index off"] Cons.prems bl by (auto simp: StartBlock_def filter_index_def)
  let ?B = "B \<union> {filter_index off} \<times> set ks"
  have ad: "fb_inv may_match ?B (n + length ks) (fold AddKey ks ?b)" "fb_offsets (fold AddKey ks ?b) = fb_offsets ?b"
    using inv_AddKeys [OF st(1), of ks] st(2) by simp_all
  have later: "\<forall>(off', ks') \<in> set blocks. length (fb_offsets (fold AddKey ks ?b)) \<le> filter_index off'"
    using Cons.prems(2) bl ad(2) st(2) by (fastforce intro: filter_index_mono)
  have "block_keys (bl # blocks) = {filter_index off} \<times> set ks \<union> block_keys blocks"
    by (auto simp: block_keys_def bl)
  then show ?case
    using Cons.IH [OF ad(1) _ later] Cons.prems(2,4) bl by (simp add: Un_assoc add.assoc)
qed

end

subsection \<open>Reading the block back\<close>

lemma Finish_eq:
  assumes "fb_start b = []"
  shows "FilterBlock_Finish create b =
    fb_result b @ concat (map EncodeFixed32 (fb_offsets b @ [of_nat (length (fb_result b))])) @ [11]"
  using assms by (simp add: FilterBlock_Finish_def Let_def foldl_PutFixed32 PutFixed32_def kFilterBaseLg_def)

lemma reader_of_finished:
  assumes "length r < 2 ^ 32"
  shows "mkFilterBlockReader (r @ concat (map EncodeFixed32 (ws @ [of_nat (length r)])) @ [11]) =
    \<lparr>fr_data = r @ concat (map EncodeFixed32 (ws @ [of_nat (length r)])) @ [11], fr_offset = length r,
     fr_num = length ws, fr_base_lg = 11\<rparr>"
proof -
  define c where "c = r @ concat (map EncodeFixed32 (ws @ [of_nat (length r)])) @ [11]"
  have n: "length c = length r + 4 * length ws + 5" by (simp add: c_def length_fixed_array)
  have d: "drop (length c - 5) c = EncodeFixed32 (of_nat (length r)) @ [11]"
    unfolding n by (simp add: c_def length_fixed_array)
  have l: "c ! (length c - 1) = 11" unfolding n by (simp add: c_def nth_append length_fixed_array)
  have u: "unat (of_nat (length r) :: u32) = length r" using assms by (simp add: unat_of_nat)
  have s: "unat (scast (11 :: byte) :: u64) = 11" by simp
  show ?thesis
    unfolding c_def [symmetric] mkFilterBlockReader_def Let_def l d DecodeFixed32_Encode u s by (simp add: n)
qed

context filter_policy
begin

lemma finished_matches:
  assumes "fb_inv may_match B n b" "fb_start b = []" "length (FilterBlock_Finish create b) < 2 ^ 32" "(filter_index off, k) \<in> B"
  shows "FilterBlock_KeyMayMatch may_match (mkFilterBlockReader (FilterBlock_Finish create b)) off k"
proof -
  let ?r = "fb_result b" and ?i = "filter_index off"
  obtain ks os where p: "pending ks b" and os: "fb_offsets b = map of_nat os" "sorted (os @ [length ?r])"
    and B: "\<forall>(i, k) \<in> B. i < length os \<and> may_match k (segment os ?r i) \<or> i = length os \<and> k \<in> set ks"
    using assms(1) unfolding fb_inv_def by blast
  have "ks = []" using p assms(2) by (simp add: pending_def starts_of_def)
  then have m: "?i < length os" "may_match k (segment os ?r ?i)" using B assms(4) by auto
  let ?os = "os @ [length ?r]"
  let ?c = "?r @ concat (map EncodeFixed32 (map of_nat ?os)) @ [11]"
  have fin: "FilterBlock_Finish create b = ?c" using Finish_eq [OF assms(2)] os(1) by simp
  have r32: "length ?r < 2 ^ 32" using assms(3) unfolding fin by simp
  have le: "?os ! j \<le> length ?r" if "j \<le> length os" for j
  proof -
    have "?os ! j \<in> set ?os" using that by (intro nth_mem) simp
    then show ?thesis using os(2) by (auto simp: sorted_append)
  qed
  have mono: "?os ! ?i \<le> ?os ! Suc ?i" using sorted_nth_mono [OF os(2), of ?i "Suc ?i"] m(1) by simp
  have w: "DecodeFixed32 (drop (length ?r + j * 4) ?c) = of_nat (?os ! j)" if "j \<le> length os" for j
  proof -
    have "DecodeFixed32 (drop (length ?r + j * 4) ?c) = map of_nat ?os ! j" using that by (intro Decode_array) simp
    also have "\<dots> = of_nat (?os ! j)" using that by (intro nth_map) simp
    finally show ?thesis .
  qed
  have u: "unat (of_nat (?os ! j) :: u32) = ?os ! j" if "j \<le> length os" for j
    using le [OF that] r32 by (simp add: unat_of_nat)
  have start: "DecodeFixed32 (drop (length ?r + ?i * 4) ?c) = of_nat (?os ! ?i)" using w m(1) by simp
  have limit: "DecodeFixed32 (drop (length ?r + ?i * 4 + 4) ?c) = of_nat (?os ! Suc ?i)"
    using w [of "Suc ?i"] m(1) by (simp add: add.commute add.left_commute)
  have ord: "(of_nat (?os ! ?i) :: u32) \<le> of_nat (?os ! Suc ?i)"
    using mono u [of ?i] u [of "Suc ?i"] m(1) by (simp add: word_le_nat_alt)
  have seg: "take (unat (of_nat (?os ! Suc ?i) - of_nat (?os ! ?i) :: u32)) (drop (unat (of_nat (?os ! ?i) :: u32)) ?c) = segment os ?r ?i"
    using m(1) le [of ?i] le [of "Suc ?i"] mono u [of ?i] u [of "Suc ?i"] ord
    by (simp add: unat_sub segment_def nth_append)
  have idx: "unat (drop_bit 11 off) = ?i"
    by (simp only: unat_drop_bit_eq) (simp add: filter_index_eq drop_bit_eq_div)
  have reader: "mkFilterBlockReader ?c = \<lparr>fr_data = ?c, fr_offset = length ?r, fr_num = length os, fr_base_lg = 11\<rparr>"
    using reader_of_finished [OF r32, of "map of_nat os"] by simp
  have "unat (of_nat (?os ! Suc ?i) :: u32) \<le> length ?r" using u [of "Suc ?i"] le [of "Suc ?i"] m(1) by simp
  then show ?thesis
    unfolding fin reader FilterBlock_KeyMayMatch_def Let_def FilterBlockReader.simps idx start limit seg
    using m ord by simp
qed

lemma no_false_negative:
  assumes "sorted (map fst blocks)" "length (concat (map snd blocks)) < 2 ^ 31"
    and "length (FilterBlock_Finish create (build create blocks mkFilterBlockBuilder)) < 2 ^ 32"
    and "(off, ks) \<in> set blocks" "key \<in> set ks"
  shows "FilterBlock_KeyMayMatch may_match
    (mkFilterBlockReader (FilterBlock_Finish create (build create blocks mkFilterBlockBuilder))) off key"
proof -
  let ?b = "build create blocks mkFilterBlockBuilder"
  let ?B = "block_keys blocks" and ?n = "length (concat (map snd blocks))"
  have "fb_inv may_match {} 0 mkFilterBlockBuilder"
    by (auto simp: fb_inv_def pending_def starts_of_def mkFilterBlockBuilder_def intro!: exI [of _ "[]"])
  then have inv: "fb_inv may_match ?B ?n ?b"
    using inv_build [of "{}" 0 mkFilterBlockBuilder blocks] assms(1,2) by (auto simp: mkFilterBlockBuilder_def)
  let ?b' = "if fb_start ?b \<noteq> [] then GenerateFilter create ?b else ?b"
  have "FilterBlock_Finish create ?b = FilterBlock_Finish create ?b'"
    using inv_Generate [OF inv assms(2)] by (auto simp: FilterBlock_Finish_def Let_def)
  moreover have "fb_inv may_match ?B ?n ?b'" "fb_start ?b' = []" using inv inv_Generate [OF inv assms(2)] by simp_all
  moreover have "(filter_index off, key) \<in> ?B" using assms(4,5) by (auto simp: block_keys_def)
  ultimately show ?thesis using finished_matches assms(3) by metis
qed

end

subsection \<open>Properties\<close>

text \<open>
  C31: Filters never hide a key. For tables whose filter block was built with the Bloom policy over
  internal keys, from data blocks at increasing offsets, the reader answers "may match" for every
  key of every block, whatever the number of bits per key.
\<close>

theorem filter_block_no_false_negatives:
  assumes "b < 2 ^ 29" "sorted (map fst blocks)" "length (concat (map snd blocks)) < 2 ^ 31"
    and "create = InternalFilterPolicy_CreateFilter (Bloom_CreateFilter (mkBloomFilterPolicy b))"
    and "length (FilterBlock_Finish create (build create blocks mkFilterBlockBuilder)) < 2 ^ 32"
    and "(off, ks) \<in> set blocks" "key \<in> set ks"
  shows "FilterBlock_KeyMayMatch (InternalFilterPolicy_KeyMayMatch Bloom_KeyMayMatch)
    (mkFilterBlockReader (FilterBlock_Finish create (build create blocks mkFilterBlockBuilder))) off key"
proof -
  have "filter_policy create (InternalFilterPolicy_KeyMayMatch Bloom_KeyMayMatch)"
    unfolding assms(4) by (rule filter_policy_internal [OF filter_policy_bloom [OF assms(1)]])
  then show ?thesis by (rule filter_policy.no_false_negative [OF _ assms(2,3,5,6,7)])
qed

definition ex_create :: "bytes list \<Rightarrow> bytes \<Rightarrow> bytes" where
  "ex_create = InternalFilterPolicy_CreateFilter (Bloom_CreateFilter (mkBloomFilterPolicy 10))"

lemma ex_filter_length:
  "length (FilterBlock_Finish ex_create (build ex_create [(0, [[7, 1, 0, 0, 0, 0, 0, 0, 0]])] mkFilterBlockBuilder)) = 18"
  by (simp add: StartBlock_def generate_loop.simps AddKey_def mkFilterBlockBuilder_def FilterBlock_Finish_def
      GenerateFilter_def tmp_keys_def PutFixed32_def ex_create_def InternalFilterPolicy_CreateFilter_def
      Bloom_CreateFilter_def bloom_bytes_def mkBloomFilterPolicy_def Let_def)

theorem filter_block_no_false_negatives_witness:
  "FilterBlock_KeyMayMatch (InternalFilterPolicy_KeyMayMatch Bloom_KeyMayMatch)
    (mkFilterBlockReader (FilterBlock_Finish ex_create (build ex_create [(0, [[7, 1, 0, 0, 0, 0, 0, 0, 0]])] mkFilterBlockBuilder)))
    0 [7, 1, 0, 0, 0, 0, 0, 0, 0]"
  using filter_block_no_false_negatives [where b = 10 and blocks = "[(0, [[7, 1, 0, 0, 0, 0, 0, 0, 0]])]" and create = ex_create
      and off = 0 and ks = "[[7, 1, 0, 0, 0, 0, 0, 0, 0]]" and key = "[7, 1, 0, 0, 0, 0, 0, 0, 0]"] ex_filter_length
  by (simp add: ex_create_def del: build.simps)

end
