(* ===== verification/LdbIterator.thy ===== *)
theory LdbIterator
  imports LdbCompare LdbStatus
begin

text \<open>
  The iterator interface of \<^verbatim>\<open>include/leveldb/iterator.h\<close>, \<^verbatim>\<open>table/iterator.cc\<close> and
  \<^verbatim>\<open>table/iterator_wrapper.h\<close>. The abstract class is a record of its virtual methods over the
  type \<open>'s\<close> of the objects of one implementation. A method that moves returns the new object;
  \<open>None\<close> stands for a call that does not return or whose behaviour is undefined.

  The locale \<open>iterator_over\<close> is the contract of the interface: the object is at a position of a
  list of entries in key order, or behind its end when it is not valid. It is interpreted on the
  iterators of blocks, of two levels and of merged children; the clients of iterators rest on it.
\<close>

subsection \<open>The interface\<close>

record 's Iterator =
  it_Valid :: "'s \<Rightarrow> bool"
  it_SeekToFirst :: "'s \<Rightarrow> 's option"
  it_SeekToLast :: "'s \<Rightarrow> 's option"
  it_Seek :: "bytes \<Rightarrow> 's \<Rightarrow> 's option"
  it_Next :: "'s \<Rightarrow> 's option"
  it_Prev :: "'s \<Rightarrow> 's option"
  it_key :: "'s \<Rightarrow> bytes"
  it_value :: "'s \<Rightarrow> bytes"
  it_status :: "'s \<Rightarrow> Status"

subsection \<open>The empty iterator\<close>

text \<open>Its only member is the status; the methods that assert \<open>false\<close> have no defined result.\<close>

definition EmptyIterator :: "Status Iterator" where
  "EmptyIterator = \<lparr>it_Valid = (\<lambda>s. False), it_SeekToFirst = Some, it_SeekToLast = Some, it_Seek = (\<lambda>target. Some),
     it_Next = (\<lambda>s. None), it_Prev = (\<lambda>s. None), it_key = (\<lambda>s. []), it_value = (\<lambda>s. []), it_status = (\<lambda>s. s)\<rparr>"

definition NewEmptyIterator :: Status where
  "NewEmptyIterator = OK"

definition NewErrorIterator :: "Status \<Rightarrow> Status" where
  "NewErrorIterator status = status"

subsection \<open>Dynamic dispatch\<close>

text \<open>A pointer to an iterator of one of two classes.\<close>

definition sum_iterator :: "'s Iterator \<Rightarrow> 't Iterator \<Rightarrow> ('s + 't) Iterator" where
  "sum_iterator a b = \<lparr>it_Valid = case_sum (it_Valid a) (it_Valid b),
     it_SeekToFirst = case_sum (map_option Inl \<circ> it_SeekToFirst a) (map_option Inr \<circ> it_SeekToFirst b),
     it_SeekToLast = case_sum (map_option Inl \<circ> it_SeekToLast a) (map_option Inr \<circ> it_SeekToLast b),
     it_Seek = (\<lambda>t. case_sum (map_option Inl \<circ> it_Seek a t) (map_option Inr \<circ> it_Seek b t)),
     it_Next = case_sum (map_option Inl \<circ> it_Next a) (map_option Inr \<circ> it_Next b),
     it_Prev = case_sum (map_option Inl \<circ> it_Prev a) (map_option Inr \<circ> it_Prev b),
     it_key = case_sum (it_key a) (it_key b), it_value = case_sum (it_value a) (it_value b),
     it_status = case_sum (it_status a) (it_status b)\<rparr>"

text \<open>
  An object with its methods, as a pointer to a C++ object has them: the children of one client can
  be of different classes.
\<close>

definition dyn_iterator :: "('s Iterator \<times> 's) Iterator" where
  "dyn_iterator = \<lparr>it_Valid = (\<lambda>(v, s). it_Valid v s),
     it_SeekToFirst = (\<lambda>(v, s). map_option (Pair v) (it_SeekToFirst v s)),
     it_SeekToLast = (\<lambda>(v, s). map_option (Pair v) (it_SeekToLast v s)),
     it_Seek = (\<lambda>t (v, s). map_option (Pair v) (it_Seek v t s)),
     it_Next = (\<lambda>(v, s). map_option (Pair v) (it_Next v s)), it_Prev = (\<lambda>(v, s). map_option (Pair v) (it_Prev v s)),
     it_key = (\<lambda>(v, s). it_key v s), it_value = (\<lambda>(v, s). it_value v s), it_status = (\<lambda>(v, s). it_status v s)\<rparr>"

subsection \<open>Clean-up functions\<close>

text \<open>
  The member \<open>cleanup_\<close>: its function (\<open>None\<close> for NULL) and the linked nodes behind it. The
  destructor calls the functions in the order of the result.
\<close>

record 'f Cleanup =
  cleanup_function :: "'f option"
  cleanup_next :: "'f list"

definition mkCleanup :: "'f Cleanup" where
  "mkCleanup = \<lparr>cleanup_function = None, cleanup_next = []\<rparr>"

definition RegisterCleanup :: "'f \<Rightarrow> 'f Cleanup \<Rightarrow> 'f Cleanup" where
  "RegisterCleanup func c =
     (case cleanup_function c of
        None \<Rightarrow> c\<lparr>cleanup_function := Some func\<rparr>
      | Some f \<Rightarrow> c\<lparr>cleanup_next := func # cleanup_next c\<rparr>)"

definition destroy_Iterator :: "'f Cleanup \<Rightarrow> 'f list" where
  "destroy_Iterator c =
     (case cleanup_function c of None \<Rightarrow> [] | Some f \<Rightarrow> f # cleanup_next c)"

subsection \<open>The wrapper\<close>

text \<open>\<open>iter_\<close> is \<open>None\<close> for NULL; \<open>valid_\<close> and \<open>key_\<close> are the cached results.\<close>

record 's IteratorWrapper =
  iw_iter :: "'s option"
  iw_valid :: bool
  iw_key :: bytes

definition mkIteratorWrapper :: "'s IteratorWrapper" where
  "mkIteratorWrapper = \<lparr>iw_iter = None, iw_valid = False, iw_key = []\<rparr>"

definition Wrapper_Update :: "'s Iterator \<Rightarrow> 's \<Rightarrow> 's IteratorWrapper \<Rightarrow> 's IteratorWrapper" where
  "Wrapper_Update vt s w =
     (let w = w\<lparr>iw_iter := Some s, iw_valid := it_Valid vt s\<rparr>
      in if iw_valid w then w\<lparr>iw_key := it_key vt s\<rparr> else w)"

definition Wrapper_Set :: "'s Iterator \<Rightarrow> 's option \<Rightarrow> 's IteratorWrapper \<Rightarrow> 's IteratorWrapper" where
  "Wrapper_Set vt iter w =
     (case iter of
        None \<Rightarrow> w\<lparr>iw_iter := None, iw_valid := False\<rparr>
      | Some s \<Rightarrow> Wrapper_Update vt s w)"

text \<open>A method of the wrapped object, then \<open>Update()\<close>.\<close>

definition Wrapper_call ::
  "'s Iterator \<Rightarrow> ('s \<Rightarrow> 's option) \<Rightarrow> 's IteratorWrapper \<Rightarrow> 's IteratorWrapper option" where
  "Wrapper_call vt move w =
     (case iw_iter w of
        None \<Rightarrow> None
      | Some s \<Rightarrow> (case move s of None \<Rightarrow> None | Some s' \<Rightarrow> Some (Wrapper_Update vt s' w)))"

definition Wrapper_Next :: "'s Iterator \<Rightarrow> 's IteratorWrapper \<Rightarrow> 's IteratorWrapper option" where
  "Wrapper_Next vt w = Wrapper_call vt (it_Next vt) w"

definition Wrapper_Prev :: "'s Iterator \<Rightarrow> 's IteratorWrapper \<Rightarrow> 's IteratorWrapper option" where
  "Wrapper_Prev vt w = Wrapper_call vt (it_Prev vt) w"

definition Wrapper_Seek :: "'s Iterator \<Rightarrow> bytes \<Rightarrow> 's IteratorWrapper \<Rightarrow> 's IteratorWrapper option" where
  "Wrapper_Seek vt k w = Wrapper_call vt (it_Seek vt k) w"

definition Wrapper_SeekToFirst :: "'s Iterator \<Rightarrow> 's IteratorWrapper \<Rightarrow> 's IteratorWrapper option" where
  "Wrapper_SeekToFirst vt w = Wrapper_call vt (it_SeekToFirst vt) w"

definition Wrapper_SeekToLast :: "'s Iterator \<Rightarrow> 's IteratorWrapper \<Rightarrow> 's IteratorWrapper option" where
  "Wrapper_SeekToLast vt w = Wrapper_call vt (it_SeekToLast vt) w"

lemmas Wrapper_moves = Wrapper_Next_def Wrapper_Prev_def Wrapper_Seek_def Wrapper_SeekToFirst_def
  Wrapper_SeekToLast_def

text \<open>\<open>value()\<close> and \<open>status()\<close> ask the wrapped object, which is not NULL there.\<close>

definition Wrapper_value :: "'s Iterator \<Rightarrow> 's IteratorWrapper \<Rightarrow> bytes" where
  "Wrapper_value vt w = (case iw_iter w of Some s \<Rightarrow> it_value vt s | None \<Rightarrow> [])"

definition Wrapper_status :: "'s Iterator \<Rightarrow> 's IteratorWrapper \<Rightarrow> Status" where
  "Wrapper_status vt w = (case iw_iter w of Some s \<Rightarrow> it_status vt s | None \<Rightarrow> OK)"

text \<open>The wrapper holds an object and has its cached results.\<close>

definition wraps :: "'s Iterator \<Rightarrow> 's IteratorWrapper \<Rightarrow> 's \<Rightarrow> bool" where
  "wraps vt w s \<longleftrightarrow> iw_iter w = Some s \<and> iw_valid w = it_Valid vt s \<and> (it_Valid vt s \<longrightarrow> iw_key w = it_key vt s)"

lemma wraps_Update: "wraps vt (Wrapper_Update vt s w) s"
  by (simp add: wraps_def Wrapper_Update_def Let_def)

lemma wraps_Set: "wraps vt (Wrapper_Set vt (Some s) w) s"
  by (simp add: Wrapper_Set_def wraps_Update)

lemma wraps_call: "wraps vt w s \<Longrightarrow> move s = Some s' \<Longrightarrow> \<exists>w'. Wrapper_call vt move w = Some w' \<and> wraps vt w' s'"
  by (simp add: Wrapper_call_def wraps_def [of vt w] wraps_Update)

lemma wraps_value: "wraps vt w s \<Longrightarrow> Wrapper_value vt w = it_value vt s" "wraps vt w s \<Longrightarrow> Wrapper_status vt w = it_status vt s"
  by (simp_all add: wraps_def Wrapper_value_def Wrapper_status_def)

text \<open>
  The loops \<^verbatim>\<open>for (; iter->Valid(); iter->Next())\<close> and \<^verbatim>\<open>for (; iter->Valid(); iter->Prev())\<close>
  with which clients visit entries; the result lists the visited entries.
\<close>

partial_function (option) visit ::
  "'s Iterator \<Rightarrow> ('s \<Rightarrow> 's option) \<Rightarrow> 's \<Rightarrow> (bytes \<times> bytes) list option" where
  "visit vt move s =
     (if it_Valid vt s
      then
        Option.bind (move s) (\<lambda>s'.
          Option.bind (visit vt move s') (\<lambda>es. Some ((it_key vt s, it_value vt s) # es)))
      else Some [])"

subsection \<open>The contract\<close>

type_synonym entry = "bytes \<times> bytes"

text \<open>The position of the first entry whose key is at or past the target.\<close>

definition first_ge :: "(bytes \<Rightarrow> bytes \<Rightarrow> int) \<Rightarrow> bytes \<Rightarrow> entry list \<Rightarrow> nat" where
  "first_ge cmp target es = length (takeWhile (\<lambda>e. cmp (fst e) target < 0) es)"

lemma first_ge_le: "first_ge cmp t es \<le> length es"
  by (simp add: first_ge_def length_takeWhile_le)

lemma first_ge_before: "i < first_ge cmp t es \<Longrightarrow> cmp (fst (es ! i)) t < 0"
  unfolding first_ge_def by (metis nth_mem set_takeWhileD takeWhile_nth)

lemma first_ge_at: "first_ge cmp t es < length es \<Longrightarrow> 0 \<le> cmp (fst (es ! first_ge cmp t es)) t"
  unfolding first_ge_def by (metis not_less nth_length_takeWhile)

lemma first_ge_eqI:
  assumes "j \<le> length es" "\<And>i. i < j \<Longrightarrow> cmp (fst (es ! i)) t < 0" "j < length es \<Longrightarrow> 0 \<le> cmp (fst (es ! j)) t"
  shows "first_ge cmp t es = j"
proof (rule antisym)
  show "first_ge cmp t es \<le> j"
    using first_ge_before [of j cmp t es] first_ge_le [of cmp t es] assms(3) by (meson leD leI less_le_trans)
  show "j \<le> first_ge cmp t es" using first_ge_at [of cmp t es] assms(1,2) by (meson leD leI less_le_trans)
qed

text \<open>What a client gets from an iterator: all entries in both directions, and those from a target on.\<close>

definition delivers ::
  "'s Iterator \<Rightarrow> (bytes \<Rightarrow> bytes \<Rightarrow> int) \<Rightarrow> (bytes \<Rightarrow> bool) \<Rightarrow> entry list \<Rightarrow> 's \<Rightarrow> bool" where
  "delivers vt cmp ok es s \<longleftrightarrow>
     (\<exists>it. it_SeekToFirst vt s = Some it \<and> visit vt (it_Next vt) it = Some es) \<and>
     (\<exists>it. it_SeekToLast vt s = Some it \<and> visit vt (it_Prev vt) it = Some (rev es)) \<and>
     (\<forall>target. ok target \<longrightarrow>
       (\<exists>it. it_Seek vt target s = Some it \<and>
          visit vt (it_Next vt) it = Some (dropWhile (\<lambda>e. cmp (fst e) target < 0) es)))"

lemma drop_first_ge: "drop (first_ge cmp t es) es = dropWhile (\<lambda>e. cmp (fst e) t < 0) es"
  by (simp add: first_ge_def dropWhile_eq_drop)

text \<open>
  The abstract iterator: a position in a list. A client makes a sequence of moves; an object simulates
  the list when the moves that are defined for the list are defined for it and show the same.
\<close>

definition list_iterator :: "(bytes \<Rightarrow> bytes \<Rightarrow> int) \<Rightarrow> entry list \<Rightarrow> nat Iterator" where
  "list_iterator cmp es =
     \<lparr>it_Valid = (\<lambda>i. i < length es), it_SeekToFirst = (\<lambda>i. Some 0), it_SeekToLast = (\<lambda>i. Some (length es - 1)),
      it_Seek = (\<lambda>t i. Some (first_ge cmp t es)), it_Next = (\<lambda>i. if i < length es then Some (i + 1) else None),
      it_Prev = (\<lambda>i. if i < length es then Some (if i = 0 then length es else i - 1) else None),
      it_key = (\<lambda>i. fst (es ! i)), it_value = (\<lambda>i. snd (es ! i)), it_status = (\<lambda>i. OK)\<rparr>"

datatype move = To_First | To_Last | To bytes | Forth | Back

definition make_move :: "'s Iterator \<Rightarrow> move \<Rightarrow> 's \<Rightarrow> 's option" where
  "make_move vt m =
     (case m of To_First \<Rightarrow> it_SeekToFirst vt | To_Last \<Rightarrow> it_SeekToLast vt | To t \<Rightarrow> it_Seek vt t
      | Forth \<Rightarrow> it_Next vt | Back \<Rightarrow> it_Prev vt)"

fun make_moves :: "'s Iterator \<Rightarrow> move list \<Rightarrow> 's \<Rightarrow> 's option" where
  "make_moves vt [] s = Some s"
| "make_moves vt (m # ms) s = Option.bind (make_move vt m s) (make_moves vt ms)"

fun move_ok :: "(bytes \<Rightarrow> bool) \<Rightarrow> move \<Rightarrow> bool" where
  "move_ok ok (To t) = ok t"
| "move_ok ok _ = True"

text \<open>What an iterator shows: the entry it is at, if any.\<close>

definition shown :: "'s Iterator \<Rightarrow> 's \<Rightarrow> entry option" where
  "shown vt s = (if it_Valid vt s then Some (it_key vt s, it_value vt s) else None)"

definition simulates ::
  "'s Iterator \<Rightarrow> (bytes \<Rightarrow> bytes \<Rightarrow> int) \<Rightarrow> (bytes \<Rightarrow> bool) \<Rightarrow> entry list \<Rightarrow> 's \<Rightarrow> bool" where
  "simulates vt cmp ok es s \<longleftrightarrow>
     (\<forall>ms i. list_all (move_ok ok) ms \<longrightarrow> make_moves (list_iterator cmp es) ms (length es) = Some i \<longrightarrow>
        (\<exists>s'. make_moves vt ms s = Some s' \<and> shown vt s' = shown (list_iterator cmp es) i \<and> status_ok (it_status vt s')))"

locale iterator_over =
  fixes vt :: "'s Iterator" and cmp :: "bytes \<Rightarrow> bytes \<Rightarrow> int" and ok :: "bytes \<Rightarrow> bool"
    and es :: "entry list" and at :: "'s \<Rightarrow> nat \<Rightarrow> bool"
  assumes at_bound: "at s i \<Longrightarrow> i \<le> length es"
    and at_Valid: "at s i \<Longrightarrow> it_Valid vt s \<longleftrightarrow> i < length es"
    and at_entry: "at s i \<Longrightarrow> i < length es \<Longrightarrow> (it_key vt s, it_value vt s) = es ! i"
    and at_status: "at s i \<Longrightarrow> status_ok (it_status vt s)"
    and SeekToFirst: "at s i \<Longrightarrow> \<exists>s'. it_SeekToFirst vt s = Some s' \<and> at s' 0"
    and SeekToLast: "at s i \<Longrightarrow> \<exists>s'. it_SeekToLast vt s = Some s' \<and> at s' (length es - 1)"
    and Seek: "at s i \<Longrightarrow> ok t \<Longrightarrow> \<exists>s'. it_Seek vt t s = Some s' \<and> at s' (first_ge cmp t es)"
    and Next: "at s i \<Longrightarrow> i < length es \<Longrightarrow> \<exists>s'. it_Next vt s = Some s' \<and> at s' (i + 1)"
    and Prev: "at s i \<Longrightarrow> i < length es \<Longrightarrow>
      \<exists>s'. it_Prev vt s = Some s' \<and> at s' (if i = 0 then length es else i - 1)"
begin

text \<open>The moves through a wrapper.\<close>

definition at_wrapped :: "'s IteratorWrapper \<Rightarrow> nat \<Rightarrow> bool" where
  "at_wrapped w i \<longleftrightarrow> (\<exists>s. wraps vt w s \<and> at s i)"

lemma at_wrapped_facts:
  assumes "at_wrapped w i"
  shows "i \<le> length es" "iw_valid w \<longleftrightarrow> i < length es" "iw_iter w \<noteq> None" "status_ok (Wrapper_status vt w)"
    and "i < length es \<Longrightarrow> (iw_key w, Wrapper_value vt w) = es ! i"
  using assms at_bound at_Valid at_status at_entry
  by (auto simp: at_wrapped_def wraps_value) (auto simp: wraps_def)

lemma wrapped_moves:
  assumes "at_wrapped w i"
  shows "\<exists>w'. Wrapper_SeekToFirst vt w = Some w' \<and> at_wrapped w' 0"
    and "\<exists>w'. Wrapper_SeekToLast vt w = Some w' \<and> at_wrapped w' (length es - 1)"
    and "ok t \<Longrightarrow> \<exists>w'. Wrapper_Seek vt t w = Some w' \<and> at_wrapped w' (first_ge cmp t es)"
    and "i < length es \<Longrightarrow> \<exists>w'. Wrapper_Next vt w = Some w' \<and> at_wrapped w' (i + 1)"
    and "i < length es \<Longrightarrow> \<exists>w'. Wrapper_Prev vt w = Some w' \<and> at_wrapped w' (if i = 0 then length es else i - 1)"
  using assms SeekToFirst SeekToLast Seek [of _ _ t] Next Prev wraps_call [of vt w]
  unfolding at_wrapped_def Wrapper_moves by meson+

lemma visit_forward: "at s i \<Longrightarrow> visit vt (it_Next vt) s = Some (drop i es)"
proof (induction "length es - i" arbitrary: s i)
  case 0
  then show ?case using at_Valid [of s i] by (simp add: visit.simps [of vt _ s])
next
  case (Suc n)
  then have i: "i < length es" by simp
  obtain s' where s': "it_Next vt s = Some s'" "at s' (i + 1)" using Next [OF Suc.prems i] by blast
  have "visit vt (it_Next vt) s' = Some (drop (i + 1) es)" using Suc.hyps(1) [of "i + 1" s'] Suc.hyps(2) s'(2) by simp
  then show ?case
    using s'(1) i at_Valid [OF Suc.prems] at_entry [OF Suc.prems i]
    by (simp add: visit.simps [of vt _ s] Cons_nth_drop_Suc)
qed

lemma visit_backward: "at s i \<Longrightarrow> i < length es \<Longrightarrow> visit vt (it_Prev vt) s = Some (rev (take (i + 1) es))"
proof (induction i arbitrary: s)
  case 0
  obtain s' where s': "it_Prev vt s = Some s'" "at s' (length es)" using Prev [OF 0] by auto
  have "visit vt (it_Prev vt) s' = Some []" using at_Valid [OF s'(2)] by (simp add: visit.simps [of vt _ s'])
  then show ?case
    using s'(1) 0(2) at_Valid [OF 0(1)] at_entry [OF 0] by (simp add: visit.simps [of vt _ s] take_Suc_conv_app_nth)
next
  case (Suc i)
  obtain s' where s': "it_Prev vt s = Some s'" "at s' i" using Prev [OF Suc.prems] by auto
  then show ?case
    using Suc.IH [OF s'(2)] Suc.prems(2) at_Valid [OF Suc.prems(1)] at_entry [OF Suc.prems]
    by (simp add: visit.simps [of vt _ s] take_Suc_conv_app_nth)
qed

lemma at_delivers:
  assumes "at s i"
  shows "delivers vt cmp ok es s"
proof -
  have first: "\<exists>it. it_SeekToFirst vt s = Some it \<and> visit vt (it_Next vt) it = Some es"
    using SeekToFirst [OF assms] visit_forward by fastforce
  obtain l where l: "it_SeekToLast vt s = Some l" "at l (length es - 1)" using SeekToLast [OF assms] by blast
  have "visit vt (it_Prev vt) l = Some (rev es)"
    using visit_backward [OF l(2)] at_Valid [OF l(2)] by (cases "es = []") (simp_all add: visit.simps)
  with l(1) have last: "\<exists>it. it_SeekToLast vt s = Some it \<and> visit vt (it_Prev vt) it = Some (rev es)" by blast
  have "\<exists>it. it_Seek vt target s = Some it \<and> visit vt (it_Next vt) it = Some (dropWhile (\<lambda>e. cmp (fst e) target < 0) es)"
    if "ok target" for target
    using Seek [OF assms that] visit_forward unfolding drop_first_ge [symmetric] by blast
  with first last show ?thesis by (simp add: delivers_def)
qed

lemma at_move:
  assumes "at s i" "move_ok ok m" "make_move (list_iterator cmp es) m i = Some j"
  shows "\<exists>s'. make_move vt m s = Some s' \<and> at s' j"
  using assms SeekToFirst [of s i] SeekToLast [of s i] Seek [of s i] Next [of s i] Prev [of s i]
  by (cases m) (auto simp: make_move_def list_iterator_def split: if_splits)

lemma at_moves:
  assumes "at s i" "list_all (move_ok ok) ms" "make_moves (list_iterator cmp es) ms i = Some j"
  shows "\<exists>s'. make_moves vt ms s = Some s' \<and> at s' j"
  using assms
proof (induction ms arbitrary: s i)
  case (Cons m ms)
  obtain k where k: "make_move (list_iterator cmp es) m i = Some k" "make_moves (list_iterator cmp es) ms k = Some j"
    using Cons.prems(3) by (auto simp: bind_eq_Some_conv)
  obtain s' where s': "make_move vt m s = Some s'" "at s' k" using at_move [OF Cons.prems(1) _ k(1)] Cons.prems(2) by auto
  from Cons.IH [OF s'(2) _ k(2)] show ?case using Cons.prems(2) s'(1) by simp
qed simp

lemma at_simulates:
  assumes "at s (length es)"
  shows "simulates vt cmp ok es s"
proof -
  have "shown vt s' = shown (list_iterator cmp es) i \<and> status_ok (it_status vt s')" if "at s' i" for s' i
    using that at_Valid [OF that] at_entry [OF that] at_status [OF that] by (auto simp: shown_def list_iterator_def)
  then show ?thesis using at_moves [OF assms] unfolding simulates_def by blast
qed

end

interpretation empty_iterator: iterator_over EmptyIterator cmp ok "[]" "\<lambda>s i. status_ok s \<and> i = 0"
  by unfold_locales (auto simp: EmptyIterator_def first_ge_def)

lemma ex_map_Inl: "(\<exists>s. map_option Inl x = Some s \<and> case_sum f g s i) \<longleftrightarrow> (\<exists>s. x = Some s \<and> f s i)"
  by (cases x) auto

lemma ex_map_Inr: "(\<exists>s. map_option Inr x = Some s \<and> case_sum f g s i) \<longleftrightarrow> (\<exists>s. x = Some s \<and> g s i)"
  by (cases x) auto

text \<open>The contract holds for a pointer when it holds for the objects of both classes.\<close>

lemma iterator_over_sum:
  assumes "iterator_over a cmp ok es atA" "iterator_over b cmp ok es atB"
  shows "iterator_over (sum_iterator a b) cmp ok es (case_sum atA atB)"
proof
  fix s i
  assume at: "case_sum atA atB s i"
  note A = iterator_over.at_bound [OF assms(1)] iterator_over.at_Valid [OF assms(1)] iterator_over.at_entry [OF assms(1)]
    iterator_over.at_status [OF assms(1)] iterator_over.SeekToFirst [OF assms(1)] iterator_over.SeekToLast [OF assms(1)]
    iterator_over.Seek [OF assms(1)] iterator_over.Next [OF assms(1)] iterator_over.Prev [OF assms(1)]
  note B = iterator_over.at_bound [OF assms(2)] iterator_over.at_Valid [OF assms(2)] iterator_over.at_entry [OF assms(2)]
    iterator_over.at_status [OF assms(2)] iterator_over.SeekToFirst [OF assms(2)] iterator_over.SeekToLast [OF assms(2)]
    iterator_over.Seek [OF assms(2)] iterator_over.Next [OF assms(2)] iterator_over.Prev [OF assms(2)]
  note maps = sum_iterator_def ex_map_Inl ex_map_Inr
  show "i \<le> length es" using at A(1) B(1) by (cases s) auto
  show "it_Valid (sum_iterator a b) s \<longleftrightarrow> i < length es" using at A(2) B(2) by (cases s) (auto simp: maps simp del: map_option_eq_Some)
  show "status_ok (it_status (sum_iterator a b) s)" using at A(4) B(4) by (cases s) (auto simp: maps simp del: map_option_eq_Some)
  show "\<exists>s'. it_SeekToFirst (sum_iterator a b) s = Some s' \<and> case_sum atA atB s' 0"
    using at A(5) B(5) by (cases s) (auto simp: maps simp del: map_option_eq_Some)
  show "\<exists>s'. it_SeekToLast (sum_iterator a b) s = Some s' \<and> case_sum atA atB s' (length es - 1)"
    using at A(6) B(6) by (cases s) (auto simp: maps simp del: map_option_eq_Some)
  show "\<exists>s'. it_Seek (sum_iterator a b) t s = Some s' \<and> case_sum atA atB s' (first_ge cmp t es)" if "ok t" for t
    using at A(7) [OF _ that] B(7) [OF _ that] by (cases s) (auto simp: maps simp del: map_option_eq_Some)
  assume i: "i < length es"
  show "(it_key (sum_iterator a b) s, it_value (sum_iterator a b) s) = es ! i"
    using at A(3) [OF _ i] B(3) [OF _ i] by (cases s) (auto simp: maps simp del: map_option_eq_Some)
  show "\<exists>s'. it_Next (sum_iterator a b) s = Some s' \<and> case_sum atA atB s' (i + 1)"
    using at A(8) [OF _ i] B(8) [OF _ i] by (cases s) (auto simp: maps simp del: map_option_eq_Some)
  show "\<exists>s'. it_Prev (sum_iterator a b) s = Some s' \<and> case_sum atA atB s' (if i = 0 then length es else i - 1)"
    using at A(9) [OF _ i] B(9) [OF _ i] by (cases s) (simp_all add: maps del: map_option_eq_Some)
qed

text \<open>A new object that keeps the contract; it is behind the last entry.\<close>

definition iterates ::
  "'s Iterator \<Rightarrow> (bytes \<Rightarrow> bytes \<Rightarrow> int) \<Rightarrow> (bytes \<Rightarrow> bool) \<Rightarrow> entry list \<Rightarrow> 's \<Rightarrow> bool" where
  "iterates vt cmp ok es s \<longleftrightarrow> (\<exists>at. iterator_over vt cmp ok es at \<and> at s (length es))"

lemma iteratesI: "iterator_over vt cmp ok es at \<Longrightarrow> at s (length es) \<Longrightarrow> iterates vt cmp ok es s"
  by (auto simp: iterates_def)

lemma iterates_delivers: "iterates vt cmp ok es s \<Longrightarrow> delivers vt cmp ok es s"
  using iterator_over.at_delivers by (fastforce simp: iterates_def)

lemma iterates_simulates: "iterates vt cmp ok es s \<Longrightarrow> simulates vt cmp ok es s"
  using iterator_over.at_simulates by (fastforce simp: iterates_def)

lemma iterator_over_none: "iterator_over vt cmp ok es (\<lambda>s i. False)"
  by unfold_locales simp_all

lemma iterates_Inl: "iterates a cmp ok es s \<Longrightarrow> iterates (sum_iterator a b) cmp ok es (Inl s)"
  using iterator_over_sum [OF _ iterator_over_none [of b]] by (fastforce simp: iterates_def)

lemma iterates_Inr: "iterates b cmp ok es s \<Longrightarrow> iterates (sum_iterator a b) cmp ok es (Inr s)"
  using iterator_over_sum [OF iterator_over_none [of a]] by (fastforce simp: iterates_def)

definition dyn_at :: "'s Iterator \<Rightarrow> ('s \<Rightarrow> nat \<Rightarrow> bool) \<Rightarrow> 's Iterator \<times> 's \<Rightarrow> nat \<Rightarrow> bool" where
  "dyn_at v at p i \<longleftrightarrow> fst p = v \<and> at (snd p) i"

lemma ex_dyn_at: "(\<exists>p. map_option (Pair v) x = Some p \<and> dyn_at v at p j) \<longleftrightarrow> (\<exists>s. x = Some s \<and> at s j)"
  by (cases x) (auto simp: dyn_at_def)

lemma iterator_over_dyn:
  assumes "iterator_over v cmp ok es at"
  shows "iterator_over dyn_iterator cmp ok es (dyn_at v at)"
proof
  fix p i
  assume "dyn_at v at p i"
  then obtain s where p: "p = (v, s)" and a: "at s i" by (cases p) (auto simp: dyn_at_def)
  show "i \<le> length es" by (rule iterator_over.at_bound [OF assms a])
  show "it_Valid dyn_iterator p \<longleftrightarrow> i < length es"
    using iterator_over.at_Valid [OF assms a] by (simp add: dyn_iterator_def p)
  show "status_ok (it_status dyn_iterator p)"
    using iterator_over.at_status [OF assms a] by (simp add: dyn_iterator_def p)
  show "\<exists>p'. it_SeekToFirst dyn_iterator p = Some p' \<and> dyn_at v at p' 0"
    using iterator_over.SeekToFirst [OF assms a] by (simp only: dyn_iterator_def p ex_dyn_at Iterator.select_convs prod.case)
  show "\<exists>p'. it_SeekToLast dyn_iterator p = Some p' \<and> dyn_at v at p' (length es - 1)"
    using iterator_over.SeekToLast [OF assms a] by (simp only: dyn_iterator_def p ex_dyn_at Iterator.select_convs prod.case)
  show "\<exists>p'. it_Seek dyn_iterator t p = Some p' \<and> dyn_at v at p' (first_ge cmp t es)" if "ok t" for t
    using iterator_over.Seek [OF assms a that] by (simp only: dyn_iterator_def p ex_dyn_at Iterator.select_convs prod.case)
  assume i: "i < length es"
  show "(it_key dyn_iterator p, it_value dyn_iterator p) = es ! i"
    using iterator_over.at_entry [OF assms a i] by (simp add: dyn_iterator_def p)
  show "\<exists>p'. it_Next dyn_iterator p = Some p' \<and> dyn_at v at p' (i + 1)"
    using iterator_over.Next [OF assms a i] by (simp only: dyn_iterator_def p ex_dyn_at Iterator.select_convs prod.case)
  show "\<exists>p'. it_Prev dyn_iterator p = Some p' \<and> dyn_at v at p' (if i = 0 then length es else i - 1)"
    using iterator_over.Prev [OF assms a i] by (simp only: dyn_iterator_def p ex_dyn_at Iterator.select_convs prod.case)
qed

end
