(* ===== verification/LdbBlock.thy ===== *)
theory LdbBlock
  imports LdbIterator
begin

text \<open>
  The blocks of table files: \<^verbatim>\<open>table/block_builder.cc\<close> and \<^verbatim>\<open>table/block.cc\<close>. A block is a
  sequence of entries whose keys share prefixes with the key before, an array of restart points,
  and its length. Positions in a block are natural numbers; where the code keeps one in a
  \<^verbatim>\<open>uint32_t\<close> the reduction modulo $2^{32}$ is written out.

  The theory proves that the iterator of a finished block is an iterator over the entries that were
  added (an instance of \<open>iterator_over\<close>), and that no block contents whatsoever make it loop or read
  outside the block, as long as the sum of two lengths in an entry does not wrap around.
\<close>

subsection \<open>The builder\<close>

text \<open>\<open>options_->block_restart_interval\<close> is the argument \<open>interval\<close> of the operations.\<close>

record BlockBuilder =
  bb_buffer :: bytes
  bb_restarts :: "u32 list"
  bb_counter :: nat
  bb_finished :: bool
  bb_last_key :: bytes

definition mkBlockBuilder :: BlockBuilder where
  "mkBlockBuilder = \<lparr>bb_buffer = [], bb_restarts = [0], bb_counter = 0, bb_finished = False, bb_last_key = []\<rparr>"

definition BlockBuilder_Reset :: "BlockBuilder \<Rightarrow> BlockBuilder" where
  "BlockBuilder_Reset b =
     b\<lparr>bb_buffer := [], bb_restarts := [0], bb_counter := 0, bb_finished := False, bb_last_key := []\<rparr>"

definition CurrentSizeEstimate :: "BlockBuilder \<Rightarrow> nat" where
  "CurrentSizeEstimate b = length (bb_buffer b) + length (bb_restarts b) * 4 + 4"

definition BlockBuilder_Finish :: "BlockBuilder \<Rightarrow> bytes \<times> BlockBuilder" where
  "BlockBuilder_Finish b =
     (let buffer = foldl PutFixed32 (bb_buffer b) (bb_restarts b);
          buffer = PutFixed32 buffer (of_nat (length (bb_restarts b)))
      in (buffer, b\<lparr>bb_buffer := buffer, bb_finished := True\<rparr>))"

text \<open>
  The loop that counts the shared bytes is the one of \<open>FindShortestSeparator\<close>. The lengths are
  passed to \<open>PutVarint32\<close> as 32-bit numbers. The assertions of the code are requirements on its
  callers.
\<close>

definition BlockBuilder_Add :: "nat \<Rightarrow> bytes \<Rightarrow> bytes \<Rightarrow> BlockBuilder \<Rightarrow> BlockBuilder" where
  "BlockBuilder_Add interval key val b =
     (let last_key_piece = bb_last_key b;
          (shared, b) =
            (if bb_counter b < interval then (diff_index_loop last_key_piece key, b)
             else (0, b\<lparr>bb_restarts := bb_restarts b @ [of_nat (length (bb_buffer b))], bb_counter := 0\<rparr>));
          non_shared = length key - shared;
          buffer = PutVarint32 (bb_buffer b) (of_nat shared);
          buffer = PutVarint32 buffer (of_nat non_shared);
          buffer = PutVarint32 buffer (of_nat (length val));
          buffer = buffer @ take non_shared (drop shared key);
          buffer = buffer @ val
      in b\<lparr>bb_buffer := buffer, bb_last_key := take shared (bb_last_key b) @ take non_shared (drop shared key),
           bb_counter := bb_counter b + 1\<rparr>)"

definition BlockBuilder_empty :: "BlockBuilder \<Rightarrow> bool" where
  "BlockBuilder_empty b \<longleftrightarrow> bb_buffer b = []"

subsection \<open>Blocks\<close>

text \<open>\<open>data_\<close>, \<open>size_\<close> and \<open>restart_offset_\<close>, which stays unset (0) on an error.\<close>

record Block =
  blk_data :: bytes
  blk_size :: nat
  blk_restart_offset :: nat

definition NumRestarts :: "Block \<Rightarrow> nat" where
  "NumRestarts b = unat (DecodeFixed32 (drop (blk_size b - 4) (blk_data b)))"

definition mkBlock :: "bytes \<Rightarrow> Block" where
  "mkBlock cont =
     (let b = \<lparr>blk_data = cont, blk_size = length cont, blk_restart_offset = 0\<rparr>
      in if blk_size b < 4 then b\<lparr>blk_size := 0\<rparr>
         else
           let max_restarts_allowed = (blk_size b - 4) div 4
           in if NumRestarts b > max_restarts_allowed then b\<lparr>blk_size := 0\<rparr>
              else b\<lparr>blk_restart_offset := (blk_size b - ((1 + NumRestarts b) mod 2 ^ 32) * 4) mod 2 ^ 32\<rparr>)"

text \<open>\<open>p\<close> holds the bytes from the pointer to \<open>limit\<close>; the result has those behind the three lengths.\<close>

definition DecodeEntry :: "bytes \<Rightarrow> (u32 \<times> u32 \<times> u32 \<times> bytes) option" where
  "DecodeEntry p =
     (if length p < 3 then None
      else
        let shared = ucast (p ! 0) :: u32; non_shared = ucast (p ! 1) :: u32; value_length = ucast (p ! 2) :: u32;
            decoded =
              (if shared OR non_shared OR value_length < 128 then Some (shared, non_shared, value_length, drop 3 p)
               else
                 case GetVarint32Ptr p of
                   None \<Rightarrow> None
                 | Some (shared, p) \<Rightarrow>
                     (case GetVarint32Ptr p of
                        None \<Rightarrow> None
                      | Some (non_shared, p) \<Rightarrow>
                          (case GetVarint32Ptr p of
                             None \<Rightarrow> None
                           | Some (value_length, p) \<Rightarrow> Some (shared, non_shared, value_length, p))))
        in case decoded of
             None \<Rightarrow> None
           | Some (shared, non_shared, value_length, p) \<Rightarrow>
               if (of_nat (length p) :: u32) < non_shared + value_length then None
               else Some (shared, non_shared, value_length, p))"

subsection \<open>The iterator of a block\<close>

text \<open>
  \<open>value_\<close> is the position and the size of a slice of the block; \<open>None\<close> is the empty slice of
  \<^verbatim>\<open>Slice()\<close> and \<^verbatim>\<open>clear()\<close>, which points elsewhere. \<open>restart_index_\<close> is less than the number of
  restarts wherever the code adds one to it, so the sum does not wrap.
\<close>

record Iter =
  bi_data :: bytes
  bi_restarts :: nat
  bi_num_restarts :: nat
  bi_current :: nat
  bi_restart_index :: nat
  bi_key :: bytes
  bi_value :: "(nat \<times> nat) option"
  bi_status :: Status

definition mkIter :: "bytes \<Rightarrow> nat \<Rightarrow> nat \<Rightarrow> Iter" where
  "mkIter dat restarts num_restarts =
     \<lparr>bi_data = dat, bi_restarts = restarts, bi_num_restarts = num_restarts, bi_current = restarts,
      bi_restart_index = num_restarts, bi_key = [], bi_value = None, bi_status = OK\<rparr>"

definition NextEntryOffset :: "Iter \<Rightarrow> nat option" where
  "NextEntryOffset it = (case bi_value it of None \<Rightarrow> None | Some (off, n) \<Rightarrow> Some ((off + n) mod 2 ^ 32))"

definition GetRestartPoint :: "Iter \<Rightarrow> nat \<Rightarrow> nat" where
  "GetRestartPoint it index = unat (DecodeFixed32 (drop (bi_restarts it + index * 4) (bi_data it)))"

definition SeekToRestartPoint :: "nat \<Rightarrow> Iter \<Rightarrow> Iter" where
  "SeekToRestartPoint index it =
     it\<lparr>bi_key := [], bi_restart_index := index, bi_value := Some (GetRestartPoint it index, 0)\<rparr>"

definition Iter_Valid :: "Iter \<Rightarrow> bool" where
  "Iter_Valid it \<longleftrightarrow> bi_current it < bi_restarts it"

definition Iter_value :: "Iter \<Rightarrow> bytes" where
  "Iter_value it = (case bi_value it of None \<Rightarrow> [] | Some (off, n) \<Rightarrow> take n (drop off (bi_data it)))"

definition CorruptionError :: "Iter \<Rightarrow> Iter" where
  "CorruptionError it =
     it\<lparr>bi_current := bi_restarts it, bi_restart_index := bi_num_restarts it,
        bi_status := Corruption (lit ''bad entry in block'') [], bi_key := [], bi_value := None\<rparr>"

function advance_restart :: "Iter \<Rightarrow> Iter" where
  "advance_restart it =
     (if bi_restart_index it + 1 < bi_num_restarts it \<and>
         GetRestartPoint it (bi_restart_index it + 1) < bi_current it
      then advance_restart (it\<lparr>bi_restart_index := bi_restart_index it + 1\<rparr>)
      else it)"
  by pat_completeness auto
termination by (relation "measure (\<lambda>it. bi_num_restarts it - bi_restart_index it)") auto

declare advance_restart.simps [simp del]

text \<open>
  \<open>None\<close> where the end of the previous entry is not a position of the block, and where the entry
  extends past the bytes of the block: then \<^verbatim>\<open>key_.append\<close> reads, and \<open>value_\<close> points, outside.
\<close>

definition ParseNextKey :: "Iter \<Rightarrow> (bool \<times> Iter) option" where
  "ParseNextKey it =
     (case NextEntryOffset it of
        None \<Rightarrow> None
      | Some cur \<Rightarrow>
          let it = it\<lparr>bi_current := cur\<rparr>; limit = bi_restarts it
          in if cur \<ge> limit
             then Some (False, it\<lparr>bi_current := bi_restarts it, bi_restart_index := bi_num_restarts it\<rparr>)
             else
               case DecodeEntry (drop cur (take limit (bi_data it))) of
                 None \<Rightarrow> Some (False, CorruptionError it)
               | Some (shared, non_shared, value_length, rest) \<Rightarrow>
                   if length (bi_key it) < unat shared then Some (False, CorruptionError it)
                   else
                     let p = limit - length rest
                     in if length (bi_data it) < p + unat non_shared + unat value_length then None
                        else
                          Some (True, advance_restart
                            (it\<lparr>bi_key := take (unat shared) (bi_key it) @ take (unat non_shared) (drop p (bi_data it)),
                                bi_value := Some (p + unat non_shared, unat value_length)\<rparr>)))"

definition Iter_Next :: "Iter \<Rightarrow> Iter option" where
  "Iter_Next it = map_option snd (ParseNextKey it)"

text \<open>The loops \<^verbatim>\<open>while (ParseNextKey() && NextEntryOffset() < bound)\<close> of \<open>Prev\<close> and \<open>SeekToLast\<close>.\<close>

partial_function (option) skip_until :: "nat \<Rightarrow> Iter \<Rightarrow> Iter option" where
  "skip_until bound it =
     Option.bind (ParseNextKey it) (\<lambda>r.
       if fst r
       then Option.bind (NextEntryOffset (snd r)) (\<lambda>off. if off < bound then skip_until bound (snd r) else Some (snd r))
       else Some (snd r))"

text \<open>The loop of \<open>Prev\<close> over the restart points: \<open>None\<close> when there is none before \<open>original\<close>.\<close>

primrec restart_before :: "Iter \<Rightarrow> nat \<Rightarrow> nat \<Rightarrow> nat option" where
  "restart_before it original 0 = (if GetRestartPoint it 0 \<ge> original then None else Some 0)"
| "restart_before it original (Suc index) =
     (if GetRestartPoint it (Suc index) \<ge> original then restart_before it original index else Some (Suc index))"

definition Iter_Prev :: "Iter \<Rightarrow> Iter option" where
  "Iter_Prev it =
     (let original = bi_current it
      in case restart_before it original (bi_restart_index it) of
           None \<Rightarrow> Some (it\<lparr>bi_current := bi_restarts it, bi_restart_index := bi_num_restarts it\<rparr>)
         | Some index \<Rightarrow> skip_until original (SeekToRestartPoint index it))"

text \<open>
  The binary search of \<open>Seek\<close>: one round, which gives the new bounds or \<open>Inl\<close> for an error, and
  the loop. \<open>None\<close> inside a round is an entry that extends past the block.
\<close>

definition seek_round ::
  "(bytes \<Rightarrow> bytes \<Rightarrow> int) \<Rightarrow> bytes \<Rightarrow> Iter \<Rightarrow> nat \<Rightarrow> nat \<Rightarrow> (unit + nat \<times> nat) option" where
  "seek_round cmp target it left right =
     (let mid = ((left + right + 1) mod 2 ^ 32) div 2;
          region_offset = GetRestartPoint it mid
      in case DecodeEntry (drop region_offset (take (bi_restarts it) (bi_data it))) of
           None \<Rightarrow> Some (Inl ())
         | Some (shared, non_shared, value_length, rest) \<Rightarrow>
             if shared \<noteq> 0 then Some (Inl ())
             else
               let key_ptr = bi_restarts it - length rest
               in if length (bi_data it) < key_ptr + unat non_shared then None
                  else
                    let mid_key = take (unat non_shared) (drop key_ptr (bi_data it))
                    in if cmp mid_key target < 0 then Some (Inr (mid, right)) else Some (Inr (left, mid - 1)))"

partial_function (option) seek_bounds ::
  "(bytes \<Rightarrow> bytes \<Rightarrow> int) \<Rightarrow> bytes \<Rightarrow> Iter \<Rightarrow> nat \<Rightarrow> nat \<Rightarrow> (unit + nat) option" where
  "seek_bounds cmp target it left right =
     (if left < right
      then
        Option.bind (seek_round cmp target it left right) (\<lambda>r.
          case r of Inl e \<Rightarrow> Some (Inl e) | Inr b \<Rightarrow> seek_bounds cmp target it (fst b) (snd b))
      else Some (Inr left))"

partial_function (option) seek_linear :: "(bytes \<Rightarrow> bytes \<Rightarrow> int) \<Rightarrow> bytes \<Rightarrow> Iter \<Rightarrow> Iter option" where
  "seek_linear cmp target it =
     Option.bind (ParseNextKey it) (\<lambda>r.
       if \<not> fst r then Some (snd r)
       else if cmp (bi_key (snd r)) target \<ge> 0 then Some (snd r)
       else seek_linear cmp target (snd r))"

definition Iter_Seek :: "(bytes \<Rightarrow> bytes \<Rightarrow> int) \<Rightarrow> bytes \<Rightarrow> Iter \<Rightarrow> Iter option" where
  "Iter_Seek cmp target it =
     (case seek_bounds cmp target it 0 (bi_num_restarts it - 1) of
        None \<Rightarrow> None
      | Some (Inl e) \<Rightarrow> Some (CorruptionError it)
      | Some (Inr left) \<Rightarrow> seek_linear cmp target (SeekToRestartPoint left it))"

definition Iter_SeekToFirst :: "Iter \<Rightarrow> Iter option" where
  "Iter_SeekToFirst it = map_option snd (ParseNextKey (SeekToRestartPoint 0 it))"

definition Iter_SeekToLast :: "Iter \<Rightarrow> Iter option" where
  "Iter_SeekToLast it = skip_until (bi_restarts it) (SeekToRestartPoint (bi_num_restarts it - 1) it)"

definition Block_Iter :: "(bytes \<Rightarrow> bytes \<Rightarrow> int) \<Rightarrow> Iter Iterator" where
  "Block_Iter cmp = \<lparr>it_Valid = Iter_Valid, it_SeekToFirst = Iter_SeekToFirst, it_SeekToLast = Iter_SeekToLast,
     it_Seek = Iter_Seek cmp, it_Next = Iter_Next, it_Prev = Iter_Prev, it_key = bi_key, it_value = Iter_value,
     it_status = bi_status\<rparr>"

text \<open>The object \<open>NewIterator\<close> returns is an \<open>Iter\<close> or an \<open>EmptyIterator\<close>.\<close>

type_synonym BlockIterator = "Iter + Status"

definition BlockIterator :: "(bytes \<Rightarrow> bytes \<Rightarrow> int) \<Rightarrow> BlockIterator Iterator" where
  "BlockIterator cmp = sum_iterator (Block_Iter cmp) EmptyIterator"

definition Block_NewIterator :: "Block \<Rightarrow> BlockIterator" where
  "Block_NewIterator b =
     (if blk_size b < 4 then Inr (NewErrorIterator (Corruption (lit ''bad block contents'') []))
      else
        let num_restarts = NumRestarts b
        in if num_restarts = 0 then Inr NewEmptyIterator
           else Inl (mkIter (blk_data b) (blk_restart_offset b) num_restarts))"

end
