(* ===== verification/LdbBlockProof.thy ===== *)
theory LdbBlockProof
  imports LdbBlock
begin

text \<open>
  The correctness of blocks: the layout the builder writes, the moves of the iterator on it (an
  instance of \<open>iterator_over\<close>).
\<close>

subsection \<open>The layout of a finished block\<close>

definition shared_of :: "nat \<Rightarrow> entry list \<Rightarrow> nat \<Rightarrow> nat" where
  "shared_of R es i = (if i mod R = 0 then 0 else diff_index_loop (fst (es ! (i - 1))) (fst (es ! i)))"

definition entry_bytes :: "nat \<Rightarrow> entry list \<Rightarrow> nat \<Rightarrow> bytes" where
  "entry_bytes R es i =
     (let (key, val) = es ! i; shared = shared_of R es i
      in EncodeVarint32 (of_nat shared) @ EncodeVarint32 (of_nat (length key - shared)) @
         EncodeVarint32 (of_nat (length val)) @ drop shared key @ val)"

definition entries_bytes :: "nat \<Rightarrow> entry list \<Rightarrow> nat \<Rightarrow> bytes" where
  "entries_bytes R es i = concat (map (entry_bytes R es) [0..<i])"

definition entry_offset :: "nat \<Rightarrow> entry list \<Rightarrow> nat \<Rightarrow> nat" where
  "entry_offset R es i = length (entries_bytes R es i)"

definition num_restarts :: "nat \<Rightarrow> nat \<Rightarrow> nat" where
  "num_restarts R n = (n - 1) div R + 1"

definition restart_points :: "nat \<Rightarrow> entry list \<Rightarrow> u32 list" where
  "restart_points R es = map (\<lambda>k. of_nat (entry_offset R es (k * R))) [0..<num_restarts R (length es)]"

definition add_entries :: "nat \<Rightarrow> entry list \<Rightarrow> BlockBuilder \<Rightarrow> BlockBuilder" where
  "add_entries R es b = fold (\<lambda>(key, val). BlockBuilder_Add R key val) es b"

lemma entry_bytes_append: "i < length es \<Longrightarrow> entry_bytes R (es @ fs) i = entry_bytes R es i"
  by (auto simp: entry_bytes_def shared_of_def nth_append)

lemma entries_bytes_append: "i \<le> length es \<Longrightarrow> entries_bytes R (es @ fs) i = entries_bytes R es i"
  unfolding entries_bytes_def by (intro arg_cong [where f = concat] map_cong) (auto simp: entry_bytes_append)

lemma entry_offset_append: "i \<le> length es \<Longrightarrow> entry_offset R (es @ fs) i = entry_offset R es i"
  by (simp add: entry_offset_def entries_bytes_append)

lemma entries_bytes_0 [simp]: "entries_bytes R es 0 = []" "entry_offset R es 0 = 0"
  by (simp_all add: entries_bytes_def entry_offset_def)

lemma entries_bytes_Suc: "entries_bytes R es (Suc i) = entries_bytes R es i @ entry_bytes R es i"
  by (simp add: entries_bytes_def)

lemma num_restarts_0 [simp]: "num_restarts R 0 = 1" "0 < R \<Longrightarrow> num_restarts R (Suc 0) = 1"
  by (simp_all add: num_restarts_def)

lemma num_restarts_Suc:
  assumes "0 < R" "0 < n"
  shows "num_restarts R (Suc n) = (if n mod R = 0 then Suc (num_restarts R n) else num_restarts R n)"
    and "n mod R = 0 \<Longrightarrow> num_restarts R n * R = n"
    and "(n - 1) mod R + 1 < R \<longleftrightarrow> n mod R \<noteq> 0"
    and "n mod R = 0 \<Longrightarrow> (n - 1) mod R + 1 = R" "n mod R \<noteq> 0 \<Longrightarrow> n mod R = (n - 1) mod R + 1"
proof -
  obtain m where m: "n = Suc m" using assms(2) gr0_implies_Suc by blast
  have less: "m mod R < R" using assms(1) by simp
  show "num_restarts R (Suc n) = (if n mod R = 0 then Suc (num_restarts R n) else num_restarts R n)"
    unfolding m num_restarts_def by (simp add: div_Suc mod_Suc)
  show z: "n mod R = 0 \<Longrightarrow> (n - 1) mod R + 1 = R" unfolding m by (simp add: mod_Suc split: if_splits)
  show "n mod R = 0 \<Longrightarrow> num_restarts R n * R = n"
    using z div_mult_mod_eq [of m R] by (simp only: m num_restarts_def add_mult_distrib diff_Suc_1) linarith
  show "(n - 1) mod R + 1 < R \<longleftrightarrow> n mod R \<noteq> 0"
    using less unfolding m by (auto simp: mod_Suc)
  show "n mod R \<noteq> 0 \<Longrightarrow> n mod R = (n - 1) mod R + 1" unfolding m by (simp add: mod_Suc split: if_splits)
qed

lemma diff_index_loop_le: "diff_index_loop a b \<le> length a" "diff_index_loop a b \<le> length b"
  by (induction a b rule: diff_index_loop.induct) auto

lemma diff_index_loop_take: "take (diff_index_loop a b) a = take (diff_index_loop a b) b"
  by (induction a b rule: diff_index_loop.induct) auto

lemma diff_index_loop_join: "take (diff_index_loop a b) a @ drop (diff_index_loop a b) b = b"
  using diff_index_loop_take [of a b] by (metis append_take_drop_id)

lemma diff_index_loop_Nil [simp]: "diff_index_loop [] b = 0"
  by (cases b) simp_all

definition builder_of :: "nat \<Rightarrow> entry list \<Rightarrow> BlockBuilder" where
  "builder_of R es =
     \<lparr>bb_buffer = entries_bytes R es (length es), bb_restarts = restart_points R es,
      bb_counter = (if es = [] then 0 else (length es - 1) mod R + 1), bb_finished = False,
      bb_last_key = (if es = [] then [] else fst (last es))\<rparr>"

lemma restart_points_snoc:
  assumes "0 < R"
  shows "restart_points R (es @ [e]) =
    restart_points R es @ (if es \<noteq> [] \<and> length es mod R = 0 then [of_nat (entry_offset R es (length es))] else [])"
proof (cases "es = []")
  case False
  have le: "k * R \<le> length es" if "k < num_restarts R (length es)" for k
  proof -
    have "k * R \<le> (length es - 1) div R * R" using that by (simp add: num_restarts_def)
    then show ?thesis using div_times_less_eq_dividend [of "length es - 1" R] by linarith
  qed
  then have "map (\<lambda>k. of_nat (entry_offset R (es @ [e]) (k * R))) [0..<num_restarts R (length es)] = restart_points R es"
    by (simp add: restart_points_def entry_offset_append)
  then show ?thesis
    using False num_restarts_Suc(1,2) [OF assms, of "length es"]
    by (auto simp: restart_points_def entry_offset_append)
qed (use assms in \<open>simp add: restart_points_def\<close>)

lemma builder_of_snoc:
  assumes "0 < R"
  shows "BlockBuilder_Add R key val (builder_of R es) = builder_of R (es @ [(key, val)])"
proof -
  let ?n = "length es" and ?es = "es @ [(key, val)]"
  have sh: "shared_of R ?es ?n = (if ?n mod R = 0 then 0 else diff_index_loop (fst (es ! (?n - 1))) key)"
    by (cases "es = []") (auto simp: shared_of_def nth_append)
  have eb: "entry_bytes R ?es ?n =
      EncodeVarint32 (of_nat (shared_of R ?es ?n)) @ EncodeVarint32 (of_nat (length key - shared_of R ?es ?n)) @
      EncodeVarint32 (of_nat (length val)) @ drop (shared_of R ?es ?n) key @ val"
    by (simp add: entry_bytes_def Let_def)
  have buf: "entries_bytes R ?es (Suc ?n) = entries_bytes R es ?n @ entry_bytes R ?es ?n"
    by (simp add: entries_bytes_Suc entries_bytes_append)
  show ?thesis
  proof (cases "es = []")
    case True
    then show ?thesis
      using assms buf eb sh restart_points_snoc [OF assms, of es "(key, val)"]
      by (simp add: BlockBuilder_Add_def builder_of_def PutVarint32_def restart_points_def)
  next
    case False
    then have n: "0 < ?n" "es ! (?n - 1) = last es" by (simp_all add: last_conv_nth)
    note R = num_restarts_Suc [OF assms n(1)]
    show ?thesis
      using False n(2) buf eb sh restart_points_snoc [OF assms, of es "(key, val)"] R(3-5)
        diff_index_loop_join [of "fst (last es)" key]
      by (simp add: BlockBuilder_Add_def builder_of_def PutVarint32_def entry_offset_def)
  qed
qed

lemma add_entries_eq: "0 < R \<Longrightarrow> add_entries R es mkBlockBuilder = builder_of R es"
proof (induction es rule: rev_induct)
  case Nil
  then show ?case by (simp add: add_entries_def mkBlockBuilder_def builder_of_def restart_points_def)
next
  case (snoc e es)
  then show ?case by (cases e) (simp add: add_entries_def builder_of_snoc)
qed

definition block_bytes :: "nat \<Rightarrow> entry list \<Rightarrow> bytes" where
  "block_bytes R es = entries_bytes R es (length es) @ concat (map EncodeFixed32 (restart_points R es)) @
     EncodeFixed32 (of_nat (num_restarts R (length es)))"

lemma Finish_builder_of: "fst (BlockBuilder_Finish (builder_of R es)) = block_bytes R es"
  by (simp add: BlockBuilder_Finish_def builder_of_def foldl_PutFixed32 PutFixed32_def block_bytes_def
      restart_points_def Let_def)

lemma length_block_bytes:
  "length (block_bytes R es) = entry_offset R es (length es) + 4 * num_restarts R (length es) + 4"
  by (simp add: block_bytes_def length_fixed_array entry_offset_def restart_points_def del: map_map)

text \<open>The size estimate is the size of the finished block.\<close>

lemma CurrentSizeEstimate_builder_of: "CurrentSizeEstimate (builder_of R es) = length (block_bytes R es)"
  by (simp add: CurrentSizeEstimate_def builder_of_def length_block_bytes entry_offset_def restart_points_def)

subsection \<open>Decoding one entry\<close>

lemma small_not_bit7: "(x :: u32) < 128 \<Longrightarrow> \<not> bit x 7"
proof -
  assume "x < 128"
  then have "unat x < 128" by (simp add: word_less_nat_alt)
  then have "\<not> bit (unat x) 7" by (simp add: bit_iff_odd)
  then show ?thesis by (simp add: bit_unsigned_iff)
qed

lemma or_small:
  assumes "(a OR b OR c :: u32) < 128"
  shows "a AND 128 = 0" "b AND 128 = 0" "c AND 128 = 0"
proof -
  have e: "x AND 128 = 0 \<longleftrightarrow> \<not> bit x 7" for x :: u32
    using and_exp_eq_0_iff_not_bit [of x 7] by simp
  show "a AND 128 = 0" "b AND 128 = 0" "c AND 128 = 0"
    unfolding e using small_not_bit7 [OF assms] by (simp_all add: bit_or_iff)
qed

lemma EncodeVarint32_nonempty: "EncodeVarint32 v \<noteq> []"
  by (simp add: EncodeVarint32_def)

text \<open>The fast path for three short lengths agrees with the general one.\<close>

lemma DecodeEntry_encoded:
  assumes "unat n + unat v \<le> length rest" "length rest < 2 ^ 32"
  shows "DecodeEntry (EncodeVarint32 s @ EncodeVarint32 n @ EncodeVarint32 v @ rest) = Some (s, n, v, rest)"
proof -
  define p where "p = EncodeVarint32 s @ EncodeVarint32 n @ EncodeVarint32 v @ rest"
  have "1 \<le> length (EncodeVarint32 w)" for w using EncodeVarint32_nonempty [of w] by (cases "EncodeVarint32 w") auto
  from this [of s] this [of n] this [of v] have "3 \<le> length p" by (simp add: p_def)
  then obtain c0 c1 c2 q where p: "p = c0 # c1 # c2 # q" by (auto simp: Suc_le_length_iff numeral_3_eq_3)
  note dec = varint32_codec.dec_enc [OF TrueI]
  have d0: "GetVarint32Ptr p = Some (s, EncodeVarint32 n @ EncodeVarint32 v @ rest)" unfolding p_def by (rule dec)
  have fast: "s = ucast c0 \<and> n = ucast c1 \<and> v = ucast c2 \<and> rest = q"
    if "(ucast c0 OR ucast c1 OR ucast c2 :: u32) < 128"
  proof -
    have z: "(ucast c0 :: u32) AND 128 = 0" "(ucast c1 :: u32) AND 128 = 0" "(ucast c2 :: u32) AND 128 = 0"
      using or_small [OF that] by simp_all
    have 1: "s = ucast c0" "EncodeVarint32 n @ EncodeVarint32 v @ rest = c1 # c2 # q"
      using d0 z(1) unfolding p by (simp_all add: GetVarint32Ptr_def)
    then have 2: "n = ucast c1" "EncodeVarint32 v @ rest = c2 # q"
      using dec [of n "EncodeVarint32 v @ rest"] z(2) by (simp_all add: GetVarint32Ptr_def)
    then have "v = ucast c2" "rest = q" using dec [of v rest] z(3) by (simp_all add: GetVarint32Ptr_def)
    then show ?thesis using 1 2 by simp
  qed
  have sum: "\<not> (of_nat (length rest) :: u32) < n + v"
    using assms by (simp add: word_less_nat_alt unat_word_ariths unat_of_nat)
  show ?thesis
  proof (cases "(ucast c0 OR ucast c1 OR ucast c2 :: u32) < 128")
    case True
    show ?thesis
      unfolding p_def [symmetric] p using True fast [OF True] sum by (simp add: DecodeEntry_def Let_def)
  next
    case False
    then show ?thesis
      unfolding p_def [symmetric] using \<open>3 \<le> length p\<close> d0 sum
      by (simp add: DecodeEntry_def Let_def p dec)
  qed
qed

subsection \<open>Moving over a finished block\<close>

definition block_ok :: "nat \<Rightarrow> entry list \<Rightarrow> bool" where
  "block_ok R es \<longleftrightarrow> 0 < R \<and> length (block_bytes R es) < 2 ^ 32 \<and> (\<forall>e \<in> set es. length (fst e) < 2 ^ 32)"

definition iter_static :: "nat \<Rightarrow> entry list \<Rightarrow> Iter \<Rightarrow> bool" where
  "iter_static R es it \<longleftrightarrow> bi_data it = block_bytes R es \<and> bi_restarts it = entry_offset R es (length es) \<and>
     bi_num_restarts it = num_restarts R (length es)"

text \<open>The iterator is at entry \<open>i\<close>, or behind the last one.\<close>

definition entry_at :: "nat \<Rightarrow> entry list \<Rightarrow> Iter \<Rightarrow> nat \<Rightarrow> bool" where
  "entry_at R es it i \<longleftrightarrow> iter_static R es it \<and> bi_status it = OK \<and> i \<le> length es \<and>
     (if i < length es
      then bi_current it = entry_offset R es i \<and> bi_key it = fst (es ! i) \<and>
        bi_value it = Some (entry_offset R es (i + 1) - length (snd (es ! i)), length (snd (es ! i))) \<and>
        bi_restart_index it < num_restarts R (length es) \<and> bi_restart_index it * R \<le> i
      else bi_current it = entry_offset R es (length es))"

text \<open>The next call of \<open>ParseNextKey\<close> reads entry \<open>i\<close>.\<close>

definition before :: "nat \<Rightarrow> entry list \<Rightarrow> Iter \<Rightarrow> nat \<Rightarrow> bool" where
  "before R es it i \<longleftrightarrow> iter_static R es it \<and> bi_status it = OK \<and> i \<le> length es \<and>
     NextEntryOffset it = Some (entry_offset R es i) \<and>
     bi_restart_index it < num_restarts R (length es) \<and> bi_restart_index it * R \<le> i \<and>
     (i mod R = 0 \<or> bi_key it = fst (es ! (i - 1)))"

lemma entry_offset_Suc: "entry_offset R es (Suc i) = entry_offset R es i + length (entry_bytes R es i)"
  by (simp add: entry_offset_def entries_bytes_Suc)

lemma entry_offset_less_Suc: "entry_offset R es i < entry_offset R es (Suc i)"
  by (simp add: entry_offset_Suc entry_bytes_def EncodeVarint32_nonempty Let_def split: prod.split)

lemma entry_offset_mono_iff [simp]:
  "entry_offset R es i < entry_offset R es j \<longleftrightarrow> i < j" "entry_offset R es i \<le> entry_offset R es j \<longleftrightarrow> i \<le> j"
proof -
  have "strict_mono (entry_offset R es)" using entry_offset_less_Suc by (rule strict_mono_Suc_iff [THEN iffD2, rule_format])
  then show "entry_offset R es i < entry_offset R es j \<longleftrightarrow> i < j" "entry_offset R es i \<le> entry_offset R es j \<longleftrightarrow> i \<le> j"
    by (simp_all add: strict_mono_less strict_mono_less_eq)
qed

lemma entry_offset_bound: "block_ok R es \<Longrightarrow> i \<le> length es \<Longrightarrow> entry_offset R es i < 2 ^ 32"
  by (rule le_less_trans [of _ "entry_offset R es (length es)"]) (simp_all add: block_ok_def length_block_bytes)

definition tail_bytes :: "nat \<Rightarrow> entry list \<Rightarrow> nat \<Rightarrow> bytes" where
  "tail_bytes R es i = concat (map (entry_bytes R es) [i..<length es])"

lemma entries_bytes_split: "i \<le> length es \<Longrightarrow> entries_bytes R es (length es) = entries_bytes R es i @ tail_bytes R es i"
  using upt_add_eq_append [of 0 i "length es - i"] by (simp add: entries_bytes_def tail_bytes_def)

lemma tail_bytes_Suc: "i < length es \<Longrightarrow> tail_bytes R es i = entry_bytes R es i @ tail_bytes R es (Suc i)"
  by (simp add: tail_bytes_def upt_conv_Cons)

lemma length_tail_bytes: "i \<le> length es \<Longrightarrow> length (tail_bytes R es i) = entry_offset R es (length es) - entry_offset R es i"
  using entries_bytes_split [of i es R] by (simp add: entry_offset_def)

lemma restart_index_le: "k < num_restarts R n \<Longrightarrow> k * R \<le> n"
proof -
  assume "k < num_restarts R n"
  then have "k * R \<le> (n - 1) div R * R" by (simp add: num_restarts_def)
  then show ?thesis using div_times_less_eq_dividend [of "n - 1" R] by linarith
qed

lemma GetRestartPoint_eq:
  assumes "block_ok R es" "iter_static R es it" "k < num_restarts R (length es)"
  shows "GetRestartPoint it k = entry_offset R es (k * R)"
proof -
  have "DecodeFixed32 (drop (entry_offset R es (length es) + k * 4) (block_bytes R es)) = restart_points R es ! k"
    using Decode_array [of k "restart_points R es" "entries_bytes R es (length es)"] assms(3)
    by (simp add: block_bytes_def entry_offset_def restart_points_def)
  then show ?thesis
    using assms entry_offset_bound [OF assms(1) restart_index_le [OF assms(3)]]
    by (simp add: GetRestartPoint_def iter_static_def restart_points_def unat_of_nat)
qed

lemma shared_of_bounds:
  "shared_of R es i \<le> length (fst (es ! i))"
  "i mod R \<noteq> 0 \<Longrightarrow> shared_of R es i \<le> length (fst (es ! (i - 1)))"
  "i mod R \<noteq> 0 \<Longrightarrow> take (shared_of R es i) (fst (es ! (i - 1))) = take (shared_of R es i) (fst (es ! i))"
  by (simp_all add: shared_of_def diff_index_loop_le diff_index_loop_take)

text \<open>What \<open>DecodeEntry\<close> finds at entry \<open>i\<close>.\<close>

lemma decode_at:
  assumes "block_ok R es" "iter_static R es it" "i < length es" "es ! i = (key, val)" "sh = shared_of R es i"
  shows "DecodeEntry (drop (entry_offset R es i) (take (bi_restarts it) (bi_data it))) =
      Some (of_nat sh, of_nat (length key - sh), of_nat (length val), drop sh key @ val @ tail_bytes R es (i + 1))"
    and "bi_restarts it - length (drop sh key @ val @ tail_bytes R es (i + 1)) =
      entry_offset R es (i + 1) - length val - (length key - sh)"
    and "drop (entry_offset R es (i + 1) - length val - (length key - sh)) (bi_data it) =
      drop sh key @ val @ drop (entry_offset R es (i + 1)) (block_bytes R es)"
    and "length key - sh + length val \<le> entry_offset R es (i + 1)" "length key < 2 ^ 32" "length val < 2 ^ 32"
proof -
  let ?r = "drop sh key @ val @ tail_bytes R es (i + 1)"
  let ?n = "length es"
  have eb: "entry_bytes R es i = EncodeVarint32 (of_nat sh) @ EncodeVarint32 (of_nat (length key - sh)) @
      EncodeVarint32 (of_nat (length val)) @ drop sh key @ val"
    using assms(4,5) by (simp add: entry_bytes_def Let_def)
  have sh: "sh \<le> length key" using shared_of_bounds(1) [of R es i] assms(4,5) by simp
  have last: "entry_offset R es ?n < 2 ^ 32" using entry_offset_bound [OF assms(1), of ?n] by simp
  have tl: "length (tail_bytes R es (i + 1)) = entry_offset R es ?n - entry_offset R es (i + 1)"
    using assms(3) by (simp add: length_tail_bytes)
  have Suc: "entry_offset R es (i + 1) = entry_offset R es i + length (entry_bytes R es i)" by (simp add: entry_offset_Suc)
  have le: "entry_offset R es (i + 1) \<le> entry_offset R es ?n" using assms(3) by simp
  have lr: "length ?r \<le> entry_offset R es ?n" unfolding length_append tl using Suc le by (simp add: eb)
  show val: "length val < 2 ^ 32" using Suc le last by (simp add: eb)
  show key: "length key < 2 ^ 32" using assms(1,3,4) nth_mem [OF assms(3)] by (auto simp: block_ok_def)
  show part: "length key - sh + length val \<le> entry_offset R es (i + 1)" using Suc by (simp add: eb)
  have small: "unat (of_nat (length key - sh) :: u32) = length key - sh" "unat (of_nat (length val) :: u32) = length val"
    using key val by (simp_all add: unat_of_nat)
  have "take (bi_restarts it) (bi_data it) = entries_bytes R es ?n"
    using assms(2) by (simp add: iter_static_def block_bytes_def entry_offset_def)
  then have "drop (entry_offset R es i) (take (bi_restarts it) (bi_data it)) = tail_bytes R es i"
    using entries_bytes_split [of i es R] assms(3) by (simp add: entry_offset_def)
  also have "\<dots> = EncodeVarint32 (of_nat sh) @ EncodeVarint32 (of_nat (length key - sh)) @
      EncodeVarint32 (of_nat (length val)) @ ?r"
    using tail_bytes_Suc [OF assms(3)] by (simp add: eb)
  also have "DecodeEntry \<dots> = Some (of_nat sh, of_nat (length key - sh), of_nat (length val), ?r)"
    using lr last by (intro DecodeEntry_encoded) (simp_all only: small, simp_all)
  finally show "DecodeEntry (drop (entry_offset R es i) (take (bi_restarts it) (bi_data it))) =
      Some (of_nat sh, of_nat (length key - sh), of_nat (length val), ?r)" .
  show "bi_restarts it - length ?r = entry_offset R es (i + 1) - length val - (length key - sh)"
    using assms(2) le unfolding iter_static_def length_append tl length_drop by linarith
  have "bi_data it = entries_bytes R es (i + 1) @ drop (entry_offset R es (i + 1)) (block_bytes R es)"
    using assms(2,3) entries_bytes_split [of "i + 1" es R] by (simp add: iter_static_def block_bytes_def entry_offset_def)
  also have "\<dots> = (entries_bytes R es i @ EncodeVarint32 (of_nat sh) @ EncodeVarint32 (of_nat (length key - sh)) @
      EncodeVarint32 (of_nat (length val))) @ drop sh key @ val @ drop (entry_offset R es (i + 1)) (block_bytes R es)"
    by (simp add: entries_bytes_Suc eb)
  also have "drop (entry_offset R es (i + 1) - length val - (length key - sh)) \<dots> =
      drop sh key @ val @ drop (entry_offset R es (i + 1)) (block_bytes R es)"
    using Suc by (simp add: eb entry_offset_def)
  finally show "drop (entry_offset R es (i + 1) - length val - (length key - sh)) (bi_data it) =
      drop sh key @ val @ drop (entry_offset R es (i + 1)) (block_bytes R es)" .
qed

lemma advance_restart_ok:
  assumes "block_ok R es" "iter_static R es it" "bi_current it = entry_offset R es i"
    and "bi_restart_index it < num_restarts R (length es)" "bi_restart_index it * R \<le> i"
  shows "\<exists>k. advance_restart it = it\<lparr>bi_restart_index := k\<rparr> \<and> k < num_restarts R (length es) \<and> k * R \<le> i"
  using assms
proof (induction it rule: advance_restart.induct)
  case (1 it)
  let ?k = "bi_restart_index it" and ?it = "it\<lparr>bi_restart_index := bi_restart_index it + 1\<rparr>"
  show ?case
  proof (cases "?k + 1 < bi_num_restarts it \<and> GetRestartPoint it (?k + 1) < bi_current it")
    case True
    then have k: "?k + 1 < num_restarts R (length es)" using "1.prems"(2) by (simp add: iter_static_def)
    have "(?k + 1) * R \<le> i"
      using True GetRestartPoint_eq [OF "1.prems"(1,2) k] "1.prems"(3) by (simp add: less_imp_le)
    with "1.IH" [OF True] k "1.prems" obtain k' where
      "advance_restart ?it = ?it\<lparr>bi_restart_index := k'\<rparr>" "k' < num_restarts R (length es)" "k' * R \<le> i"
      by (auto simp: iter_static_def)
    then show ?thesis using True by (intro exI [of _ k']) (simp add: advance_restart.simps [of it])
  next
    case False
    then show ?thesis using "1.prems"(4,5) by (auto simp: advance_restart.simps [of it] intro: exI [of _ ?k])
  qed
qed

lemma parse_step:
  assumes "block_ok R es" "before R es it i" "i < length es"
  shows "\<exists>it'. ParseNextKey it = Some (True, it') \<and> entry_at R es it' i"
proof -
  obtain key val where e: "es ! i = (key, val)" by fastforce
  define sh where "sh = shared_of R es i"
  have st: "iter_static R es it" and off: "NextEntryOffset it = Some (entry_offset R es i)"
    using assms(2) by (simp_all add: before_def)
  let ?it = "it\<lparr>bi_current := entry_offset R es i\<rparr>"
  have st': "iter_static R es ?it" using st by (simp add: iter_static_def)
  note d = decode_at [OF assms(1) st' assms(3) e sh_def]
  let ?p = "entry_offset R es (i + 1) - length val - (length key - sh)"
  have sh: "sh \<le> length key" using shared_of_bounds(1) [of R es i] e by (simp add: sh_def)
  have prefix: "sh \<le> length (bi_key it)" "take sh (bi_key it) = take sh key"
    using assms(2) shared_of_bounds(2,3) [of i R es] e by (auto simp: before_def sh_def shared_of_def)
  have small: "unat (of_nat sh :: u32) = sh" "unat (of_nat (length key - sh) :: u32) = length key - sh"
    "unat (of_nat (length val) :: u32) = length val"
    using d(5,6) sh by (simp_all add: unat_of_nat del: of_nat_diff)
  have end_off: "?p + (length key - sh) + length val = entry_offset R es (i + 1)" using d(4) by linarith
  have inside: "entry_offset R es (i + 1) \<le> length (bi_data it)"
    using assms(3) st entry_offset_mono_iff(2) [of R es "i + 1" "length es"]
    by (simp add: iter_static_def length_block_bytes del: entry_offset_mono_iff)
  have not_end: "\<not> bi_restarts it \<le> entry_offset R es i" using st assms(3) by (simp add: iter_static_def)
  let ?new = "?it\<lparr>bi_key := key, bi_value := Some (?p + (length key - sh), length val)\<rparr>"
  have "take sh (bi_key it) @ take (length key - sh) (drop ?p (bi_data it)) = key"
    using d(3) prefix(2) sh by simp
  then have parse: "ParseNextKey it = Some (True, advance_restart ?new)"
    using off not_end d(1,2) prefix(1) small end_off inside
    by (simp add: ParseNextKey_def Let_def del: entry_offset_mono_iff)
  have "iter_static R es ?new" using st by (simp add: iter_static_def)
  from advance_restart_ok [OF assms(1) this, of i] assms(2) obtain k where
    k: "advance_restart ?new = ?new\<lparr>bi_restart_index := k\<rparr>" "k < num_restarts R (length es)" "k * R \<le> i"
    by (auto simp: before_def)
  have "?p + (length key - sh) = entry_offset R es (i + 1) - length val" using end_off by linarith
  then have "entry_at R es (advance_restart ?new) i"
    using k assms(2,3) e by (simp add: entry_at_def before_def iter_static_def del: entry_offset_mono_iff)
  with parse show ?thesis by blast
qed

lemma parse_end:
  "before R es it (length es) \<Longrightarrow> \<exists>it'. ParseNextKey it = Some (False, it') \<and> entry_at R es it' (length es)"
  by (auto simp: before_def ParseNextKey_def Let_def entry_at_def iter_static_def)

lemma at_before:
  assumes "block_ok R es" "entry_at R es it i" "i < length es"
  shows "before R es it (i + 1)"
proof -
  obtain key val where e: "es ! i = (key, val)" by fastforce
  have st: "iter_static R es it" using assms(2) by (simp add: entry_at_def)
  have "length val \<le> entry_offset R es (i + 1)" using decode_at(4) [OF assms(1) st assms(3) e refl] by linarith
  then show ?thesis
    using assms entry_offset_bound [OF assms(1), of "i + 1"] e by (simp add: before_def entry_at_def NextEntryOffset_def)
qed

lemma before_restart:
  assumes "block_ok R es" "iter_static R es it" "bi_status it = OK" "k < num_restarts R (length es)"
  shows "before R es (SeekToRestartPoint k it) (k * R)"
  using assms GetRestartPoint_eq [OF assms(1,2,4)] restart_index_le [OF assms(4)]
    entry_offset_bound [OF assms(1) restart_index_le [OF assms(4)]]
  by (simp add: before_def SeekToRestartPoint_def NextEntryOffset_def iter_static_def)

lemma entry_at_NextEntryOffset:
  "block_ok R es \<Longrightarrow> entry_at R es it i \<Longrightarrow> i < length es \<Longrightarrow> NextEntryOffset it = Some (entry_offset R es (i + 1))"
  using at_before [of R es it i] by (simp add: before_def)

lemma skip_until_ok:
  assumes "block_ok R es" "before R es it j" "j < m" "m \<le> length es"
  shows "\<exists>it'. skip_until (entry_offset R es m) it = Some it' \<and> entry_at R es it' (m - 1)"
  using assms
proof (induction "m - j" arbitrary: it j)
  case (Suc d)
  then have j: "j < length es" by simp
  obtain it' where p: "ParseNextKey it = Some (True, it')" "entry_at R es it' j"
    using parse_step [OF Suc.prems(1,2) j] by blast
  have o: "NextEntryOffset it' = Some (entry_offset R es (j + 1))"
    using entry_at_NextEntryOffset [OF Suc.prems(1) p(2) j] .
  show ?case
  proof (cases "j + 1 < m")
    case True
    then have "\<exists>it''. skip_until (entry_offset R es m) it' = Some it'' \<and> entry_at R es it'' (m - 1)"
      using Suc.hyps(1) [of "j + 1" it'] Suc.hyps(2) Suc.prems at_before [OF Suc.prems(1) p(2) j] by simp
    then show ?thesis using p(1) o True by (simp add: skip_until.simps [of _ it])
  next
    case False
    then have "m = j + 1" using Suc.prems(3) by simp
    then show ?thesis using p o by (simp add: skip_until.simps [of _ it])
  qed
qed simp

subsection \<open>The operations of the iterator\<close>

lemma entry_at_static: "entry_at R es it i \<Longrightarrow> iter_static R es it" "entry_at R es it i \<Longrightarrow> bi_status it = OK"
  by (simp_all add: entry_at_def)

lemma Iter_SeekToFirst_ok:
  assumes "block_ok R es" "entry_at R es it i"
  shows "\<exists>it'. Iter_SeekToFirst it = Some it' \<and> entry_at R es it' 0"
proof -
  have b: "before R es (SeekToRestartPoint 0 it) 0"
    using before_restart [OF assms(1) entry_at_static [OF assms(2)], of 0] by (simp add: num_restarts_def)
  show ?thesis
    using parse_step [OF assms(1) b] parse_end [of R es "SeekToRestartPoint 0 it"] b
    by (cases "es = []") (auto simp: Iter_SeekToFirst_def)
qed

lemma Iter_SeekToLast_ok:
  assumes "block_ok R es" "entry_at R es it i"
  shows "\<exists>it'. Iter_SeekToLast it = Some it' \<and> entry_at R es it' (length es - 1)"
proof -
  let ?k = "num_restarts R (length es) - 1"
  have st: "bi_restarts it = entry_offset R es (length es)" "bi_num_restarts it = num_restarts R (length es)"
    using assms(2) by (simp_all add: entry_at_def iter_static_def)
  have b: "before R es (SeekToRestartPoint ?k it) (?k * R)"
    using before_restart [OF assms(1) entry_at_static [OF assms(2)], of ?k] by (simp add: num_restarts_def)
  show ?thesis
  proof (cases "es = []")
    case True
    then have "?k = 0" by simp
    then show ?thesis
      using True parse_end [of R es "SeekToRestartPoint 0 it"] b st by (auto simp: Iter_SeekToLast_def skip_until.simps)
  next
    case False
    have "?k * R \<le> length es - 1" by (simp add: num_restarts_def)
    then have "?k * R < length es" using False by (cases es) auto
    from skip_until_ok [OF assms(1) b this] st show ?thesis by (simp add: Iter_SeekToLast_def)
  qed
qed

lemma Iter_Next_ok:
  assumes "block_ok R es" "entry_at R es it i" "i < length es"
  shows "\<exists>it'. Iter_Next it = Some it' \<and> entry_at R es it' (i + 1)"
  using parse_step [OF assms(1) at_before [OF assms]] parse_end [of R es it] at_before [OF assms] assms(3)
  by (cases "i + 1 = length es") (auto simp: Iter_Next_def)

lemma restart_before_ok:
  assumes "block_ok R es" "iter_static R es it" "k < num_restarts R (length es)" "k * R \<le> i"
  shows "case restart_before it (entry_offset R es i) k of
      None \<Rightarrow> i = 0 | Some m \<Rightarrow> m < num_restarts R (length es) \<and> m * R < i"
  using assms(3,4)
proof (induction k)
  case 0
  then show ?case
    using GetRestartPoint_eq [OF assms(1,2) 0(1)] entry_offset_mono_iff(1) [of R es 0 i] by (auto simp del: entry_offset_mono_iff)
next
  case (Suc k)
  have g: "GetRestartPoint it (Suc k) = entry_offset R es (Suc k * R)" by (rule GetRestartPoint_eq [OF assms(1,2) Suc.prems(1)])
  show ?case
  proof (cases "i \<le> Suc k * R")
    case True
    then have "restart_before it (entry_offset R es i) (Suc k) = restart_before it (entry_offset R es i) k"
      using g by simp
    then show ?thesis using Suc by simp
  next
    case False
    then have "restart_before it (entry_offset R es i) (Suc k) = Some (Suc k)" using g by simp
    then show ?thesis using False Suc.prems(1) by simp
  qed
qed

lemma Iter_Prev_ok:
  assumes "block_ok R es" "entry_at R es it i" "i < length es"
  shows "\<exists>it'. Iter_Prev it = Some it' \<and> entry_at R es it' (if i = 0 then length es else i - 1)"
proof -
  have cur: "bi_current it = entry_offset R es i" and k: "bi_restart_index it < num_restarts R (length es)"
    "bi_restart_index it * R \<le> i" using assms by (simp_all add: entry_at_def)
  have st: "iter_static R es it" "bi_status it = OK" using entry_at_static [OF assms(2)] by simp_all
  note r = restart_before_ok [OF assms(1) st(1) k]
  show ?thesis
  proof (cases "restart_before it (entry_offset R es i) (bi_restart_index it)")
    case None
    then show ?thesis using r cur st by (simp add: Iter_Prev_def Let_def entry_at_def iter_static_def)
  next
    case (Some m)
    then have m: "m < num_restarts R (length es)" "m * R < i" using r by simp_all
    have "\<exists>it'. skip_until (entry_offset R es i) (SeekToRestartPoint m it) = Some it' \<and> entry_at R es it' (i - 1)"
      using skip_until_ok [OF assms(1) before_restart [OF assms(1) st m(1)] m(2)] assms(3) by simp
    then show ?thesis using Some m(2) cur by (simp add: Iter_Prev_def Let_def)
  qed
qed

text \<open>Entries in strictly increasing order of keys the comparator accepts.\<close>

definition sorted_entries :: "(bytes \<Rightarrow> bytes \<Rightarrow> int) \<Rightarrow> (bytes \<Rightarrow> bool) \<Rightarrow> entry list \<Rightarrow> bool" where
  "sorted_entries cmp ok es \<longleftrightarrow>
     sorted_wrt (\<lambda>a b. cmp (fst a) (fst b) < 0) es \<and> (\<forall>e \<in> set es. ok (fst e))"

lemma sorted_entries_less:
  "sorted_entries cmp ok es \<Longrightarrow> i < j \<Longrightarrow> j < length es \<Longrightarrow> cmp (fst (es ! i)) (fst (es ! j)) < 0"
  unfolding sorted_entries_def by (auto dest: sorted_wrt_nth_less)

lemma sorted_entries_ok: "sorted_entries cmp ok es \<Longrightarrow> i < length es \<Longrightarrow> ok (fst (es ! i))"
  by (simp add: sorted_entries_def)

lemma num_restarts_bound: "block_ok R es \<Longrightarrow> 4 * num_restarts R (length es) < 2 ^ 32"
  by (simp add: block_ok_def length_block_bytes)

lemma restart_index_less: "k < num_restarts R n \<Longrightarrow> 0 < k \<Longrightarrow> k * R < n"
proof -
  assume k: "k < num_restarts R n" "0 < k"
  then have "k * R \<le> (n - 1) div R * R" by (simp add: num_restarts_def)
  moreover have "(n - 1) div R * R \<le> n - 1" by simp
  moreover have "n \<noteq> 0" using k by (cases n) simp_all
  ultimately show ?thesis by linarith
qed

lemma seek_round_ok:
  assumes "block_ok R es" "iter_static R es it" "left < right" "right < num_restarts R (length es)"
  shows "\<exists>mid. left < mid \<and> mid \<le> right \<and>
    seek_round cmp t it left right = Some (Inr (if cmp (fst (es ! (mid * R))) t < 0 then (mid, right) else (left, mid - 1)))"
proof -
  define mid where "mid = (left + right + 1) div 2"
  have mid: "left < mid" "mid \<le> right" using assms(3) by (auto simp: mid_def)
  have "(left + right + 1) mod 2 ^ 32 = left + right + 1"
    using assms(3,4) num_restarts_bound [OF assms(1)] by (intro mod_less) linarith
  then have m: "((left + right + 1) mod 2 ^ 32) div 2 = mid" by (simp add: mid_def)
  have lt: "mid < num_restarts R (length es)" using mid(2) assms(4) by simp
  then have i: "mid * R < length es" using restart_index_less mid(1) by simp
  obtain key val where e: "es ! (mid * R) = (key, val)" by fastforce
  have sh: "0 = shared_of R es (mid * R)" by (simp add: shared_of_def)
  note d = decode_at [OF assms(1,2) i e sh]
  have g: "GetRestartPoint it mid = entry_offset R es (mid * R)" by (rule GetRestartPoint_eq [OF assms(1,2) lt])
  have u: "unat (of_nat (length key) :: u32) = length key" using d(5) by (simp add: unat_of_nat)
  let ?p = "entry_offset R es (mid * R + 1) - length val - length key"
  have "take (length key) (drop ?p (bi_data it)) = key" using d(3) by simp
  moreover have "\<not> length (bi_data it) < ?p + length key"
  proof -
    have "entry_offset R es (mid * R + 1) \<le> length (bi_data it)"
      using i assms(2) entry_offset_mono_iff(2) [of R es "mid * R + 1" "length es"]
      by (simp add: iter_static_def length_block_bytes del: entry_offset_mono_iff)
    then show ?thesis using d(4) by linarith
  qed
  ultimately have "seek_round cmp t it left right =
      Some (Inr (if cmp key t < 0 then (mid, right) else (left, mid - 1)))"
    using d(1,2) u unfolding seek_round_def m g Let_def by simp
  then show ?thesis using mid e by (intro exI [of _ mid]) simp
qed

lemma seek_bounds_ok:
  assumes "block_ok R es" "iter_static R es it" "left \<le> right" "right < num_restarts R (length es)"
    and "0 < left \<Longrightarrow> cmp (fst (es ! (left * R))) t < 0"
  shows "\<exists>k. seek_bounds cmp t it left right = Some (Inr k) \<and> k < num_restarts R (length es) \<and>
    (0 < k \<longrightarrow> cmp (fst (es ! (k * R))) t < 0)"
  using assms(3-5)
proof (induction "right - left" arbitrary: left right rule: less_induct)
  case less
  show ?case
  proof (cases "left < right")
    case True
    obtain mid where mid: "left < mid" "mid \<le> right"
      "seek_round cmp t it left right = Some (Inr (if cmp (fst (es ! (mid * R))) t < 0 then (mid, right) else (left, mid - 1)))"
      using seek_round_ok [OF assms(1,2) True less.prems(2), of cmp t] by blast
    show ?thesis
    proof (cases "cmp (fst (es ! (mid * R))) t < 0")
      case lt: True
      then show ?thesis
        using less.hyps [of right mid] mid less.prems by (simp add: seek_bounds.simps [of cmp t it left right] True)
    next
      case ge: False
      have "mid - 1 - left < right - left" "left \<le> mid - 1" "mid - 1 < num_restarts R (length es)"
        using mid less.prems by linarith+
      from less.hyps [OF this less.prems(3)] show ?thesis
        using ge mid(3) by (simp add: seek_bounds.simps [of cmp t it left right] True)
    qed
  next
    case False
    then have "seek_bounds cmp t it left right = Some (Inr left)" by (simp add: seek_bounds.simps [of cmp t it left right])
    then show ?thesis using less.prems by simp
  qed
qed

lemma seek_linear_ok:
  assumes "block_ok R es" "before R es it j" "\<And>i. i < j \<Longrightarrow> cmp (fst (es ! i)) t < 0"
  shows "\<exists>it'. seek_linear cmp t it = Some it' \<and> entry_at R es it' (first_ge cmp t es)"
  using assms(2,3)
proof (induction "length es - j" arbitrary: it j)
  case 0
  then have j: "j = length es" by (simp add: before_def)
  then have "first_ge cmp t es = j" using 0 by (intro first_ge_eqI) auto
  then show ?case using parse_end [of R es it] 0 j by (auto simp: seek_linear.simps [of cmp t it])
next
  case (Suc d)
  then have j: "j < length es" by simp
  obtain it' where p: "ParseNextKey it = Some (True, it')" "entry_at R es it' j"
    using parse_step [OF assms(1) Suc.prems(1) j] by blast
  have key: "bi_key it' = fst (es ! j)" using p(2) j by (simp add: entry_at_def)
  show ?case
  proof (cases "cmp (fst (es ! j)) t < 0")
    case True
    have "\<exists>it''. seek_linear cmp t it' = Some it'' \<and> entry_at R es it'' (first_ge cmp t es)"
    proof (rule Suc.hyps(1) [of "j + 1" it'])
      show "cmp (fst (es ! i)) t < 0" if "i < j + 1" for i using that Suc.prems(2) True by (cases "i = j") auto
    qed (use Suc.hyps(2) at_before [OF assms(1) p(2) j] in simp_all)
    then show ?thesis using p(1) key True by (simp add: seek_linear.simps [of cmp t it])
  next
    case False
    then have "first_ge cmp t es = j" using j Suc.prems(2) by (intro first_ge_eqI) auto
    then show ?thesis using p key False by (simp add: seek_linear.simps [of cmp t it])
  qed
qed

lemma Iter_Seek_ok:
  assumes "block_ok R es" "comparator cmp ok" "sorted_entries cmp ok es" "entry_at R es it i" "ok t"
  shows "\<exists>it'. Iter_Seek cmp t it = Some it' \<and> entry_at R es it' (first_ge cmp t es)"
proof -
  note st = entry_at_static [OF assms(4)]
  have num: "bi_num_restarts it = num_restarts R (length es)" using st(1) by (simp add: iter_static_def)
  obtain k where k: "seek_bounds cmp t it 0 (bi_num_restarts it - 1) = Some (Inr k)" "k < num_restarts R (length es)"
    "0 < k \<longrightarrow> cmp (fst (es ! (k * R))) t < 0"
    using seek_bounds_ok [OF assms(1) st(1), of 0 "bi_num_restarts it - 1" cmp t] num by (auto simp: num_restarts_def)
  have "cmp (fst (es ! i)) t < 0" if "i < k * R" for i
  proof -
    have k0: "0 < k" using that by (cases k) auto
    have kl: "k * R < length es" using restart_index_less [OF k(2) k0] .
    show ?thesis
      using comparator.less_trans [OF assms(2), of "fst (es ! i)" "fst (es ! (k * R))" t] k(3) k0 assms(5)
        sorted_entries_less [OF assms(3) that kl] sorted_entries_ok [OF assms(3)] kl that by auto
  qed
  with seek_linear_ok [OF assms(1) before_restart [OF assms(1) st k(2)]] k(1) show ?thesis
    by (simp add: Iter_Seek_def)
qed

subsection \<open>The contract of iterators\<close>

definition good_block :: "(bytes \<Rightarrow> bytes \<Rightarrow> int) \<Rightarrow> (bytes \<Rightarrow> bool) \<Rightarrow> nat \<Rightarrow> entry list \<Rightarrow> bool" where
  "good_block cmp ok R es \<longleftrightarrow> comparator cmp ok \<and> sorted_entries cmp ok es \<and> block_ok R es"

definition block_at ::
  "(bytes \<Rightarrow> bytes \<Rightarrow> int) \<Rightarrow> (bytes \<Rightarrow> bool) \<Rightarrow> nat \<Rightarrow> entry list \<Rightarrow> Iter \<Rightarrow> nat \<Rightarrow> bool" where
  "block_at cmp ok R es it i \<longleftrightarrow> good_block cmp ok R es \<and> entry_at R es it i"

lemma entry_at_entry:
  assumes "block_ok R es" "entry_at R es it i" "i < length es"
  shows "(bi_key it, Iter_value it) = es ! i"
proof -
  obtain key val where e: "es ! i = (key, val)" by fastforce
  have st: "iter_static R es it" using assms(2) by (simp add: entry_at_def)
  note d = decode_at [OF assms(1) st assms(3) e refl]
  let ?m = "length key - shared_of R es i"
  have eq: "entry_offset R es (i + 1) - length val = entry_offset R es (i + 1) - length val - ?m + ?m"
    using d(4) by linarith
  have "drop (entry_offset R es (i + 1) - length val) (bi_data it) =
      drop ?m (drop (entry_offset R es (i + 1) - length val - ?m) (bi_data it))"
    by (subst eq) (simp add: add.commute)
  also have "\<dots> = val @ drop (entry_offset R es (i + 1)) (block_bytes R es)" by (simp only: d(3)) simp
  finally have "take (length val) (drop (entry_offset R es (i + 1) - length val) (bi_data it)) = val" by simp
  then show ?thesis using assms(2,3) e by (simp add: entry_at_def Iter_value_def)
qed

interpretation block_iter: iterator_over "Block_Iter cmp" cmp ok es "block_at cmp ok R es"
proof
  fix s i
  assume at: "block_at cmp ok R es s i"
  then have ok: "block_ok R es" and i: "entry_at R es s i" and c: "comparator cmp ok" "sorted_entries cmp ok es"
    by (simp_all add: block_at_def good_block_def)
  have lift: "\<exists>s'. f = Some s' \<and> block_at cmp ok R es s' j" if "\<exists>s'. f = Some s' \<and> entry_at R es s' j" for f j
    using that at by (simp add: block_at_def)
  show "i \<le> length es" using i by (simp add: entry_at_def)
  show "it_Valid (Block_Iter cmp) s \<longleftrightarrow> i < length es"
    using i by (auto simp: Block_Iter_def Iter_Valid_def entry_at_def iter_static_def split: if_splits)
  show "status_ok (it_status (Block_Iter cmp) s)" using i by (simp add: Block_Iter_def entry_at_def status_ok_def OK_def)
  show "\<exists>s'. it_SeekToFirst (Block_Iter cmp) s = Some s' \<and> block_at cmp ok R es s' 0"
    using lift [OF Iter_SeekToFirst_ok [OF ok i]] by (simp add: Block_Iter_def)
  show "\<exists>s'. it_SeekToLast (Block_Iter cmp) s = Some s' \<and> block_at cmp ok R es s' (length es - 1)"
    using lift [OF Iter_SeekToLast_ok [OF ok i]] by (simp add: Block_Iter_def)
  show "\<exists>s'. it_Seek (Block_Iter cmp) t s = Some s' \<and> block_at cmp ok R es s' (first_ge cmp t es)" if "ok t" for t
    using lift [OF Iter_Seek_ok [OF ok c i that]] by (simp add: Block_Iter_def)
  assume lt: "i < length es"
  show "(it_key (Block_Iter cmp) s, it_value (Block_Iter cmp) s) = es ! i"
    using entry_at_entry [OF ok i lt] by (simp add: Block_Iter_def)
  show "\<exists>s'. it_Next (Block_Iter cmp) s = Some s' \<and> block_at cmp ok R es s' (i + 1)"
    using lift [OF Iter_Next_ok [OF ok i lt]] by (simp add: Block_Iter_def)
  show "\<exists>s'. it_Prev (Block_Iter cmp) s = Some s' \<and> block_at cmp ok R es s' (if i = 0 then length es else i - 1)"
    using lift [OF Iter_Prev_ok [OF ok i lt]] by (simp add: Block_Iter_def)
qed

definition BlockIterator_at ::
  "(bytes \<Rightarrow> bytes \<Rightarrow> int) \<Rightarrow> (bytes \<Rightarrow> bool) \<Rightarrow> nat \<Rightarrow> entry list \<Rightarrow> BlockIterator \<Rightarrow> nat \<Rightarrow> bool" where
  "BlockIterator_at cmp ok R es = case_sum (block_at cmp ok R es) (\<lambda>s i. es = [] \<and> status_ok s \<and> i = 0)"

lemma iterator_over_empty:
  "iterator_over EmptyIterator cmp ok es (\<lambda>s i. es = [] \<and> status_ok s \<and> i = 0)"
  by unfold_locales (auto simp: EmptyIterator_def first_ge_def)

interpretation block_iterator: iterator_over "BlockIterator cmp" cmp ok es "BlockIterator_at cmp ok R es"
  unfolding BlockIterator_def BlockIterator_at_def
  by (rule iterator_over_sum [OF block_iter.iterator_over_axioms iterator_over_empty])

text \<open>A new iterator of a finished block is behind the last entry.\<close>

lemma mkBlock_block_bytes:
  assumes "block_ok R es"
  shows "mkBlock (block_bytes R es) = \<lparr>blk_data = block_bytes R es, blk_size = length (block_bytes R es),
      blk_restart_offset = entry_offset R es (length es)\<rparr>"
    and "NumRestarts (mkBlock (block_bytes R es)) = num_restarts R (length es)"
proof -
  let ?n = "num_restarts R (length es)" and ?o = "entry_offset R es (length es)"
  have "drop (length (block_bytes R es) - 4) (block_bytes R es) = EncodeFixed32 (of_nat ?n)"
    by (simp add: block_bytes_def)
  moreover have "unat (of_nat ?n :: u32) = ?n" using num_restarts_bound [OF assms] by (simp add: unat_of_nat)
  ultimately have n: "NumRestarts \<lparr>blk_data = block_bytes R es, blk_size = length (block_bytes R es), blk_restart_offset = k\<rparr> = ?n"
    for k by (simp add: NumRestarts_def codec_simps)
  have off: "(length (block_bytes R es) - (1 + ?n) mod 2 ^ 32 * 4) mod 2 ^ 32 = ?o"
    using num_restarts_bound [OF assms] entry_offset_bound [OF assms, of "length es"]
    by (simp add: length_block_bytes)
  show eq: "mkBlock (block_bytes R es) = \<lparr>blk_data = block_bytes R es, blk_size = length (block_bytes R es),
      blk_restart_offset = ?o\<rparr>"
    by (simp only: mkBlock_def Let_def Block.select_convs n off) (simp add: length_block_bytes)
  show "NumRestarts (mkBlock (block_bytes R es)) = ?n" by (simp add: eq n)
qed

lemma NewIterator_at:
  assumes "good_block cmp ok R es"
  shows "BlockIterator_at cmp ok R es (Block_NewIterator (mkBlock (block_bytes R es))) (length es)"
proof -
  have ok: "block_ok R es" using assms by (simp add: good_block_def)
  have "Block_NewIterator (mkBlock (block_bytes R es)) =
      Inl (mkIter (block_bytes R es) (entry_offset R es (length es)) (num_restarts R (length es)))"
    using mkBlock_block_bytes(2) [OF ok]
    by (simp add: Block_NewIterator_def mkBlock_block_bytes(1) [OF ok] length_block_bytes num_restarts_def)
  then show ?thesis
    using assms by (simp add: BlockIterator_at_def block_at_def entry_at_def iter_static_def mkIter_def)
qed

subsection \<open>Properties\<close>

text \<open>
  C32: What is added to a block comes out of it. For entries added in key order, with any restart
  interval and any comparator, the iterator of the finished block visits exactly these entries,
  forwards from \<open>SeekToFirst\<close>, backwards from \<open>SeekToLast\<close>, and from \<open>Seek(target)\<close> on those whose
  keys are not below the target. All these operations return.
\<close>

theorem block_roundtrip:
  assumes "comparator cmp ok" "sorted_entries cmp ok es" "\<forall>e \<in> set es. length (fst e) < 2 ^ 32" "0 < R"
    and "cont = fst (BlockBuilder_Finish (add_entries R es mkBlockBuilder))" "length cont < 2 ^ 32"
    and "it0 = Block_NewIterator (mkBlock cont)" "vt = BlockIterator cmp"
  shows "(\<exists>it. it_SeekToFirst vt it0 = Some it \<and> visit vt (it_Next vt) it = Some es) \<and>
    (\<exists>it. it_SeekToLast vt it0 = Some it \<and> visit vt (it_Prev vt) it = Some (rev es)) \<and>
    (\<forall>target. ok target \<longrightarrow>
      (\<exists>it. it_Seek vt target it0 = Some it \<and>
         visit vt (it_Next vt) it = Some (dropWhile (\<lambda>e. cmp (fst e) target < 0) es)))"
proof -
  have cont: "cont = block_bytes R es" using assms(4,5) by (simp add: add_entries_eq Finish_builder_of)
  then have good: "good_block cmp ok R es" using assms(1-4,6) by (simp add: good_block_def block_ok_def)
  show ?thesis
    using block_iterator.at_delivers [OF NewIterator_at [OF good]] unfolding assms(7,8) cont delivers_def .
qed

text \<open>A block of three entries with two restart points.\<close>

definition ex_entries :: "entry list" where
  "ex_entries = [([1, 2], [7]), ([1, 3], []), ([4], [8, 9])]"

lemma ex_block_length: "length (fst (BlockBuilder_Finish (add_entries 2 ex_entries mkBlockBuilder))) = 28"
  by (simp add: ex_entries_def add_entries_def BlockBuilder_Add_def mkBlockBuilder_def BlockBuilder_Finish_def
      PutFixed32_def PutVarint32_def EncodeVarint32_def Let_def)

theorem block_roundtrip_witness:
  "\<exists>it. it_Seek (BlockIterator slice_compare) [1, 3]
      (Block_NewIterator (mkBlock (fst (BlockBuilder_Finish (add_entries 2 ex_entries mkBlockBuilder))))) = Some it \<and>
    visit (BlockIterator slice_compare) (it_Next (BlockIterator slice_compare)) it = Some [([1, 3], []), ([4], [8, 9])]"
proof -
  have "sorted_entries slice_compare (\<lambda>_. True) ex_entries" "\<forall>e \<in> set ex_entries. length (fst e) < 2 ^ 32"
    by (simp_all add: ex_entries_def sorted_entries_def)
  from block_roundtrip [OF slice_order.comparator_axioms this, of 2, OF _ refl _ refl refl] ex_block_length
  show ?thesis by (auto simp: ex_entries_def dest!: spec [of _ "[1, 3]"])
qed

end
