(* ===== verification/LdbBlockSafe.thy ===== *)
theory LdbBlockSafe
  imports LdbBlockProof
begin

text \<open>
  Blocks with arbitrary contents, as a damaged file may hold them: every operation of the iterator
  returns and stays inside the block, unless two lengths of an entry add up to $2^{32}$ or more.
\<close>

subsection \<open>Arbitrary contents\<close>

text \<open>No entry, wherever it starts, has two lengths whose sum does not fit into 32 bits.\<close>

definition entries_fit :: "bytes \<Rightarrow> nat \<Rightarrow> bool" where
  "entries_fit dat restarts \<longleftrightarrow>
     (\<forall>p \<in> set [0..<restarts].
        case DecodeEntry (drop p (take restarts dat)) of
          None \<Rightarrow> True
        | Some (shared, non_shared, value_length, rest) \<Rightarrow> unat non_shared + unat value_length < 2 ^ 32)"

definition safe_data :: "Iter \<Rightarrow> bool" where
  "safe_data it \<longleftrightarrow> bi_restarts it + 4 * bi_num_restarts it \<le> length (bi_data it) \<and> length (bi_data it) < 2 ^ 32 \<and>
     0 < bi_num_restarts it \<and> entries_fit (bi_data it) (bi_restarts it)"

text \<open>What every operation keeps: a valid iterator's value lies in the entries, behind its start.\<close>

definition safe_value :: "Iter \<Rightarrow> bool" where
  "safe_value it \<longleftrightarrow>
     (case bi_value it of
        None \<Rightarrow> False
      | Some (off, n) \<Rightarrow> bi_current it < off + n \<and> off + n \<le> bi_restarts it) \<and>
     bi_restart_index it < bi_num_restarts it"

definition iter_safe :: "Iter \<Rightarrow> bool" where
  "iter_safe it \<longleftrightarrow> safe_data it \<and> (Iter_Valid it \<longrightarrow> safe_value it)"

lemma DecodeEntry_suffix:
  assumes "DecodeEntry p = Some (s, n, v, r)"
  shows "\<exists>ps. p = ps @ r \<and> ps \<noteq> []" "n + v \<le> of_nat (length r)"
proof -
  have p3: "p = take 3 p @ drop 3 p" "take 3 p \<noteq> []" using assms by (auto simp: DecodeEntry_def split: if_splits)
  show "n + v \<le> of_nat (length r)"
    using assms by (auto simp: DecodeEntry_def Let_def not_less split: if_splits option.splits)
  show "\<exists>ps. p = ps @ r \<and> ps \<noteq> []"
  proof (cases "(ucast (p ! 0) OR ucast (p ! 1) OR ucast (p ! 2) :: u32) < 128")
    case True
    then have "r = drop 3 p" using assms by (auto simp: DecodeEntry_def Let_def split: if_splits)
    then show ?thesis using p3 by metis
  next
    case False
    then obtain s' p1 n' p2 v' where "GetVarint32Ptr p = Some (s', p1)" "GetVarint32Ptr p1 = Some (n', p2)"
      "GetVarint32Ptr p2 = Some (v', r)"
      using assms by (auto simp: DecodeEntry_def Let_def split: if_splits option.splits)
    then show ?thesis by (auto dest!: GetVarint32Ptr_suffix)
  qed
qed

lemma decode_inside:
  assumes "safe_data it" "cur < bi_restarts it"
    and "DecodeEntry (drop cur (take (bi_restarts it) (bi_data it))) = Some (s, n, v, r)"
  shows "length r < bi_restarts it - cur" "unat n + unat v \<le> length r"
proof -
  have le: "bi_restarts it \<le> length (bi_data it)" "bi_restarts it < 2 ^ 32" using assms(1) by (auto simp: safe_data_def)
  obtain ps where ps: "drop cur (take (bi_restarts it) (bi_data it)) = ps @ r" "ps \<noteq> []"
    using DecodeEntry_suffix(1) [OF assms(3)] by blast
  have "length (ps @ r) = bi_restarts it - cur" unfolding ps(1) [symmetric] using le by simp
  then show len: "length r < bi_restarts it - cur" using ps(2) by (cases ps) auto
  have "entries_fit (bi_data it) (bi_restarts it)" using assms(1) by (simp add: safe_data_def)
  from this [unfolded entries_fit_def, THEN bspec, of cur] assms(2,3) have fit: "unat n + unat v < 2 ^ 32" by simp
  have "unat (n + v) \<le> unat (of_nat (length r) :: u32)"
    using DecodeEntry_suffix(2) [OF assms(3)] by (simp add: word_le_nat_alt)
  then show "unat n + unat v \<le> length r" using fit len le(2) by (simp add: unat_word_ariths unat_of_nat)
qed

lemma advance_restart_any:
  "bi_restart_index it < bi_num_restarts it \<Longrightarrow>
   \<exists>k. advance_restart it = it\<lparr>bi_restart_index := k\<rparr> \<and> k < bi_num_restarts it"
proof (induction it rule: advance_restart.induct)
  case (1 it)
  let ?c = "bi_restart_index it + 1 < bi_num_restarts it \<and> GetRestartPoint it (bi_restart_index it + 1) < bi_current it"
  show ?case
  proof (cases ?c)
    case True
    from "1.IH" [OF this] True obtain k where
      "advance_restart (it\<lparr>bi_restart_index := bi_restart_index it + 1\<rparr>) = it\<lparr>bi_restart_index := k\<rparr>" "k < bi_num_restarts it"
      by auto
    then show ?thesis using True by (intro exI [of _ k]) (simp add: advance_restart.simps [of it])
  next
    case False
    then have "advance_restart it = it" by (simp only: advance_restart.simps [of it] if_False)
    then show ?thesis using "1.prems" by (intro exI [of _ "bi_restart_index it"]) simp
  qed
qed

definition same_block :: "Iter \<Rightarrow> Iter \<Rightarrow> bool" where
  "same_block it it' \<longleftrightarrow> bi_data it' = bi_data it \<and> bi_restarts it' = bi_restarts it \<and> bi_num_restarts it' = bi_num_restarts it"

lemma same_block_safe: "same_block it it' \<Longrightarrow> safe_data it \<Longrightarrow> safe_data it'"
  by (simp add: same_block_def safe_data_def)

lemma same_block_trans: "same_block a b \<Longrightarrow> same_block b c \<Longrightarrow> same_block a c"
  by (simp add: same_block_def)

text \<open>One step always returns, and moves forward when it finds an entry.\<close>

lemma parse_any:
  assumes "safe_data it" "bi_restart_index it < bi_num_restarts it" "NextEntryOffset it = Some cur"
  shows "\<exists>b it'. ParseNextKey it = Some (b, it') \<and> same_block it it' \<and>
    (if b then Iter_Valid it' \<and> safe_value it' \<and> bi_current it' = cur \<and>
       (\<exists>nxt. NextEntryOffset it' = Some nxt \<and> cur < nxt \<and> nxt \<le> bi_restarts it)
     else \<not> Iter_Valid it')"
proof (cases "bi_restarts it \<le> cur")
  case True
  then show ?thesis
    using assms(3) by (intro exI [of _ False]) (simp add: ParseNextKey_def Let_def same_block_def Iter_Valid_def)
next
  case False
  show ?thesis
  proof (cases "DecodeEntry (drop cur (take (bi_restarts it) (bi_data it)))")
    case None
    then show ?thesis
      using False assms(3)
      by (intro exI [of _ False]) (simp add: ParseNextKey_def Let_def same_block_def Iter_Valid_def CorruptionError_def)
  next
    case (Some e)
    then obtain s n v r where e: "DecodeEntry (drop cur (take (bi_restarts it) (bi_data it))) = Some (s, n, v, r)"
      by (metis prod_cases4)
    note d = decode_inside [OF assms(1) _ e]
    have le: "bi_restarts it \<le> length (bi_data it)" "bi_restarts it < 2 ^ 32" using assms(1) by (auto simp: safe_data_def)
    let ?p = "bi_restarts it - length r"
    let ?it = "it\<lparr>bi_current := cur, bi_key := take (unat s) (bi_key it) @ take (unat n) (drop ?p (bi_data it)),
        bi_value := Some (?p + unat n, unat v)\<rparr>"
    show ?thesis
    proof (cases "length (bi_key it) < unat s")
      case True
      then show ?thesis
        using False assms(3) e
        by (intro exI [of _ False]) (simp add: ParseNextKey_def Let_def same_block_def Iter_Valid_def CorruptionError_def)
    next
      case key: False
      have bounds: "cur < ?p + unat n + unat v" "?p + unat n + unat v \<le> bi_restarts it" using d False by linarith+
      then have "ParseNextKey it = Some (True, advance_restart ?it)"
        using False key assms(3) e le by (simp add: ParseNextKey_def Let_def)
      moreover obtain k where "advance_restart ?it = ?it\<lparr>bi_restart_index := k\<rparr>" "k < bi_num_restarts it"
        using advance_restart_any [of ?it] assms(2) by auto
      ultimately show ?thesis
        using False bounds le
        by (intro exI [of _ True]) (simp add: same_block_def Iter_Valid_def safe_value_def NextEntryOffset_def)
    qed
  qed
qed

lemma SeekToRestartPoint_any:
  assumes "safe_data it" "k < bi_num_restarts it"
  shows "same_block it (SeekToRestartPoint k it)" "bi_restart_index (SeekToRestartPoint k it) < bi_num_restarts (SeekToRestartPoint k it)"
    and "\<exists>cur. NextEntryOffset (SeekToRestartPoint k it) = Some cur"
  using assms by (simp_all add: SeekToRestartPoint_def same_block_def NextEntryOffset_def)

lemma parse_any_cases:
  assumes "safe_data it" "bi_restart_index it < bi_num_restarts it" "NextEntryOffset it = Some cur"
  obtains (stop) it' where "ParseNextKey it = Some (False, it')" "same_block it it'" "iter_safe it'"
  | (entry) it' nxt where "ParseNextKey it = Some (True, it')" "same_block it it'" "iter_safe it'" "Iter_Valid it'"
      "bi_restarts it' - nxt < bi_restarts it - cur" "safe_data it'" "bi_restart_index it' < bi_num_restarts it'"
      "NextEntryOffset it' = Some nxt"
proof -
  obtain b it' where p: "ParseNextKey it = Some (b, it')" "same_block it it'"
    and b: "if b then Iter_Valid it' \<and> safe_value it' \<and> bi_current it' = cur \<and>
       (\<exists>nxt. NextEntryOffset it' = Some nxt \<and> cur < nxt \<and> nxt \<le> bi_restarts it) else \<not> Iter_Valid it'"
    using parse_any [OF assms] by blast
  have safe: "safe_data it'" using same_block_safe [OF p(2) assms(1)] .
  show thesis
  proof (cases b)
    case True
    then obtain nxt where nxt: "NextEntryOffset it' = Some nxt" "cur < nxt" "nxt \<le> bi_restarts it" using b by auto
    have "bi_restart_index it' < bi_num_restarts it'" using True b by (simp add: safe_value_def)
    moreover have "bi_restarts it' - nxt < bi_restarts it - cur" using p(2) nxt by (simp add: same_block_def)
    ultimately show thesis using entry [of it' nxt] p b True safe nxt(1) by (simp add: iter_safe_def)
  next
    case False
    then show thesis using stop [of it'] p b safe by (simp add: iter_safe_def)
  qed
qed

lemma skip_until_any:
  assumes "safe_data it" "bi_restart_index it < bi_num_restarts it" "NextEntryOffset it = Some cur"
  shows "\<exists>it'. skip_until bound it = Some it' \<and> iter_safe it' \<and> same_block it it'"
  using assms
proof (induction "bi_restarts it - cur" arbitrary: it cur rule: less_induct)
  case less
  from less.prems show ?case
  proof (cases rule: parse_any_cases)
    case (stop it')
    then show ?thesis by (simp add: skip_until.simps [of _ it])
  next
    case (entry it' nxt)
    from less.hyps [OF entry(5-8)] obtain it'' where
      "skip_until bound it' = Some it''" "iter_safe it''" "same_block it it''" using same_block_trans [OF entry(2)] by blast
    then show ?thesis using entry(1-4,8) by (simp add: skip_until.simps [of _ it])
  qed
qed

lemma seek_linear_any:
  assumes "safe_data it" "bi_restart_index it < bi_num_restarts it" "NextEntryOffset it = Some cur"
  shows "\<exists>it'. seek_linear cmp t it = Some it' \<and> iter_safe it' \<and> same_block it it'"
  using assms
proof (induction "bi_restarts it - cur" arbitrary: it cur rule: less_induct)
  case less
  from less.prems show ?case
  proof (cases rule: parse_any_cases)
    case (stop it')
    then show ?thesis by (simp add: seek_linear.simps [of cmp t it])
  next
    case (entry it' nxt)
    from less.hyps [OF entry(5-8)] obtain it'' where
      "seek_linear cmp t it' = Some it''" "iter_safe it''" "same_block it it''" using same_block_trans [OF entry(2)] by blast
    then show ?thesis using entry(1-4,8) by (simp add: seek_linear.simps [of cmp t it])
  qed
qed

lemma seek_round_any:
  assumes "safe_data it" "left < right" "right < bi_num_restarts it"
  shows "seek_round cmp t it left right = Some (Inl ()) \<or>
    (\<exists>mid. left < mid \<and> mid \<le> right \<and> seek_round cmp t it left right \<in> {Some (Inr (mid, right)), Some (Inr (left, mid - 1))})"
proof -
  define mid where "mid = (left + right + 1) div 2"
  have mid: "left < mid" "mid \<le> right" using assms(2) by (auto simp: mid_def)
  have "(left + right + 1) mod 2 ^ 32 = left + right + 1"
    using assms by (intro mod_less) (auto simp: safe_data_def)
  then have m: "((left + right + 1) mod 2 ^ 32) div 2 = mid" by (simp add: mid_def)
  show ?thesis
  proof (cases "DecodeEntry (drop (GetRestartPoint it mid) (take (bi_restarts it) (bi_data it)))")
    case None
    then show ?thesis unfolding seek_round_def m Let_def by simp
  next
    case (Some e)
    then obtain s n v r where
      e: "DecodeEntry (drop (GetRestartPoint it mid) (take (bi_restarts it) (bi_data it))) = Some (s, n, v, r)"
      by (metis prod_cases4)
    have "GetRestartPoint it mid < bi_restarts it"
      using e by (rule_tac ccontr) (simp add: not_less DecodeEntry_def)
    note d = decode_inside [OF assms(1) this e]
    have "bi_restarts it \<le> length (bi_data it)" using assms(1) by (auto simp: safe_data_def)
    then have "\<not> length (bi_data it) < bi_restarts it - length r + unat n" using d by linarith
    then show ?thesis using e mid unfolding seek_round_def m Let_def by auto
  qed
qed

lemma seek_bounds_any:
  assumes "safe_data it" "left \<le> right" "right < bi_num_restarts it"
  shows "seek_bounds cmp t it left right = Some (Inl ()) \<or>
    (\<exists>k < bi_num_restarts it. seek_bounds cmp t it left right = Some (Inr k))"
  using assms(2,3)
proof (induction "right - left" arbitrary: left right rule: less_induct)
  case less
  show ?case
  proof (cases "left < right")
    case True
    note unfold = seek_bounds.simps [of cmp t it left right]
    from seek_round_any [OF assms(1) True less.prems(2), of cmp t] consider
        "seek_round cmp t it left right = Some (Inl ())"
      | mid where "left < mid" "mid \<le> right" "seek_round cmp t it left right = Some (Inr (mid, right))"
      | mid where "left < mid" "mid \<le> right" "seek_round cmp t it left right = Some (Inr (left, mid - 1))"
      by blast
    then show ?thesis
    proof cases
      case 1
      then show ?thesis by (simp add: unfold True)
    next
      case (2 mid)
      then show ?thesis using less.hyps [of right mid] less.prems by (simp add: unfold True)
    next
      case (3 mid)
      have "mid - 1 - left < right - left" "left \<le> mid - 1" "mid - 1 < bi_num_restarts it"
        using 3 less.prems by linarith+
      from less.hyps [OF this] show ?thesis using 3 by (simp add: unfold True)
    qed
  next
    case False
    then have "seek_bounds cmp t it left right = Some (Inr left)" by (simp add: seek_bounds.simps [of cmp t it left right])
    then show ?thesis using less.prems by simp
  qed
qed

lemma restart_before_any: "restart_before it original k = Some m \<Longrightarrow> m \<le> k"
  by (induction k) (auto split: if_splits)

lemma Iter_moves_safe:
  assumes "iter_safe it"
  shows "\<exists>it'. Iter_SeekToFirst it = Some it' \<and> iter_safe it'" "\<exists>it'. Iter_SeekToLast it = Some it' \<and> iter_safe it'"
    and "\<exists>it'. Iter_Seek cmp t it = Some it' \<and> iter_safe it'"
    and "Iter_Valid it \<Longrightarrow> \<exists>it'. Iter_Next it = Some it' \<and> iter_safe it'"
    and "Iter_Valid it \<Longrightarrow> \<exists>it'. Iter_Prev it = Some it' \<and> iter_safe it'"
proof -
  have safe: "safe_data it" using assms by (simp add: iter_safe_def)
  have num: "0 < bi_num_restarts it" using safe by (simp add: safe_data_def)
  have seek: "safe_data (SeekToRestartPoint k it)" if "k < bi_num_restarts it" for k
    using same_block_safe [OF SeekToRestartPoint_any(1) safe] safe that by blast
  note pt = SeekToRestartPoint_any [OF safe]
  obtain cur where c: "NextEntryOffset (SeekToRestartPoint 0 it) = Some cur" using pt(3) [OF num] by blast
  show "\<exists>it'. Iter_SeekToFirst it = Some it' \<and> iter_safe it'"
    by (rule parse_any_cases [OF seek [OF num] pt(2) [OF num] c]) (auto simp: Iter_SeekToFirst_def)
  have last: "bi_num_restarts it - 1 < bi_num_restarts it" using num by simp
  show "\<exists>it'. Iter_SeekToLast it = Some it' \<and> iter_safe it'"
    using skip_until_any [OF seek [OF last] pt(2) [OF last]] pt(3) [OF last] by (auto simp: Iter_SeekToLast_def)
  have lin: "\<exists>it'. seek_linear cmp t (SeekToRestartPoint k it) = Some it' \<and> iter_safe it'" if "k < bi_num_restarts it" for k
    using seek_linear_any [OF seek [OF that] pt(2) [OF that]] pt(3) [OF that] by blast
  have "iter_safe (CorruptionError it)"
    using safe by (simp add: iter_safe_def CorruptionError_def Iter_Valid_def safe_data_def)
  then show "\<exists>it'. Iter_Seek cmp t it = Some it' \<and> iter_safe it'"
    using seek_bounds_any [OF safe _ last, of 0 cmp t] lin by (auto simp: Iter_Seek_def)
  assume v: "Iter_Valid it"
  then have sv: "safe_value it" using assms by (simp add: iter_safe_def)
  then have ri: "bi_restart_index it < bi_num_restarts it" by (simp add: safe_value_def)
  from sv obtain n where n: "NextEntryOffset it = Some n" by (auto simp: safe_value_def NextEntryOffset_def split: option.splits)
  show "\<exists>it'. Iter_Next it = Some it' \<and> iter_safe it'"
    by (rule parse_any_cases [OF safe ri n]) (auto simp: Iter_Next_def)
  show "\<exists>it'. Iter_Prev it = Some it' \<and> iter_safe it'"
  proof (cases "restart_before it (bi_current it) (bi_restart_index it)")
    case None
    then show ?thesis using safe by (simp add: Iter_Prev_def Let_def iter_safe_def Iter_Valid_def safe_data_def)
  next
    case (Some m)
    then have m: "m < bi_num_restarts it" using restart_before_any [OF Some] ri by simp
    show ?thesis using Some skip_until_any [OF seek [OF m] pt(2) [OF m]] pt(3) [OF m] by (auto simp: Iter_Prev_def Let_def)
  qed
qed

text \<open>The iterator of any contents starts in a safe state.\<close>

lemma mkBlock_safe:
  assumes "length cont < 2 ^ 32" "entries_fit cont (blk_restart_offset (mkBlock cont))" "Block_NewIterator (mkBlock cont) = Inl it"
  shows "iter_safe it"
proof -
  let ?b = "\<lparr>blk_data = cont, blk_size = length cont, blk_restart_offset = 0\<rparr>"
  let ?n = "NumRestarts ?b"
  have big: "\<not> length cont < 4" "\<not> ?n > (length cont - 4) div 4"
    using assms(3) by (auto simp: Block_NewIterator_def mkBlock_def Let_def split: if_splits)
  then have n: "4 * (1 + ?n) \<le> length cont" by (auto simp: not_less)
  have off: "blk_restart_offset (mkBlock cont) = length cont - (1 + ?n) * 4" and eq: "mkBlock cont = ?b\<lparr>blk_restart_offset := length cont - (1 + ?n) * 4\<rparr>"
    using big n assms(1) by (simp_all add: mkBlock_def Let_def)
  have num: "NumRestarts (mkBlock cont) = ?n" by (simp add: eq NumRestarts_def)
  have "it = mkIter cont (length cont - (1 + ?n) * 4) ?n" "0 < ?n"
    using assms(3) big num by (auto simp: Block_NewIterator_def eq Let_def split: if_splits)
  then show ?thesis
    using assms(1,2) n unfolding off by (simp add: iter_safe_def safe_data_def mkIter_def Iter_Valid_def)
qed

subsection \<open>Properties\<close>

text \<open>The objects a client can reach: it moves by \<open>Next\<close> and \<open>Prev\<close> only from valid positions.\<close>

inductive iter_reach :: "(bytes \<Rightarrow> bytes \<Rightarrow> int) \<Rightarrow> Iter \<Rightarrow> Iter \<Rightarrow> bool" for cmp it0 where
  start: "iter_reach cmp it0 it0"
| to_first: "iter_reach cmp it0 it \<Longrightarrow> Iter_SeekToFirst it = Some it' \<Longrightarrow> iter_reach cmp it0 it'"
| to_last: "iter_reach cmp it0 it \<Longrightarrow> Iter_SeekToLast it = Some it' \<Longrightarrow> iter_reach cmp it0 it'"
| seek: "iter_reach cmp it0 it \<Longrightarrow> Iter_Seek cmp t it = Some it' \<Longrightarrow> iter_reach cmp it0 it'"
| step_forward: "iter_reach cmp it0 it \<Longrightarrow> Iter_Valid it \<Longrightarrow> Iter_Next it = Some it' \<Longrightarrow> iter_reach cmp it0 it'"
| step_backward: "iter_reach cmp it0 it \<Longrightarrow> Iter_Valid it \<Longrightarrow> Iter_Prev it = Some it' \<Longrightarrow> iter_reach cmp it0 it'"

lemma iter_reach_safe: "iter_reach cmp it0 it \<Longrightarrow> iter_safe it0 \<Longrightarrow> iter_safe it"
proof (induction rule: iter_reach.induct)
  case (to_first it it')
  then show ?case using Iter_moves_safe(1) [of it] by auto
next
  case (to_last it it')
  then show ?case using Iter_moves_safe(2) [of it] by auto
next
  case (seek it t it')
  then show ?case using Iter_moves_safe(3) [of it cmp t] by auto
next
  case (step_forward it it')
  then show ?case using Iter_moves_safe(4) [of it] by auto
next
  case (step_backward it it')
  then show ?case using Iter_moves_safe(5) [of it] by auto
qed

text \<open>
  C33: Damaged blocks do not hang the reader. Whatever the bytes of a block shorter than 4 GB, as
  long as no entry has two lengths whose sum exceeds 32 bits: after any sequence of moves, every
  further move of the iterator returns (its loops end and it reads only bytes of the block), for any
  comparator, and the value of a valid iterator lies inside the block.
\<close>

theorem block_iterator_total:
  assumes "length cont < 2 ^ 32" "entries_fit cont (blk_restart_offset (mkBlock cont))"
    and "Block_NewIterator (mkBlock cont) = Inl it0" "iter_reach cmp it0 it"
  shows "(\<exists>it'. Iter_SeekToFirst it = Some it') \<and> (\<exists>it'. Iter_SeekToLast it = Some it') \<and>
    (\<forall>target. \<exists>it'. Iter_Seek cmp target it = Some it') \<and>
    (Iter_Valid it \<longrightarrow> (\<exists>it'. Iter_Next it = Some it') \<and> (\<exists>it'. Iter_Prev it = Some it') \<and>
      (\<exists>off n. bi_value it = Some (off, n) \<and> off + n \<le> length (bi_data it)))"
proof -
  have safe: "iter_safe it" by (rule iter_reach_safe [OF assms(4) mkBlock_safe [OF assms(1-3)]])
  have "\<exists>off n. bi_value it = Some (off, n) \<and> off + n \<le> length (bi_data it)" if "Iter_Valid it"
    using safe that by (auto simp: iter_safe_def safe_value_def safe_data_def split: option.splits)
  then show ?thesis using Iter_moves_safe [OF safe] by blast
qed

text \<open>A block whose only entry claims three bytes of value but holds one.\<close>

definition ex_damaged :: bytes where
  "ex_damaged = [0, 1, 3, 7, 9, 0, 0, 0, 0, 1, 0, 0, 0]"

definition ex_damaged_iter :: Iter where
  "ex_damaged_iter = mkIter ex_damaged 5 1"

lemma ex_damaged_facts:
  "entries_fit ex_damaged (blk_restart_offset (mkBlock ex_damaged))"
  "Block_NewIterator (mkBlock ex_damaged) = Inl ex_damaged_iter"
  by (simp_all add: ex_damaged_def ex_damaged_iter_def entries_fit_def mkBlock_def NumRestarts_def DecodeFixed32_def
      kLittleEndian_def DecodeEntry_def Block_NewIterator_def Let_def upt_rec GetVarint32Ptr_def)

theorem block_iterator_total_witness:
  "\<exists>it. Iter_Seek slice_compare [7] ex_damaged_iter = Some it"
  using block_iterator_total [OF _ ex_damaged_facts iter_reach.start, of slice_compare]
  by (auto simp: ex_damaged_def)

text \<open>
  The sum of the two lengths is computed in 32 bits. An entry with a key of $2^{32} - 16$ bytes and a
  value of 16 passes the check of \<open>DecodeEntry\<close>, and the iterator reads behind the block.
\<close>

definition ex_wrapping :: bytes where
  "ex_wrapping = [0, 240, 255, 255, 255, 15, 16, 0, 0, 0, 0, 1, 0, 0, 0]"

lemma block_entry_wraps:
  "DecodeEntry (take 7 ex_wrapping) = Some (0, 0xFFFFFFF0, 16, [])"
  "Iter_SeekToFirst (mkIter ex_wrapping 7 1) = None"
proof -
  show "DecodeEntry (take 7 ex_wrapping) = Some (0, 0xFFFFFFF0, 16, [])"
    by (simp add: ex_wrapping_def DecodeEntry_def GetVarint32Ptr_def GetVarint32PtrFallback_def Let_def)
  then show "Iter_SeekToFirst (mkIter ex_wrapping 7 1) = None"
    by (simp add: Iter_SeekToFirst_def mkIter_def SeekToRestartPoint_def GetRestartPoint_def ParseNextKey_def
        NextEntryOffset_def DecodeFixed32_def kLittleEndian_def ex_wrapping_def Let_def)
qed

end
