(* ===== verification/LdbVersionEdit.thy ===== *)
theory LdbVersionEdit
  imports LdbFormat LdbStatus
begin

text \<open>
  \<^verbatim>\<open>db/version_edit.h\<close> and \<^verbatim>\<open>db/version_edit.cc\<close>: the changes of the set of table files that the
  manifest records, and their encoding. Levels are the \<^verbatim>\<open>int\<close>s of the code, written as 32-bit
  numbers; the ordered set of deleted files is the list of its elements in order.

  The theory proves that decoding inverts encoding, that decoding any bytes ends with success or a
  corruption status, and that what it accepts has only existing levels.
\<close>

subsection \<open>The code\<close>

definition kNumLevels :: nat where
  "kNumLevels = 7"

record FileMetaData =
  fm_refs :: int
  fm_allowed_seeks :: int
  fm_number :: u64
  fm_file_size :: u64
  fm_smallest :: InternalKey
  fm_largest :: InternalKey

text \<open>The constructor leaves the number as it is; it is always set before it is read.\<close>

definition mkFileMetaData :: "u64 \<Rightarrow> FileMetaData" where
  "mkFileMetaData num =
     \<lparr>fm_refs = 0, fm_allowed_seeks = 2 ^ 30, fm_number = num, fm_file_size = 0, fm_smallest = [], fm_largest = []\<rparr>"

record VersionEdit =
  ve_comparator :: bytes
  ve_log_number :: u64
  ve_prev_log_number :: u64
  ve_next_file_number :: u64
  ve_last_sequence :: u64
  has_comparator :: bool
  has_log_number :: bool
  has_prev_log_number :: bool
  has_next_file_number :: bool
  has_last_sequence :: bool
  compact_pointers :: "(int \<times> InternalKey) list"
  deleted_files :: "(int \<times> u64) list"
  new_files :: "(int \<times> FileMetaData) list"

text \<open>\<open>Clear\<close> resets every member but the compaction pointers.\<close>

definition VersionEdit_Clear :: "VersionEdit \<Rightarrow> VersionEdit" where
  "VersionEdit_Clear e =
     e\<lparr>ve_comparator := [], ve_log_number := 0, ve_prev_log_number := 0, ve_last_sequence := 0, ve_next_file_number := 0,
       has_comparator := False, has_log_number := False, has_prev_log_number := False, has_next_file_number := False,
       has_last_sequence := False, deleted_files := [], new_files := []\<rparr>"

definition mkVersionEdit :: VersionEdit where
  "mkVersionEdit =
     \<lparr>ve_comparator = [], ve_log_number = 0, ve_prev_log_number = 0, ve_next_file_number = 0, ve_last_sequence = 0,
      has_comparator = False, has_log_number = False, has_prev_log_number = False, has_next_file_number = False,
      has_last_sequence = False, compact_pointers = [], deleted_files = [], new_files = []\<rparr>"

definition SetComparatorName :: "bytes \<Rightarrow> VersionEdit \<Rightarrow> VersionEdit" where
  "SetComparatorName name e = e\<lparr>has_comparator := True, ve_comparator := name\<rparr>"

definition SetLogNumber :: "u64 \<Rightarrow> VersionEdit \<Rightarrow> VersionEdit" where
  "SetLogNumber num e = e\<lparr>has_log_number := True, ve_log_number := num\<rparr>"

definition SetPrevLogNumber :: "u64 \<Rightarrow> VersionEdit \<Rightarrow> VersionEdit" where
  "SetPrevLogNumber num e = e\<lparr>has_prev_log_number := True, ve_prev_log_number := num\<rparr>"

definition SetNextFile :: "u64 \<Rightarrow> VersionEdit \<Rightarrow> VersionEdit" where
  "SetNextFile num e = e\<lparr>has_next_file_number := True, ve_next_file_number := num\<rparr>"

definition SetLastSequence :: "u64 \<Rightarrow> VersionEdit \<Rightarrow> VersionEdit" where
  "SetLastSequence sq e = e\<lparr>has_last_sequence := True, ve_last_sequence := sq\<rparr>"

definition SetCompactPointer :: "int \<Rightarrow> InternalKey \<Rightarrow> VersionEdit \<Rightarrow> VersionEdit" where
  "SetCompactPointer level key e = e\<lparr>compact_pointers := compact_pointers e @ [(level, key)]\<rparr>"

definition AddFile :: "int \<Rightarrow> u64 \<Rightarrow> u64 \<Rightarrow> InternalKey \<Rightarrow> InternalKey \<Rightarrow> VersionEdit \<Rightarrow> VersionEdit" where
  "AddFile level file file_size smallest largest e =
     e\<lparr>new_files := new_files e @
         [(level, (mkFileMetaData file)\<lparr>fm_file_size := file_size, fm_smallest := smallest, fm_largest := largest\<rparr>)]\<rparr>"

text \<open>Insertion into the ordered set of pairs.\<close>

definition file_less :: "int \<times> u64 \<Rightarrow> int \<times> u64 \<Rightarrow> bool" where
  "file_less a b \<longleftrightarrow> fst a < fst b \<or> fst a = fst b \<and> snd a < snd b"

fun set_insert :: "int \<times> u64 \<Rightarrow> (int \<times> u64) list \<Rightarrow> (int \<times> u64) list" where
  "set_insert x [] = [x]"
| "set_insert x (y # ys) = (if file_less x y then x # y # ys else if file_less y x then y # set_insert x ys else y # ys)"

definition DeleteFile :: "int \<Rightarrow> u64 \<Rightarrow> VersionEdit \<Rightarrow> VersionEdit" where
  "DeleteFile level file e = e\<lparr>deleted_files := set_insert (level, file) (deleted_files e)\<rparr>"

datatype Tag = kComparator | kLogNumber | kNextFileNumber | kLastSequence | kCompactPointer | kDeletedFile | kNewFile | kPrevLogNumber

definition tag_code :: "Tag \<Rightarrow> u32" where
  "tag_code t = (case t of kComparator \<Rightarrow> 1 | kLogNumber \<Rightarrow> 2 | kNextFileNumber \<Rightarrow> 3 | kLastSequence \<Rightarrow> 4
     | kCompactPointer \<Rightarrow> 5 | kDeletedFile \<Rightarrow> 6 | kNewFile \<Rightarrow> 7 | kPrevLogNumber \<Rightarrow> 9)"

definition VersionEdit_EncodeTo :: "VersionEdit \<Rightarrow> bytes \<Rightarrow> bytes" where
  "VersionEdit_EncodeTo e dst =
     (let dst = (if has_comparator e then PutLengthPrefixedSlice (PutVarint32 dst (tag_code kComparator)) (ve_comparator e) else dst);
          dst = (if has_log_number e then PutVarint64 (PutVarint32 dst (tag_code kLogNumber)) (ve_log_number e) else dst);
          dst = (if has_prev_log_number e then PutVarint64 (PutVarint32 dst (tag_code kPrevLogNumber)) (ve_prev_log_number e) else dst);
          dst = (if has_next_file_number e then PutVarint64 (PutVarint32 dst (tag_code kNextFileNumber)) (ve_next_file_number e) else dst);
          dst = (if has_last_sequence e then PutVarint64 (PutVarint32 dst (tag_code kLastSequence)) (ve_last_sequence e) else dst);
          dst = foldl (\<lambda>dst (level, key).
                  PutLengthPrefixedSlice (PutVarint32 (PutVarint32 dst (tag_code kCompactPointer)) (of_int level)) key)
                dst (compact_pointers e);
          dst = foldl (\<lambda>dst (level, num).
                  PutVarint64 (PutVarint32 (PutVarint32 dst (tag_code kDeletedFile)) (of_int level)) num)
                dst (deleted_files e)
      in foldl (\<lambda>dst (level, f).
                  PutLengthPrefixedSlice (PutLengthPrefixedSlice
                    (PutVarint64 (PutVarint64 (PutVarint32 (PutVarint32 dst (tag_code kNewFile)) (of_int level))
                       (fm_number f)) (fm_file_size f)) (fm_smallest f)) (fm_largest f))
           dst (new_files e))"

definition GetInternalKey :: "bytes \<Rightarrow> InternalKey option \<times> bytes" where
  "GetInternalKey input =
     (case GetLengthPrefixedSlice input of
        (Some str, input) \<Rightarrow> (Some (InternalKey_DecodeFrom str), input)
      | (None, input) \<Rightarrow> (None, input))"

definition GetLevel :: "bytes \<Rightarrow> int option \<times> bytes" where
  "GetLevel input =
     (case GetVarint32 input of
        (Some v, input) \<Rightarrow> (if v < of_nat kNumLevels then Some (uint v) else None, input)
      | (None, input) \<Rightarrow> (None, input))"

text \<open>One iteration of the loop of \<open>DecodeFrom\<close>: the error message, the rest of the input and the edit.\<close>

definition decode_number :: "bytes \<Rightarrow> (u64 \<Rightarrow> VersionEdit \<Rightarrow> VersionEdit) \<Rightarrow> bytes \<Rightarrow> VersionEdit \<Rightarrow> bytes option \<times> bytes \<times> VersionEdit" where
  "decode_number msg setter input e =
     (case GetVarint64 input of
        (Some v, input) \<Rightarrow> (None, input, setter v e)
      | (None, input) \<Rightarrow> (Some msg, input, e))"

definition decode_compact_pointer :: "bytes \<Rightarrow> VersionEdit \<Rightarrow> bytes option \<times> bytes \<times> VersionEdit" where
  "decode_compact_pointer input e =
     (case GetLevel input of
        (None, input) \<Rightarrow> (Some (lit ''compaction pointer''), input, e)
      | (Some level, input) \<Rightarrow>
          (case GetInternalKey input of
             (None, input) \<Rightarrow> (Some (lit ''compaction pointer''), input, e)
           | (Some key, input) \<Rightarrow> (None, input, SetCompactPointer level key e)))"

definition decode_deleted_file :: "bytes \<Rightarrow> VersionEdit \<Rightarrow> bytes option \<times> bytes \<times> VersionEdit" where
  "decode_deleted_file input e =
     (case GetLevel input of
        (None, input) \<Rightarrow> (Some (lit ''deleted file''), input, e)
      | (Some level, input) \<Rightarrow>
          (case GetVarint64 input of
             (None, input) \<Rightarrow> (Some (lit ''deleted file''), input, e)
           | (Some num, input) \<Rightarrow> (None, input, DeleteFile level num e)))"

definition decode_new_file :: "bytes \<Rightarrow> VersionEdit \<Rightarrow> bytes option \<times> bytes \<times> VersionEdit" where
  "decode_new_file input e =
     (case GetLevel input of
        (None, input) \<Rightarrow> (Some (lit ''new-file entry''), input, e)
      | (Some level, input) \<Rightarrow>
          (case GetVarint64 input of
             (None, input) \<Rightarrow> (Some (lit ''new-file entry''), input, e)
           | (Some num, input) \<Rightarrow>
               (case GetVarint64 input of
                  (None, input) \<Rightarrow> (Some (lit ''new-file entry''), input, e)
                | (Some file_size, input) \<Rightarrow>
                    (case GetInternalKey input of
                       (None, input) \<Rightarrow> (Some (lit ''new-file entry''), input, e)
                     | (Some smallest, input) \<Rightarrow>
                         (case GetInternalKey input of
                            (None, input) \<Rightarrow> (Some (lit ''new-file entry''), input, e)
                          | (Some largest, input) \<Rightarrow> (None, input, AddFile level num file_size smallest largest e))))))"

definition decode_tag :: "u32 \<Rightarrow> bytes \<Rightarrow> VersionEdit \<Rightarrow> bytes option \<times> bytes \<times> VersionEdit" where
  "decode_tag tag input e =
     (if tag = tag_code kComparator
      then
        (case GetLengthPrefixedSlice input of
           (Some str, input) \<Rightarrow> (None, input, SetComparatorName str e)
         | (None, input) \<Rightarrow> (Some (lit ''comparator name''), input, e))
      else if tag = tag_code kLogNumber then decode_number (lit ''log number'') SetLogNumber input e
      else if tag = tag_code kPrevLogNumber then decode_number (lit ''previous log number'') SetPrevLogNumber input e
      else if tag = tag_code kNextFileNumber then decode_number (lit ''next file number'') SetNextFile input e
      else if tag = tag_code kLastSequence then decode_number (lit ''last sequence number'') SetLastSequence input e
      else if tag = tag_code kCompactPointer then decode_compact_pointer input e
      else if tag = tag_code kDeletedFile then decode_deleted_file input e
      else if tag = tag_code kNewFile then decode_new_file input e
      else (Some (lit ''unknown tag''), input, e))"

text \<open>Every iteration consumes input.\<close>

lemma GetVarint_le:
  "GetVarint32 p = (x, q) \<Longrightarrow> length q \<le> length p" "GetVarint64 p = (y, q) \<Longrightarrow> length q \<le> length p"
  using GetVarint_shorter [of p]
  by (auto simp: GetVarint32_def GetVarint64_def split: option.splits prod.splits)

lemma GetLengthPrefixedSlice_le: "GetLengthPrefixedSlice p = (x, q) \<Longrightarrow> length q \<le> length p"
  by (auto simp: GetLengthPrefixedSlice_def split: option.splits prod.splits if_splits dest!: GetVarint_le)

lemma Get_le: "GetLevel p = (x, q) \<Longrightarrow> length q \<le> length p" "GetInternalKey p = (y, q) \<Longrightarrow> length q \<le> length p"
  by (auto simp: GetLevel_def GetInternalKey_def split: option.splits prod.splits dest: GetVarint_le GetLengthPrefixedSlice_le)

lemma decode_tag_le: "decode_tag tag p e = (m, q, e') \<Longrightarrow> length q \<le> length p"
  unfolding decode_tag_def decode_number_def decode_compact_pointer_def decode_deleted_file_def decode_new_file_def
  by (auto split: if_splits option.splits prod.splits dest!: GetVarint_le Get_le GetLengthPrefixedSlice_le)

function decode_edit_loop :: "bytes \<Rightarrow> VersionEdit \<Rightarrow> bytes option \<times> bytes \<times> VersionEdit" where
  "decode_edit_loop input e =
     (case GetVarint32 input of
        (None, input) \<Rightarrow> (None, input, e)
      | (Some tag, input) \<Rightarrow>
          (case decode_tag tag input e of
             (Some msg, input, e) \<Rightarrow> (Some msg, input, e)
           | (None, input, e) \<Rightarrow> decode_edit_loop input e))"
  by pat_completeness auto
termination by (relation "measure (length \<circ> fst)") (auto simp: eq_commute dest!: GetVarint_shorter decode_tag_le)

declare decode_edit_loop.simps [simp del]

definition VersionEdit_DecodeFrom :: "bytes \<Rightarrow> VersionEdit \<Rightarrow> Status \<times> VersionEdit" where
  "VersionEdit_DecodeFrom src e =
     (let (msg, input, e) = decode_edit_loop src (VersionEdit_Clear e);
          msg = (if msg = None \<and> input \<noteq> [] then Some (lit ''invalid tag'') else msg)
      in case msg of
           None \<Rightarrow> (OK, e)
         | Some m \<Rightarrow> (Corruption (lit ''VersionEdit'') m, e))"

subsection \<open>What is encoded\<close>

text \<open>The records of an edit, one after the other.\<close>

definition num_record :: "bool \<Rightarrow> Tag \<Rightarrow> u64 \<Rightarrow> bytes" where
  "num_record present t v = (if present then EncodeVarint32 (tag_code t) @ EncodeVarint64 v else [])"

definition pointer_record :: "int \<times> InternalKey \<Rightarrow> bytes" where
  "pointer_record p = EncodeVarint32 (tag_code kCompactPointer) @ EncodeVarint32 (of_int (fst p)) @ PutLengthPrefixedSlice [] (snd p)"

definition deleted_record :: "int \<times> u64 \<Rightarrow> bytes" where
  "deleted_record p = EncodeVarint32 (tag_code kDeletedFile) @ EncodeVarint32 (of_int (fst p)) @ EncodeVarint64 (snd p)"

definition file_record :: "int \<times> FileMetaData \<Rightarrow> bytes" where
  "file_record p = EncodeVarint32 (tag_code kNewFile) @ EncodeVarint32 (of_int (fst p)) @ EncodeVarint64 (fm_number (snd p)) @
     EncodeVarint64 (fm_file_size (snd p)) @ PutLengthPrefixedSlice [] (fm_smallest (snd p)) @ PutLengthPrefixedSlice [] (fm_largest (snd p))"

lemma foldl_records: "foldl (\<lambda>dst x. dst @ f x) dst xs = dst @ concat (map f xs)"
  by (induction xs arbitrary: dst) simp_all

lemma EncodeTo_records:
  "VersionEdit_EncodeTo e dst = dst @
     (if has_comparator e then EncodeVarint32 (tag_code kComparator) @ PutLengthPrefixedSlice [] (ve_comparator e) else []) @
     num_record (has_log_number e) kLogNumber (ve_log_number e) @ num_record (has_prev_log_number e) kPrevLogNumber (ve_prev_log_number e) @
     num_record (has_next_file_number e) kNextFileNumber (ve_next_file_number e) @
     num_record (has_last_sequence e) kLastSequence (ve_last_sequence e) @ concat (map pointer_record (compact_pointers e)) @
     concat (map deleted_record (deleted_files e)) @ concat (map file_record (new_files e))"
proof -
  have f: "(\<lambda>dst (level, key). PutLengthPrefixedSlice (PutVarint32 (PutVarint32 dst (tag_code kCompactPointer)) (of_int level)) key) =
      (\<lambda>dst p. dst @ pointer_record p)"
    "(\<lambda>dst (level, num). PutVarint64 (PutVarint32 (PutVarint32 dst (tag_code kDeletedFile)) (of_int level)) num) =
      (\<lambda>dst p. dst @ deleted_record p)"
    "(\<lambda>dst (level, f). PutLengthPrefixedSlice (PutLengthPrefixedSlice
        (PutVarint64 (PutVarint64 (PutVarint32 (PutVarint32 dst (tag_code kNewFile)) (of_int level)) (fm_number f)) (fm_file_size f))
          (fm_smallest f)) (fm_largest f)) = (\<lambda>dst p. dst @ file_record p)"
    by (auto simp: fun_eq_iff pointer_record_def deleted_record_def file_record_def PutVarint32_def PutVarint64_def PutLengthPrefixedSlice_def)
  show ?thesis
    unfolding VersionEdit_EncodeTo_def f foldl_records Let_def num_record_def
    by (simp add: PutVarint32_def PutVarint64_def PutLengthPrefixedSlice_def)
qed

subsection \<open>Decoding the records\<close>

definition level_ok :: "int \<Rightarrow> bool" where
  "level_ok level \<longleftrightarrow> 0 \<le> level \<and> level < int kNumLevels"

lemma GetLevel_Encode: "level_ok level \<Longrightarrow> GetLevel (EncodeVarint32 (of_int level) @ rest) = (Some level, rest)"
  by (auto simp: GetLevel_def codec_simps level_ok_def kNumLevels_def word_less_def uint_word_of_int)

lemma GetInternalKey_Put: "short_string k \<Longrightarrow> GetInternalKey (PutLengthPrefixedSlice [] k @ rest) = (Some k, rest)"
  by (simp add: GetInternalKey_def codec_simps InternalKey_DecodeFrom_def)

lemma tag_code_inj [simp]: "tag_code t = tag_code t' \<longleftrightarrow> t = t'"
  by (cases t; cases t') (simp_all add: tag_code_def)

lemma loop_tag:
  "decode_edit_loop (EncodeVarint32 t @ rest) e =
     (case decode_tag t rest e of (Some msg, input, e) \<Rightarrow> (Some msg, input, e) | (None, input, e) \<Rightarrow> decode_edit_loop input e)"
  by (subst decode_edit_loop.simps) (simp add: codec_simps)

lemma loop_comparator:
  "short_string name \<Longrightarrow> decode_edit_loop (EncodeVarint32 (tag_code kComparator) @ PutLengthPrefixedSlice [] name @ rest) e =
     decode_edit_loop rest (SetComparatorName name e)"
  by (simp add: loop_tag decode_tag_def codec_simps)

lemma loop_numbers:
  "decode_edit_loop (num_record b kLogNumber v @ rest) e = decode_edit_loop rest (if b then SetLogNumber v e else e)"
  "decode_edit_loop (num_record b kPrevLogNumber v @ rest) e = decode_edit_loop rest (if b then SetPrevLogNumber v e else e)"
  "decode_edit_loop (num_record b kNextFileNumber v @ rest) e = decode_edit_loop rest (if b then SetNextFile v e else e)"
  "decode_edit_loop (num_record b kLastSequence v @ rest) e = decode_edit_loop rest (if b then SetLastSequence v e else e)"
  by (simp_all add: num_record_def loop_tag decode_tag_def decode_number_def codec_simps)

lemma loop_pointers:
  "(\<forall>p \<in> set ps. level_ok (fst p) \<and> short_string (snd p)) \<Longrightarrow>
    decode_edit_loop (concat (map pointer_record ps) @ rest) e = decode_edit_loop rest (e\<lparr>compact_pointers := compact_pointers e @ ps\<rparr>)"
proof (induction ps arbitrary: e)
  case (Cons p ps)
  then show ?case
    by (simp add: pointer_record_def loop_tag decode_tag_def decode_compact_pointer_def GetLevel_Encode GetInternalKey_Put SetCompactPointer_def)
qed simp

lemma set_insert_last: "(\<forall>y \<in> set ys. file_less y x) \<Longrightarrow> set_insert x ys = ys @ [x]"
  by (induction ys) (auto simp: file_less_def)

lemma loop_deleted:
  "(\<forall>p \<in> set ps. level_ok (fst p)) \<Longrightarrow> sorted_wrt file_less (deleted_files e @ ps) \<Longrightarrow>
    decode_edit_loop (concat (map deleted_record ps) @ rest) e = decode_edit_loop rest (e\<lparr>deleted_files := deleted_files e @ ps\<rparr>)"
proof (induction ps arbitrary: e)
  case (Cons p ps)
  have i: "set_insert p (deleted_files e) = deleted_files e @ [p]" using Cons.prems(2) by (intro set_insert_last) (simp add: sorted_wrt_append)
  show ?case
    using Cons.IH [of "DeleteFile (fst p) (snd p) e"] Cons.prems i
    by (simp add: deleted_record_def loop_tag decode_tag_def decode_deleted_file_def GetLevel_Encode DeleteFile_def codec_simps)
qed simp

definition file_ok :: "FileMetaData \<Rightarrow> bool" where
  "file_ok f \<longleftrightarrow> fm_refs f = 0 \<and> fm_allowed_seeks f = 2 ^ 30 \<and> short_string (fm_smallest f) \<and> short_string (fm_largest f)"

lemma loop_files:
  "(\<forall>p \<in> set ps. level_ok (fst p) \<and> file_ok (snd p)) \<Longrightarrow>
    decode_edit_loop (concat (map file_record ps) @ rest) e = decode_edit_loop rest (e\<lparr>new_files := new_files e @ ps\<rparr>)"
proof (induction ps arbitrary: e)
  case (Cons p ps)
  obtain level f where p: "p = (level, f)" by fastforce
  have "AddFile level (fm_number f) (fm_file_size f) (fm_smallest f) (fm_largest f) e = e\<lparr>new_files := new_files e @ [p]\<rparr>"
    using Cons.prems by (simp add: p AddFile_def mkFileMetaData_def file_ok_def)
  then show ?case
    using Cons p
    by (simp add: file_record_def loop_tag decode_tag_def decode_new_file_def GetLevel_Encode GetInternalKey_Put codec_simps file_ok_def)
qed simp

subsection \<open>Well-formed edits\<close>

definition edit_ok :: "VersionEdit \<Rightarrow> bool" where
  "edit_ok e \<longleftrightarrow> short_string (ve_comparator e) \<and> (has_comparator e \<or> ve_comparator e = []) \<and>
     (has_log_number e \<or> ve_log_number e = 0) \<and> (has_prev_log_number e \<or> ve_prev_log_number e = 0) \<and>
     (has_next_file_number e \<or> ve_next_file_number e = 0) \<and> (has_last_sequence e \<or> ve_last_sequence e = 0) \<and>
     (\<forall>p \<in> set (compact_pointers e). level_ok (fst p) \<and> short_string (snd p)) \<and>
     (\<forall>p \<in> set (deleted_files e). level_ok (fst p)) \<and> sorted_wrt file_less (deleted_files e) \<and>
     (\<forall>p \<in> set (new_files e). level_ok (fst p) \<and> file_ok (snd p))"

lemma loop_lists:
  assumes "edit_ok e" "deleted_files x = []" "new_files x = []"
  shows "decode_edit_loop (concat (map pointer_record (compact_pointers e)) @ concat (map deleted_record (deleted_files e)) @
      concat (map file_record (new_files e)) @ []) x =
    (None, [], x\<lparr>compact_pointers := compact_pointers x @ compact_pointers e, deleted_files := deleted_files e, new_files := new_files e\<rparr>)"
proof -
  have nil: "decode_edit_loop [] y = (None, [], y)" for y
    by (subst decode_edit_loop.simps) (simp add: GetVarint32_def GetVarint32Ptr_def GetVarint32PtrFallback_def)
  show ?thesis
    using assms loop_pointers [of "compact_pointers e"] loop_deleted [of "deleted_files e" "x\<lparr>compact_pointers := compact_pointers x @ compact_pointers e\<rparr>"]
      loop_files [of "new_files e" "[]"] nil by (simp add: edit_ok_def)
qed

lemma set_set_insert: "set (set_insert x ys) \<subseteq> insert x (set ys)"
  by (induction ys) auto

lemma file_less_trans: "file_less x y \<Longrightarrow> file_less y z \<Longrightarrow> file_less x z"
  by (auto simp: file_less_def)

lemma sorted_set_insert: "sorted_wrt file_less ys \<Longrightarrow> sorted_wrt file_less (set_insert x ys)"
proof (induction ys)
  case (Cons y ys)
  then show ?case using set_set_insert [of x ys] by (auto intro: file_less_trans)
qed simp

text \<open>New edits are well-formed, and every setter keeps them so.\<close>

lemma edit_ok_setters:
  "edit_ok mkVersionEdit" "edit_ok e \<Longrightarrow> edit_ok (VersionEdit_Clear e)"
  "edit_ok e \<Longrightarrow> short_string name \<Longrightarrow> edit_ok (SetComparatorName name e)"
  "edit_ok e \<Longrightarrow> edit_ok (SetLogNumber num e)" "edit_ok e \<Longrightarrow> edit_ok (SetPrevLogNumber num e)"
  "edit_ok e \<Longrightarrow> edit_ok (SetNextFile num e)" "edit_ok e \<Longrightarrow> edit_ok (SetLastSequence num e)"
  "edit_ok e \<Longrightarrow> level_ok level \<Longrightarrow> short_string k \<Longrightarrow> edit_ok (SetCompactPointer level k e)"
  "edit_ok e \<Longrightarrow> level_ok level \<Longrightarrow> edit_ok (DeleteFile level num e)"
  "edit_ok e \<Longrightarrow> level_ok level \<Longrightarrow> short_string k \<Longrightarrow> short_string l \<Longrightarrow> edit_ok (AddFile level num siz k l e)"
  using set_set_insert [of "(level, num)" "deleted_files e"]
  by (auto simp: edit_ok_def mkVersionEdit_def VersionEdit_Clear_def SetComparatorName_def SetLogNumber_def SetPrevLogNumber_def
      SetNextFile_def SetLastSequence_def SetCompactPointer_def DeleteFile_def AddFile_def mkFileMetaData_def file_ok_def short_string_def
      sorted_set_insert)

lemma Get_ok:
  "GetLevel p = (Some level, q) \<Longrightarrow> level_ok level" "GetLengthPrefixedSlice p = (Some v, q) \<Longrightarrow> short_string v"
  "GetInternalKey p = (Some k, q) \<Longrightarrow> short_string k"
proof -
  show "GetLevel p = (Some level, q) \<Longrightarrow> level_ok level"
    by (auto simp: GetLevel_def level_ok_def kNumLevels_def word_less_def split: option.splits prod.splits if_splits)
  have slice: "short_string v" if "GetLengthPrefixedSlice p = (Some v, q)" for v q
    using that unsigned_less [where ?'a = nat and ?'b = 32]
    by (auto simp: GetLengthPrefixedSlice_def short_string_def split: option.splits prod.splits if_splits)
  then show "GetLengthPrefixedSlice p = (Some v, q) \<Longrightarrow> short_string v" .
  show "GetInternalKey p = (Some k, q) \<Longrightarrow> short_string k"
    using slice by (auto simp: GetInternalKey_def InternalKey_DecodeFrom_def split: option.splits prod.splits)
qed

lemma edit_ok_decode_tag: "decode_tag tag p e = (m, q, e') \<Longrightarrow> edit_ok e \<Longrightarrow> edit_ok e'"
  unfolding decode_tag_def decode_number_def decode_compact_pointer_def decode_deleted_file_def decode_new_file_def
  by (auto split: if_splits option.splits prod.splits dest!: Get_ok intro: edit_ok_setters)

lemma edit_ok_decode_loop: "decode_edit_loop p e = (m, q, e') \<Longrightarrow> edit_ok e \<Longrightarrow> edit_ok e'"
proof (induction p e rule: decode_edit_loop.induct)
  case (1 input e)
  show ?case
  proof (cases "GetVarint32 input")
    case (Pair t rest)
    show ?thesis
    proof (cases t)
      case None
      then show ?thesis using 1(2,3) Pair by (simp add: decode_edit_loop.simps [of input])
    next
      case (Some tag)
      obtain m1 q1 e1 where d: "decode_tag tag rest e = (m1, q1, e1)" by (metis prod_cases3)
      have e1: "edit_ok e1" by (rule edit_ok_decode_tag [OF d 1(3)])
      show ?thesis
        using 1(1) [OF Pair [symmetric] Some d [symmetric] _ refl] 1(2) Pair Some d e1
        by (cases m1) (simp_all add: decode_edit_loop.simps [of input])
    qed
  qed
qed

subsection \<open>Properties\<close>

text \<open>
  C37: The manifest gives back the edits that were written to it: decoding the encoding of a well-formed
  edit into any edit object succeeds and restores every member. Compaction pointers are the exception:
  \<open>Clear\<close> leaves those of the object alone, and the decoded ones are appended to them.
\<close>

theorem version_edit_roundtrip:
  assumes "edit_ok e"
  shows "VersionEdit_DecodeFrom (VersionEdit_EncodeTo e []) e0 =
    (OK, e\<lparr>compact_pointers := compact_pointers e0 @ compact_pointers e\<rparr>)"
proof -
  let ?e1 = "if has_comparator e then SetComparatorName (ve_comparator e) (VersionEdit_Clear e0) else VersionEdit_Clear e0"
  let ?e2 = "if has_log_number e then SetLogNumber (ve_log_number e) ?e1 else ?e1"
  let ?e3 = "if has_prev_log_number e then SetPrevLogNumber (ve_prev_log_number e) ?e2 else ?e2"
  let ?e4 = "if has_next_file_number e then SetNextFile (ve_next_file_number e) ?e3 else ?e3"
  let ?e5 = "if has_last_sequence e then SetLastSequence (ve_last_sequence e) ?e4 else ?e4"
  note setters = SetComparatorName_def SetLogNumber_def SetPrevLogNumber_def SetNextFile_def SetLastSequence_def
  note ok = assms [unfolded edit_ok_def]
  have del: "deleted_files ?e5 = []" "new_files ?e5 = []" "compact_pointers ?e5 = compact_pointers e0"
    by (simp_all add: setters VersionEdit_Clear_def)
  have "decode_edit_loop (VersionEdit_EncodeTo e []) (VersionEdit_Clear e0) =
      decode_edit_loop (concat (map pointer_record (compact_pointers e)) @ concat (map deleted_record (deleted_files e)) @
        concat (map file_record (new_files e)) @ []) ?e5"
    unfolding EncodeTo_records using ok by (cases "has_comparator e") (simp_all only: loop_numbers loop_comparator if_True if_False append_Nil append_assoc append_Nil2)
  also have "\<dots> = (None, [], ?e5\<lparr>compact_pointers := compact_pointers e0 @ compact_pointers e, deleted_files := deleted_files e,
      new_files := new_files e\<rparr>)"
    using loop_lists [OF assms del(1,2)] unfolding del(3) .
  also have "?e5\<lparr>compact_pointers := compact_pointers e0 @ compact_pointers e, deleted_files := deleted_files e, new_files := new_files e\<rparr> =
      e\<lparr>compact_pointers := compact_pointers e0 @ compact_pointers e\<rparr>"
    using ok by (intro VersionEdit.equality) (auto simp: setters VersionEdit_Clear_def)
  finally have "decode_edit_loop (VersionEdit_EncodeTo e []) (VersionEdit_Clear e0) =
      (None, [], e\<lparr>compact_pointers := compact_pointers e0 @ compact_pointers e\<rparr>)" .
  then show ?thesis by (simp add: VersionEdit_DecodeFrom_def)
qed

definition ex_edit :: VersionEdit where
  "ex_edit = AddFile 1 7 300 (mkInternalKey [1] 5 kTypeValue) (mkInternalKey [9] 6 kTypeValue)
     (DeleteFile 0 3 (SetCompactPointer 2 (mkInternalKey [4] 2 kTypeValue) (SetLogNumber 300 (SetComparatorName (lit ''c'') mkVersionEdit))))"

lemma edit_ok_ex_edit: "edit_ok ex_edit"
  unfolding ex_edit_def
  by (intro edit_ok_setters) (simp_all add: level_ok_def kNumLevels_def short_string_def mkInternalKey_eq lit_def)

theorem version_edit_roundtrip_witness:
  "VersionEdit_DecodeFrom (VersionEdit_EncodeTo ex_edit []) mkVersionEdit = (OK, ex_edit)"
  using version_edit_roundtrip [OF edit_ok_ex_edit, of mkVersionEdit] by (simp add: mkVersionEdit_def)

text \<open>
  C38: Whatever the bytes, decoding ends with success or a corruption status, and it leaves a well-formed
  edit: all levels exist, deleted files are an ordered set and fields that were not decoded are zero.
\<close>

theorem version_edit_decode_typed:
  assumes "edit_ok e" "VersionEdit_DecodeFrom src e = (s, e')"
  shows "edit_ok e' \<and> (s = OK \<or> IsCorruption s)"
proof -
  obtain m q e1 where d: "decode_edit_loop src (VersionEdit_Clear e) = (m, q, e1)" by (metis prod_cases3)
  have "edit_ok e1" by (rule edit_ok_decode_loop [OF d edit_ok_setters(2) [OF assms(1)]])
  moreover have "IsCorruption (Corruption a b)" for a b by (simp add: IsCorruption_def Corruption_def code_mkStatus)
  ultimately show ?thesis using assms(2) d by (auto simp: VersionEdit_DecodeFrom_def Let_def split: option.splits if_splits)
qed

theorem version_edit_decode_typed_witness:
  "\<exists>s e'. VersionEdit_DecodeFrom [6, 9, 9] mkVersionEdit = (s, e') \<and> edit_ok e' \<and> (s = OK \<or> IsCorruption s)"
  using version_edit_decode_typed [OF edit_ok_setters(1), of "[6, 9, 9]"] by (metis surj_pair)

end
