(* ===== verification/LdbTableFormat.thy ===== *)
theory LdbTableFormat
  imports LdbBlockProof LdbCrc LdbFile
begin

text \<open>
  \<^verbatim>\<open>table/format.h\<close> and \<^verbatim>\<open>table/format.cc\<close>: the handles of blocks, the footer of a table file and
  the reading of a block with its trailer, with the Snappy functions of \<^verbatim>\<open>port/port_posix.h\<close>.
\<close>

subsection \<open>Compression\<close>

datatype CompressionType = kNoCompression | kSnappyCompression

definition compression_code :: "CompressionType \<Rightarrow> byte" where
  "compression_code t = (case t of kNoCompression \<Rightarrow> 0 | kSnappyCompression \<Rightarrow> 1)"

text \<open>The three functions of the port; \<open>None\<close> where they return \<^verbatim>\<open>false\<close>.\<close>

record Snappy =
  Snappy_Compress :: "bytes \<Rightarrow> bytes option"
  Snappy_GetUncompressedLength :: "bytes \<Rightarrow> nat option"
  Snappy_Uncompress :: "bytes \<Rightarrow> bytes option"

text \<open>Without the macro \<^verbatim>\<open>SNAPPY\<close>, as the pod is built, all of them return \<^verbatim>\<open>false\<close>.\<close>

definition port_snappy :: Snappy where
  "port_snappy = \<lparr>Snappy_Compress = (\<lambda>input. None), Snappy_GetUncompressedLength = (\<lambda>input. None),
     Snappy_Uncompress = (\<lambda>input. None)\<rparr>"

text \<open>With the macro they are the Snappy library, of which \<^verbatim>\<open>port_example.h\<close> says this.\<close>

locale snappy_port =
  fixes sn :: Snappy
  assumes uncompress: "Snappy_Compress sn x = Some y \<Longrightarrow>
    Snappy_GetUncompressedLength sn y = Some (length x) \<and> Snappy_Uncompress sn y = Some x"

interpretation port: snappy_port port_snappy
  by standard (simp add: port_snappy_def)

subsection \<open>Block handles and the footer\<close>

record BlockHandle =
  bh_offset :: u64
  bh_size :: u64

definition mkBlockHandle :: BlockHandle where
  "mkBlockHandle = \<lparr>bh_offset = NOT 0, bh_size = NOT 0\<rparr>"

definition kMaxEncodedLength :: nat where
  "kMaxEncodedLength = 10 + 10"

definition BlockHandle_EncodeTo :: "BlockHandle \<Rightarrow> bytes \<Rightarrow> bytes" where
  "BlockHandle_EncodeTo h dst = PutVarint64 (PutVarint64 dst (bh_offset h)) (bh_size h)"

text \<open>The status, the handle and the rest of the input.\<close>

definition BlockHandle_DecodeFrom :: "bytes \<Rightarrow> BlockHandle \<Rightarrow> Status \<times> BlockHandle \<times> bytes" where
  "BlockHandle_DecodeFrom input h =
     (case GetVarint64 input of
        (None, input) \<Rightarrow> (Corruption (lit ''bad block handle'') [], h, input)
      | (Some offset, input) \<Rightarrow>
          (case GetVarint64 input of
             (None, input) \<Rightarrow> (Corruption (lit ''bad block handle'') [], h\<lparr>bh_offset := offset\<rparr>, input)
           | (Some siz, input) \<Rightarrow> (OK, h\<lparr>bh_offset := offset, bh_size := siz\<rparr>, input)))"

record Footer =
  metaindex_handle :: BlockHandle
  index_handle :: BlockHandle

definition kEncodedLength :: nat where
  "kEncodedLength = 2 * kMaxEncodedLength + 8"

definition kTableMagicNumber :: u64 where
  "kTableMagicNumber = 0xdb4775248b80fb57"

definition kBlockTrailerSize :: u64 where
  "kBlockTrailerSize = 5"

text \<open>\<^verbatim>\<open>std::string::resize\<close>.\<close>

definition resize :: "nat \<Rightarrow> bytes \<Rightarrow> bytes" where
  "resize n s = take n s @ replicate (n - length s) 0"

definition Footer_EncodeTo :: "Footer \<Rightarrow> bytes \<Rightarrow> bytes" where
  "Footer_EncodeTo f dst =
     (let dst = BlockHandle_EncodeTo (metaindex_handle f) dst;
          dst = BlockHandle_EncodeTo (index_handle f) dst;
          dst = resize (2 * kMaxEncodedLength) dst;
          dst = PutFixed32 dst (ucast (kTableMagicNumber AND 0xffffffff))
      in PutFixed32 dst (ucast (drop_bit 32 kTableMagicNumber)))"

text \<open>
  The magic number is read at a fixed distance without a check of the length of the input;
  \<open>None\<close> is a read behind the end.
\<close>

definition Footer_DecodeFrom :: "bytes \<Rightarrow> Footer \<Rightarrow> (Status \<times> Footer \<times> bytes) option" where
  "Footer_DecodeFrom input f =
     (if length input < kEncodedLength then None
      else
        let magic_ptr = drop (kEncodedLength - 8) input;
            magic_lo = DecodeFixed32 magic_ptr;
            magic_hi = DecodeFixed32 (drop 4 magic_ptr);
            magic = push_bit 32 (ucast magic_hi) OR ucast magic_lo
        in if magic \<noteq> kTableMagicNumber
           then Some (Corruption (lit ''not an sstable (bad magic number)'') [], f, input)
           else
             let (result, h, rest) = BlockHandle_DecodeFrom input (metaindex_handle f);
                 f = f\<lparr>metaindex_handle := h\<rparr>
             in if \<not> status_ok result then Some (result, f, rest)
                else
                  let (result, h, rest) = BlockHandle_DecodeFrom rest (index_handle f);
                      f = f\<lparr>index_handle := h\<rparr>
                  in if \<not> status_ok result then Some (result, f, rest)
                     else Some (result, f, drop 8 magic_ptr))"

subsection \<open>Reading a block\<close>

record BlockContents =
  bc_data :: bytes
  bc_cachable :: bool
  bc_heap_allocated :: bool

text \<open>
  \<open>Read\<close> is the method of the file, \<open>verify\<close> is \<^verbatim>\<open>options.verify_checksums\<close> and \<open>a\<close> the address of the
  slice that was read, which \<open>crc32c\<close> looks at. \<^verbatim>\<open>n + kBlockTrailerSize\<close> is a 64-bit sum: when it
  wraps around, the trailer is looked for outside the bytes read, which is the second \<open>None\<close>.
\<close>

definition ReadBlock ::
  "(u64 \<Rightarrow> u64 \<Rightarrow> (Status \<times> bytes \<times> bool) option) \<Rightarrow> Snappy \<Rightarrow> addr \<Rightarrow> bool \<Rightarrow> BlockHandle \<Rightarrow>
   (Status \<times> BlockContents) option" where
  "ReadBlock Read sn a verify h =
     (let result = \<lparr>bc_data = [], bc_cachable = False, bc_heap_allocated = False\<rparr>;
          n = bh_size h
      in case Read (bh_offset h) (n + kBlockTrailerSize) of
           None \<Rightarrow> None
         | Some (s, dat, is_buf) \<Rightarrow>
             if \<not> status_ok s then Some (s, result)
             else if of_nat (length dat) \<noteq> n + kBlockTrailerSize
             then Some (Corruption (lit ''truncated block read'') [], result)
             else if length dat < unat n + unat kBlockTrailerSize then None
             else
               let crc = Unmask (DecodeFixed32 (drop (unat n + 1) dat));
                   actual = crc_value a (take (unat n + 1) dat)
               in if verify \<and> actual \<noteq> crc then Some (Corruption (lit ''block checksum mismatch'') [], result)
                  else if dat ! unat n = compression_code kNoCompression
                  then Some (OK, \<lparr>bc_data = take (unat n) dat, bc_cachable = is_buf, bc_heap_allocated = is_buf\<rparr>)
                  else if dat ! unat n = compression_code kSnappyCompression
                  then
                    (case Snappy_GetUncompressedLength sn (take (unat n) dat) of
                       None \<Rightarrow> Some (Corruption (lit ''corrupted compressed block contents'') [], result)
                     | Some ulength \<Rightarrow>
                         (case Snappy_Uncompress sn (take (unat n) dat) of
                            None \<Rightarrow> Some (Corruption (lit ''corrupted compressed block contents'') [], result)
                          | Some ubuf \<Rightarrow>
                              Some (OK, \<lparr>bc_data = take ulength ubuf, bc_cachable = True, bc_heap_allocated = True\<rparr>)))
                  else Some (Corruption (lit ''bad block type'') [], result))"

subsection \<open>Round trips\<close>

lemma EncodeVarint64_length: "length (EncodeVarint64 v) \<le> 10"
  by (simp add: EncodeVarint64_eq length_uvarint_u64)

lemma BlockHandle_EncodeTo_eq: "BlockHandle_EncodeTo h dst = dst @ EncodeVarint64 (bh_offset h) @ EncodeVarint64 (bh_size h)"
  by (simp add: BlockHandle_EncodeTo_def PutVarint64_def)

lemma BlockHandle_EncodeTo_append: "BlockHandle_EncodeTo h (a @ dst) = a @ BlockHandle_EncodeTo h dst"
  by (simp add: BlockHandle_EncodeTo_eq)

lemma drop_EncodeFixed [simp]: "drop 4 (EncodeFixed32 v @ p) = p" "drop 8 (EncodeFixed32 v @ EncodeFixed32 w @ p) = p"
  by simp_all

lemma BlockHandle_Decode_Encode [codec_simps]:
  "BlockHandle_DecodeFrom (BlockHandle_EncodeTo h [] @ rest) h0 = (OK, h, rest)"
  by (simp add: BlockHandle_DecodeFrom_def BlockHandle_EncodeTo_eq codec_simps)

lemma length_EncodeTo: "length (BlockHandle_EncodeTo h []) \<le> 20"
  using EncodeVarint64_length [of "bh_offset h"] EncodeVarint64_length [of "bh_size h"] by (simp add: BlockHandle_EncodeTo_eq)

definition footer_padding :: "Footer \<Rightarrow> bytes" where
  "footer_padding f =
     replicate (40 - length (BlockHandle_EncodeTo (metaindex_handle f) [] @ BlockHandle_EncodeTo (index_handle f) [])) 0"

definition magic_bytes :: bytes where
  "magic_bytes = EncodeFixed32 0x8b80fb57 @ EncodeFixed32 0xdb477524"

lemma Footer_EncodeTo_eq:
  "Footer_EncodeTo f [] =
     BlockHandle_EncodeTo (metaindex_handle f) [] @ BlockHandle_EncodeTo (index_handle f) [] @ footer_padding f @ magic_bytes"
proof -
  let ?m = "BlockHandle_EncodeTo (metaindex_handle f) []" and ?i = "BlockHandle_EncodeTo (index_handle f) []"
  have enc: "BlockHandle_EncodeTo (index_handle f) ?m = ?m @ ?i"
    using BlockHandle_EncodeTo_append [of "index_handle f" ?m "[]"] by simp
  have "take 40 (?m @ ?i) = ?m @ ?i"
    using length_EncodeTo [of "metaindex_handle f"] length_EncodeTo [of "index_handle f"] by simp
  then show ?thesis
    by (simp add: Footer_EncodeTo_def Let_def enc resize_def kMaxEncodedLength_def footer_padding_def PutFixed32_def
        magic_bytes_def kTableMagicNumber_def del: take_append)
qed

lemma length_Footer: "length (Footer_EncodeTo f []) = 48"
  using length_EncodeTo [of "metaindex_handle f"] length_EncodeTo [of "index_handle f"]
  by (simp add: Footer_EncodeTo_eq footer_padding_def magic_bytes_def)

lemma Footer_Decode_Encode: "Footer_DecodeFrom (Footer_EncodeTo f [] @ rest) f0 = Some (OK, f, rest)"
proof -
  let ?e = "Footer_EncodeTo f []"
  have len: "length (BlockHandle_EncodeTo (metaindex_handle f) [] @ BlockHandle_EncodeTo (index_handle f) [] @ footer_padding f) = 40"
    using length_Footer [of f] by (simp add: Footer_EncodeTo_eq magic_bytes_def)
  have magic: "drop 40 (?e @ rest) = EncodeFixed32 0x8b80fb57 @ EncodeFixed32 0xdb477524 @ rest"
  proof -
    have "?e = (BlockHandle_EncodeTo (metaindex_handle f) [] @ BlockHandle_EncodeTo (index_handle f) [] @ footer_padding f) @ magic_bytes"
      by (simp add: Footer_EncodeTo_eq)
    then show ?thesis using len by (simp only: append_assoc [symmetric] drop_append) (simp add: magic_bytes_def)
  qed
  have dec: "BlockHandle_DecodeFrom (?e @ rest) h =
      (OK, metaindex_handle f, BlockHandle_EncodeTo (index_handle f) [] @ footer_padding f @ magic_bytes @ rest)" for h
    by (simp add: Footer_EncodeTo_eq codec_simps)
  show ?thesis
    using length_Footer [of f]
    by (simp add: Footer_DecodeFrom_def kEncodedLength_def kMaxEncodedLength_def magic dec codec_simps kTableMagicNumber_def Let_def
        status_ok_def OK_def del: drop_append)
qed

subsection \<open>Blocks in a file\<close>

text \<open>A stored block with its trailer.\<close>

definition block_image :: "CompressionType \<Rightarrow> bytes \<Rightarrow> bytes" where
  "block_image t stored =
     stored @ [compression_code t] @ EncodeFixed32 (Mask (crc_ref 0 (stored @ [compression_code t])))"

lemma length_block_image [simp]: "length (block_image t stored) = length stored + 5"
  by (simp add: block_image_def)

definition handle_at :: "nat \<Rightarrow> nat \<Rightarrow> BlockHandle" where
  "handle_at off n = \<lparr>bh_offset = of_nat off, bh_size = of_nat n\<rparr>"

text \<open>What the stored bytes stand for.\<close>

definition stored_as :: "Snappy \<Rightarrow> CompressionType \<Rightarrow> bytes \<Rightarrow> bytes \<Rightarrow> bool" where
  "stored_as sn t stored dat \<longleftrightarrow>
     (case t of
        kNoCompression \<Rightarrow> stored = dat
      | kSnappyCompression \<Rightarrow>
          Snappy_GetUncompressedLength sn stored = Some (length dat) \<and> Snappy_Uncompress sn stored = Some dat)"

context random_access_file
begin

lemma Read_block:
  assumes "length cont < 2 ^ 63" "cont = pre @ img @ post" "length img = n + 5"
  shows "\<exists>own. Read (bh_offset (handle_at (length pre) n)) (bh_size (handle_at (length pre) n) + kBlockTrailerSize) =
      Some (OK, img, own)"
    and "unat (bh_size (handle_at (length pre) n)) = n" "unat kBlockTrailerSize = 5"
    and "of_nat (length img) = bh_size (handle_at (length pre) n) + kBlockTrailerSize"
proof -
  have len: "length pre + (n + 5) \<le> length cont" using assms(2,3) by simp
  have u: "unat (of_nat (length pre) :: u64) = length pre" "unat (of_nat (n + 5) :: u64) = n + 5" "unat (of_nat n :: u64) = n"
    using len assms(1) by (simp_all only: unat_of_nat) simp_all
  have sum: "(of_nat n :: u64) + 5 = of_nat (n + 5)" by simp
  show "unat (bh_size (handle_at (length pre) n)) = n" "unat kBlockTrailerSize = 5"
    by (simp_all add: handle_at_def kBlockTrailerSize_def u)
  show "of_nat (length img) = bh_size (handle_at (length pre) n) + kBlockTrailerSize"
    by (simp add: assms(3) handle_at_def kBlockTrailerSize_def)
  have "take (n + 5) (drop (length pre) cont) = img" using assms(2,3) by simp
  then show "\<exists>own. Read (bh_offset (handle_at (length pre) n)) (bh_size (handle_at (length pre) n) + kBlockTrailerSize) =
      Some (OK, img, own)"
    using Read_range [OF assms(1), of "of_nat (length pre)" "of_nat (n + 5)", unfolded u, OF len]
    by (simp only: handle_at_def kBlockTrailerSize_def sum BlockHandle.select_convs)
qed

lemma ReadBlock_image:
  assumes "length cont < 2 ^ 63" "cont = pre @ block_image t stored @ post" "stored_as sn t stored dat"
  shows "\<exists>c h. ReadBlock Read sn a verify (handle_at (length pre) (length stored)) =
      Some (OK, \<lparr>bc_data = dat, bc_cachable = c, bc_heap_allocated = h\<rparr>)"
proof -
  note r = Read_block [OF assms(1,2) length_block_image]
  obtain own where own: "Read (bh_offset (handle_at (length pre) (length stored)))
      (bh_size (handle_at (length pre) (length stored)) + kBlockTrailerSize) = Some (OK, block_image t stored, own)"
    using r(1) by blast
  have crc: "crc_value a (take (length stored + 1) (block_image t stored)) =
      Unmask (DecodeFixed32 (drop (length stored + 1) (block_image t stored)))"
    by (simp add: block_image_def crc_value_def Extend_ref codec_simps)
  have type: "block_image t stored ! length stored = compression_code t" by (simp add: block_image_def nth_append)
  have take: "take (length stored) (block_image t stored) = stored" by (simp add: block_image_def)
  show ?thesis
    using assms(3) r(2-4) own crc type take
    by (cases t) (auto simp: ReadBlock_def Let_def status_ok_def OK_def compression_code_def stored_as_def)
qed

text \<open>One changed byte anywhere in the stored block or its trailer makes the checksums differ.\<close>

lemma changed_image:
  assumes "i < length stored + 5" "b \<noteq> block_image t stored ! i" "img = (block_image t stored)[i := b]"
  shows "crc_value a (take (length stored + 1) img) \<noteq> Unmask (DecodeFixed32 (drop (length stored + 1) img))"
proof -
  let ?c = "stored @ [compression_code t]" and ?e = "EncodeFixed32 (Mask (crc_ref 0 (stored @ [compression_code t])))"
  have im: "block_image t stored = ?c @ ?e" by (simp add: block_image_def)
  show ?thesis
  proof (cases "i < length ?c")
    case True
    have img: "img = ?c[i := b] @ ?e" unfolding assms(3) im using True by (simp only: list_update_append1)
    have c: "?c = take i ?c @ ?c ! i # drop (Suc i) ?c" using True by (simp only: id_take_nth_drop)
    have u: "?c[i := b] = take i ?c @ b # drop (Suc i) ?c" using True by (simp only: upd_conv_take_nth_drop)
    have b: "?c ! i \<noteq> b" using assms(2) True unfolding im by (auto simp only: nth_append if_True)
    have "crc_ref 0 ?c \<noteq> crc_ref 0 (?c[i := b])" using crc_ref_changed [OF b] c unfolding u by metis
    then show ?thesis unfolding img by (simp add: crc_value_def Extend_ref codec_simps eq_commute)
  next
    case False
    let ?j = "i - length ?c"
    have img: "img = ?c @ ?e[?j := b]" unfolding assms(3) im using False by (simp only: list_update_append) simp
    have j: "?j < length ?e" using assms(1) False by simp
    have b: "?e ! ?j \<noteq> b" using assms(2) False unfolding im by (auto simp only: nth_append if_False)
    have ne: "?e[?j := b] \<noteq> ?e" using b nth_list_update_eq [OF j, of b] by metis
    have "DecodeFixed32 (?e[?j := b]) \<noteq> Mask (crc_ref 0 ?c)"
      using EncodeFixed32_Decode [of "?e[?j := b]"] ne by fastforce
    then have "Unmask (DecodeFixed32 (?e[?j := b])) \<noteq> crc_ref 0 ?c" using Mask_Unmask by metis
    then show ?thesis unfolding img by (simp add: crc_value_def Extend_ref eq_commute)
  qed
qed

lemma ReadBlock_changed:
  assumes "length cont < 2 ^ 63" "cont = pre @ (block_image t stored)[i := b] @ post"
    and "i < length stored + 5" "b \<noteq> block_image t stored ! i"
  shows "ReadBlock Read sn a True (handle_at (length pre) (length stored)) =
      Some (Corruption (lit ''block checksum mismatch'') [], \<lparr>bc_data = [], bc_cachable = False, bc_heap_allocated = False\<rparr>)"
proof -
  have len: "length ((block_image t stored)[i := b]) = length stored + 5" by simp
  note r = Read_block [OF assms(1,2) len]
  note crc = changed_image [OF assms(3,4) refl, of a]
  show ?thesis using r len crc by (auto simp: ReadBlock_def Let_def status_ok_def OK_def)
qed

end

subsection \<open>Properties\<close>

text \<open>
  C34: With checksums verified, a block of a memory-mapped table file in which one byte was changed,
  in its contents, its type or its checksum, is not returned: \<open>ReadBlock\<close> reports the mismatch.
\<close>

theorem read_block_detects:
  assumes "length (mmapped_region mf) < 2 ^ 63"
    and "mmapped_region mf = pre @ (block_image t stored)[i := b] @ post"
    and "i < length stored + 5" "b \<noteq> block_image t stored ! i"
  shows "\<exists>s c. ReadBlock (PosixMmapReadableFile_Read EINVAL mf) sn a True (handle_at (length pre) (length stored)) = Some (s, c) \<and>
    IsCorruption s \<and> bc_data c = []"
  using mmap_file.ReadBlock_changed [OF assms] by (simp add: Corruption_def)

definition ex_region :: PosixMmapReadableFile where
  "ex_region = \<lparr>mmap_filename = [], mmapped_region = [9] @ (block_image kNoCompression [1, 2])[0 := 7] @ [8]\<rparr>"

theorem read_block_detects_witness:
  "\<exists>s c. ReadBlock (PosixMmapReadableFile_Read [] ex_region) port_snappy 0 True
      (handle_at (length [9 :: byte]) (length [1, 2 :: byte])) = Some (s, c) \<and> IsCorruption s \<and> bc_data c = []"
  by (rule read_block_detects [where t = kNoCompression and i = 0 and b = 7 and post = "[8]"])
     (simp_all add: ex_region_def block_image_def)

text \<open>
  The 64-bit sum of the size of a block and its trailer can wrap around: for a handle of size
  $2^{64} - 5$, as a damaged index block may hold it, no byte is read and the type byte is then
  looked for outside the buffer.
\<close>

lemma read_block_wraps:
  "ReadBlock (PosixMmapReadableFile_Read [] ex_region) port_snappy 0 False \<lparr>bh_offset = 0, bh_size = - 5\<rparr> = None"
  by (simp add: ReadBlock_def kBlockTrailerSize_def PosixMmapReadableFile_Read_def ex_region_def Let_def status_ok_def OK_def)

end
