(* ===== verification/LdbTableBuilder.thy ===== *)
theory LdbTableBuilder
  imports LdbTableFormat LdbFilterBlock
begin

text \<open>
  \<^verbatim>\<open>table/table_builder.cc\<close> with the options it reads (\<^verbatim>\<open>include/leveldb/options.h\<close>,
  \<^verbatim>\<open>util/options.cc\<close>). Comparators and filter policies are records of their virtual methods. The
  methods of the file, the Snappy functions and the addresses of the buffers whose checksums are
  taken are bundled in \<open>table_env\<close>.
\<close>

subsection \<open>Options\<close>

text \<open>\<open>cmp_address\<close> is the pointer to the object, which \<open>ChangeOptions\<close> compares.\<close>

record Comparator =
  cmp_address :: addr
  cmp_Name :: bytes
  cmp_Compare :: "bytes \<Rightarrow> bytes \<Rightarrow> int"
  cmp_FindShortestSeparator :: "bytes \<Rightarrow> bytes \<Rightarrow> bytes"
  cmp_FindShortSuccessor :: "bytes \<Rightarrow> bytes"

definition BytewiseComparator :: "addr \<Rightarrow> Comparator" where
  "BytewiseComparator a = \<lparr>cmp_address = a, cmp_Name = lit ''leveldb.BytewiseComparator'', cmp_Compare = slice_compare,
     cmp_FindShortestSeparator = FindShortestSeparator, cmp_FindShortSuccessor = FindShortSuccessor\<rparr>"

text \<open>The comparator of internal keys over a user comparator.\<close>

definition InternalKeyComparator :: "addr \<Rightarrow> Comparator \<Rightarrow> Comparator" where
  "InternalKeyComparator a user = \<lparr>cmp_address = a, cmp_Name = lit ''leveldb.InternalKeyComparator'',
     cmp_Compare = InternalKeyComparator_Compare (cmp_Compare user),
     cmp_FindShortestSeparator =
       InternalKeyComparator_FindShortestSeparator (cmp_Compare user) (cmp_FindShortestSeparator user),
     cmp_FindShortSuccessor =
       InternalKeyComparator_FindShortSuccessor (cmp_Compare user) (cmp_FindShortSuccessor user)\<rparr>"

record FilterPolicy =
  fp_Name :: bytes
  fp_CreateFilter :: "bytes list \<Rightarrow> bytes \<Rightarrow> bytes"
  fp_KeyMayMatch :: "bytes \<Rightarrow> bytes \<Rightarrow> bool"

text \<open>The policy of the database for internal keys over the policy of the user.\<close>

definition InternalFilterPolicy :: "FilterPolicy \<Rightarrow> FilterPolicy" where
  "InternalFilterPolicy p = \<lparr>fp_Name = fp_Name p, fp_CreateFilter = InternalFilterPolicy_CreateFilter (fp_CreateFilter p),
     fp_KeyMayMatch = InternalFilterPolicy_KeyMayMatch (fp_KeyMayMatch p)\<rparr>"

text \<open>
  The pointers to the environment, the info log and the block cache are addresses (\<open>None\<close> for NULL);
  the restart interval is positive wherever it is used and kept as a natural number.
\<close>

record Options =
  opt_comparator :: Comparator
  opt_create_if_missing :: bool
  opt_error_if_exists :: bool
  opt_paranoid_checks :: bool
  opt_env :: "addr option"
  opt_info_log :: "addr option"
  opt_write_buffer_size :: nat
  opt_max_open_files :: int
  opt_block_cache :: "addr option"
  opt_block_size :: nat
  opt_block_restart_interval :: nat
  opt_max_file_size :: nat
  opt_compression :: CompressionType
  opt_reuse_logs :: bool
  opt_filter_policy :: "FilterPolicy option"

text \<open>The addresses are those of the bytewise comparator and of the default environment.\<close>

definition mkOptions :: "addr \<Rightarrow> addr \<Rightarrow> Options" where
  "mkOptions bytewise default_env =
     \<lparr>opt_comparator = BytewiseComparator bytewise, opt_create_if_missing = False, opt_error_if_exists = False,
      opt_paranoid_checks = False, opt_env = Some default_env, opt_info_log = None, opt_write_buffer_size = 4 * 2 ^ 20,
      opt_max_open_files = 1000, opt_block_cache = None, opt_block_size = 4096, opt_block_restart_interval = 16,
      opt_max_file_size = 2 * 2 ^ 20, opt_compression = kSnappyCompression, opt_reuse_logs = False, opt_filter_policy = None\<rparr>"

subsection \<open>The builder\<close>

record 'f table_env =
  te_Append :: "bytes \<Rightarrow> 'f \<Rightarrow> Status \<times> 'f"
  te_Flush :: "'f \<Rightarrow> Status \<times> 'f"
  te_snappy :: Snappy
  te_contents :: addr
  te_trailer :: addr

record 'f TableBuilder =
  tb_options :: Options
  tb_index_block_options :: Options
  tb_file :: 'f
  tb_offset :: u64
  tb_status :: Status
  tb_data_block :: BlockBuilder
  tb_index_block :: BlockBuilder
  tb_last_key :: bytes
  tb_num_entries :: u64
  tb_closed :: bool
  tb_filter_policy :: "FilterPolicy option"
  tb_filter_block :: "FilterBlockBuilder option"
  tb_pending_index_entry :: bool
  tb_pending_handle :: BlockHandle
  tb_compressed_output :: bytes

text \<open>
  The filter block keeps the pointer \<open>policy_\<close> it was made with, here \<open>tb_filter_policy\<close>, whatever the
  options are later.
\<close>

definition tb_create :: "'f TableBuilder \<Rightarrow> bytes list \<Rightarrow> bytes \<Rightarrow> bytes" where
  "tb_create r = (case tb_filter_policy r of Some p \<Rightarrow> fp_CreateFilter p | None \<Rightarrow> (\<lambda>ks dst. dst))"

definition mkTableBuilder :: "Options \<Rightarrow> 'f \<Rightarrow> 'f TableBuilder" where
  "mkTableBuilder options file =
     (let r = \<lparr>tb_options = options, tb_index_block_options = options\<lparr>opt_block_restart_interval := 1\<rparr>, tb_file = file,
            tb_offset = 0, tb_status = OK, tb_data_block = mkBlockBuilder, tb_index_block = mkBlockBuilder, tb_last_key = [],
            tb_num_entries = 0, tb_closed = False, tb_filter_policy = opt_filter_policy options,
            tb_filter_block = (case opt_filter_policy options of None \<Rightarrow> None | Some p \<Rightarrow> Some mkFilterBlockBuilder),
            tb_pending_index_entry = False, tb_pending_handle = mkBlockHandle, tb_compressed_output = []\<rparr>
      in r\<lparr>tb_filter_block := map_option (StartBlock (tb_create r) 0) (tb_filter_block r)\<rparr>)"

definition TableBuilder_ok :: "'f TableBuilder \<Rightarrow> bool" where
  "TableBuilder_ok r \<longleftrightarrow> status_ok (tb_status r)"

definition ChangeOptions :: "Options \<Rightarrow> 'f TableBuilder \<Rightarrow> Status \<times> 'f TableBuilder" where
  "ChangeOptions options r =
     (if cmp_address (opt_comparator options) \<noteq> cmp_address (opt_comparator (tb_options r))
      then (InvalidArgument (lit ''changing comparator while building table'') [], r)
      else (OK, r\<lparr>tb_options := options, tb_index_block_options := options\<lparr>opt_block_restart_interval := 1\<rparr>\<rparr>))"

definition WriteRawBlock ::
  "'f table_env \<Rightarrow> bytes \<Rightarrow> CompressionType \<Rightarrow> 'f TableBuilder \<Rightarrow> BlockHandle \<times> 'f TableBuilder" where
  "WriteRawBlock env block_contents type r =
     (let handle = \<lparr>bh_offset = tb_offset r, bh_size = of_nat (length block_contents)\<rparr>;
          (s, f) = te_Append env block_contents (tb_file r);
          r = r\<lparr>tb_file := f, tb_status := s\<rparr>
      in if \<not> TableBuilder_ok r then (handle, r)
         else
           let trailer = [compression_code type];
               crc = crc_value (te_contents env) block_contents;
               crc = Extend (te_trailer env) crc (take 1 trailer);
               trailer = trailer @ EncodeFixed32 (Mask crc);
               (s, f) = te_Append env trailer (tb_file r);
               r = r\<lparr>tb_file := f, tb_status := s\<rparr>
           in if \<not> TableBuilder_ok r then (handle, r)
              else (handle, r\<lparr>tb_offset := tb_offset r + (of_nat (length block_contents) + kBlockTrailerSize)\<rparr>))"

text \<open>The block is passed by pointer: the result has its new state.\<close>

definition WriteBlock ::
  "'f table_env \<Rightarrow> BlockBuilder \<Rightarrow> 'f TableBuilder \<Rightarrow> BlockBuilder \<times> BlockHandle \<times> 'f TableBuilder" where
  "WriteBlock env block r =
     (let (raw, block) = BlockBuilder_Finish block;
          (block_contents, type, r) =
            (case opt_compression (tb_options r) of
               kNoCompression \<Rightarrow> (raw, kNoCompression, r)
             | kSnappyCompression \<Rightarrow>
                 (case Snappy_Compress (te_snappy env) raw of
                    None \<Rightarrow> (raw, kNoCompression, r)
                  | Some compressed \<Rightarrow>
                      if length compressed < length raw - length raw div 8
                      then (compressed, kSnappyCompression, r\<lparr>tb_compressed_output := compressed\<rparr>)
                      else (raw, kNoCompression, r\<lparr>tb_compressed_output := compressed\<rparr>)));
          (handle, r) = WriteRawBlock env block_contents type r
      in (BlockBuilder_Reset block, handle, r\<lparr>tb_compressed_output := []\<rparr>))"

definition TableBuilder_Flush :: "'f table_env \<Rightarrow> 'f TableBuilder \<Rightarrow> 'f TableBuilder" where
  "TableBuilder_Flush env r =
     (if \<not> TableBuilder_ok r then r
      else if BlockBuilder_empty (tb_data_block r) then r
      else
        let (block, handle, r) = WriteBlock env (tb_data_block r) r;
            r = r\<lparr>tb_data_block := block, tb_pending_handle := handle\<rparr>;
            r = (if TableBuilder_ok r
                 then let (s, f) = te_Flush env (tb_file r)
                      in r\<lparr>tb_pending_index_entry := True, tb_file := f, tb_status := s\<rparr>
                 else r)
        in r\<lparr>tb_filter_block := map_option (StartBlock (tb_create r) (tb_offset r)) (tb_filter_block r)\<rparr>)"

definition TableBuilder_Add :: "'f table_env \<Rightarrow> bytes \<Rightarrow> bytes \<Rightarrow> 'f TableBuilder \<Rightarrow> 'f TableBuilder" where
  "TableBuilder_Add env key val r =
     (if \<not> TableBuilder_ok r then r
      else
        let r = (if tb_pending_index_entry r
                 then
                   let last_key = cmp_FindShortestSeparator (opt_comparator (tb_options r)) (tb_last_key r) key;
                       handle_encoding = BlockHandle_EncodeTo (tb_pending_handle r) []
                   in r\<lparr>tb_last_key := last_key,
                        tb_index_block := BlockBuilder_Add (opt_block_restart_interval (tb_index_block_options r))
                          last_key handle_encoding (tb_index_block r),
                        tb_pending_index_entry := False\<rparr>
                 else r);
            r = r\<lparr>tb_filter_block := map_option (AddKey key) (tb_filter_block r), tb_last_key := key,
                  tb_num_entries := tb_num_entries r + 1,
                  tb_data_block := BlockBuilder_Add (opt_block_restart_interval (tb_options r)) key val (tb_data_block r)\<rparr>;
            estimated_block_size = CurrentSizeEstimate (tb_data_block r)
        in if estimated_block_size \<ge> opt_block_size (tb_options r) then TableBuilder_Flush env r else r)"

text \<open>The four parts of \<open>Finish\<close> behind the flush of the last block.\<close>

definition write_filter :: "'f table_env \<Rightarrow> 'f TableBuilder \<Rightarrow> BlockHandle \<times> 'f TableBuilder" where
  "write_filter env r =
     (case tb_filter_block r of
        None \<Rightarrow> (mkBlockHandle, r)
      | Some b \<Rightarrow>
          if TableBuilder_ok r then WriteRawBlock env (FilterBlock_Finish (tb_create r) b) kNoCompression r
          else (mkBlockHandle, r))"

text \<open>\<^verbatim>\<open>r->options.filter_policy->Name()\<close> with a null pointer is undefined: \<open>None\<close>.\<close>

definition meta_block :: "BlockHandle \<Rightarrow> 'f TableBuilder \<Rightarrow> BlockBuilder option" where
  "meta_block filter_block_handle r =
     (case tb_filter_block r of
        None \<Rightarrow> Some mkBlockBuilder
      | Some b \<Rightarrow>
          (case opt_filter_policy (tb_options r) of
             None \<Rightarrow> None
           | Some p \<Rightarrow>
               Some (BlockBuilder_Add (opt_block_restart_interval (tb_options r)) (lit ''filter.'' @ fp_Name p)
                 (BlockHandle_EncodeTo filter_block_handle []) mkBlockBuilder)))"

definition write_metaindex ::
  "'f table_env \<Rightarrow> BlockHandle \<Rightarrow> 'f TableBuilder \<Rightarrow> (BlockHandle \<times> 'f TableBuilder) option" where
  "write_metaindex env filter_block_handle r =
     (if \<not> TableBuilder_ok r then Some (mkBlockHandle, r)
      else
        case meta_block filter_block_handle r of
          None \<Rightarrow> None
        | Some meta_index_block \<Rightarrow>
            let (block, handle, r) = WriteBlock env meta_index_block r in Some (handle, r))"

definition write_index :: "'f table_env \<Rightarrow> 'f TableBuilder \<Rightarrow> BlockHandle \<times> 'f TableBuilder" where
  "write_index env r =
     (if \<not> TableBuilder_ok r then (mkBlockHandle, r)
      else
        let r = (if tb_pending_index_entry r
                 then
                   let last_key = cmp_FindShortSuccessor (opt_comparator (tb_options r)) (tb_last_key r);
                       handle_encoding = BlockHandle_EncodeTo (tb_pending_handle r) []
                   in r\<lparr>tb_last_key := last_key,
                        tb_index_block := BlockBuilder_Add (opt_block_restart_interval (tb_index_block_options r))
                          last_key handle_encoding (tb_index_block r),
                        tb_pending_index_entry := False\<rparr>
                 else r);
            (block, handle, r) = WriteBlock env (tb_index_block r) r
        in (handle, r\<lparr>tb_index_block := block\<rparr>))"

definition write_footer :: "'f table_env \<Rightarrow> BlockHandle \<Rightarrow> BlockHandle \<Rightarrow> 'f TableBuilder \<Rightarrow> 'f TableBuilder" where
  "write_footer env metaindex_block_handle index_block_handle r =
     (if \<not> TableBuilder_ok r then r
      else
        let footer_encoding =
              Footer_EncodeTo \<lparr>metaindex_handle = metaindex_block_handle, index_handle = index_block_handle\<rparr> [];
            (s, f) = te_Append env footer_encoding (tb_file r);
            r = r\<lparr>tb_file := f, tb_status := s\<rparr>
        in if TableBuilder_ok r then r\<lparr>tb_offset := tb_offset r + of_nat (length footer_encoding)\<rparr> else r)"

definition TableBuilder_Finish :: "'f table_env \<Rightarrow> 'f TableBuilder \<Rightarrow> (Status \<times> 'f TableBuilder) option" where
  "TableBuilder_Finish env r =
     (let r = TableBuilder_Flush env r;
          r = r\<lparr>tb_closed := True\<rparr>;
          (filter_block_handle, r) = write_filter env r
      in case write_metaindex env filter_block_handle r of
           None \<Rightarrow> None
         | Some (metaindex_block_handle, r) \<Rightarrow>
             let (index_block_handle, r) = write_index env r;
                 r = write_footer env metaindex_block_handle index_block_handle r
             in Some (tb_status r, r))"

definition Abandon :: "'f TableBuilder \<Rightarrow> 'f TableBuilder" where
  "Abandon r = r\<lparr>tb_closed := True\<rparr>"

definition NumEntries :: "'f TableBuilder \<Rightarrow> u64" where
  "NumEntries r = tb_num_entries r"

definition FileSize :: "'f TableBuilder \<Rightarrow> u64" where
  "FileSize r = tb_offset r"

end
