(* ===== verification/LdbTableBuildProof.thy ===== *)
theory LdbTableBuildProof
  imports LdbTableBuilder
begin

text \<open>
  What the table builder writes. The predicate \<open>placed\<close> says that a handle finds a block in a file;
  \<open>tb_inv\<close> is the invariant of the builder between calls of \<open>Add\<close>, and \<open>table_file\<close> what \<open>Finish\<close>
  leaves in the file: data blocks that hold the entries in order, an index whose keys separate the
  blocks, the filter and the metaindex block, and the footer.
\<close>

subsection \<open>Blocks in a growing file\<close>

definition placed :: "Snappy \<Rightarrow> bytes \<Rightarrow> BlockHandle \<Rightarrow> bytes \<Rightarrow> bool" where
  "placed sn D h raw \<longleftrightarrow>
     (\<exists>pre t stored post. D = pre @ block_image t stored @ post \<and> h = handle_at (length pre) (length stored) \<and>
        stored_as sn t stored raw)"

lemma placed_append: "placed sn D h raw \<Longrightarrow> placed sn (D @ x) h raw"
  by (fastforce simp: placed_def)

lemma placed_new: "stored_as sn t stored raw \<Longrightarrow> placed sn (D @ block_image t stored) (handle_at (length D) (length stored)) raw"
  unfolding placed_def by (intro exI [of _ D] exI [of _ t] exI [of _ stored] exI [of _ "[]"]) simp

lemma Reset_mk [simp]: "BlockBuilder_Reset (b :: BlockBuilder) = mkBlockBuilder"
  by (simp add: BlockBuilder_Reset_def mkBlockBuilder_def)

text \<open>The state of the file as the builder sees it.\<close>

context writable_file
begin

definition file_ok :: "'f table_env \<Rightarrow> 'f TableBuilder \<Rightarrow> bool" where
  "file_ok env r \<longleftrightarrow> te_Append env = Append \<and> te_Flush env = Flush \<and> snappy_port (te_snappy env) \<and>
     fine (tb_file r) \<and> tb_status r = OK \<and> tb_offset r = of_nat (length (written (tb_file r)))"

lemma WriteRawBlock_ok:
  assumes "file_ok env r"
  shows "\<exists>f. WriteRawBlock env c t r = (handle_at (length (written (tb_file r))) (length c),
      r\<lparr>tb_file := f, tb_offset := of_nat (length (written f))\<rparr>) \<and> written f = written (tb_file r) @ block_image t c \<and> fine f"
proof -
  have env: "te_Append env = Append" and ok: "tb_status r = OK" "tb_offset r = of_nat (length (written (tb_file r)))"
    and fine: "fine (tb_file r)" using assms by (simp_all add: file_ok_def)
  obtain f1 where f1: "Append c (tb_file r) = (OK, f1)" "written f1 = written (tb_file r) @ c" "fine f1"
    using AppendE [OF fine] by blast
  let ?t = "[compression_code t] @ EncodeFixed32 (Mask (Extend (te_trailer env) (crc_value (te_contents env) c) [compression_code t]))"
  obtain f2 where f2: "Append ?t f1 = (OK, f2)" "written f2 = written f1 @ ?t" "fine f2" using AppendE [OF f1(3)] by blast
  have img: "c @ ?t = block_image t c" by (simp add: block_image_def crc_value_def Extend_ref crc_ref_append)
  have w: "written f2 = written (tb_file r) @ block_image t c" using f1(2) f2(2) img by simp
  have "WriteRawBlock env c t r = (handle_at (length (written (tb_file r))) (length c),
      r\<lparr>tb_file := f2, tb_status := OK, tb_offset := of_nat (length (written f2))\<rparr>)"
    unfolding WriteRawBlock_def Let_def env f1(1)
    using f2(1) ok w by (simp add: TableBuilder_ok_def status_ok_def OK_def handle_at_def kBlockTrailerSize_def add.assoc)
  moreover have "r\<lparr>tb_file := f2, tb_status := OK, tb_offset := x\<rparr> = r\<lparr>tb_file := f2, tb_offset := x\<rparr>" for x
    using ok(1) by simp
  ultimately show ?thesis using w f2(3) by metis
qed

lemma WriteBlock_ok:
  assumes "file_ok env r" "tb_compressed_output r = []"
  shows "\<exists>f h. WriteBlock env b r = (mkBlockBuilder, h, r\<lparr>tb_file := f, tb_offset := of_nat (length (written f))\<rparr>) \<and>
    fine f \<and> placed (te_snappy env) (written f) h (fst (BlockBuilder_Finish b)) \<and> bh_offset h = of_nat (length (written (tb_file r))) \<and>
    (\<exists>img. img \<noteq> [] \<and> length img \<le> length (fst (BlockBuilder_Finish b)) + 5 \<and> written f = written (tb_file r) @ img)"
proof -
  obtain raw b' where fin: "BlockBuilder_Finish b = (raw, b')" by fastforce
  have sn: "snappy_port (te_snappy env)" using assms(1) by (simp add: file_ok_def)
  obtain c t x where ch: "(case opt_compression (tb_options r) of
        kNoCompression \<Rightarrow> (raw, kNoCompression, r)
      | kSnappyCompression \<Rightarrow>
          (case Snappy_Compress (te_snappy env) raw of
             None \<Rightarrow> (raw, kNoCompression, r)
           | Some compressed \<Rightarrow>
               if length compressed < length raw - length raw div 8
               then (compressed, kSnappyCompression, r\<lparr>tb_compressed_output := compressed\<rparr>)
               else (raw, kNoCompression, r\<lparr>tb_compressed_output := compressed\<rparr>))) = (c, t, r\<lparr>tb_compressed_output := x\<rparr>)"
      and st: "stored_as (te_snappy env) t c raw" "length c \<le> length raw"
  proof (cases "opt_compression (tb_options r)")
    case kNoCompression
    then show thesis using that [of raw kNoCompression "[]"] assms(2) by (simp add: stored_as_def)
  next
    case kSnappyCompression
    note k = this
    show thesis
    proof (cases "Snappy_Compress (te_snappy env) raw")
      case None
      then show thesis using k that [of raw kNoCompression "[]"] assms(2) by (simp add: stored_as_def)
    next
      case (Some y)
      note u = snappy_port.uncompress [OF sn Some]
      show thesis
      proof (cases "length y < length raw - length raw div 8")
        case True
        then show thesis using k Some u that [of y kSnappyCompression y] by (simp add: stored_as_def)
      next
        case False
        then show thesis using k Some that [of raw kNoCompression y] by (simp add: stored_as_def)
      qed
    qed
  qed
  let ?r = "r\<lparr>tb_compressed_output := x\<rparr>"
  have "file_ok env ?r" using assms(1) by (simp add: file_ok_def)
  from WriteRawBlock_ok [OF this, of c t] obtain f where
    f: "WriteRawBlock env c t ?r = (handle_at (length (written (tb_file r))) (length c),
        ?r\<lparr>tb_file := f, tb_offset := of_nat (length (written f))\<rparr>)"
      "written f = written (tb_file r) @ block_image t c" "fine f" by auto
  have r: "r\<lparr>tb_file := f, tb_offset := y, tb_compressed_output := []\<rparr> = r\<lparr>tb_file := f, tb_offset := y\<rparr>" for y
    using assms(2) by simp
  have "WriteBlock env b r = (mkBlockBuilder, handle_at (length (written (tb_file r))) (length c),
      r\<lparr>tb_file := f, tb_offset := of_nat (length (written f))\<rparr>)"
    unfolding WriteBlock_def Let_def fin prod.case ch f(1) by (simp add: r)
  moreover have "placed (te_snappy env) (written f) (handle_at (length (written (tb_file r))) (length c)) raw"
    using placed_new [OF st(1)] f(2) by simp
  ultimately show ?thesis
    using f(2,3) by (intro exI [of _ f] exI [of _ "handle_at (length (written (tb_file r))) (length c)"])
      (use st(2) in \<open>auto simp: fin handle_at_def block_image_def\<close>)
qed

end

subsection \<open>The invariant of the builder\<close>

text \<open>The index entry of block \<open>j\<close>, once the next key is known.\<close>

definition index_entry :: "Options \<Rightarrow> BlockHandle list \<Rightarrow> entry list list \<Rightarrow> entry list \<Rightarrow> nat \<Rightarrow> entry" where
  "index_entry opts hs bls cur j =
     (cmp_FindShortestSeparator (opt_comparator opts) (fst (last (bls ! j))) (fst (hd (concat (drop (Suc j) bls) @ cur))),
      BlockHandle_EncodeTo (hs ! j) [])"

definition filter_state :: "FilterPolicy option \<Rightarrow> u64 list \<Rightarrow> entry list list \<Rightarrow> FilterBlockBuilder option" where
  "filter_state policy offs bls =
     map_option (\<lambda>p. build (fp_CreateFilter p) (zip offs (map (map fst) bls)) mkFilterBlockBuilder) policy"

text \<open>An upper bound for the bytes of the data blocks with their trailers.\<close>

definition blocks_size :: "nat \<Rightarrow> entry list list \<Rightarrow> nat" where
  "blocks_size R bls = (\<Sum>b\<leftarrow>bls. length (block_bytes R b) + 5)"

lemma blocks_size_simps [simp]:
  "blocks_size R [] = 0" "blocks_size R (b # bls) = length (block_bytes R b) + 5 + blocks_size R bls"
  "blocks_size R (bls @ bls') = blocks_size R bls + blocks_size R bls'"
  by (simp_all add: blocks_size_def)

context writable_file
begin

definition tb_state ::
  "'f table_env \<Rightarrow> Options \<Rightarrow> entry list list \<Rightarrow> entry list \<Rightarrow> BlockHandle list \<Rightarrow> 'f TableBuilder \<Rightarrow> bool" where
  "tb_state env opts bls cur hs r \<longleftrightarrow> file_ok env r \<and> tb_options r = opts \<and>
     tb_index_block_options r = opts\<lparr>opt_block_restart_interval := 1\<rparr> \<and> tb_compressed_output r = [] \<and>
     tb_filter_policy r = opt_filter_policy opts \<and> [] \<notin> set bls \<and>
     tb_data_block r = builder_of (opt_block_restart_interval opts) cur \<and>
     tb_last_key r = (if concat bls @ cur = [] then [] else fst (last (concat bls @ cur))) \<and>
     list_all2 (\<lambda>h b. placed (te_snappy env) (written (tb_file r)) h (block_bytes (opt_block_restart_interval opts) b)) hs bls \<and>
     (if tb_pending_index_entry r
      then cur = [] \<and> bls \<noteq> [] \<and> tb_pending_handle r = last hs \<and>
        tb_index_block r = builder_of 1 (map (index_entry opts hs bls cur) [0..<length bls - 1])
      else (cur = [] \<longrightarrow> bls = []) \<and> tb_index_block r = builder_of 1 (map (index_entry opts hs bls cur) [0..<length bls])) \<and>
     (\<exists>ps. map bh_offset hs @ [tb_offset r] = map of_nat ps \<and> sorted_wrt (<) ps \<and> last ps = length (written (tb_file r))) \<and>
     length (written (tb_file r)) \<le> blocks_size (opt_block_restart_interval opts) bls \<and>
     tb_filter_block r = filter_state (opt_filter_policy opts) (map bh_offset hs @ [tb_offset r]) (bls @ [cur])"

end

lemma StartBlock_filter_state:
  assumes "length offs = length bls"
  shows "map_option (StartBlock (case p of Some p \<Rightarrow> fp_CreateFilter p | None \<Rightarrow> (\<lambda>ks dst. dst)) off) (filter_state p offs bls) =
    filter_state p (offs @ [off]) (bls @ [[]])"
proof -
  have "build c (xs @ [(off, [])]) b = StartBlock c off (build c xs b)" for c xs b
    by (induction xs arbitrary: b) (auto simp: split_paired_all)
  then show ?thesis using assms by (cases p) (simp_all add: filter_state_def)
qed

lemma AddKey_filter_state:
  assumes "length offs = length bls"
  shows "map_option (AddKey key) (filter_state p (offs @ [off]) (bls @ [cur])) =
    filter_state p (offs @ [off]) (bls @ [cur @ [(key, val)]])"
proof -
  have "build c (xs @ [(off, ks @ [key])]) b = AddKey key (build c (xs @ [(off, ks)]) b)" for c xs ks b
    by (induction xs arbitrary: b) (auto simp: split_paired_all)
  then show ?thesis using assms by (cases p) (simp_all add: filter_state_def)
qed

lemma index_entry_close:
  "j < length bls \<Longrightarrow> length hs = length bls \<Longrightarrow> index_entry opts (hs @ [h]) (bls @ [cur]) [] j = index_entry opts hs bls cur j"
  by (simp add: index_entry_def nth_append)

lemma index_entry_more:
  "j < length bls \<Longrightarrow> concat (drop (Suc j) bls) @ cur \<noteq> [] \<Longrightarrow> index_entry opts hs bls (cur @ x) j = index_entry opts hs bls cur j"
  by (metis append_assoc hd_append2 index_entry_def)

lemma concat_drop_nonempty: "[] \<notin> set bls \<Longrightarrow> Suc j < length bls \<Longrightarrow> concat (drop (Suc j) bls) \<noteq> []"
proof -
  assume a: "[] \<notin> set bls" "Suc j < length bls"
  then have "bls ! Suc j \<noteq> []" by (metis nth_mem)
  then show ?thesis using a(2) by (simp only: Cons_nth_drop_Suc [symmetric] concat.simps) simp
qed

lemma index_entries_more:
  assumes "[] \<notin> set bls" "n < length bls \<or> n = length bls \<and> (cur = [] \<longrightarrow> bls = [])"
  shows "map (index_entry opts hs bls (cur @ x)) [0..<n] = map (index_entry opts hs bls cur) [0..<n]"
proof (rule map_cong [OF refl])
  fix j assume "j \<in> set [0..<n]"
  then have j: "j < n" by simp
  then have "concat (drop (Suc j) bls) @ cur \<noteq> []"
    using assms concat_drop_nonempty [OF assms(1), of j] by (cases "n < length bls") (auto simp del: concat_eq_Nil_conv)
  then show "index_entry opts hs bls (cur @ x) j = index_entry opts hs bls cur j"
    using j assms(2) by (intro index_entry_more) auto
qed

lemma sorted_le_last: "sorted (ps :: nat list) \<Longrightarrow> p \<in> set ps \<Longrightarrow> p \<le> last ps"
  by (induction ps) auto

lemma builder_of_Nil: "builder_of R [] = mkBlockBuilder"
  by (simp add: builder_of_def mkBlockBuilder_def restart_points_def)

lemma builder_of_empty: "BlockBuilder_empty (builder_of R cur) \<longleftrightarrow> cur = []"
proof -
  have "entry_offset R cur (length cur) = 0 \<longleftrightarrow> cur = []"
    using entry_offset_mono_iff(2) [of R cur "length cur" 0] by simp
  then show ?thesis by (simp add: BlockBuilder_empty_def builder_of_def entry_offset_def)
qed

context writable_file
begin

lemma list_all2_placed_append:
  "list_all2 (\<lambda>h b. placed sn D h (block_bytes R b)) hs bls \<Longrightarrow> list_all2 (\<lambda>h b. placed sn (D @ x) h (block_bytes R b)) hs bls"
  by (erule list_all2_mono) (rule placed_append)

lemma Flush_ok:
  assumes "tb_state env opts bls cur hs r" "\<not> tb_pending_index_entry r" "cur \<noteq> []"
  shows "\<exists>h. tb_state env opts (bls @ [cur]) [] (hs @ [h]) (TableBuilder_Flush env r) \<and>
    tb_pending_index_entry (TableBuilder_Flush env r)"
proof -
  let ?R = "opt_block_restart_interval opts" and ?W = "written (tb_file r)"
  note s = assms(1) [unfolded tb_state_def]
  have fok: "file_ok env r" and co: "tb_compressed_output r = []" and dat: "tb_data_block r = builder_of ?R cur"
    using s by simp_all
  from WriteBlock_ok [OF fok co, of "tb_data_block r"] obtain f h img where
    w: "WriteBlock env (tb_data_block r) r = (mkBlockBuilder, h, r\<lparr>tb_file := f, tb_offset := of_nat (length (written f))\<rparr>)"
      "fine f" "placed (te_snappy env) (written f) h (block_bytes ?R cur)" "bh_offset h = of_nat (length ?W)"
      "written f = ?W @ img" "img \<noteq> []" "length img \<le> length (block_bytes ?R cur) + 5"
    by (auto simp: dat Finish_builder_of)
  obtain f2 where f2: "Flush f = (OK, f2)" "written f2 = written f" "fine f2" using FlushE [OF w(2)] by blast
  have st: "tb_status r = OK" "te_Flush env = Flush" using fok by (simp_all add: file_ok_def)
  let ?off = "of_nat (length (written f2)) :: u64"
  let ?r = "r\<lparr>tb_file := f2, tb_offset := ?off, tb_data_block := mkBlockBuilder, tb_pending_handle := h,
      tb_pending_index_entry := True,
      tb_filter_block := map_option (StartBlock (tb_create r) ?off) (tb_filter_block r)\<rparr>"
  have fl: "TableBuilder_Flush env r = ?r"
    using st f2 w(1) assms(3) by (simp add: TableBuilder_Flush_def TableBuilder_ok_def status_ok_def OK_def Let_def
        dat builder_of_empty tb_create_def)
  have hs: "length hs = length bls" using s by (auto dest: list_all2_lengthD)
  obtain ps where ps: "map bh_offset hs @ [tb_offset r] = map of_nat ps" "sorted_wrt (<) ps" "last ps = length ?W" using s by auto
  have ps': "map bh_offset (hs @ [h]) @ [?off] = map of_nat (ps @ [length (written f2)]) \<and>
      sorted_wrt (<) (ps @ [length (written f2)]) \<and> last (ps @ [length (written f2)]) = length (written f2)"
  proof -
    have "\<forall>p \<in> set ps. p \<le> length ?W" using sorted_le_last ps(2,3) strict_sorted_imp_sorted by metis
    moreover have "length ?W < length (written f2)" using w(5,6) f2(2) by simp
    ultimately have "\<forall>p \<in> set ps. p < length (written f2)" by fastforce
    then show ?thesis using ps w(4) fok by (auto simp: sorted_wrt_append file_ok_def)
  qed
  have fb: "tb_filter_block ?r = filter_state (opt_filter_policy opts) (map bh_offset (hs @ [h]) @ [?off]) ((bls @ [cur]) @ [[]])"
    using s hs w(4) fok StartBlock_filter_state [of "map bh_offset hs @ [tb_offset r]" "bls @ [cur]" "opt_filter_policy opts" ?off]
    by (simp add: tb_create_def file_ok_def)
  have idx: "map (index_entry opts (hs @ [h]) (bls @ [cur]) []) [0..<length bls] = map (index_entry opts hs bls cur) [0..<length bls]"
    using hs by (intro map_cong) (auto simp: index_entry_close)
  have "tb_state env opts (bls @ [cur]) [] (hs @ [h]) ?r"
    unfolding tb_state_def
  proof (intro conjI)
    show "file_ok env ?r" using fok f2(3) by (simp add: file_ok_def)
    show "list_all2 (\<lambda>h b. placed (te_snappy env) (written (tb_file ?r)) h (block_bytes ?R b)) (hs @ [h]) (bls @ [cur])"
      using s list_all2_placed_append w(3,5) f2(2) hs by (auto simp: list_all2_append)
    show "\<exists>ps. map bh_offset (hs @ [h]) @ [tb_offset ?r] = map of_nat ps \<and> sorted_wrt (<) ps \<and> last ps = length (written (tb_file ?r))"
      using ps' by (intro exI [of _ "ps @ [length (written f2)]"]) simp
    show "length (written (tb_file ?r)) \<le> blocks_size ?R (bls @ [cur])" using s w(5,7) f2(2) by simp
    show "tb_filter_block ?r = filter_state (opt_filter_policy opts) (map bh_offset (hs @ [h]) @ [tb_offset ?r]) ((bls @ [cur]) @ [[]])"
      using fb by simp
  qed (use s assms(2,3) in \<open>simp_all add: builder_of_Nil idx\<close>)
  then show ?thesis unfolding fl by auto
qed

text \<open>\<open>Add\<close> without the flush at its end.\<close>

definition add_entry :: "bytes \<Rightarrow> bytes \<Rightarrow> 'f TableBuilder \<Rightarrow> 'f TableBuilder" where
  "add_entry key val r =
     (let r = (if tb_pending_index_entry r
               then
                 let last_key = cmp_FindShortestSeparator (opt_comparator (tb_options r)) (tb_last_key r) key
                 in r\<lparr>tb_last_key := last_key,
                      tb_index_block := BlockBuilder_Add (opt_block_restart_interval (tb_index_block_options r))
                        last_key (BlockHandle_EncodeTo (tb_pending_handle r) []) (tb_index_block r),
                      tb_pending_index_entry := False\<rparr>
               else r)
      in r\<lparr>tb_filter_block := map_option (AddKey key) (tb_filter_block r), tb_last_key := key,
           tb_num_entries := tb_num_entries r + 1,
           tb_data_block := BlockBuilder_Add (opt_block_restart_interval (tb_options r)) key val (tb_data_block r)\<rparr>)"

lemma Add_eq:
  "tb_status r = OK \<Longrightarrow> TableBuilder_Add env key val r =
    (let r' = add_entry key val r
     in if CurrentSizeEstimate (tb_data_block r') \<ge> opt_block_size (tb_options r') then TableBuilder_Flush env r' else r')"
  by (simp add: TableBuilder_Add_def add_entry_def Let_def TableBuilder_ok_def)

lemma add_entry_ok:
  assumes "tb_state env opts bls cur hs r" "0 < opt_block_restart_interval opts"
  shows "tb_state env opts bls (cur @ [(key, val)]) hs (add_entry key val r) \<and> \<not> tb_pending_index_entry (add_entry key val r)"
proof -
  let ?R = "opt_block_restart_interval opts" and ?e = "[(key, val)]" and ?r = "add_entry key val r"
  let ?sep = "cmp_FindShortestSeparator (opt_comparator opts)"
  note s = assms(1) [unfolded tb_state_def]
  have hs: "length hs = length bls" using s by (auto dest: list_all2_lengthD)
  have opts: "tb_options r = opts" "tb_index_block_options r = opts\<lparr>opt_block_restart_interval := 1\<rparr>" using s by simp_all
  have keep: "tb_file ?r = tb_file r" "tb_offset ?r = tb_offset r" "tb_status ?r = tb_status r" "tb_options ?r = opts"
    "tb_index_block_options ?r = opts\<lparr>opt_block_restart_interval := 1\<rparr>" "tb_compressed_output ?r = tb_compressed_output r"
    "tb_filter_policy ?r = tb_filter_policy r" "\<not> tb_pending_index_entry ?r" "tb_last_key ?r = key"
    "tb_data_block ?r = BlockBuilder_Add ?R key val (tb_data_block r)"
    "tb_filter_block ?r = map_option (AddKey key) (tb_filter_block r)"
    by (simp_all add: add_entry_def Let_def opts)
  have fb: "tb_filter_block ?r = filter_state (opt_filter_policy opts) (map bh_offset hs @ [tb_offset ?r]) (bls @ [cur @ ?e])"
    using s hs AddKey_filter_state [of "map bh_offset hs" bls key "opt_filter_policy opts" "tb_offset r" cur val]
    by (simp add: keep)
  have idx: "tb_index_block ?r = builder_of 1 (map (index_entry opts hs bls (cur @ ?e)) [0..<length bls])"
  proof (cases "tb_pending_index_entry r")
    case True
    then have p: "cur = []" "bls \<noteq> []" "tb_pending_handle r = last hs"
      "tb_index_block r = builder_of 1 (map (index_entry opts hs bls cur) [0..<length bls - 1])"
      using s by (simp_all split: if_splits)
    have "concat bls \<noteq> []" using p(2) s by (cases bls) auto
    then have lk: "tb_last_key r = fst (last (concat bls))" using s p(1) by (simp del: concat_eq_Nil_conv)
    have lastb: "last (concat bls) = last (last bls)" using p(2) s by (metis append_butlast_last_id concat_append concat.simps last_append last_in_set append_Nil2)
    let ?n = "length bls - 1"
    have same: "map (index_entry opts hs bls (cur @ ?e)) [0..<?n] = map (index_entry opts hs bls cur) [0..<?n]"
      using s p(2) by (intro index_entries_more) auto
    have new: "index_entry opts hs bls (cur @ ?e) ?n = (?sep (fst (last (concat bls))) key, BlockHandle_EncodeTo (last hs) [])"
    proof -
      have "hs \<noteq> []" using hs p(2) by auto
      then show ?thesis using p(1,2) hs lastb by (simp add: index_entry_def last_conv_nth)
    qed
    have upt: "[0..<length bls] = [0..<?n] @ [?n]" using p(2) by (metis One_nat_def Suc_pred length_greater_0_conv upt_Suc_append zero_le)
    have "map (index_entry opts hs bls (cur @ ?e)) [0..<length bls] = map (index_entry opts hs bls cur) [0..<?n] @
        [(?sep (fst (last (concat bls))) key, BlockHandle_EncodeTo (last hs) [])]"
      by (simp only: upt map_append list.map same new)
    then show ?thesis
      using True p(3,4) lk opts builder_of_snoc [of 1] by (simp add: add_entry_def Let_def)
  next
    case False
    have same: "map (index_entry opts hs bls (cur @ ?e)) [0..<length bls] = map (index_entry opts hs bls cur) [0..<length bls]"
      using s False by (intro index_entries_more) auto
    show ?thesis unfolding same using s False by (simp add: add_entry_def Let_def)
  qed
  have "tb_state env opts bls (cur @ ?e) hs ?r"
    unfolding tb_state_def
  proof (intro conjI)
    show "file_ok env ?r" using s by (simp add: file_ok_def keep)
    show "tb_filter_block ?r = filter_state (opt_filter_policy opts) (map bh_offset hs @ [tb_offset ?r]) (bls @ [cur @ ?e])"
      by (rule fb)
    show "\<exists>ps. map bh_offset hs @ [tb_offset ?r] = map of_nat ps \<and> sorted_wrt (<) ps \<and> last ps = length (written (tb_file ?r))"
      using s by (simp only: keep)
  qed (use s idx builder_of_snoc [OF assms(2), of key val cur] in \<open>simp_all add: keep\<close>)
  then show ?thesis using keep by blast
qed

lemma Add_ok:
  assumes "tb_state env opts bls cur hs r" "0 < opt_block_restart_interval opts"
  shows "\<exists>bls' cur' hs'. tb_state env opts bls' cur' hs' (TableBuilder_Add env key val r) \<and> concat bls' @ cur' = concat bls @ cur @ [(key, val)]"
proof -
  let ?r = "add_entry key val r"
  note a = add_entry_ok [OF assms, of key val]
  have st: "tb_status r = OK" using assms(1) by (simp add: tb_state_def file_ok_def)
  obtain h where "tb_state env opts (bls @ [cur @ [(key, val)]]) [] (hs @ [h]) (TableBuilder_Flush env ?r)"
    using Flush_ok [of env opts bls "cur @ [(key, val)]" hs ?r] a by blast
  then have fl: "\<exists>bls' cur' hs'. tb_state env opts bls' cur' hs' (TableBuilder_Flush env ?r) \<and> concat bls' @ cur' = concat bls @ cur @ [(key, val)]"
    by (intro exI [of _ "bls @ [cur @ [(key, val)]]"] exI [of _ "[]"] exI [of _ "hs @ [h]"]) simp
  have ad: "\<exists>bls' cur' hs'. tb_state env opts bls' cur' hs' ?r \<and> concat bls' @ cur' = concat bls @ cur @ [(key, val)]"
    using a by (intro exI [of _ bls] exI [of _ "cur @ [(key, val)]"] exI [of _ hs]) simp
  show ?thesis unfolding Add_eq [OF st] Let_def using fl ad by (simp split: if_split)
qed

lemma new_builder_ok:
  assumes "te_Append env = Append" "te_Flush env = Flush" "snappy_port (te_snappy env)" "fine f" "written f = []"
  shows "tb_state env opts [] [] [] (mkTableBuilder opts f)"
proof -
  let ?r = "mkTableBuilder opts f"
  have "tb_filter_block ?r = filter_state (opt_filter_policy opts) [0] [[]]"
    by (cases "opt_filter_policy opts") (simp_all add: mkTableBuilder_def Let_def tb_create_def filter_state_def)
  moreover have "\<exists>ps. [0 :: u64] = map of_nat ps \<and> sorted_wrt (<) ps \<and> last ps = 0" by (rule exI [of _ "[0]"]) simp
  ultimately show ?thesis
    using assms by (simp add: tb_state_def mkTableBuilder_def Let_def file_ok_def builder_of_Nil)
qed

definition add_all_entries :: "'f table_env \<Rightarrow> entry list \<Rightarrow> 'f TableBuilder \<Rightarrow> 'f TableBuilder" where
  "add_all_entries env es r = fold (\<lambda>(key, val). TableBuilder_Add env key val) es r"

lemma add_all_ok:
  assumes "tb_state env opts bls cur hs r" "0 < opt_block_restart_interval opts"
  shows "\<exists>bls' cur' hs'. tb_state env opts bls' cur' hs' (fold (\<lambda>(key, val). TableBuilder_Add env key val) es r) \<and>
    concat bls' @ cur' = concat bls @ cur @ es"
  using assms(1)
proof (induction es arbitrary: bls cur hs r)
  case Nil
  then show ?case by auto
next
  case (Cons e es)
  obtain key val where e: "e = (key, val)" by fastforce
  from Add_ok [OF Cons.prems assms(2), of key val] obtain bls1 cur1 hs1 where
    a: "tb_state env opts bls1 cur1 hs1 (TableBuilder_Add env key val r)" "concat bls1 @ cur1 = concat bls @ cur @ [e]"
    unfolding e by blast
  from Cons.IH [OF a(1)] obtain bls2 cur2 hs2 where
    "tb_state env opts bls2 cur2 hs2 (fold (\<lambda>(key, val). TableBuilder_Add env key val) es (TableBuilder_Add env key val r))"
    "concat bls2 @ cur2 = concat bls1 @ cur1 @ es" by blast
  then show ?case using a(2) by (intro exI [of _ bls2] exI [of _ cur2] exI [of _ hs2]) (simp add: e)
qed

end

subsection \<open>The finished file\<close>

text \<open>The index of a finished table: the last key is a successor of the last key of the table.\<close>

definition table_index :: "Options \<Rightarrow> BlockHandle list \<Rightarrow> entry list list \<Rightarrow> entry list" where
  "table_index opts hs bls =
     (if bls = [] then []
      else map (index_entry opts hs bls []) [0..<length bls - 1] @
        [(cmp_FindShortSuccessor (opt_comparator opts) (fst (last (last bls))), BlockHandle_EncodeTo (last hs) [])])"

definition meta_entries :: "Options \<Rightarrow> BlockHandle \<Rightarrow> entry list" where
  "meta_entries opts hf =
     (case opt_filter_policy opts of None \<Rightarrow> [] | Some p \<Rightarrow> [(lit ''filter.'' @ fp_Name p, BlockHandle_EncodeTo hf [])])"

definition filter_bytes :: "FilterPolicy \<Rightarrow> u64 list \<Rightarrow> entry list list \<Rightarrow> bytes" where
  "filter_bytes p offs bls = FilterBlock_Finish (fp_CreateFilter p) (build (fp_CreateFilter p) (zip offs (map (map fst) bls)) mkFilterBlockBuilder)"

definition table_file ::
  "Snappy \<Rightarrow> Options \<Rightarrow> entry list list \<Rightarrow> BlockHandle list \<Rightarrow> BlockHandle \<Rightarrow> BlockHandle \<Rightarrow> BlockHandle \<Rightarrow> u64 \<Rightarrow> bytes \<Rightarrow> bool" where
  "table_file sn opts bls hs hf hm hi off D \<longleftrightarrow> [] \<notin> set bls \<and>
     list_all2 (\<lambda>h b. placed sn D h (block_bytes (opt_block_restart_interval opts) b)) hs bls \<and>
     placed sn D hi (block_bytes 1 (table_index opts hs bls)) \<and>
     placed sn D hm (block_bytes (opt_block_restart_interval opts) (meta_entries opts hf)) \<and>
     (\<forall>p. opt_filter_policy opts = Some p \<longrightarrow> placed sn D hf (filter_bytes p (map bh_offset hs @ [off]) (bls @ [[]])) \<and>
        length (filter_bytes p (map bh_offset hs @ [off]) (bls @ [[]])) \<le> length D) \<and>
     (\<exists>ps. map bh_offset hs @ [off] = map of_nat ps \<and> sorted_wrt (<) ps \<and> last ps \<le> length D) \<and>
     length D \<le> blocks_size (opt_block_restart_interval opts) bls +
       (case opt_filter_policy opts of None \<Rightarrow> 0 | Some p \<Rightarrow> length (filter_bytes p (map bh_offset hs @ [off]) (bls @ [[]])) + 5) +
       length (block_bytes (opt_block_restart_interval opts) (meta_entries opts hf)) + length (block_bytes 1 (table_index opts hs bls)) + 58 \<and>
     (\<exists>pre. D = pre @ Footer_EncodeTo \<lparr>metaindex_handle = hm, index_handle = hi\<rparr> [])"

context writable_file
begin

text \<open>The state after the last flush.\<close>

lemma final_flush:
  assumes "tb_state env opts bls cur hs r"
  shows "\<exists>bls' hs'. tb_state env opts bls' [] hs' (TableBuilder_Flush env r) \<and> concat bls' = concat bls @ cur"
proof (cases "cur = []")
  case True
  then have "TableBuilder_Flush env r = r"
    using assms by (simp add: TableBuilder_Flush_def tb_state_def builder_of_empty TableBuilder_ok_def file_ok_def)
  then show ?thesis using assms True by auto
next
  case False
  then have "\<not> tb_pending_index_entry r" using assms by (auto simp: tb_state_def split: if_splits)
  from Flush_ok [OF assms this False] obtain h where "tb_state env opts (bls @ [cur]) [] (hs @ [h]) (TableBuilder_Flush env r)"
    by blast
  then show ?thesis by (intro exI [of _ "bls @ [cur]"] exI [of _ "hs @ [h]"]) simp
qed

lemma write_filter_ok:
  assumes "file_ok env r" "tb_filter_policy r = opt_filter_policy (tb_options r)"
    and "tb_filter_block r = filter_state (opt_filter_policy (tb_options r)) offs bls"
  shows "\<exists>h f. write_filter env r = (h, r\<lparr>tb_file := f, tb_offset := of_nat (length (written f))\<rparr>) \<and> fine f \<and>
    (\<exists>img. written f = written (tb_file r) @ img \<and>
       length img \<le> (case opt_filter_policy (tb_options r) of None \<Rightarrow> 0 | Some p \<Rightarrow> length (filter_bytes p offs bls) + 5)) \<and>
    (\<forall>p. opt_filter_policy (tb_options r) = Some p \<longrightarrow> placed (te_snappy env) (written f) h (filter_bytes p offs bls) \<and>
       length (filter_bytes p offs bls) \<le> length (written f))"
proof (cases "opt_filter_policy (tb_options r)")
  case None
  then have "write_filter env r = (mkBlockHandle, r\<lparr>tb_file := tb_file r, tb_offset := of_nat (length (written (tb_file r)))\<rparr>)"
    using assms by (simp add: write_filter_def filter_state_def file_ok_def)
  then show ?thesis using None assms(1)
    by (intro exI [of _ mkBlockHandle] exI [of _ "tb_file r"]) (simp add: file_ok_def)
next
  case (Some p)
  let ?c = "filter_bytes p offs bls"
  have wf: "write_filter env r = WriteRawBlock env ?c kNoCompression r"
    using Some assms by (simp add: write_filter_def filter_state_def filter_bytes_def tb_create_def TableBuilder_ok_def file_ok_def)
  obtain f where f: "WriteRawBlock env ?c kNoCompression r = (handle_at (length (written (tb_file r))) (length ?c),
      r\<lparr>tb_file := f, tb_offset := of_nat (length (written f))\<rparr>)" "written f = written (tb_file r) @ block_image kNoCompression ?c" "fine f"
    using WriteRawBlock_ok [OF assms(1)] by blast
  have "placed (te_snappy env) (written f) (handle_at (length (written (tb_file r))) (length ?c)) ?c"
    unfolding f(2) by (rule placed_new) (simp add: stored_as_def)
  then show ?thesis
    using wf f Some length_block_image [of kNoCompression ?c]
    by (intro exI [of _ "handle_at (length (written (tb_file r))) (length ?c)"] exI [of _ f]) simp
qed

lemma meta_block_eq:
  assumes "tb_filter_block r = filter_state (opt_filter_policy (tb_options r)) offs bls" "0 < opt_block_restart_interval (tb_options r)"
  shows "meta_block hf r = Some (builder_of (opt_block_restart_interval (tb_options r)) (meta_entries (tb_options r) hf))"
  using assms builder_of_snoc [OF assms(2), of _ _ "[]"]
  by (cases "opt_filter_policy (tb_options r)") (simp_all add: meta_block_def filter_state_def meta_entries_def builder_of_Nil)

text \<open>The index block of \<open>write_index\<close>.\<close>

definition close_index :: "'f TableBuilder \<Rightarrow> 'f TableBuilder" where
  "close_index r =
     (if tb_pending_index_entry r
      then
        let last_key = cmp_FindShortSuccessor (opt_comparator (tb_options r)) (tb_last_key r)
        in r\<lparr>tb_last_key := last_key,
             tb_index_block := BlockBuilder_Add (opt_block_restart_interval (tb_index_block_options r))
               last_key (BlockHandle_EncodeTo (tb_pending_handle r) []) (tb_index_block r),
             tb_pending_index_entry := False\<rparr>
      else r)"

lemma close_index_ok:
  assumes "tb_state env opts bls [] hs r"
  shows "tb_index_block (close_index r) = builder_of 1 (table_index opts hs bls)"
proof -
  note s = assms [unfolded tb_state_def]
  show ?thesis
  proof (cases "tb_pending_index_entry r")
    case True
    then have p: "bls \<noteq> []" "tb_pending_handle r = last hs"
      "tb_index_block r = builder_of 1 (map (index_entry opts hs bls []) [0..<length bls - 1])" using s by simp_all
    have ne: "concat bls \<noteq> []" using p(1) s by (cases bls) auto
    have "last (concat bls) = last (last bls)"
      using p(1) s by (metis append_butlast_last_id concat_append concat.simps last_append last_in_set append_Nil2)
    then have "tb_last_key r = fst (last (last bls))" using s ne by (simp del: concat_eq_Nil_conv)
    then show ?thesis using True p s builder_of_snoc [of 1] by (simp add: close_index_def table_index_def Let_def)
  next
    case False
    then show ?thesis using s by (simp add: close_index_def table_index_def)
  qed
qed

lemma write_index_eq:
  "tb_status r = OK \<Longrightarrow> write_index env r =
    (let r = close_index r; (block, handle, r) = WriteBlock env (tb_index_block r) r in (handle, r\<lparr>tb_index_block := block\<rparr>))"
  by (simp add: write_index_def close_index_def TableBuilder_ok_def Let_def)

lemma close_index_fields:
  "tb_index_block (close_index (r\<lparr>tb_closed := c, tb_file := f, tb_offset := off\<rparr>)) = tb_index_block (close_index r)"
  "tb_file (close_index r) = tb_file r" "tb_offset (close_index r) = tb_offset r" "tb_status (close_index r) = tb_status r"
  "tb_compressed_output (close_index r) = tb_compressed_output r"
  by (simp_all add: close_index_def Let_def)

lemma Finish_ok:
  assumes "tb_state env opts bls cur hs r" "0 < opt_block_restart_interval opts"
  shows "\<exists>bls' hs' hf hm hi off r'. TableBuilder_Finish env r = Some (OK, r') \<and> concat bls' = concat bls @ cur \<and>
    table_file (te_snappy env) opts bls' hs' hf hm hi off (written (tb_file r')) \<and> fine (tb_file r') \<and>
    FileSize r' = of_nat (length (written (tb_file r')))"
proof -
  let ?R = "opt_block_restart_interval opts" and ?sn = "te_snappy env"
  obtain bls1 hs1 where s1: "tb_state env opts bls1 [] hs1 (TableBuilder_Flush env r)" "concat bls1 = concat bls @ cur"
    using final_flush [OF assms(1)] by blast
  define r1 where "r1 = TableBuilder_Flush env r"
  note s = s1(1) [folded r1_def, unfolded tb_state_def]
  let ?off = "tb_offset r1"
  have fok: "file_ok env r1" and opts: "tb_options r1 = opts" and co: "tb_compressed_output r1 = []"
    and fb: "tb_filter_block r1 = filter_state (opt_filter_policy opts) (map bh_offset hs1 @ [?off]) (bls1 @ [[]])"
    and pl: "list_all2 (\<lambda>h b. placed ?sn (written (tb_file r1)) h (block_bytes ?R b)) hs1 bls1"
    using s by simp_all
  define r2 where "r2 = r1\<lparr>tb_closed := True\<rparr>"
  have "file_ok env r2" using fok by (simp add: r2_def file_ok_def)
  from write_filter_ok [OF this, of "map bh_offset hs1 @ [?off]" "bls1 @ [[]]"] obtain hf f3 i3 where
    w3: "write_filter env r2 = (hf, r2\<lparr>tb_file := f3, tb_offset := of_nat (length (written f3))\<rparr>)" "fine f3"
      "written f3 = written (tb_file r1) @ i3 \<and>
        length i3 \<le> (case opt_filter_policy opts of None \<Rightarrow> 0 | Some p \<Rightarrow> length (filter_bytes p (map bh_offset hs1 @ [?off]) (bls1 @ [[]])) + 5)"
      "\<forall>p. opt_filter_policy opts = Some p \<longrightarrow> placed ?sn (written f3) hf (filter_bytes p (map bh_offset hs1 @ [?off]) (bls1 @ [[]])) \<and>
        length (filter_bytes p (map bh_offset hs1 @ [?off]) (bls1 @ [[]])) \<le> length (written f3)"
    using fb opts s by (auto simp: r2_def)
  define r3 where "r3 = r2\<lparr>tb_file := f3, tb_offset := of_nat (length (written f3))\<rparr>"
  have ok3: "file_ok env r3" "tb_compressed_output r3 = []" using fok w3(2) co by (simp_all add: r3_def r2_def file_ok_def)
  have mb: "meta_block hf r3 = Some (builder_of ?R (meta_entries opts hf))"
    using meta_block_eq [of r3 "map bh_offset hs1 @ [?off]" "bls1 @ [[]]" hf] fb opts assms(2) by (simp add: r3_def r2_def)
  from WriteBlock_ok [OF ok3, of "builder_of ?R (meta_entries opts hf)"] obtain f4 hm i4 where
    w4: "WriteBlock env (builder_of ?R (meta_entries opts hf)) r3 = (mkBlockBuilder, hm, r3\<lparr>tb_file := f4, tb_offset := of_nat (length (written f4))\<rparr>)"
      "fine f4" "placed ?sn (written f4) hm (block_bytes ?R (meta_entries opts hf))"
      "written f4 = written f3 @ i4 \<and> length i4 \<le> length (block_bytes ?R (meta_entries opts hf)) + 5"
    by (auto simp: Finish_builder_of r3_def)
  define r4 where "r4 = r3\<lparr>tb_file := f4, tb_offset := of_nat (length (written f4))\<rparr>"
  have m: "write_metaindex env hf r3 = Some (hm, r4)"
    using mb w4(1) ok3(1) by (simp add: write_metaindex_def TableBuilder_ok_def file_ok_def r4_def)
  have r4_eq: "r4 = r1\<lparr>tb_closed := True, tb_file := f4, tb_offset := of_nat (length (written f4))\<rparr>"
    by (simp add: r4_def r3_def r2_def)
  have r4f: "tb_file r4 = f4" by (simp add: r4_def)
  have idx: "tb_index_block (close_index r4) = builder_of 1 (table_index opts hs1 bls1)"
    using close_index_ok [OF s1(1)] by (simp add: r4_eq close_index_fields r1_def)
  have ok5: "file_ok env (close_index r4)" "tb_compressed_output (close_index r4) = []"
    using fok w4(2) co by (simp_all add: file_ok_def close_index_fields r4_eq)
  from WriteBlock_ok [OF ok5, of "tb_index_block (close_index r4)"] obtain f5 hi i5 where
    w5: "WriteBlock env (tb_index_block (close_index r4)) (close_index r4) = (mkBlockBuilder, hi,
        (close_index r4)\<lparr>tb_file := f5, tb_offset := of_nat (length (written f5))\<rparr>)"
      "fine f5" "placed ?sn (written f5) hi (block_bytes 1 (table_index opts hs1 bls1))"
      "written f5 = written f4 @ i5 \<and> length i5 \<le> length (block_bytes 1 (table_index opts hs1 bls1)) + 5"
    unfolding idx Finish_builder_of close_index_fields(2) r4f by blast
  define r5 where "r5 = (close_index r4)\<lparr>tb_file := f5, tb_offset := of_nat (length (written f5)), tb_index_block := mkBlockBuilder\<rparr>"
  have st4: "tb_status r4 = OK" using fok by (simp add: r4_eq file_ok_def)
  have w: "write_index env r4 = (hi, r5)" unfolding write_index_eq [OF st4] Let_def w5(1) by (simp add: r5_def)
  let ?foot = "Footer_EncodeTo \<lparr>metaindex_handle = hm, index_handle = hi\<rparr> []"
  obtain f6 where f6: "Append ?foot f5 = (OK, f6)" "written f6 = written f5 @ ?foot" "fine f6" using AppendE [OF w5(2)] by blast
  define r6 where "r6 = r5\<lparr>tb_file := f6, tb_status := OK, tb_offset := tb_offset r5 + of_nat (length ?foot)\<rparr>"
  have foot: "write_footer env hm hi r5 = r6"
    using f6(1) fok st4 by (simp add: write_footer_def r5_def r6_def TableBuilder_ok_def status_ok_def OK_def file_ok_def Let_def close_index_fields)
  have fin: "TableBuilder_Finish env r = Some (OK, r6)"
    using w3(1) m w foot by (simp add: TableBuilder_Finish_def Let_def r1_def [symmetric] r2_def [symmetric] r3_def [symmetric])
      (simp add: r6_def)
  have D: "written (tb_file r6) = written (tb_file r1) @ i3 @ i4 @ i5 @ ?foot" using w3(3) w4(4) w5(4) f6(2) by (simp add: r6_def)
  have "table_file ?sn opts bls1 hs1 hf hm hi ?off (written (tb_file r6))"
    unfolding table_file_def
  proof (intro conjI)
    show "list_all2 (\<lambda>h b. placed ?sn (written (tb_file r6)) h (block_bytes ?R b)) hs1 bls1"
      unfolding D by (rule list_all2_placed_append [OF pl])
    show "placed ?sn (written (tb_file r6)) hi (block_bytes 1 (table_index opts hs1 bls1))"
      using placed_append [OF w5(3)] f6(2) by (simp add: r6_def)
    show "placed ?sn (written (tb_file r6)) hm (block_bytes ?R (meta_entries opts hf))"
      using placed_append [OF w4(3)] f6(2) w5(4) by (simp add: r6_def)
    show "\<forall>p. opt_filter_policy opts = Some p \<longrightarrow>
        placed ?sn (written (tb_file r6)) hf (filter_bytes p (map bh_offset hs1 @ [?off]) (bls1 @ [[]])) \<and>
        length (filter_bytes p (map bh_offset hs1 @ [?off]) (bls1 @ [[]])) \<le> length (written (tb_file r6))"
      using placed_append w3(4) f6(2) w5(4) w4(4) by (fastforce simp: r6_def)
    show "\<exists>ps. map bh_offset hs1 @ [?off] = map of_nat ps \<and> sorted_wrt (<) ps \<and> last ps \<le> length (written (tb_file r6))"
      using s D by fastforce
    have "length (written (tb_file r1)) \<le> blocks_size ?R bls1" using s by simp
    then show "length (written (tb_file r6)) \<le> blocks_size ?R bls1 +
        (case opt_filter_policy opts of None \<Rightarrow> 0 | Some p \<Rightarrow> length (filter_bytes p (map bh_offset hs1 @ [?off]) (bls1 @ [[]])) + 5) +
        length (block_bytes ?R (meta_entries opts hf)) + length (block_bytes 1 (table_index opts hs1 bls1)) + 58"
      using w3(3) w4(4) w5(4) D length_Footer [of "\<lparr>metaindex_handle = hm, index_handle = hi\<rparr>"] by simp
    show "\<exists>pre. written (tb_file r6) = pre @ ?foot" using f6(2) by (auto simp: r6_def)
  qed (use s in simp)
  moreover have "FileSize r6 = of_nat (length (written (tb_file r6)))"
    using f6(2) by (simp add: FileSize_def r6_def r5_def)
  ultimately show ?thesis using fin s1(2) f6(3) by (intro exI [of _ bls1] exI [of _ hs1] exI [of _ hf] exI [of _ hm] exI [of _ hi]
      exI [of _ ?off] exI [of _ r6]) (simp add: r6_def)
qed

end

end
