(* ===== verification/LdbTwoLevel.thy ===== *)
theory LdbTwoLevel
  imports LdbBlockProof
begin

text \<open>
  \<^verbatim>\<open>table/two_level_iterator.cc\<close>: an iterator over an index whose values name blocks, and over the
  entries of those blocks. The classes of both levels are arguments (their virtual methods), and so
  is the function that opens the block of an index value; \<open>None\<close> from it is a call with undefined
  behaviour.

  The locale \<open>two_level\<close> states what the index has to satisfy: its iterator and those of the blocks
  keep the contract \<open>iterator_over\<close>, and every index key separates its block from the later ones.
  From this the theory derives that the two-level iterator keeps the same contract over the
  concatenation of the blocks.
\<close>

subsection \<open>The code\<close>

record ('i, 'd) TwoLevelIterator =
  tl_index :: "'i IteratorWrapper"
  tl_data :: "'d IteratorWrapper"
  tl_handle :: bytes
  tl_status :: Status

definition mkTwoLevelIterator :: "'i Iterator \<Rightarrow> 'i \<Rightarrow> ('i, 'd) TwoLevelIterator" where
  "mkTwoLevelIterator vi index_iter =
     \<lparr>tl_index = Wrapper_Set vi (Some index_iter) mkIteratorWrapper, tl_data = mkIteratorWrapper, tl_handle = [],
      tl_status = OK\<rparr>"

definition SaveError :: "Status \<Rightarrow> ('i, 'd) TwoLevelIterator \<Rightarrow> ('i, 'd) TwoLevelIterator" where
  "SaveError s t = (if status_ok (tl_status t) \<and> \<not> status_ok s then t\<lparr>tl_status := s\<rparr> else t)"

definition SetDataIterator ::
  "'d Iterator \<Rightarrow> 'd option \<Rightarrow> ('i, 'd) TwoLevelIterator \<Rightarrow> ('i, 'd) TwoLevelIterator" where
  "SetDataIterator vd data_iter t =
     (let t = (if iw_iter (tl_data t) \<noteq> None then SaveError (Wrapper_status vd (tl_data t)) t else t)
      in t\<lparr>tl_data := Wrapper_Set vd data_iter (tl_data t)\<rparr>)"

definition InitDataBlock ::
  "'i Iterator \<Rightarrow> 'd Iterator \<Rightarrow> (bytes \<Rightarrow> 'd option) \<Rightarrow> ('i, 'd) TwoLevelIterator \<Rightarrow>
   ('i, 'd) TwoLevelIterator option" where
  "InitDataBlock vi vd block_function t =
     (if \<not> iw_valid (tl_index t) then Some (SetDataIterator vd None t)
      else
        let handle = Wrapper_value vi (tl_index t)
        in if iw_iter (tl_data t) \<noteq> None \<and> slice_compare handle (tl_handle t) = 0 then Some t
           else
             case block_function handle of
               None \<Rightarrow> None
             | Some iter \<Rightarrow> Some (SetDataIterator vd (Some iter) (t\<lparr>tl_handle := handle\<rparr>)))"

text \<open>
  A call of a method of the data iterator, which fails on NULL, and the guarded form
  \<^verbatim>\<open>if (data_iter_.iter() != NULL) data_iter_.\<close>
\<close>

definition data_call ::
  "('d IteratorWrapper \<Rightarrow> 'd IteratorWrapper option) \<Rightarrow> ('i, 'd) TwoLevelIterator \<Rightarrow> ('i, 'd) TwoLevelIterator option" where
  "data_call move t = map_option (\<lambda>w. t\<lparr>tl_data := w\<rparr>) (move (tl_data t))"

definition on_data_iter ::
  "('d IteratorWrapper \<Rightarrow> 'd IteratorWrapper option) \<Rightarrow> ('i, 'd) TwoLevelIterator \<Rightarrow> ('i, 'd) TwoLevelIterator option" where
  "on_data_iter move t = (if iw_iter (tl_data t) \<noteq> None then data_call move t else Some t)"

definition on_index_iter ::
  "('i IteratorWrapper \<Rightarrow> 'i IteratorWrapper option) \<Rightarrow> ('i, 'd) TwoLevelIterator \<Rightarrow> ('i, 'd) TwoLevelIterator option" where
  "on_index_iter move t = map_option (\<lambda>w. t\<lparr>tl_index := w\<rparr>) (move (tl_index t))"

text \<open>Move the index, open its block, move in the block.\<close>

definition move_both ::
  "'i Iterator \<Rightarrow> 'd Iterator \<Rightarrow> (bytes \<Rightarrow> 'd option) \<Rightarrow> ('i IteratorWrapper \<Rightarrow> 'i IteratorWrapper option) \<Rightarrow>
   ('d IteratorWrapper \<Rightarrow> 'd IteratorWrapper option) \<Rightarrow> ('i, 'd) TwoLevelIterator \<Rightarrow> ('i, 'd) TwoLevelIterator option" where
  "move_both vi vd block_function move_index move_data t =
     Option.bind (on_index_iter move_index t) (\<lambda>t.
       Option.bind (InitDataBlock vi vd block_function t) (on_data_iter move_data))"

partial_function (option) SkipEmptyDataBlocksForward ::
  "'i Iterator \<Rightarrow> 'd Iterator \<Rightarrow> (bytes \<Rightarrow> 'd option) \<Rightarrow> ('i, 'd) TwoLevelIterator \<Rightarrow> ('i, 'd) TwoLevelIterator option" where
  "SkipEmptyDataBlocksForward vi vd block_function t =
     (if iw_iter (tl_data t) = None \<or> \<not> iw_valid (tl_data t)
      then
        (if \<not> iw_valid (tl_index t) then Some (SetDataIterator vd None t)
         else
           Option.bind (move_both vi vd block_function (Wrapper_Next vi) (Wrapper_SeekToFirst vd) t)
             (SkipEmptyDataBlocksForward vi vd block_function))
      else Some t)"

partial_function (option) SkipEmptyDataBlocksBackward ::
  "'i Iterator \<Rightarrow> 'd Iterator \<Rightarrow> (bytes \<Rightarrow> 'd option) \<Rightarrow> ('i, 'd) TwoLevelIterator \<Rightarrow> ('i, 'd) TwoLevelIterator option" where
  "SkipEmptyDataBlocksBackward vi vd block_function t =
     (if iw_iter (tl_data t) = None \<or> \<not> iw_valid (tl_data t)
      then
        (if \<not> iw_valid (tl_index t) then Some (SetDataIterator vd None t)
         else
           Option.bind (move_both vi vd block_function (Wrapper_Prev vi) (Wrapper_SeekToLast vd) t)
             (SkipEmptyDataBlocksBackward vi vd block_function))
      else Some t)"

definition TwoLevel_Seek where
  "TwoLevel_Seek vi vd block_function target t =
     Option.bind (move_both vi vd block_function (Wrapper_Seek vi target) (Wrapper_Seek vd target) t)
       (SkipEmptyDataBlocksForward vi vd block_function)"

definition TwoLevel_SeekToFirst where
  "TwoLevel_SeekToFirst vi vd block_function t =
     Option.bind (move_both vi vd block_function (Wrapper_SeekToFirst vi) (Wrapper_SeekToFirst vd) t)
       (SkipEmptyDataBlocksForward vi vd block_function)"

definition TwoLevel_SeekToLast where
  "TwoLevel_SeekToLast vi vd block_function t =
     Option.bind (move_both vi vd block_function (Wrapper_SeekToLast vi) (Wrapper_SeekToLast vd) t)
       (SkipEmptyDataBlocksBackward vi vd block_function)"

definition TwoLevel_Next where
  "TwoLevel_Next vi vd block_function t =
     Option.bind (data_call (Wrapper_Next vd) t) (SkipEmptyDataBlocksForward vi vd block_function)"

definition TwoLevel_Prev where
  "TwoLevel_Prev vi vd block_function t =
     Option.bind (data_call (Wrapper_Prev vd) t) (SkipEmptyDataBlocksBackward vi vd block_function)"

definition TwoLevel_get_status :: "'i Iterator \<Rightarrow> 'd Iterator \<Rightarrow> ('i, 'd) TwoLevelIterator \<Rightarrow> Status" where
  "TwoLevel_get_status vi vd t =
     (if \<not> status_ok (Wrapper_status vi (tl_index t)) then Wrapper_status vi (tl_index t)
      else if iw_iter (tl_data t) \<noteq> None \<and> \<not> status_ok (Wrapper_status vd (tl_data t)) then Wrapper_status vd (tl_data t)
      else tl_status t)"

definition TwoLevel_vt ::
  "'i Iterator \<Rightarrow> 'd Iterator \<Rightarrow> (bytes \<Rightarrow> 'd option) \<Rightarrow> ('i, 'd) TwoLevelIterator Iterator" where
  "TwoLevel_vt vi vd block_function =
     \<lparr>it_Valid = (\<lambda>t. iw_valid (tl_data t)), it_SeekToFirst = TwoLevel_SeekToFirst vi vd block_function,
      it_SeekToLast = TwoLevel_SeekToLast vi vd block_function, it_Seek = TwoLevel_Seek vi vd block_function,
      it_Next = TwoLevel_Next vi vd block_function, it_Prev = TwoLevel_Prev vi vd block_function,
      it_key = (\<lambda>t. iw_key (tl_data t)), it_value = (\<lambda>t. Wrapper_value vd (tl_data t)),
      it_status = TwoLevel_get_status vi vd\<rparr>"

subsection \<open>The contract\<close>

locale two_level = index: iterator_over vi cmp ok ix at_i
  for vi :: "'i Iterator" and cmp :: "bytes \<Rightarrow> bytes \<Rightarrow> int" and ok :: "bytes \<Rightarrow> bool" and ix :: "entry list"
    and at_i :: "'i \<Rightarrow> nat \<Rightarrow> bool" +
  fixes vd :: "'d Iterator" and blk :: "bytes \<Rightarrow> entry list" and at_d :: "bytes \<Rightarrow> 'd \<Rightarrow> nat \<Rightarrow> bool"
    and block_function :: "bytes \<Rightarrow> 'd option"
  assumes order: "comparator cmp ok"
    and blocks: "iterator_over vd cmp ok (blk h) (at_d h)"
    and opens: "h \<in> snd ` set ix \<Longrightarrow> \<exists>d. block_function h = Some d \<and> at_d h d (length (blk h))"
    and keys_ok: "(sep, h) \<in> set ix \<Longrightarrow> ok sep" "(sep, h) \<in> set ix \<Longrightarrow> e \<in> set (blk h) \<Longrightarrow> ok (fst e)"
    and sep_ge: "(sep, h) \<in> set ix \<Longrightarrow> e \<in> set (blk h) \<Longrightarrow> cmp (fst e) sep \<le> 0"
    and sep_less: "i < j \<Longrightarrow> j < length ix \<Longrightarrow> e \<in> set (blk (snd (ix ! j))) \<Longrightarrow> cmp (fst (ix ! i)) (fst e) < 0"
begin

text \<open>The entries, and where the entries of a block begin.\<close>

definition block_of :: "nat \<Rightarrow> entry list" where
  "block_of j = blk (snd (ix ! j))"

definition entries :: "entry list" where
  "entries = concat (map (\<lambda>e. blk (snd e)) ix)"

definition start_of :: "nat \<Rightarrow> nat" where
  "start_of j = length (concat (map (\<lambda>e. blk (snd e)) (take j ix)))"

lemma start_of_0 [simp]: "start_of 0 = 0"
  by (simp add: start_of_def)

lemma start_of_Suc: "j < length ix \<Longrightarrow> start_of (Suc j) = start_of j + length (block_of j)"
  by (simp add: start_of_def block_of_def take_Suc_conv_app_nth)

lemma start_of_end: "start_of (length ix) = length entries"
  by (simp add: start_of_def entries_def)

lemma entries_split:
  assumes "j < length ix"
  shows "entries = concat (map (\<lambda>e. blk (snd e)) (take j ix)) @ block_of j @ concat (map (\<lambda>e. blk (snd e)) (drop (Suc j) ix))"
  using id_take_nth_drop [OF assms] unfolding entries_def block_of_def
  by (metis (no_types, lifting) append.assoc concat.simps(2) concat_append list.simps(9) map_append)

lemma entries_at:
  assumes "j < length ix" "p < length (block_of j)"
  shows "entries ! (start_of j + p) = block_of j ! p" "start_of j + p < length entries"
  unfolding entries_split [OF assms(1)] start_of_def using assms(2) by (simp_all add: nth_append)

text \<open>The invariant: no error was saved, and the data iterator is one of a block of the index.\<close>

definition on_index :: "('i, 'd) TwoLevelIterator \<Rightarrow> nat \<Rightarrow> bool" where
  "on_index t j \<longleftrightarrow> index.at_wrapped (tl_index t) j"

definition on_data :: "('i, 'd) TwoLevelIterator \<Rightarrow> bytes \<Rightarrow> nat \<Rightarrow> bool" where
  "on_data t h p \<longleftrightarrow> iterator_over.at_wrapped vd (at_d h) (tl_data t) p \<and> tl_handle t = h"

definition no_data :: "('i, 'd) TwoLevelIterator \<Rightarrow> bool" where
  "no_data t \<longleftrightarrow> iw_iter (tl_data t) = None \<and> \<not> iw_valid (tl_data t)"

definition clean :: "('i, 'd) TwoLevelIterator \<Rightarrow> bool" where
  "clean t \<longleftrightarrow> status_ok (tl_status t) \<and> (no_data t \<or> (\<exists>h p. on_data t h p))"

definition two_at :: "('i, 'd) TwoLevelIterator \<Rightarrow> nat \<Rightarrow> bool" where
  "two_at t i \<longleftrightarrow> clean t \<and>
     (if i < length entries
      then \<exists>j p. j < length ix \<and> p < length (block_of j) \<and> i = start_of j + p \<and> on_index t j \<and> on_data t (snd (ix ! j)) p
      else i = length entries \<and> no_data t \<and> (\<exists>j. on_index t j))"

lemmas data_facts = iterator_over.at_wrapped_facts [OF blocks]
lemmas data_moves = iterator_over.wrapped_moves [OF blocks]

lemma SetDataIterator_clean:
  assumes "clean t"
  shows "tl_status (SetDataIterator vd d t) = tl_status t" "tl_index (SetDataIterator vd d t) = tl_index t"
    "tl_handle (SetDataIterator vd d t) = tl_handle t" "tl_data (SetDataIterator vd d t) = Wrapper_Set vd d (tl_data t)"
  using assms data_facts(4)
  by (auto simp: SetDataIterator_def SaveError_def clean_def no_data_def on_data_def Let_def)

lemma SetDataIterator_None:
  assumes "clean t" "on_index t j"
  shows "clean (SetDataIterator vd None t) \<and> no_data (SetDataIterator vd None t) \<and> on_index (SetDataIterator vd None t) j"
  using assms SetDataIterator_clean [OF assms(1), of None] by (simp add: clean_def no_data_def on_index_def Wrapper_Set_def)

lemma Init_end:
  assumes "clean t" "on_index t (length ix)"
  shows "\<exists>t'. InitDataBlock vi vd block_function t = Some t' \<and> clean t' \<and> on_index t' (length ix) \<and> no_data t'"
  using SetDataIterator_None [OF assms] assms(2) index.at_wrapped_facts(2) by (auto simp: InitDataBlock_def on_index_def)

lemma Init_block:
  assumes "clean t" "on_index t j" "j < length ix"
  shows "\<exists>t' p. InitDataBlock vi vd block_function t = Some t' \<and> clean t' \<and> on_index t' j \<and> on_data t' (snd (ix ! j)) p"
proof -
  note f = index.at_wrapped_facts [OF assms(2) [unfolded on_index_def]]
  have v: "iw_valid (tl_index t)" using f(2) assms(3) by simp
  have val: "Wrapper_value vi (tl_index t) = snd (ix ! j)" using f(5) [OF assms(3)] by (metis snd_conv)
  show ?thesis
  proof (cases "iw_iter (tl_data t) \<noteq> None \<and> slice_compare (snd (ix ! j)) (tl_handle t) = 0")
    case True
    then have "on_data t (snd (ix ! j)) p \<or> no_data t \<or> (\<exists>p. on_data t (snd (ix ! j)) p)" for p
      using assms(1) by (auto simp: clean_def on_data_def slice_compare_eq_0)
    then have "\<exists>p. on_data t (snd (ix ! j)) p" using True by (auto simp: no_data_def)
    then show ?thesis using True v val assms(1,2) by (auto simp: InitDataBlock_def Let_def)
  next
    case False
    obtain d where d: "block_function (snd (ix ! j)) = Some d" "at_d (snd (ix ! j)) d (length (blk (snd (ix ! j))))"
      using opens [of "snd (ix ! j)"] assms(3) by auto
    let ?t = "t\<lparr>tl_handle := snd (ix ! j)\<rparr>"
    let ?t' = "SetDataIterator vd (Some d) ?t"
    have s: "tl_status ?t' = tl_status t" "tl_index ?t' = tl_index t" "tl_handle ?t' = snd (ix ! j)"
      "tl_data ?t' = Wrapper_Set vd (Some d) (tl_data t)"
      using assms(1) data_facts(4)
      by (auto simp: SetDataIterator_def SaveError_def clean_def no_data_def on_data_def Let_def)
    have "on_data ?t' (snd (ix ! j)) (length (blk (snd (ix ! j))))"
      using d(2) wraps_Set [of vd d] by (auto simp: on_data_def s iterator_over.at_wrapped_def [OF blocks])
    then have "InitDataBlock vi vd block_function t = Some ?t' \<and> clean ?t' \<and> on_index ?t' j \<and>
        on_data ?t' (snd (ix ! j)) (length (blk (snd (ix ! j))))"
      using False v val d(1) assms(1,2) s by (auto simp: InitDataBlock_def Let_def clean_def on_index_def)
    then show ?thesis by blast
  qed
qed

text \<open>A move of both levels ends in the block the index was moved to, or nowhere.\<close>

lemma clean_index: "clean (t\<lparr>tl_index := w\<rparr>) = clean t"
  by (simp add: clean_def no_data_def on_data_def)

lemma on_data_moved:
  assumes "clean t" "on_data t h p" "\<exists>w'. move (tl_data t) = Some w' \<and> iterator_over.at_wrapped vd (at_d h) w' q"
  shows "\<exists>t'. on_data_iter move t = Some t' \<and> data_call move t = Some t' \<and> clean t' \<and> tl_index t' = tl_index t \<and> on_data t' h q"
proof -
  obtain w' where w: "move (tl_data t) = Some w'" "iterator_over.at_wrapped vd (at_d h) w' q" using assms(3) by blast
  let ?t = "t\<lparr>tl_data := w'\<rparr>"
  have "on_data ?t h q" using assms(2) w(2) by (simp add: on_data_def)
  moreover have "iw_iter (tl_data t) \<noteq> None" using assms(2) data_facts(3) unfolding on_data_def by blast
  then have "on_data_iter move t = Some ?t" "data_call move t = Some ?t" using w(1) by (simp_all add: on_data_iter_def data_call_def)
  ultimately show ?thesis using assms(1) by (auto simp: clean_def)
qed

lemma move_both_block:
  assumes "clean t" "\<exists>w. move_i (tl_index t) = Some w \<and> index.at_wrapped w j" "j < length ix"
    and "\<And>w p. iterator_over.at_wrapped vd (at_d (snd (ix ! j))) w p \<Longrightarrow>
      \<exists>w'. move_d w = Some w' \<and> iterator_over.at_wrapped vd (at_d (snd (ix ! j))) w' q"
  shows "\<exists>t'. move_both vi vd block_function move_i move_d t = Some t' \<and> clean t' \<and> on_index t' j \<and> on_data t' (snd (ix ! j)) q"
proof -
  obtain w where w: "move_i (tl_index t) = Some w" "index.at_wrapped w j" using assms(2) by blast
  let ?t = "t\<lparr>tl_index := w\<rparr>"
  have "clean ?t" "on_index ?t j" using assms(1) w(2) by (simp_all add: clean_index on_index_def)
  from Init_block [OF this assms(3)] obtain t1 p where
    i: "InitDataBlock vi vd block_function ?t = Some t1" "clean t1" "on_index t1 j" "on_data t1 (snd (ix ! j)) p" by blast
  have "\<exists>w'. move_d (tl_data t1) = Some w' \<and> iterator_over.at_wrapped vd (at_d (snd (ix ! j))) w' q"
    using i(4) by (intro assms(4) [of _ p]) (simp add: on_data_def)
  from on_data_moved [where move = move_d, OF i(2,4) this] show ?thesis
    using w(1) i(1,3) by (auto simp: move_both_def on_index_iter_def on_index_def)
qed

lemma move_both_end:
  assumes "clean t" "\<exists>w. move_i (tl_index t) = Some w \<and> index.at_wrapped w (length ix)"
  shows "\<exists>t'. move_both vi vd block_function move_i move_d t = Some t' \<and> clean t' \<and> on_index t' (length ix) \<and> no_data t'"
proof -
  obtain w where w: "move_i (tl_index t) = Some w" "index.at_wrapped w (length ix)" using assms(2) by blast
  have "clean (t\<lparr>tl_index := w\<rparr>)" "on_index (t\<lparr>tl_index := w\<rparr>) (length ix)"
    using assms(1) w(2) by (simp_all add: clean_index on_index_def)
  from Init_end [OF this] obtain t1 where
    "InitDataBlock vi vd block_function (t\<lparr>tl_index := w\<rparr>) = Some t1" "clean t1" "on_index t1 (length ix)" "no_data t1"
    by blast
  then show ?thesis using w(1) by (auto simp: move_both_def on_index_iter_def on_data_iter_def no_data_def)
qed

lemma on_index_valid: "on_index t j \<Longrightarrow> iw_valid (tl_index t) \<longleftrightarrow> j < length ix"
  by (simp add: on_index_def index.at_wrapped_facts)

lemma on_data_valid:
  assumes "on_data t (snd (ix ! j)) p"
  shows "iw_iter (tl_data t) \<noteq> None" "iw_valid (tl_data t) \<longleftrightarrow> p < length (block_of j)" "p \<le> length (block_of j)"
  using assms data_facts(1-3) by (auto simp: on_data_def block_of_def)

text \<open>The loops over empty blocks.\<close>

lemma skip_end:
  assumes "clean t" "no_data t" "on_index t (length ix)"
  shows "\<exists>t'. SkipEmptyDataBlocksForward vi vd block_function t = Some t' \<and> two_at t' (length entries)"
    and "\<exists>t'. SkipEmptyDataBlocksBackward vi vd block_function t = Some t' \<and> two_at t' (length entries)"
  using SetDataIterator_None [OF assms(1,3)] assms(2) on_index_valid [OF assms(3)]
  by (auto simp: SkipEmptyDataBlocksForward.simps [of vi vd block_function t] SkipEmptyDataBlocksBackward.simps [of vi vd block_function t]
      no_data_def two_at_def)

lemma skip_found:
  assumes "clean t" "on_index t j" "j < length ix" "on_data t (snd (ix ! j)) p" "p < length (block_of j)"
  shows "\<exists>t'. SkipEmptyDataBlocksForward vi vd block_function t = Some t' \<and> two_at t' (start_of j + p)"
    and "\<exists>t'. SkipEmptyDataBlocksBackward vi vd block_function t = Some t' \<and> two_at t' (start_of j + p)"
proof -
  have "two_at t (start_of j + p)" using assms entries_at(2) [OF assms(3,5)] by (auto simp: two_at_def)
  then show "\<exists>t'. SkipEmptyDataBlocksForward vi vd block_function t = Some t' \<and> two_at t' (start_of j + p)"
    and "\<exists>t'. SkipEmptyDataBlocksBackward vi vd block_function t = Some t' \<and> two_at t' (start_of j + p)"
    using on_data_valid [OF assms(4)] assms(5)
    by (auto simp: SkipEmptyDataBlocksForward.simps [of vi vd block_function t]
        SkipEmptyDataBlocksBackward.simps [of vi vd block_function t])
qed

lemma skip_forward:
  assumes "clean t" "on_index t j" "j < length ix" "on_data t (snd (ix ! j)) p"
  shows "\<exists>t'. SkipEmptyDataBlocksForward vi vd block_function t = Some t' \<and> two_at t' (start_of j + p)"
  using assms
proof (induction "length ix - j" arbitrary: t j p)
  case (Suc n)
  show ?case
  proof (cases "p < length (block_of j)")
    case True
    then show ?thesis using skip_found(1) [OF Suc.prems] by blast
  next
    case False
    note d = on_data_valid [OF Suc.prems(4)]
    have p: "p = length (block_of j)" using False d(3) by simp
    have unfold: "SkipEmptyDataBlocksForward vi vd block_function t =
        Option.bind (move_both vi vd block_function (Wrapper_Next vi) (Wrapper_SeekToFirst vd) t)
          (SkipEmptyDataBlocksForward vi vd block_function)"
      using d(2) False on_index_valid [OF Suc.prems(2)] Suc.prems(3)
      by (simp add: SkipEmptyDataBlocksForward.simps [of vi vd block_function t])
    have nxt: "\<exists>w. Wrapper_Next vi (tl_index t) = Some w \<and> index.at_wrapped w (j + 1)"
      using index.wrapped_moves(4) Suc.prems(2,3) by (simp add: on_index_def)
    show ?thesis
    proof (cases "j + 1 < length ix")
      case True
      obtain t1 where
        t1: "move_both vi vd block_function (Wrapper_Next vi) (Wrapper_SeekToFirst vd) t = Some t1" "clean t1"
          "on_index t1 (j + 1)" "on_data t1 (snd (ix ! (j + 1))) 0"
        using move_both_block [where move_i = "Wrapper_Next vi" and move_d = "Wrapper_SeekToFirst vd" and q = 0, OF Suc.prems(1) nxt True]
          data_moves(1) by blast
      have "n = length ix - (j + 1)" using Suc.hyps(2) by simp
      from Suc.hyps(1) [OF this t1(2,3) True t1(4)] show ?thesis
        using unfold t1(1) start_of_Suc [OF Suc.prems(3)] p by simp
    next
      case False
      then have l: "length ix = j + 1" using Suc.prems(3) by simp
      from move_both_end [where move_i = "Wrapper_Next vi", OF Suc.prems(1) nxt [folded l]] skip_end(1) unfold start_of_Suc [OF Suc.prems(3)] start_of_end p l
      show ?thesis by (metis Suc_eq_plus1 bind.bind_lunit)
    qed
  qed
qed simp

lemma skip_backward:
  assumes "clean t" "on_index t j" "j < length ix" "on_data t (snd (ix ! j)) (length (block_of j))"
  shows "\<exists>t'. SkipEmptyDataBlocksBackward vi vd block_function t = Some t' \<and>
    two_at t' (if start_of j = 0 then length entries else start_of j - 1)"
  using assms
proof (induction j arbitrary: t)
  case 0
  have prv: "\<exists>w. Wrapper_Prev vi (tl_index t) = Some w \<and> index.at_wrapped w (length ix)"
    using index.wrapped_moves(5) [of "tl_index t" 0] 0 by (simp add: on_index_def)
  have unfold: "SkipEmptyDataBlocksBackward vi vd block_function t =
      Option.bind (move_both vi vd block_function (Wrapper_Prev vi) (Wrapper_SeekToLast vd) t)
        (SkipEmptyDataBlocksBackward vi vd block_function)"
    using on_data_valid(2) [OF 0(4)] on_index_valid [OF 0(2)] 0(3)
    by (simp add: SkipEmptyDataBlocksBackward.simps [of vi vd block_function t])
  from move_both_end [where move_i = "Wrapper_Prev vi" and move_d = "Wrapper_SeekToLast vd", OF 0(1) prv] obtain t1 where
    "move_both vi vd block_function (Wrapper_Prev vi) (Wrapper_SeekToLast vd) t = Some t1" "clean t1"
    "on_index t1 (length ix)" "no_data t1" by blast
  then show ?case using skip_end(2) [of t1] unfold by simp
next
  case (Suc j)
  have j: "j < length ix" using Suc.prems(3) by simp
  have prv: "\<exists>w. Wrapper_Prev vi (tl_index t) = Some w \<and> index.at_wrapped w j"
    using index.wrapped_moves(5) [of "tl_index t" "Suc j"] Suc.prems by (simp add: on_index_def)
  have unfold: "SkipEmptyDataBlocksBackward vi vd block_function t =
      Option.bind (move_both vi vd block_function (Wrapper_Prev vi) (Wrapper_SeekToLast vd) t)
        (SkipEmptyDataBlocksBackward vi vd block_function)"
    using on_data_valid(2) [OF Suc.prems(4)] on_index_valid [OF Suc.prems(2)] Suc.prems(3)
    by (simp add: SkipEmptyDataBlocksBackward.simps [of vi vd block_function t])
  obtain t1 where
    t1: "move_both vi vd block_function (Wrapper_Prev vi) (Wrapper_SeekToLast vd) t = Some t1" "clean t1" "on_index t1 j"
      "on_data t1 (snd (ix ! j)) (length (blk (snd (ix ! j))) - 1)"
    using move_both_block [where move_i = "Wrapper_Prev vi" and move_d = "Wrapper_SeekToLast vd", OF Suc.prems(1) prv j]
      data_moves(2) by blast
  note st = start_of_Suc [OF j]
  show ?case
  proof (cases "length (block_of j) = 0")
    case True
    then have "on_data t1 (snd (ix ! j)) (length (block_of j))" using t1(4) by (simp add: block_of_def)
    from Suc.IH [OF t1(2,3) j this] show ?thesis using True t1(1) unfold st by auto
  next
    case False
    then have eq: "start_of j + (length (block_of j) - 1) = start_of (Suc j) - 1" "start_of (Suc j) \<noteq> 0" using st by linarith+
    have "\<exists>t'. SkipEmptyDataBlocksBackward vi vd block_function t1 = Some t' \<and> two_at t' (start_of (Suc j) - 1)"
      using skip_found(2) [OF t1(2,3) j t1(4) [folded block_of_def]] False unfolding eq(1) by simp
    then show ?thesis using t1(1) unfold eq(2) by simp
  qed
qed

text \<open>Where a search ends: the block of the first index key at or past the target holds the entry, or the next one does.\<close>

lemma entries_in_block:
  "e \<in> set (concat (map (\<lambda>e. blk (snd e)) (take j ix))) \<Longrightarrow> j \<le> length ix \<Longrightarrow> \<exists>i < j. e \<in> set (block_of i)"
proof -
  assume "e \<in> set (concat (map (\<lambda>e. blk (snd e)) (take j ix)))" "j \<le> length ix"
  then obtain x where x: "x \<in> set (take j ix)" "e \<in> set (blk (snd x))" by auto
  then obtain i where "i < j" "x = ix ! i" by (auto simp: in_set_conv_nth)
  then show ?thesis using x(2) by (auto simp: block_of_def)
qed

lemma before_target:
  assumes "ok t" "i < first_ge cmp t ix" "e \<in> set (block_of i)"
  shows "cmp (fst e) t < 0"
proof -
  have i: "i < length ix" using assms(2) first_ge_le [of cmp t ix] by simp
  then have m: "(fst (ix ! i), snd (ix ! i)) \<in> set ix" by simp
  note k = keys_ok(1) [OF m] keys_ok(2) [OF m, of e] sep_ge [OF m, of e]
  show ?thesis
    using comparator.le_less_trans [OF order, of "fst e" "fst (ix ! i)" t] k assms(1,3) first_ge_before [OF assms(2)]
    by (simp add: block_of_def)
qed

lemma after_target:
  assumes "ok t" "first_ge cmp t ix < j" "j < length ix" "e \<in> set (block_of j)"
  shows "0 \<le> cmp (fst e) t"
proof -
  let ?f = "first_ge cmp t ix"
  have f: "?f < length ix" using assms(2,3) by simp
  have m: "(fst (ix ! j), snd (ix ! j)) \<in> set ix" "(fst (ix ! ?f), snd (ix ! ?f)) \<in> set ix" using assms(3) f by simp_all
  have k: "ok (fst e)" "ok (fst (ix ! ?f))"
    using keys_ok(2) [OF m(1), of e] keys_ok(1) [OF m(2)] assms(4) by (simp_all add: block_of_def)
  have "cmp (fst (ix ! ?f)) (fst e) < 0" using sep_less [OF assms(2,3)] assms(4) by (simp add: block_of_def)
  moreover have "0 \<le> cmp (fst (ix ! ?f)) t" using first_ge_at [OF f] .
  ultimately show ?thesis
    using comparator.less_trans [OF order, of "fst (ix ! ?f)" "fst e" t] k assms(1) by linarith
qed

lemma first_ge_entries:
  assumes "ok t"
  shows "first_ge cmp t entries =
    (if first_ge cmp t ix < length ix then start_of (first_ge cmp t ix) + first_ge cmp t (block_of (first_ge cmp t ix))
     else length entries)"
proof -
  let ?f = "first_ge cmp t ix"
  let ?pre = "concat (map (\<lambda>e. blk (snd e)) (take ?f ix))"
  have pre: "\<forall>e \<in> set ?pre. cmp (fst e) t < 0"
    using entries_in_block [OF _ first_ge_le] before_target [OF assms] by blast
  show ?thesis
  proof (cases "?f < length ix")
    case True
    let ?post = "concat (map (\<lambda>e. blk (snd e)) (drop (Suc ?f) ix))"
    have "\<forall>e \<in> set ?post. 0 \<le> cmp (fst e) t"
    proof
      fix e assume "e \<in> set ?post"
      then obtain x where x: "x \<in> set (drop (Suc ?f) ix)" "e \<in> set (blk (snd x))" by auto
      then obtain k where k: "k < length (drop (Suc ?f) ix)" "drop (Suc ?f) ix ! k = x"
        unfolding in_set_conv_nth by blast
      then have "Suc ?f + k < length ix" "x = ix ! (Suc ?f + k)" by auto
      then show "0 \<le> cmp (fst e) t" using after_target [OF assms, of "Suc ?f + k" e] x(2) by (simp add: block_of_def)
    qed
    then have "takeWhile (\<lambda>e. cmp (fst e) t < 0) (block_of ?f @ ?post) = takeWhile (\<lambda>e. cmp (fst e) t < 0) (block_of ?f)"
      by (cases ?post) (auto simp: takeWhile_append takeWhile_eq_all_conv [THEN iffD2] not_less)
    moreover have "takeWhile (\<lambda>e. cmp (fst e) t < 0) entries =
        ?pre @ takeWhile (\<lambda>e. cmp (fst e) t < 0) (block_of ?f @ ?post)"
      unfolding entries_split [OF True] by (rule takeWhile_append2) (use pre in blast)
    ultimately show ?thesis
      using True by (simp add: first_ge_def [of cmp t entries] first_ge_def [of cmp t "block_of ?f"] start_of_def)
  next
    case False
    then have "?f = length ix" using first_ge_le [of cmp t ix] by simp
    then show ?thesis using pre False by (simp add: entries_def first_ge_def [of cmp t "concat (map (\<lambda>e. blk (snd e)) ix)"]
          takeWhile_eq_all_conv [THEN iffD2])
  qed
qed

lemma two_at_index: "two_at t i \<Longrightarrow> clean t \<and> (\<exists>j. on_index t j)"
  by (auto simp: two_at_def split: if_splits)

lemma TwoLevel_moves:
  assumes "two_at t i"
  shows "\<exists>t'. TwoLevel_SeekToFirst vi vd block_function t = Some t' \<and> two_at t' 0"
    and "\<exists>t'. TwoLevel_SeekToLast vi vd block_function t = Some t' \<and> two_at t' (length entries - 1)"
    and "ok target \<Longrightarrow> \<exists>t'. TwoLevel_Seek vi vd block_function target t = Some t' \<and> two_at t' (first_ge cmp target entries)"
proof -
  obtain k where c: "clean t" and k: "index.at_wrapped (tl_index t) k" using two_at_index [OF assms] by (auto simp: on_index_def)
  note m = index.wrapped_moves [OF k]
  show "\<exists>t'. TwoLevel_SeekToFirst vi vd block_function t = Some t' \<and> two_at t' 0"
  proof (cases "ix = []")
    case True
    then obtain t1 where "move_both vi vd block_function (Wrapper_SeekToFirst vi) (Wrapper_SeekToFirst vd) t = Some t1"
      "clean t1" "on_index t1 (length ix)" "no_data t1"
      using move_both_end [where move_i = "Wrapper_SeekToFirst vi" and move_d = "Wrapper_SeekToFirst vd", OF c] m(1) by auto
    moreover have "length entries = 0" unfolding entries_def using True by simp
    ultimately show ?thesis using skip_end(1) [of t1] by (simp add: TwoLevel_SeekToFirst_def)
  next
    case False
    then have l: "0 < length ix" by simp
    obtain t1 where "move_both vi vd block_function (Wrapper_SeekToFirst vi) (Wrapper_SeekToFirst vd) t = Some t1"
      "clean t1" "on_index t1 0" "on_data t1 (snd (ix ! 0)) 0"
      using move_both_block [where move_i = "Wrapper_SeekToFirst vi" and move_d = "Wrapper_SeekToFirst vd" and q = 0, OF c m(1) l]
        data_moves(1) by blast
    then show ?thesis using skip_forward [of t1 0 0] l by (simp add: TwoLevel_SeekToFirst_def)
  qed
  show "\<exists>t'. TwoLevel_SeekToLast vi vd block_function t = Some t' \<and> two_at t' (length entries - 1)"
  proof (cases "ix = []")
    case True
    then obtain t1 where "move_both vi vd block_function (Wrapper_SeekToLast vi) (Wrapper_SeekToLast vd) t = Some t1"
      "clean t1" "on_index t1 (length ix)" "no_data t1"
      using move_both_end [where move_i = "Wrapper_SeekToLast vi" and move_d = "Wrapper_SeekToLast vd", OF c] m(2) by auto
    moreover have "length entries = 0" unfolding entries_def using True by simp
    ultimately show ?thesis using skip_end(2) [of t1] by (simp add: TwoLevel_SeekToLast_def)
  next
    case False
    let ?j = "length ix - 1"
    have j: "?j < length ix" using False by simp
    obtain t1 where t1: "move_both vi vd block_function (Wrapper_SeekToLast vi) (Wrapper_SeekToLast vd) t = Some t1"
      "clean t1" "on_index t1 ?j" "on_data t1 (snd (ix ! ?j)) (length (blk (snd (ix ! ?j))) - 1)"
      using move_both_block [where move_i = "Wrapper_SeekToLast vi" and move_d = "Wrapper_SeekToLast vd", OF c m(2) j]
        data_moves(2) by blast
    have st: "length entries = start_of ?j + length (block_of ?j)"
      using start_of_Suc [OF j] start_of_end False by simp
    show ?thesis
    proof (cases "length (block_of ?j) = 0")
      case True
      then have "on_data t1 (snd (ix ! ?j)) (length (block_of ?j))" using t1(4) by (simp add: block_of_def)
      from skip_backward [OF t1(2,3) j this] show ?thesis
        using True st t1(1) by (auto simp: TwoLevel_SeekToLast_def split: if_splits)
    next
      case False
      then have "start_of ?j + (length (block_of ?j) - 1) = length entries - 1" using st by linarith
      then show ?thesis
        using skip_found(2) [OF t1(2,3) j t1(4) [folded block_of_def]] False t1(1) by (simp add: TwoLevel_SeekToLast_def)
    qed
  qed
  assume ok: "ok target"
  let ?f = "first_ge cmp target ix"
  show "\<exists>t'. TwoLevel_Seek vi vd block_function target t = Some t' \<and> two_at t' (first_ge cmp target entries)"
  proof (cases "?f < length ix")
    case True
    obtain t1 where "move_both vi vd block_function (Wrapper_Seek vi target) (Wrapper_Seek vd target) t = Some t1"
      "clean t1" "on_index t1 ?f" "on_data t1 (snd (ix ! ?f)) (first_ge cmp target (blk (snd (ix ! ?f))))"
      using move_both_block [where move_i = "Wrapper_Seek vi target" and move_d = "Wrapper_Seek vd target", OF c m(3) [OF ok] True]
        data_moves(3) [OF _ ok] by blast
    then show ?thesis
      using skip_forward [of t1 ?f] True first_ge_entries [OF ok] by (simp add: TwoLevel_Seek_def block_of_def)
  next
    case False
    then have "?f = length ix" using first_ge_le [of cmp target ix] by simp
    then obtain t1 where "move_both vi vd block_function (Wrapper_Seek vi target) (Wrapper_Seek vd target) t = Some t1"
      "clean t1" "on_index t1 (length ix)" "no_data t1"
      using move_both_end [where move_i = "Wrapper_Seek vi target" and move_d = "Wrapper_Seek vd target", OF c] m(3) [OF ok] by auto
    then show ?thesis using skip_end(1) [of t1] False first_ge_entries [OF ok] by (simp add: TwoLevel_Seek_def)
  qed
qed

lemma TwoLevel_steps:
  assumes "two_at t i" "i < length entries"
  shows "\<exists>t'. TwoLevel_Next vi vd block_function t = Some t' \<and> two_at t' (i + 1)"
    and "\<exists>t'. TwoLevel_Prev vi vd block_function t = Some t' \<and> two_at t' (if i = 0 then length entries else i - 1)"
proof -
  obtain j p where j: "j < length ix" "p < length (block_of j)" "i = start_of j + p" and t: "on_index t j" "on_data t (snd (ix ! j)) p"
    and c: "clean t" using assms by (auto simp: two_at_def)
  have w: "iterator_over.at_wrapped vd (at_d (snd (ix ! j))) (tl_data t) p" using t(2) by (simp add: on_data_def)
  note lt = j(2) [unfolded block_of_def]
  from on_data_moved [where move = "Wrapper_Next vd", OF c t(2) data_moves(4) [OF w lt]] obtain t1 where
    "data_call (Wrapper_Next vd) t = Some t1" "clean t1" "tl_index t1 = tl_index t" "on_data t1 (snd (ix ! j)) (p + 1)" by blast
  then show "\<exists>t'. TwoLevel_Next vi vd block_function t = Some t' \<and> two_at t' (i + 1)"
    using skip_forward [of t1 j "p + 1"] j(1,3) t(1) by (simp add: TwoLevel_Next_def on_index_def)
  from on_data_moved [where move = "Wrapper_Prev vd", OF c t(2) data_moves(5) [OF w lt]] obtain t1 where
    t1: "data_call (Wrapper_Prev vd) t = Some t1" "clean t1" "tl_index t1 = tl_index t"
      "on_data t1 (snd (ix ! j)) (if p = 0 then length (blk (snd (ix ! j))) else p - 1)" by blast
  have ti: "on_index t1 j" using t(1) t1(3) by (simp add: on_index_def)
  show "\<exists>t'. TwoLevel_Prev vi vd block_function t = Some t' \<and> two_at t' (if i = 0 then length entries else i - 1)"
  proof (cases "p = 0")
    case True
    then show ?thesis using skip_backward [OF t1(2) ti j(1)] t1(1,4) j(3) by (auto simp: TwoLevel_Prev_def block_of_def)
  next
    case False
    then show ?thesis using skip_found(2) [OF t1(2) ti j(1), of "p - 1"] t1(1,4) j(2,3) by (simp add: TwoLevel_Prev_def)
  qed
qed

end

sublocale two_level \<subseteq> whole: iterator_over "TwoLevel_vt vi vd block_function" cmp ok entries two_at
proof
  fix t i assume at: "two_at t i"
  then obtain j where c: "clean t" and j: "on_index t j" using two_at_index by blast
  have d: "on_data t (snd (ix ! k)) p \<Longrightarrow> (iw_key (tl_data t), Wrapper_value vd (tl_data t)) = block_of k ! p"
    if "p < length (block_of k)" for k p
    using data_facts(5) that by (simp add: on_data_def block_of_def)
  show "i \<le> length entries" using at by (auto simp: two_at_def split: if_splits)
  show "it_Valid (TwoLevel_vt vi vd block_function) t \<longleftrightarrow> i < length entries"
    using at on_data_valid(2) by (auto simp: TwoLevel_vt_def two_at_def no_data_def split: if_splits)
  show "status_ok (it_status (TwoLevel_vt vi vd block_function) t)"
    using c index.at_wrapped_facts(4) [OF j [unfolded on_index_def]] data_facts(4)
    by (auto simp: TwoLevel_vt_def TwoLevel_get_status_def clean_def no_data_def on_data_def)
  show "\<exists>t'. it_SeekToFirst (TwoLevel_vt vi vd block_function) t = Some t' \<and> two_at t' 0"
    "\<exists>t'. it_SeekToLast (TwoLevel_vt vi vd block_function) t = Some t' \<and> two_at t' (length entries - 1)"
    "\<And>target. ok target \<Longrightarrow> \<exists>t'. it_Seek (TwoLevel_vt vi vd block_function) target t = Some t' \<and> two_at t' (first_ge cmp target entries)"
    using TwoLevel_moves [OF at] by (simp_all add: TwoLevel_vt_def)
  assume i: "i < length entries"
  then show "(it_key (TwoLevel_vt vi vd block_function) t, it_value (TwoLevel_vt vi vd block_function) t) = entries ! i"
    using at d entries_at(1) by (auto simp: TwoLevel_vt_def two_at_def)
  show "\<exists>t'. it_Next (TwoLevel_vt vi vd block_function) t = Some t' \<and> two_at t' (i + 1)"
    "\<exists>t'. it_Prev (TwoLevel_vt vi vd block_function) t = Some t' \<and> two_at t' (if i = 0 then length entries else i - 1)"
    using TwoLevel_steps [OF at i] by (simp_all add: TwoLevel_vt_def)
qed

context two_level
begin

text \<open>A new two-level iterator is behind the last entry.\<close>

lemma new_at:
  assumes "at_i s j"
  shows "two_at (mkTwoLevelIterator vi s) (length entries)"
proof -
  have "on_index (mkTwoLevelIterator vi s) j"
    using assms wraps_Set [of vi s mkIteratorWrapper] by (auto simp: on_index_def index.at_wrapped_def mkTwoLevelIterator_def)
  then show ?thesis
    by (auto simp: two_at_def mkTwoLevelIterator_def clean_def no_data_def mkIteratorWrapper_def status_ok_def OK_def)
qed

end

end
