(* ===== verification/LdbTableProof.thy ===== *)
theory LdbTableProof
  imports LdbTable
begin

text \<open>
  Reading back what the table builder wrote: opening the file, the contract of the table iterator
  (through the locale \<open>two_level\<close>) and point lookups.
\<close>

subsection \<open>Reading placed blocks\<close>

context random_access_file
begin

lemma ReadBlock_placed:
  assumes "length cont < 2 ^ 32" "placed sn cont h raw"
  shows "\<exists>c hp. ReadBlock Read sn a verify h = Some (OK, \<lparr>bc_data = raw, bc_cachable = c, bc_heap_allocated = hp\<rparr>)"
proof -
  have "length cont < 2 ^ 63" using assms(1) by simp
  then show ?thesis using assms(2) ReadBlock_image unfolding placed_def by blast
qed

end

subsection \<open>Tables\<close>

text \<open>The methods of the comparator of the options.\<close>

abbreviation o_cmp :: "Options \<Rightarrow> bytes \<Rightarrow> bytes \<Rightarrow> int" where
  "o_cmp opts \<equiv> cmp_Compare (opt_comparator opts)"

abbreviation o_sep :: "Options \<Rightarrow> bytes \<Rightarrow> bytes \<Rightarrow> bytes" where
  "o_sep opts \<equiv> cmp_FindShortestSeparator (opt_comparator opts)"

abbreviation o_succ :: "Options \<Rightarrow> bytes \<Rightarrow> bytes" where
  "o_succ opts \<equiv> cmp_FindShortSuccessor (opt_comparator opts)"

definition table_ok ::
  "(bytes \<Rightarrow> bool) \<Rightarrow> Snappy \<Rightarrow> Options \<Rightarrow> entry list list \<Rightarrow> BlockHandle list \<Rightarrow> BlockHandle \<Rightarrow> BlockHandle \<Rightarrow> BlockHandle \<Rightarrow> u64 \<Rightarrow>
   bytes \<Rightarrow> bool" where
  "table_ok ok sn opts bls hs hf hm hi off D \<longleftrightarrow> table_file sn opts bls hs hf hm hi off D \<and> length D < 2 ^ 32 \<and>
     key_comparator (o_cmp opts) ok (o_sep opts) (o_succ opts) \<and> sorted_entries (o_cmp opts) ok (concat bls) \<and>
     0 < opt_block_restart_interval opts \<and> (\<forall>b \<in> set bls. block_ok (opt_block_restart_interval opts) b) \<and>
     block_ok 1 (table_index opts hs bls) \<and> block_ok (opt_block_restart_interval opts) (meta_entries opts hf)"

definition block_of_handle :: "BlockHandle list \<Rightarrow> entry list list \<Rightarrow> bytes \<Rightarrow> entry list" where
  "block_of_handle hs bls hb =
     (case map_of (zip (map (\<lambda>h. BlockHandle_EncodeTo h []) hs) bls) hb of Some b \<Rightarrow> b | None \<Rightarrow> [])"

lemma EncodeTo_inj: "BlockHandle_EncodeTo h [] = BlockHandle_EncodeTo h' [] \<Longrightarrow> h = h'"
  using BlockHandle_Decode_Encode [of h "[]" h] BlockHandle_Decode_Encode [of h' "[]" h] by simp

lemma distinct_offsets:
  assumes "map bh_offset hs @ [off] = map of_nat ps" "sorted_wrt (<) ps" "last ps \<le> n" "n < 2 ^ 32"
  shows "distinct (map bh_offset hs)" "sorted (map bh_offset hs @ [off])"
proof -
  have le: "p < 2 ^ 32" if "p \<in> set ps" for p
    using sorted_le_last [OF strict_sorted_imp_sorted [OF assms(2)] that] assms(3,4) by simp
  have u: "unat (of_nat p :: u64) = p" if "p \<in> set ps" for p
  proof -
    have "p < 2 ^ 64" using le [OF that] by simp
    then show ?thesis by (simp add: unat_of_nat)
  qed
  have "inj_on (of_nat :: nat \<Rightarrow> u64) (set ps)" by (rule inj_onI) (metis u)
  then have "distinct (map (of_nat :: nat \<Rightarrow> u64) ps)" using strict_sorted_iff assms(2) by (auto simp: distinct_map)
  then show "distinct (map bh_offset hs)" using assms(1) by (metis distinct_append)
  have "sorted (map (of_nat :: nat \<Rightarrow> u64) ps)"
    unfolding sorted_map by (rule sorted_wrt_mono_rel [OF _ assms(2)]) (simp add: word_le_nat_alt u)
  then show "sorted (map bh_offset hs @ [off])" using assms(1) by simp
qed

lemma table_handles:
  assumes "table_ok ok sn opts bls hs hf hm hi off D"
  shows "length hs = length bls" "distinct (map (\<lambda>h. BlockHandle_EncodeTo h []) hs)" "sorted (map bh_offset hs @ [off])"
    and "j < length bls \<Longrightarrow> block_of_handle hs bls (BlockHandle_EncodeTo (hs ! j) []) = bls ! j"
    and "j < length bls \<Longrightarrow> placed sn D (hs ! j) (block_bytes (opt_block_restart_interval opts) (bls ! j))"
proof -
  have f: "table_file sn opts bls hs hf hm hi off D" "length D < 2 ^ 32" using assms by (simp_all add: table_ok_def)
  then have l2: "list_all2 (\<lambda>h b. placed sn D h (block_bytes (opt_block_restart_interval opts) b)) hs bls"
    by (simp add: table_file_def)
  show len: "length hs = length bls" using l2 by (rule list_all2_lengthD)
  obtain ps where ps: "map bh_offset hs @ [off] = map of_nat ps" "sorted_wrt (<) ps" "last ps \<le> length D"
    using f(1) by (auto simp: table_file_def)
  note off = distinct_offsets [OF ps f(2)]
  show "sorted (map bh_offset hs @ [off])" by (rule off(2))
  have "inj_on (\<lambda>h. BlockHandle_EncodeTo h []) (set hs)" by (rule inj_onI) (rule EncodeTo_inj)
  then show d: "distinct (map (\<lambda>h. BlockHandle_EncodeTo h []) hs)" using off(1) by (auto simp: distinct_map)
  show "j < length bls \<Longrightarrow> block_of_handle hs bls (BlockHandle_EncodeTo (hs ! j) []) = bls ! j"
  proof -
    assume j: "j < length bls"
    then have "map_of (zip (map (\<lambda>h. BlockHandle_EncodeTo h []) hs) bls) (map (\<lambda>h. BlockHandle_EncodeTo h []) hs ! j) = Some (bls ! j)"
      using d len by (intro map_of_zip_nth) simp_all
    then show ?thesis using j len by (simp add: block_of_handle_def)
  qed
  show "j < length bls \<Longrightarrow> placed sn D (hs ! j) (block_bytes (opt_block_restart_interval opts) (bls ! j))"
    using l2 by (rule list_all2_nthD2)
qed

subsection \<open>The order of the index\<close>

lemma sorted_blocks:
  assumes "sorted_entries cmp ok (concat bls)"
  shows "i < length bls \<Longrightarrow> sorted_entries cmp ok (bls ! i)"
    and "i < j \<Longrightarrow> j < length bls \<Longrightarrow> x \<in> set (bls ! i) \<Longrightarrow> y \<in> set (bls ! j) \<Longrightarrow> cmp (fst x) (fst y) < 0"
    and "i < length bls \<Longrightarrow> x \<in> set (bls ! i) \<Longrightarrow> ok (fst x)"
proof -
  have s: "sorted_wrt (\<lambda>a b. cmp (fst a) (fst b) < 0) (concat bls)" and o: "\<forall>e \<in> set (concat bls). ok (fst e)"
    using assms by (simp_all add: sorted_entries_def)
  have split: "concat bls = concat (take i bls) @ bls ! i @ concat (drop (Suc i) bls)" if "i < length bls" for i
    using id_take_nth_drop [OF that] by (metis append.assoc concat.simps(2) concat_append)
  show okx: "i < length bls \<Longrightarrow> x \<in> set (bls ! i) \<Longrightarrow> ok (fst x)" for x i using o nth_mem [of i bls] by auto
  show "sorted_entries cmp ok (bls ! i)" if i: "i < length bls"
    using s [unfolded split [OF i] sorted_wrt_append] okx [OF i] unfolding sorted_entries_def by blast
  assume ij: "i < j" "j < length bls" and x: "x \<in> set (bls ! i)" and y: "y \<in> set (bls ! j)"
  have "drop (Suc i) bls ! (j - Suc i) = bls ! j" "j - Suc i < length (drop (Suc i) bls)" using ij by simp_all
  then have "bls ! j \<in> set (drop (Suc i) bls)" by (metis nth_mem)
  then have y': "y \<in> set (concat (drop (Suc i) bls))" using y by auto
  have i: "i < length bls" using ij by simp
  show "cmp (fst x) (fst y) < 0" using s [unfolded split [OF i] sorted_wrt_append] x y' by blast
qed

lemma hd_last_in_block:
  assumes "comparator cmp ok" "sorted_entries cmp ok b" "x \<in> set b"
  shows "cmp (fst (hd b)) (fst x) \<le> 0" "cmp (fst x) (fst (last b)) \<le> 0"
proof -
  obtain i where i: "i < length b" "x = b ! i" using assms(3) by (metis in_set_conv_nth)
  have "b \<noteq> []" using assms(3) by auto
  then have b: "b \<noteq> []" "hd b = b ! 0" "last b = b ! (length b - 1)" by (simp_all add: hd_conv_nth last_conv_nth)
  have self: "cmp (fst x) (fst x) = 0" using comparator.cmp_self [OF assms(1)] sorted_entries_ok [OF assms(2) i(1)] i(2) by simp
  show "cmp (fst (hd b)) (fst x) \<le> 0"
    using self i b(2) sorted_entries_less [OF assms(2), of 0 i] by (cases "i = 0") auto
  show "cmp (fst x) (fst (last b)) \<le> 0"
  proof (cases "i = length b - 1")
    case False
    then have "i < length b - 1" "length b - 1 < length b" using i by linarith+
    then show ?thesis using sorted_entries_less [OF assms(2), of i "length b - 1"] i(2) b(3) by simp
  qed (use self i b(3) in simp)
qed

lemma length_table_index: "length (table_index opts hs bls) = length bls"
  by (cases bls) (simp_all add: table_index_def)

lemma table_index_nth:
  assumes "length hs = length bls" "[] \<notin> set bls" "j < length bls"
  shows "snd (table_index opts hs bls ! j) = BlockHandle_EncodeTo (hs ! j) []"
    and "Suc j < length bls \<Longrightarrow> fst (table_index opts hs bls ! j) = o_sep opts (fst (last (bls ! j))) (fst (hd (bls ! Suc j)))"
    and "Suc j = length bls \<Longrightarrow> fst (table_index opts hs bls ! j) = o_succ opts (fst (last (bls ! j)))"
proof -
  have ne: "bls \<noteq> []" "hs \<noteq> []" using assms(1,3) by auto
  have hd: "hd (concat (drop (Suc j) bls)) = hd (bls ! Suc j)" if "Suc j < length bls"
  proof -
    have "bls ! Suc j \<noteq> []" using assms(2) that by (metis nth_mem)
    then show ?thesis using that by (simp add: Cons_nth_drop_Suc [symmetric])
  qed
  consider "Suc j < length bls" | "Suc j = length bls" using assms(3) by linarith
  then show "snd (table_index opts hs bls ! j) = BlockHandle_EncodeTo (hs ! j) []"
  proof cases
    case 2
    then have "length bls - 1 = j" by simp
    then show ?thesis using ne assms(1) by (simp add: table_index_def nth_append last_conv_nth)
  qed (use ne in \<open>auto simp: table_index_def nth_append index_entry_def\<close>)
  show "Suc j < length bls \<Longrightarrow> fst (table_index opts hs bls ! j) = o_sep opts (fst (last (bls ! j))) (fst (hd (bls ! Suc j)))"
    using ne hd by (auto simp: table_index_def nth_append index_entry_def)
  show "fst (table_index opts hs bls ! j) = o_succ opts (fst (last (bls ! j)))" if l: "Suc j = length bls"
  proof -
    have "length bls - 1 = j" using l by simp
    then show ?thesis using ne by (simp add: table_index_def nth_append last_conv_nth)
  qed
qed

lemma table_index_order:
  assumes "table_ok ok sn opts bls hs hf hm hi off D" "j < length bls"
  shows "ok (fst (table_index opts hs bls ! j))"
    and "x \<in> set (bls ! j) \<Longrightarrow> o_cmp opts (fst x) (fst (table_index opts hs bls ! j)) \<le> 0"
    and "j < i \<Longrightarrow> i < length bls \<Longrightarrow> y \<in> set (bls ! i) \<Longrightarrow> o_cmp opts (fst (table_index opts hs bls ! j)) (fst y) < 0"
proof -
  have kc: "key_comparator (o_cmp opts) ok (o_sep opts) (o_succ opts)" and se: "sorted_entries (o_cmp opts) ok (concat bls)"
    and ne: "[] \<notin> set bls" using assms(1) by (simp_all add: table_ok_def table_file_def)
  have c: "comparator (o_cmp opts) ok" using kc by (simp add: key_comparator_def)
  note len = table_handles(1) [OF assms(1)]
  note nth = table_index_nth [OF len ne assms(2), of opts]
  note sb = sorted_blocks [OF se]
  have bj: "bls ! j \<noteq> []" using ne assms(2) by (metis nth_mem)
  have ok_last: "ok (fst (last (bls ! j)))" using sb(3) [OF assms(2), of "last (bls ! j)"] bj by simp
  note in_j = hd_last_in_block [OF c sb(1) [OF assms(2)]]
  consider (inner) "Suc j < length bls" | (final) "Suc j = length bls" using assms(2) by linarith
  then have "ok (fst (table_index opts hs bls ! j)) \<and>
      (\<forall>x \<in> set (bls ! j). o_cmp opts (fst x) (fst (table_index opts hs bls ! j)) \<le> 0) \<and>
      (\<forall>i y. j < i \<longrightarrow> i < length bls \<longrightarrow> y \<in> set (bls ! i) \<longrightarrow> o_cmp opts (fst (table_index opts hs bls ! j)) (fst y) < 0)"
  proof cases
    case inner
    let ?s = "fst (last (bls ! j))" and ?l = "fst (hd (bls ! Suc j))"
    have bl: "bls ! Suc j \<noteq> []" using ne inner by (metis nth_mem)
    have ok_l: "ok ?l" using sb(3) [OF inner, of "hd (bls ! Suc j)"] bl by simp
    have sl: "o_cmp opts ?s ?l < 0" using sb(2) [of j "Suc j"] inner bj bl by simp
    have l_le: "o_cmp opts ?l (fst y) \<le> 0" if "j < i" "i < length bls" "y \<in> set (bls ! i)" for i y
      using hd_last_in_block(1) [OF c sb(1) [OF inner]] sb(2) [of "Suc j" i "hd (bls ! Suc j)" y] that bl
      by (cases "i = Suc j") (auto simp: less_imp_le)
    have ok_y: "ok (fst y)" if "i < length bls" "y \<in> set (bls ! i)" for i y using sb(3) that by blast
    show ?thesis
      unfolding nth(2) [OF inner]
      using key_comparator.sep_between [OF kc ok_last ok_l sl] key_comparator.sep_ok [OF kc ok_last ok_l] in_j(2) l_le ok_y assms(2)
        comparator.cmp_self [OF c ok_last] comparator.cmp_self [OF c ok_l] ok_last ok_l
      by (metis order.refl)
  next
    case final
    have "o_cmp opts (fst x) (o_succ opts (fst (last (bls ! j)))) \<le> 0" if "x \<in> set (bls ! j)" for x
      using comparator.trans_le [OF c _ ok_last key_comparator.succ_ok [OF kc ok_last]] in_j(2) [OF that]
        key_comparator.succ_ge [OF kc ok_last] sb(3) [OF assms(2) that] by blast
    then show ?thesis unfolding nth(3) [OF final] using key_comparator.succ_ok [OF kc ok_last] final by auto
  qed
  then show "ok (fst (table_index opts hs bls ! j))"
    "x \<in> set (bls ! j) \<Longrightarrow> o_cmp opts (fst x) (fst (table_index opts hs bls ! j)) \<le> 0"
    "j < i \<Longrightarrow> i < length bls \<Longrightarrow> y \<in> set (bls ! i) \<Longrightarrow> o_cmp opts (fst (table_index opts hs bls ! j)) (fst y) < 0"
    by blast+
qed

lemma table_index_sorted:
  assumes "table_ok ok sn opts bls hs hf hm hi off D"
  shows "sorted_entries (o_cmp opts) ok (table_index opts hs bls)"
proof -
  have c: "comparator (o_cmp opts) ok" using assms by (simp add: table_ok_def key_comparator_def)
  have se: "sorted_entries (o_cmp opts) ok (concat bls)" and ne: "[] \<notin> set bls" using assms by (simp_all add: table_ok_def table_file_def)
  have "o_cmp opts (fst (table_index opts hs bls ! i)) (fst (table_index opts hs bls ! j)) < 0" if "i < j" "j < length bls" for i j
  proof -
    have bj: "hd (bls ! j) \<in> set (bls ! j)" using ne that(2) by (metis hd_in_set nth_mem)
    have i: "i < length bls" using that by simp
    show ?thesis
      using comparator.less_le_trans [OF c table_index_order(1) [OF assms i] sorted_blocks(3) [OF se that(2) bj] table_index_order(1) [OF assms that(2)]
          table_index_order(3) [OF assms i that bj] table_index_order(2) [OF assms that(2) bj]] .
  qed
  moreover have "\<forall>e \<in> set (table_index opts hs bls). ok (fst e)"
    using table_index_order(1) [OF assms] by (metis in_set_conv_nth length_table_index)
  ultimately show ?thesis unfolding sorted_entries_def by (auto simp: sorted_wrt_iff_nth_less length_table_index)
qed

subsection \<open>Opening a table\<close>

definition opened_table ::
  "u64 \<Rightarrow> Options \<Rightarrow> entry list list \<Rightarrow> BlockHandle list \<Rightarrow> BlockHandle \<Rightarrow> u64 \<Rightarrow> Table" where
  "opened_table cache_id opts bls hs hm off =
     \<lparr>t_options = opts, t_cache_id = cache_id,
      t_filter = map_option (\<lambda>p. mkFilterBlockReader (filter_bytes p (map bh_offset hs @ [off]) (bls @ [[]]))) (opt_filter_policy opts),
      t_metaindex_handle = hm, t_index_block = mkBlock (block_bytes 1 (table_index opts hs bls))\<rparr>"

lemma first_ge_self: "comparator cmp ok \<Longrightarrow> ok k \<Longrightarrow> first_ge cmp k [(k, v)] = 0"
  using comparator.cmp_self [of cmp ok k] by (simp add: first_ge_def)

context random_access_file
begin

lemma ReadMeta_ok:
  assumes "table_ok ok sn opts bls hs hf hm hi off cont" "t_options t = opts" "t_filter t = None"
  shows "ReadMeta Read sn a \<lparr>metaindex_handle = hm, index_handle = hi\<rparr> t =
    Some (t\<lparr>t_filter := map_option (\<lambda>p. mkFilterBlockReader (filter_bytes p (map bh_offset hs @ [off]) (bls @ [[]]))) (opt_filter_policy opts)\<rparr>)"
proof (cases "opt_filter_policy opts")
  case None
  then show ?thesis using assms(2,3) by (simp add: ReadMeta_def)
next
  case (Some p)
  let ?R = "opt_block_restart_interval opts" and ?key = "lit ''filter.'' @ fp_Name p"
  have len: "length cont < 2 ^ 32" and pm: "placed sn cont hm (block_bytes ?R (meta_entries opts hf))"
    and pf: "placed sn cont hf (filter_bytes p (map bh_offset hs @ [off]) (bls @ [[]]))" and bo: "block_ok ?R (meta_entries opts hf)"
    using assms(1) Some by (simp_all add: table_ok_def table_file_def)
  have me: "meta_entries opts hf = [(?key, BlockHandle_EncodeTo hf [])]" using Some by (simp add: meta_entries_def)
  have good: "good_block slice_compare (\<lambda>_. True) ?R (meta_entries opts hf)"
    using bo slice_order.comparator_axioms by (simp add: good_block_def me sorted_entries_def)
  obtain it where it: "it_Seek (BlockIterator slice_compare) ?key (Block_NewIterator (mkBlock (block_bytes ?R (meta_entries opts hf)))) = Some it"
      "BlockIterator_at slice_compare (\<lambda>_. True) ?R (meta_entries opts hf) it 0"
    using block_iterator.Seek [OF NewIterator_at [OF good] TrueI, of ?key] first_ge_self [OF slice_order.comparator_axioms TrueI, of ?key]
    by (auto simp: me)
  have v: "it_Valid (BlockIterator slice_compare) it" using block_iterator.at_Valid [OF it(2)] by (simp add: me)
  have kv: "it_key (BlockIterator slice_compare) it = ?key" "it_value (BlockIterator slice_compare) it = BlockHandle_EncodeTo hf []"
    using block_iterator.at_entry [OF it(2)] by (simp_all add: me)
  obtain c1 h1 where m: "ReadBlock Read sn a (opt_paranoid_checks opts) hm =
      Some (OK, \<lparr>bc_data = block_bytes ?R (meta_entries opts hf), bc_cachable = c1, bc_heap_allocated = h1\<rparr>)"
    using ReadBlock_placed [OF len pm] by blast
  obtain c2 h2 where f: "ReadBlock Read sn a (opt_paranoid_checks opts) hf =
      Some (OK, \<lparr>bc_data = filter_bytes p (map bh_offset hs @ [off]) (bls @ [[]]), bc_cachable = c2, bc_heap_allocated = h2\<rparr>)"
    using ReadBlock_placed [OF len pf] by blast
  have dec: "BlockHandle_DecodeFrom (BlockHandle_EncodeTo hf []) mkBlockHandle = (OK, hf, [])"
    using BlockHandle_Decode_Encode [of hf "[]" mkBlockHandle] by simp
  have rf: "ReadFilter Read sn a (BlockHandle_EncodeTo hf []) t =
      Some (t\<lparr>t_filter := Some (mkFilterBlockReader (filter_bytes p (map bh_offset hs @ [off]) (bls @ [[]])))\<rparr>)"
    using f assms(2) by (simp add: ReadFilter_def dec Let_def status_ok_def OK_def)
  show ?thesis
    using Some m it(1) v kv rf assms(2) by (simp add: ReadMeta_def Let_def status_ok_def OK_def slice_eq_iff)
qed

lemma Open_ok:
  assumes "table_ok ok sn opts bls hs hf hm hi off cont"
  shows "Table_Open Read sn a cache_id opts (of_nat (length cont)) = Some (OK, Some (opened_table cache_id opts bls hs hm off))"
proof -
  let ?f = "\<lparr>metaindex_handle = hm, index_handle = hi\<rparr>"
  have len: "length cont < 2 ^ 32" and pi: "placed sn cont hi (block_bytes 1 (table_index opts hs bls))"
    using assms by (simp_all add: table_ok_def table_file_def)
  obtain pre where pre: "cont = pre @ Footer_EncodeTo ?f []" using assms by (auto simp: table_ok_def table_file_def)
  have n: "length cont = length pre + 48" using length_Footer [of ?f] by (simp add: pre)
  have u: "unat (of_nat (length cont) :: u64) = length cont" "unat (of_nat (length pre) :: u64) = length pre"
    using len n by (simp_all only: unat_of_nat) simp_all
  have sub: "(of_nat (length cont) :: u64) - of_nat kEncodedLength = of_nat (length pre)"
    by (simp add: n kEncodedLength_def kMaxEncodedLength_def)
  have big: "\<not> (of_nat (length cont) :: u64) < of_nat kEncodedLength"
    unfolding word_less_nat_alt u(1) by (simp add: n kEncodedLength_def kMaxEncodedLength_def)
  have "length cont < 2 ^ 63" using len by simp
  from Read_range [OF this, of "of_nat (length pre)" 48] obtain own where
    r: "Read (of_nat (length pre)) 48 = Some (OK, Footer_EncodeTo ?f [], own)"
    using n length_Footer [of ?f] by (auto simp: u(2) pre)
  obtain c h where ix: "ReadBlock Read sn a (opt_paranoid_checks opts) hi =
      Some (OK, \<lparr>bc_data = block_bytes 1 (table_index opts hs bls), bc_cachable = c, bc_heap_allocated = h\<rparr>)"
    using ReadBlock_placed [OF len pi] by blast
  have k: "of_nat kEncodedLength = (48 :: u64)" by (simp add: kEncodedLength_def kMaxEncodedLength_def)
  note dec = Footer_Decode_Encode [of ?f "[]" "\<lparr>metaindex_handle = mkBlockHandle, index_handle = mkBlockHandle\<rparr>", simplified]
  let ?t = "\<lparr>t_options = opts, t_cache_id = cache_id, t_filter = None, t_metaindex_handle = hm,
      t_index_block = mkBlock (block_bytes 1 (table_index opts hs bls))\<rparr>"
  have m: "ReadMeta Read sn a ?f ?t = Some (opened_table cache_id opts bls hs hm off)"
    using ReadMeta_ok [OF assms, of ?t a] by (simp add: opened_table_def)
  show ?thesis
    unfolding Table_Open_def sub unfolding k
    using big [unfolded k] r dec ix m by (simp add: status_ok_def OK_def Let_def)
qed

end

subsection \<open>Iterators over tables of internal keys\<close>

text \<open>A table of internal keys that was opened on a file that can be read.\<close>

definition readable ::
  "read_op \<Rightarrow> Snappy \<Rightarrow> Options \<Rightarrow> entry list list \<Rightarrow> BlockHandle list \<Rightarrow> BlockHandle \<Rightarrow> BlockHandle \<Rightarrow> BlockHandle \<Rightarrow> u64 \<Rightarrow>
   bytes \<Rightarrow> u64 \<Rightarrow> bool" where
  "readable Read sn opts bls hs hf hm hi off D cache_id \<longleftrightarrow> random_access_file Read D \<and> o_cmp opts = icmp \<and>
     table_ok valid_ikey sn opts bls hs hf hm hi off D"

lemma comparator_icmp: "comparator icmp valid_ikey"
  by (rule ikey_order.comparator_axioms)

lemma good_data_block:
  assumes "table_ok ok sn opts bls hs hf hm hi off D" "j < length bls"
  shows "good_block (o_cmp opts) ok (opt_block_restart_interval opts) (bls ! j)"
  using assms sorted_blocks(1) nth_mem [OF assms(2)] by (auto simp: table_ok_def good_block_def key_comparator_def)

lemma good_index_block:
  assumes "table_ok ok sn opts bls hs hf hm hi off D"
  shows "good_block (o_cmp opts) ok 1 (table_index opts hs bls)"
  using assms table_index_sorted [OF assms] by (simp add: table_ok_def good_block_def key_comparator_def)

lemma BlockReader_handle:
  assumes "random_access_file Read D" "table_ok ok sn opts bls hs hf hm hi off D" "j < length bls"
  shows "BlockReader ops Read sn a verify fill t (BlockHandle_EncodeTo (hs ! j) []) None =
    Some (Block_NewIterator (mkBlock (block_bytes (opt_block_restart_interval opts) (bls ! j))), None)"
proof -
  have len: "length D < 2 ^ 32" using assms(2) by (simp add: table_ok_def)
  obtain c h where "ReadBlock Read sn a verify (hs ! j) =
      Some (OK, \<lparr>bc_data = block_bytes (opt_block_restart_interval opts) (bls ! j), bc_cachable = c, bc_heap_allocated = h\<rparr>)"
    using random_access_file.ReadBlock_placed [OF assms(1) len table_handles(5) [OF assms(2,3)]] by blast
  moreover have "BlockHandle_DecodeFrom (BlockHandle_EncodeTo (hs ! j) []) mkBlockHandle = (OK, hs ! j, [])"
    using BlockHandle_Decode_Encode [of "hs ! j" "[]" mkBlockHandle] by simp
  ultimately show ?thesis by (simp add: BlockReader_def status_ok_def OK_def Let_def)
qed

text \<open>The index of the table, or nothing for a file that is not readable.\<close>

definition index_of where
  "index_of Read sn opts bls hs hf hm hi off D cache_id =
     (if readable Read sn opts bls hs hf hm hi off D cache_id then table_index opts hs bls else [])"

lemma index_of_cases:
  assumes "e \<in> set (index_of Read sn opts bls hs hf hm hi off D cache_id)"
  obtains j where "readable Read sn opts bls hs hf hm hi off D cache_id" "j < length bls" "e = table_index opts hs bls ! j"
    "snd e = BlockHandle_EncodeTo (hs ! j) []" "block_of_handle hs bls (snd e) = bls ! j"
proof -
  have r: "readable Read sn opts bls hs hf hm hi off D cache_id" "e \<in> set (table_index opts hs bls)"
    using assms by (auto simp: index_of_def split: if_splits)
  then have ok: "table_ok valid_ikey sn opts bls hs hf hm hi off D" by (simp add: readable_def)
  obtain j where j: "j < length bls" "e = table_index opts hs bls ! j"
    using r(2) by (metis in_set_conv_nth length_table_index)
  have "[] \<notin> set bls" using ok by (simp add: table_ok_def table_file_def)
  note s = table_index_nth(1) [OF table_handles(1) [OF ok] this j(1), of opts]
  show thesis using that [OF r(1) j] s table_handles(4) [OF ok j(1)] j(2) by simp
qed

interpretation table_levels: two_level "BlockIterator icmp" icmp valid_ikey "index_of Read sn opts bls hs hf hm hi off D cache_id"
  "BlockIterator_at icmp valid_ikey 1 (index_of Read sn opts bls hs hf hm hi off D cache_id)" "BlockIterator icmp" "block_of_handle hs bls"
  "\<lambda>h. BlockIterator_at icmp valid_ikey (opt_block_restart_interval opts) (block_of_handle hs bls h)"
  "open_block Read sn a verify (opened_table cache_id opts bls hs hm off)"
proof
  let ?ix = "index_of Read sn opts bls hs hf hm hi off D cache_id" and ?R = "opt_block_restart_interval opts"
  have order: "o_cmp opts = icmp \<and> table_ok valid_ikey sn opts bls hs hf hm hi off D \<and> random_access_file Read D"
    if "readable Read sn opts bls hs hf hm hi off D cache_id" using that by (simp add: readable_def)
  show "\<exists>d. open_block Read sn a verify (opened_table cache_id opts bls hs hm off) h = Some d \<and>
      BlockIterator_at icmp valid_ikey ?R (block_of_handle hs bls h) d (length (block_of_handle hs bls h))"
    if "h \<in> snd ` set ?ix" for h
  proof -
    from that obtain e where e: "e \<in> set ?ix" "h = snd e" by blast
    from e(1) show ?thesis
    proof (cases rule: index_of_cases)
      case (1 j)
      note o = order [OF 1(1)]
      have "good_block icmp valid_ikey ?R (bls ! j)"
        using good_data_block [of valid_ikey sn opts bls hs hf hm hi off D j] o 1(2) by simp
      from NewIterator_at [OF this]
        BlockReader_handle [of Read D valid_ikey sn opts bls hs hf hm hi off j no_cache a verify True "opened_table cache_id opts bls hs hm off"] o 1(2,4,5)
      show ?thesis by (simp add: open_block_def e(2))
    qed
  qed
  show "valid_ikey sep" if "(sep, h) \<in> set ?ix" for sep h
    using that
  proof (cases rule: index_of_cases)
    case (1 j)
    then show ?thesis using table_index_order(1) [of valid_ikey sn opts bls hs hf hm hi off D j] order [OF 1(1)] by (metis fst_conv)
  qed
  show "valid_ikey (fst e)" "icmp (fst e) sep \<le> 0" if "(sep, h) \<in> set ?ix" "e \<in> set (block_of_handle hs bls h)" for sep h e
  proof -
    from that(1) have "valid_ikey (fst e) \<and> icmp (fst e) sep \<le> 0"
    proof (cases rule: index_of_cases)
      case (1 j)
      note o = order [OF 1(1)]
      have e: "e \<in> set (bls ! j)" using that(2) 1(5) by simp
      have "sorted_entries icmp valid_ikey (concat bls)" using o unfolding table_ok_def by metis
      then have "valid_ikey (fst e)" using sorted_blocks(3) [OF _ 1(2) e] by blast
      moreover have "icmp (fst e) sep \<le> 0"
        using table_index_order(2) [of valid_ikey sn opts bls hs hf hm hi off D j e] o 1(2,3) e by (metis fst_conv)
      ultimately show ?thesis ..
    qed
    then show "valid_ikey (fst e)" "icmp (fst e) sep \<le> 0" by simp_all
  qed
  show "icmp (fst (?ix ! i)) (fst e) < 0" if "i < j" "j < length ?ix" "e \<in> set (block_of_handle hs bls (snd (?ix ! j)))" for i j e
  proof -
    have r: "readable Read sn opts bls hs hf hm hi off D cache_id" using that(2) by (auto simp: index_of_def split: if_splits)
    note o = order [OF r]
    have ix: "?ix = table_index opts hs bls" using r by (simp add: index_of_def)
    have j: "j < length bls" using that(2) by (simp add: ix length_table_index)
    have "[] \<notin> set bls" using o by (simp add: table_ok_def table_file_def)
    then have "snd (?ix ! j) = BlockHandle_EncodeTo (hs ! j) []"
      using table_index_nth(1) [OF table_handles(1) _ j] o unfolding ix by blast
    then have "e \<in> set (bls ! j)" using that(3) table_handles(4) [OF _ j] o by metis
    then show ?thesis using table_index_order(3) [of valid_ikey sn opts bls hs hf hm hi off D i j e] o that(1) j unfolding ix by simp
  qed
qed

end
