(* ===== verification/LdbTableGet.thy ===== *)
theory LdbTableGet
  imports LdbTableProof
begin

text \<open>
  What a client of a table file gets: the iterator of a table that the builder wrote delivers exactly
  the entries that were added, and a point lookup finds the newest visible version of a user key,
  with or without filter. Both are stated for the internal keys of the database and for every file
  that keeps the contracts \<open>writable_file\<close> and \<open>random_access_file\<close>.
\<close>

subsection \<open>Sizes\<close>

text \<open>A bound for the size of a table of these entries, without its filter.\<close>

definition table_size :: "entry list \<Rightarrow> nat" where
  "table_size es = (\<Sum>e\<leftarrow>es. length (fst e) + length (snd e) + 39)"

lemma table_size_simps [simp]:
  "table_size [] = 0" "table_size (e # es) = length (fst e) + length (snd e) + 39 + table_size es"
  "table_size (es @ fs) = table_size es + table_size fs"
  by (simp_all add: table_size_def)

lemma table_size_member: "e \<in> set es \<Longrightarrow> length (fst e) + length (snd e) + 39 \<le> table_size es"
  by (induction es) auto

lemma table_size_concat: "b \<in> set bls \<Longrightarrow> table_size b \<le> table_size (concat bls)"
  by (induction bls) auto

lemma EncodeVarint32_length: "length (EncodeVarint32 v) \<le> 5"
  using length_uvarint_le [of "unat v" 4] unat_bound [of v] by (simp add: EncodeVarint32_eq)

lemma entry_bytes_length:
  "length (entry_bytes R es i) \<le> length (fst (es ! i)) + length (snd (es ! i)) + 15"
proof -
  obtain k v where e: "es ! i = (k, v)" by fastforce
  let ?s = "shared_of R es i"
  show ?thesis
    using EncodeVarint32_length [of "of_nat ?s"] EncodeVarint32_length [of "of_nat (length k - ?s)"]
      EncodeVarint32_length [of "of_nat (length v)"]
    by (simp add: entry_bytes_def e Let_def)
qed

lemma entry_offset_le: "n \<le> length es \<Longrightarrow> entry_offset R es n + 24 * n \<le> table_size (take n es)"
proof (induction n)
  case (Suc n)
  then show ?case
    using entry_bytes_length [of R es n]
    by (simp add: entry_offset_def entries_bytes_def take_Suc_conv_app_nth)
qed (simp add: entry_offset_def entries_bytes_def)

lemma block_bytes_length: "length (block_bytes R es) + 20 * length es \<le> table_size es + 8"
proof -
  have "(length es - 1) div R \<le> length es" by (meson diff_le_self div_le_dividend le_trans)
  then show ?thesis
    using entry_offset_le [of "length es" es R] by (simp add: length_block_bytes num_restarts_def)
qed

lemma block_ok_size:
  assumes "0 < R" "table_size es + 8 < 2 ^ 32"
  shows "block_ok R es"
proof -
  have "\<forall>e \<in> set es. length (fst e) < 2 ^ 32" using table_size_member [of _ es] assms(2) by fastforce
  then show ?thesis using assms block_bytes_length [of R es] by (simp add: block_ok_def)
qed

subsection \<open>The separators of internal keys\<close>

abbreviation isep :: "bytes \<Rightarrow> bytes \<Rightarrow> bytes" where
  "isep \<equiv> InternalKeyComparator_FindShortestSeparator slice_compare FindShortestSeparator"

abbreviation isucc :: "bytes \<Rightarrow> bytes" where
  "isucc \<equiv> InternalKeyComparator_FindShortSuccessor slice_compare FindShortSuccessor"

lemma isep_length: "valid_ikey s \<Longrightarrow> length (isep s l) \<le> length s"
  by (auto simp: InternalKeyComparator_FindShortestSeparator_def Let_def PutFixed64_def ExtractUserKey_def valid_ikey_def)

lemma isucc_length: "valid_ikey s \<Longrightarrow> length (isucc s) \<le> length s"
  by (auto simp: InternalKeyComparator_FindShortSuccessor_def Let_def PutFixed64_def ExtractUserKey_def valid_ikey_def)

text \<open>A separator is the key before it, or its user key is below that of the key behind it.\<close>

lemma isep_cases:
  assumes "valid_ikey s" "valid_ikey l" "icmp s l < 0"
  shows "isep s l = s \<or> slice_compare (ExtractUserKey (isep s l)) (ExtractUserKey l) < 0"
proof -
  obtain us vs where s: "s = us @ EncodeFixed64 vs" using assms(1) by (rule ikey_cases)
  obtain ul vl where l: "l = ul @ EncodeFixed64 vl" using assms(2) by (rule ikey_cases)
  let ?u = "FindShortestSeparator us ul"
  show ?thesis
  proof (cases "length ?u < length us \<and> slice_compare us ?u < 0")
    case True
    then have sep: "ExtractUserKey (isep s l) = ?u"
      by (simp add: InternalKeyComparator_FindShortestSeparator_def s l Let_def PutFixed64_def)
    have "slice_compare us ul \<noteq> 0"
      using True bytewise.sep_eq [of us ul] slice_order.flip [of us ?u] by auto
    then have "slice_compare us ul < 0" using assms(3) by (simp add: s l icmp_def ikey_compare)
    from bytewise.sep_less [OF _ _ this] have "slice_compare ?u ul < 0" by simp
    then show ?thesis using sep by (simp add: l)
  next
    case False
    then have "isep s l = s" by (auto simp: InternalKeyComparator_FindShortestSeparator_def s l Let_def)
    then show ?thesis ..
  qed
qed

lemma icmp_user_less:
  assumes "valid_ikey a" "valid_ikey b" "slice_compare (ExtractUserKey a) (ExtractUserKey b) < 0"
  shows "icmp a b < 0"
proof -
  obtain ua va where a: "a = ua @ EncodeFixed64 va" using assms(1) by (rule ikey_cases)
  obtain ub vb where b: "b = ub @ EncodeFixed64 vb" using assms(2) by (rule ikey_cases)
  show ?thesis using assms(3) by (simp add: a b icmp_def ikey_compare)
qed

subsection \<open>The tables that the builder writes are readable\<close>

text \<open>The options of a table of internal keys over bytewise user keys.\<close>

definition ikey_options :: "Options \<Rightarrow> bool" where
  "ikey_options opts \<longleftrightarrow> (\<exists>a b. opt_comparator opts = InternalKeyComparator a (BytewiseComparator b)) \<and>
     0 < opt_block_restart_interval opts \<and> (\<forall>p. opt_filter_policy opts = Some p \<longrightarrow> length (fp_Name p) < 2 ^ 31)"

lemma ikey_options_methods:
  assumes "ikey_options opts"
  shows "o_cmp opts = icmp" "o_sep opts = isep" "o_succ opts = isucc"
  using assms by (auto simp: ikey_options_def InternalKeyComparator_def BytewiseComparator_def icmp_def)

lemma table_index_le:
  assumes "ikey_options opts" "length hs = length bls" "[] \<notin> set bls" "\<forall>e \<in> set (concat bls). valid_ikey (fst e)" "j < length bls"
  shows "length (fst (table_index opts hs bls ! j)) \<le> length (fst (last (bls ! j)))" "length (snd (table_index opts hs bls ! j)) \<le> 20"
    and "last (bls ! j) \<in> set (concat bls)"
proof -
  note meth = ikey_options_methods [OF assms(1)] and nth = table_index_nth [OF assms(2,3,5), of opts]
  have "bls ! j \<in> set bls" using assms(5) by simp
  then show l: "last (bls ! j) \<in> set (concat bls)" using assms(3) by (auto intro!: bexI [of _ "bls ! j"] last_in_set)
  then have v: "valid_ikey (fst (last (bls ! j)))" using assms(4) by blast
  consider "Suc j < length bls" | "Suc j = length bls" using assms(5) by linarith
  then show "length (fst (table_index opts hs bls ! j)) \<le> length (fst (last (bls ! j)))"
    using nth(2,3) isep_length [OF v] isucc_length [OF v] by cases (simp_all add: meth)
  show "length (snd (table_index opts hs bls ! j)) \<le> 20" using nth(1) length_EncodeTo [of "hs ! j"] by simp
qed

lemma table_index_keys:
  assumes "ikey_options opts" "length hs = length bls" "[] \<notin> set bls" "\<forall>e \<in> set (concat bls). valid_ikey (fst e)"
    and "e \<in> set (table_index opts hs bls)"
  shows "\<exists>e' \<in> set (concat bls). length (fst e) \<le> length (fst e')"
  using table_index_le [OF assms(1-4)] assms(5) by (metis in_set_conv_nth length_table_index)

lemma table_index_size:
  assumes "ikey_options opts" "length hs = length bls" "[] \<notin> set bls" "\<forall>e \<in> set (concat bls). valid_ikey (fst e)"
  shows "table_size (table_index opts hs bls) \<le> table_size (concat bls) + 20 * length bls"
proof -
  let ?ix = "table_index opts hs bls"
  note le = table_index_le [OF assms]
  have "table_size (take n ?ix) \<le> table_size (concat (take n bls)) + 20 * n" if "n \<le> length bls" for n
    using that
  proof (induction n)
    case (Suc n)
    then have n: "n < length bls" by simp
    have "last (bls ! n) \<in> set (bls ! n)" using assms(3) n by (metis last_in_set nth_mem)
    then have "length (fst (last (bls ! n))) + 39 \<le> table_size (bls ! n)" using table_size_member by fastforce
    then show ?case using Suc.IH n le(1,2) [OF n] by (simp add: take_Suc_conv_app_nth length_table_index)
  qed simp
  from this [of "length bls"] show ?thesis by (simp add: length_table_index)
qed

lemma table_ok_size:
  assumes "ikey_options opts" "table_file sn opts bls hs hf hm hi off D" "length D < 2 ^ 32"
    and "sorted_entries icmp valid_ikey (concat bls)" "table_size (concat bls) + 8 < 2 ^ 32"
  shows "table_ok valid_ikey sn opts bls hs hf hm hi off D"
proof -
  let ?R = "opt_block_restart_interval opts"
  note meth = ikey_options_methods [OF assms(1)]
  have R: "0 < ?R" using assms(1) by (simp add: ikey_options_def)
  have ne: "[] \<notin> set bls" and l2: "list_all2 (\<lambda>h b. placed sn D h (block_bytes ?R b)) hs bls" using assms(2) by (simp_all add: table_file_def)
  have v: "\<forall>e \<in> set (concat bls). valid_ikey (fst e)" using assms(4) by (simp add: sorted_entries_def)
  note ix = table_index_size [OF assms(1) list_all2_lengthD [OF l2] ne v]
  have data: "\<forall>b \<in> set bls. block_ok ?R b" using block_ok_size [OF R] table_size_concat [of _ bls] assms(5) by fastforce
  have vix: "\<forall>e \<in> set (table_index opts hs bls). length (fst e) < 2 ^ 32"
    using table_index_keys [OF assms(1) list_all2_lengthD [OF l2] ne v] table_size_member [of _ "concat bls"] assms(5) by fastforce
  have index: "block_ok 1 (table_index opts hs bls)"
    using block_bytes_length [of 1 "table_index opts hs bls"] ix assms(5) vix by (simp add: block_ok_def length_table_index)
  have meta: "block_ok ?R (meta_entries opts hf)"
  proof (rule block_ok_size [OF R])
    show "table_size (meta_entries opts hf) + 8 < 2 ^ 32"
      using assms(1) length_EncodeTo [of hf] by (auto simp: meta_entries_def ikey_options_def lit_def split: option.split)
  qed
  show ?thesis
    using assms(2-4) R data index meta ikey_order.key_comparator_axioms by (simp add: table_ok_def meth)
qed

lemma blocks_size_le: "[] \<notin> set bls \<Longrightarrow> blocks_size R bls \<le> table_size (concat bls)"
proof (induction bls)
  case (Cons b bls)
  then have "1 \<le> length b" "blocks_size R bls \<le> table_size (concat bls)" by (auto simp: Suc_le_eq)
  then show ?case using block_bytes_length [of R b] by simp
qed simp

lemma table_file_length:
  assumes "ikey_options opts" "table_file sn opts bls hs hf hm hi off D" "opt_filter_policy opts = None"
    and "\<forall>e \<in> set (concat bls). valid_ikey (fst e)"
  shows "length D \<le> 2 * table_size (concat bls) + 74"
proof -
  let ?R = "opt_block_restart_interval opts"
  have ne: "[] \<notin> set bls" and l2: "list_all2 (\<lambda>h b. placed sn D h (block_bytes ?R b)) hs bls"
    and D: "length D \<le> blocks_size ?R bls + length (block_bytes ?R []) + length (block_bytes 1 (table_index opts hs bls)) + 58"
    using assms(2,3) by (simp_all add: table_file_def meta_entries_def)
  note ix = table_index_size [OF assms(1) list_all2_lengthD [OF l2] ne assms(4)]
  show ?thesis
    using D ix blocks_size_le [OF ne, of ?R] block_bytes_length [of ?R "[]"] block_bytes_length [of 1 "table_index opts hs bls"]
    by (simp add: length_table_index)
qed

lemma readable_entries:
  assumes "readable Read sn opts bls hs hf hm hi off D cache_id"
  shows "concat (map (\<lambda>e. block_of_handle hs bls (snd e)) (index_of Read sn opts bls hs hf hm hi off D cache_id)) = concat bls"
proof -
  have ok: "table_ok valid_ikey sn opts bls hs hf hm hi off D" using assms by (simp add: readable_def)
  then have ne: "[] \<notin> set bls" by (simp add: table_ok_def table_file_def)
  have "map (\<lambda>e. block_of_handle hs bls (snd e)) (table_index opts hs bls) = bls"
  proof (rule nth_equalityI)
    fix j assume "j < length (map (\<lambda>e. block_of_handle hs bls (snd e)) (table_index opts hs bls))"
    then have j: "j < length bls" by (simp add: length_table_index)
    then show "map (\<lambda>e. block_of_handle hs bls (snd e)) (table_index opts hs bls) ! j = bls ! j"
      using table_handles(4) [OF ok j] table_index_nth(1) [OF table_handles(1) [OF ok] ne j] by (simp add: length_table_index)
  qed (simp add: length_table_index)
  then show ?thesis using assms by (simp add: index_of_def)
qed

lemma readable_iterates:
  assumes "readable Read sn opts bls hs hf hm hi off D cache_id" "t = opened_table cache_id opts bls hs hm off"
  shows "iterates (Table_iterator Read sn a verify t) icmp valid_ikey (concat bls) (Table_NewIterator t)"
proof -
  have ok: "table_ok valid_ikey sn opts bls hs hf hm hi off D" and c: "o_cmp opts = icmp" using assms(1) by (simp_all add: readable_def)
  let ?ix = "index_of Read sn opts bls hs hf hm hi off D cache_id"
  have ix: "?ix = table_index opts hs bls" using assms(1) by (simp add: index_of_def)
  have "good_block icmp valid_ikey 1 (table_index opts hs bls)" using good_index_block [OF ok] c by simp
  from NewIterator_at [OF this, folded ix] have
    "BlockIterator_at icmp valid_ikey 1 ?ix (Block_NewIterator (mkBlock (block_bytes 1 (table_index opts hs bls)))) (length ?ix)" by (simp add: ix)
  from iteratesI [OF table_levels.whole.iterator_over_axioms table_levels.new_at [OF this]]
  have "iterates (TwoLevel_vt (BlockIterator icmp) (BlockIterator icmp) (open_block Read sn a verify t)) icmp valid_ikey (concat bls)
      (mkTwoLevelIterator (BlockIterator icmp) (Block_NewIterator (mkBlock (block_bytes 1 (table_index opts hs bls)))))"
    unfolding table_levels.entries_def readable_entries [OF assms(1)] assms(2) .
  then show ?thesis
    using c by (simp add: Table_iterator_def Table_NewIterator_def t_compare_def assms(2) opened_table_def)
qed

lemmas readable_iterator = iterates_delivers [OF readable_iterates]

subsection \<open>Point lookups\<close>

text \<open>
  When a target lies between the last key of a block and its separator, the next key belongs to
  another user key: looking into one block is enough.
\<close>

lemma next_block_other_user:
  assumes "ikey_options opts" "table_ok valid_ikey sn opts bls hs hf hm hi off D" "Suc j < length bls" "valid_ikey k"
    and "icmp (fst (last (bls ! j))) k < 0" "0 \<le> icmp (fst (table_index opts hs bls ! j)) k"
  shows "ExtractUserKey (fst (hd (bls ! Suc j))) \<noteq> ExtractUserKey k"
proof
  let ?s = "fst (last (bls ! j))" and ?l = "fst (hd (bls ! Suc j))"
  assume same: "ExtractUserKey ?l = ExtractUserKey k"
  have ne: "[] \<notin> set bls" and se: "sorted_entries icmp valid_ikey (concat bls)"
    using assms(2) ikey_options_methods [OF assms(1)] by (simp_all add: table_ok_def table_file_def)
  have j: "j < length bls" using assms(3) by simp
  have b: "bls ! j \<noteq> []" "bls ! Suc j \<noteq> []" using ne j assms(3) by (metis nth_mem)+
  have v: "valid_ikey ?s" "valid_ikey ?l" using sorted_blocks(3) [OF se] j assms(3) b last_in_set hd_in_set by blast+
  have less: "icmp ?s ?l < 0" using sorted_blocks(2) [OF se, of j "Suc j"] assms(3) b by auto
  have ix: "fst (table_index opts hs bls ! j) = isep ?s ?l"
    using table_index_nth(2) [OF table_handles(1) [OF assms(2)] ne j assms(3)] ikey_options_methods [OF assms(1)] by simp
  have "valid_ikey (isep ?s ?l)" by (rule ikey_order.sep_ok [OF v])
  then have "icmp (isep ?s ?l) k < 0"
    using isep_cases [OF v less] icmp_user_less [OF _ assms(4), of "isep ?s ?l"] assms(5) same by auto
  then show False using assms(6) ix by simp
qed

lemma KeyMayMatch_cong: "m k = m k' \<Longrightarrow> FilterBlock_KeyMayMatch m r off k = FilterBlock_KeyMayMatch m r off k'"
  by (simp add: FilterBlock_KeyMayMatch_def)

lemma filter_passes:
  assumes "table_ok ok sn opts bls hs hf hm hi off D" "opt_filter_policy opts = Some (InternalFilterPolicy q)"
    and "filter_policy (fp_CreateFilter q) (fp_KeyMayMatch q)" "length (concat bls) < 2 ^ 31"
    and "j < length bls" "e \<in> set (bls ! j)" "ExtractUserKey (fst e) = ExtractUserKey k"
  shows "FilterBlock_KeyMayMatch (fp_KeyMayMatch (InternalFilterPolicy q))
    (mkFilterBlockReader (filter_bytes (InternalFilterPolicy q) (map bh_offset hs @ [off]) (bls @ [[]]))) (bh_offset (hs ! j)) k"
proof -
  let ?p = "InternalFilterPolicy q" and ?offs = "map bh_offset hs @ [off]" and ?keys = "map (map fst) (bls @ [[]])"
  have len: "length hs = length bls" by (rule table_handles(1) [OF assms(1)])
  have fp: "filter_policy (fp_CreateFilter ?p) (fp_KeyMayMatch ?p)"
    using filter_policy_internal [OF assms(3)] by (simp add: InternalFilterPolicy_def)
  have small: "length (filter_bytes ?p ?offs (bls @ [[]])) < 2 ^ 32" using assms(1,2) by (auto simp: table_ok_def table_file_def)
  have srt: "sorted (map fst (zip ?offs ?keys))" using table_handles(3) [OF assms(1)] len by simp
  have n: "length (concat (map snd (zip ?offs ?keys))) < 2 ^ 31" using assms(4) len by (simp add: map_concat [symmetric])
  have "(bh_offset (hs ! j), map fst (bls ! j)) = zip ?offs ?keys ! j" "j < length (zip ?offs ?keys)"
    using assms(5) len by (simp_all add: nth_append)
  then have mem: "(bh_offset (hs ! j), map fst (bls ! j)) \<in> set (zip ?offs ?keys)" by (metis nth_mem)
  have "fst e \<in> set (map fst (bls ! j))" using assms(6) by simp
  note yes = filter_policy.no_false_negative [OF fp srt n small [unfolded filter_bytes_def] mem this, folded filter_bytes_def]
  have "fp_KeyMayMatch ?p k = fp_KeyMayMatch ?p (fst e)"
    using assms(7) by (simp add: fun_eq_iff InternalFilterPolicy_def InternalFilterPolicy_KeyMayMatch_def)
  from yes [folded KeyMayMatch_cong [OF this]] show ?thesis .
qed

text \<open>A filter policy of the database, if there is one.\<close>

definition good_filter :: "Options \<Rightarrow> bool" where
  "good_filter opts \<longleftrightarrow> (\<forall>p. opt_filter_policy opts = Some p \<longrightarrow>
     (\<exists>q. p = InternalFilterPolicy q \<and> filter_policy (fp_CreateFilter q) (fp_KeyMayMatch q)))"

text \<open>The first entry at or behind a target, as the block of the index and the position in it.\<close>

lemma first_entry:
  assumes "readable Read sn opts bls hs hf hm hi off D cache_id" "valid_ikey k" "f = first_ge icmp k (table_index opts hs bls)"
  shows "f = length bls \<Longrightarrow> dropWhile (\<lambda>e. icmp (fst e) k < 0) (concat bls) = []"
    and "f < length bls \<Longrightarrow> dropWhile (\<lambda>e. icmp (fst e) k < 0) (concat bls) =
      drop (first_ge icmp k (bls ! f)) (bls ! f) @ concat (drop (Suc f) bls)"
proof -
  have ok: "table_ok valid_ikey sn opts bls hs hf hm hi off D" and c: "o_cmp opts = icmp" using assms(1) by (simp_all add: readable_def)
  have ne: "[] \<notin> set bls" using ok by (simp add: table_ok_def table_file_def)
  let ?ix = "index_of Read sn opts bls hs hf hm hi off D cache_id"
  have ix: "?ix = table_index opts hs bls" using assms(1) by (simp add: index_of_def)
  have ent: "two_level.entries ?ix (block_of_handle hs bls) = concat bls"
    unfolding table_levels.entries_def by (rule readable_entries [OF assms(1)])
  note fe = table_levels.first_ge_entries [OF assms(2), of Read sn opts bls hs hf hm hi off D cache_id,
      unfolded ent, unfolded ix length_table_index, folded assms(3)]
  show "f = length bls \<Longrightarrow> dropWhile (\<lambda>e. icmp (fst e) k < 0) (concat bls) = []"
    using fe by (simp add: drop_first_ge [symmetric])
  assume f: "f < length bls"
  have blocks: "map (\<lambda>e. block_of_handle hs bls (snd e)) (table_index opts hs bls) = bls"
    using table_handles(4) [OF ok] table_index_nth(1) [OF table_handles(1) [OF ok] ne]
    by (intro nth_equalityI) (simp_all add: length_table_index)
  have st: "two_level.start_of (table_index opts hs bls) (block_of_handle hs bls) f = length (concat (take f bls))"
    unfolding ix [symmetric] table_levels.start_of_def unfolding ix take_map [symmetric] blocks ..
  have bo: "two_level.block_of (table_index opts hs bls) (block_of_handle hs bls) f = bls ! f"
    unfolding ix [symmetric] table_levels.block_of_def unfolding ix using blocks f by (metis length_table_index nth_map)
  have "first_ge icmp k (concat bls) = length (concat (take f bls)) + first_ge icmp k (bls ! f)"
    using fe f by (simp add: st bo)
  moreover have "concat bls = concat (take f bls) @ bls ! f @ concat (drop (Suc f) bls)"
    using id_take_nth_drop [OF f] by (metis append.assoc concat.simps(2) concat_append)
  ultimately show "dropWhile (\<lambda>e. icmp (fst e) k < 0) (concat bls) =
      drop (first_ge icmp k (bls ! f)) (bls ! f) @ concat (drop (Suc f) bls)"
    using first_ge_le [of icmp k "bls ! f"] by (simp add: drop_first_ge [symmetric])
qed

text \<open>
  What a lookup may hand to its saver: nothing but the first entry at or behind the target, and that
  entry whenever it is a version of the user key of the target.
\<close>

definition lookup_result :: "entry list \<Rightarrow> bytes \<Rightarrow> entry option \<Rightarrow> bool" where
  "lookup_result es k saved \<longleftrightarrow>
     (let rest = dropWhile (\<lambda>e. icmp (fst e) k < 0) es
      in (saved = None \<or> rest \<noteq> [] \<and> saved = Some (hd rest)) \<and>
         (rest \<noteq> [] \<longrightarrow> ExtractUserKey (fst (hd rest)) = ExtractUserKey k \<longrightarrow> saved = Some (hd rest)))"

lemma lookup_result_None:
  "lookup_result es k (if c then Some e else None) \<Longrightarrow> (c \<Longrightarrow> ExtractUserKey (fst e) \<noteq> ExtractUserKey k) \<Longrightarrow> lookup_result es k None"
  by (auto simp: lookup_result_def Let_def split: if_splits)

lemma lookup_result_block:
  assumes "ikey_options opts" "readable Read sn opts bls hs hf hm hi off D cache_id" "valid_ikey k"
    and "f = first_ge icmp k (table_index opts hs bls)" "f < length bls" "p = first_ge icmp k (bls ! f)"
  shows "lookup_result (concat bls) k (if p < length (bls ! f) then Some (bls ! f ! p) else None)"
proof -
  let ?rest = "dropWhile (\<lambda>e. icmp (fst e) k < 0) (concat bls)"
  have ok: "table_ok valid_ikey sn opts bls hs hf hm hi off D" using assms(2) by (simp add: readable_def)
  then have ne: "[] \<notin> set bls" by (simp add: table_ok_def table_file_def)
  note rest = first_entry(2) [OF assms(2-5), folded assms(6)]
  show ?thesis
  proof (cases "p < length (bls ! f)")
    case True
    then have "?rest \<noteq> []" "hd ?rest = bls ! f ! p" unfolding rest by (simp_all add: hd_drop_conv_nth)
    then show ?thesis using True by (simp add: lookup_result_def)
  next
    case False
    have b: "bls ! f \<noteq> []" using ne assms(5) by (metis nth_mem)
    have ge: "0 \<le> icmp (fst (table_index opts hs bls ! f)) k"
      using first_ge_at [of icmp k "table_index opts hs bls"] assms(4,5) by (simp add: length_table_index)
    have "length (bls ! f) - 1 < first_ge icmp k (bls ! f)" using False b assms(6) by (cases "bls ! f") simp_all
    then have lt: "icmp (fst (last (bls ! f))) k < 0"
      using first_ge_before [of "length (bls ! f) - 1" icmp k "bls ! f"] b by (simp add: last_conv_nth)
    have other: "ExtractUserKey (fst (hd ?rest)) \<noteq> ExtractUserKey k" if r: "?rest \<noteq> []"
    proof -
      have c: "?rest = concat (drop (Suc f) bls)" unfolding rest using False by simp
      then have f1: "Suc f < length bls" using r by (cases "Suc f < length bls") simp_all
      moreover have "bls ! Suc f \<noteq> []" using ne f1 by (metis nth_mem)
      ultimately have "hd ?rest = hd (bls ! Suc f)" unfolding c by (simp add: Cons_nth_drop_Suc [symmetric])
      then show ?thesis using next_block_other_user [OF assms(1) ok f1 assms(3) lt ge] by simp
    qed
    show ?thesis using False other by (simp add: lookup_result_def Let_def)
  qed
qed

lemma filter_skips:
  assumes "good_filter opts" "table_ok ok sn opts bls hs hf hm hi off D" "length (concat bls) < 2 ^ 31" "j < length bls"
    and "t = opened_table cache_id opts bls hs hm off"
    and "case (t_filter t, opt_filter_policy (t_options t)) of
        (Some flt, Some policy) \<Rightarrow> \<not> FilterBlock_KeyMayMatch (fp_KeyMayMatch policy) flt (bh_offset (hs ! j)) k | _ \<Rightarrow> False"
    and "e \<in> set (bls ! j)"
  shows "ExtractUserKey (fst e) \<noteq> ExtractUserKey k"
proof -
  obtain p where p: "opt_filter_policy opts = Some p" using assms(5,6) by (cases "opt_filter_policy opts") (simp_all add: opened_table_def)
  then obtain q where q: "opt_filter_policy opts = Some (InternalFilterPolicy q)" "filter_policy (fp_CreateFilter q) (fp_KeyMayMatch q)"
    using assms(1) unfolding good_filter_def by blast
  show ?thesis using filter_passes [OF assms(2) q assms(3,4,7)] assms(5,6) q(1) by (auto simp: opened_table_def)
qed

lemma readable_get:
  assumes "ikey_options opts" "good_filter opts" "readable Read sn opts bls hs hf hm hi off D cache_id" "valid_ikey k"
    and "length (concat bls) < 2 ^ 31" "t = opened_table cache_id opts bls hs hm off"
  shows "\<exists>s saved. InternalGet ops Read sn a verify fill t k None = Some (s, saved, None) \<and> status_ok s \<and>
    lookup_result (concat bls) k saved"
proof -
  have ok: "table_ok valid_ikey sn opts bls hs hf hm hi off D" and raf: "random_access_file Read D" and c: "o_cmp opts = icmp"
    using assms(3) by (simp_all add: readable_def)
  have ne: "[] \<notin> set bls" using ok by (simp add: table_ok_def table_file_def)
  let ?ix = "table_index opts hs bls" and ?vt = "BlockIterator icmp"
  have vt: "BlockIterator (t_compare t) = ?vt" using c assms(6) by (simp add: t_compare_def opened_table_def)
  have tb: "t_index_block t = mkBlock (block_bytes 1 ?ix)" using assms(6) by (simp add: opened_table_def)
  define f where "f = first_ge icmp k ?ix"
  have "good_block icmp valid_ikey 1 ?ix" using good_index_block [OF ok] c by simp
  from block_iterator.Seek [OF NewIterator_at [OF this] assms(4)] obtain iiter where
    ii: "it_Seek ?vt k (Block_NewIterator (mkBlock (block_bytes 1 ?ix))) = Some iiter" "BlockIterator_at icmp valid_ikey 1 ?ix iiter f"
    by (auto simp: f_def)
  have sok: "status_ok (it_status ?vt iiter)" by (rule block_iterator.at_status [OF ii(2)])
  show ?thesis
  proof (cases "f < length bls")
    case False
    then have f: "f = length bls" using first_ge_le [of icmp k ?ix] by (simp add: f_def length_table_index)
    then have "\<not> it_Valid ?vt iiter" using block_iterator.at_Valid [OF ii(2)] by (simp add: length_table_index)
    moreover have "lookup_result (concat bls) k None"
      using first_entry(1) [OF assms(3,4) f_def f] by (simp add: lookup_result_def)
    ultimately show ?thesis using ii(1) sok by (simp add: InternalGet_def vt tb)
  next
    case True
    let ?b = "bls ! f" and ?h = "BlockHandle_EncodeTo (hs ! f) []"
    have v: "it_Valid ?vt iiter" using block_iterator.at_Valid [OF ii(2)] True by (simp add: length_table_index)
    have val: "it_value ?vt iiter = ?h"
      using block_iterator.at_entry [OF ii(2)] True table_index_nth(1) [OF table_handles(1) [OF ok] ne True, of opts]
      by (metis length_table_index snd_conv)
    have dec: "BlockHandle_DecodeFrom ?h mkBlockHandle = (OK, hs ! f, [])"
      using BlockHandle_Decode_Encode [of "hs ! f" "[]" mkBlockHandle] by simp
    define p where "p = first_ge icmp k ?b"
    note lr = lookup_result_block [OF assms(1,3,4) f_def True p_def]
    have "good_block icmp valid_ikey (opt_block_restart_interval opts) ?b" using good_data_block [OF ok True] c by simp
    from block_iterator.Seek [OF NewIterator_at [OF this] assms(4)] obtain bi where
      bi: "it_Seek ?vt k (Block_NewIterator (mkBlock (block_bytes (opt_block_restart_interval opts) ?b))) = Some bi"
        "BlockIterator_at icmp valid_ikey (opt_block_restart_interval opts) ?b bi p"
      by (auto simp: p_def)
    define skip where "skip = (case (t_filter t, opt_filter_policy (t_options t)) of
        (Some flt, Some policy) \<Rightarrow> \<not> FilterBlock_KeyMayMatch (fp_KeyMayMatch policy) flt (bh_offset (hs ! f)) k | _ \<Rightarrow> False)"
    have none: "lookup_result (concat bls) k None" if skip
      using filter_skips [OF assms(2) ok assms(5) True assms(6) that [unfolded skip_def]] by (intro lookup_result_None [OF lr]) simp
    have body: "InternalGet ops Read sn a verify fill t k None =
        (if skip then Some (it_status ?vt iiter, None, None)
         else Some (if status_ok (it_status ?vt bi) then it_status ?vt iiter else it_status ?vt bi,
           if it_Valid ?vt bi then Some (it_key ?vt bi, it_value ?vt bi) else None, None))"
      using ii(1) v bi(1) BlockReader_handle [OF raf ok True, of ops a verify fill t]
      by (simp add: InternalGet_def vt tb val dec skip_def status_ok_def OK_def Let_def split: option.split)
    have "(if it_Valid ?vt bi then Some (it_key ?vt bi, it_value ?vt bi) else None) = (if p < length ?b then Some (?b ! p) else None)"
      using block_iterator.at_Valid [OF bi(2)] block_iterator.at_entry [OF bi(2)] by simp
    with lr none sok show ?thesis unfolding body using block_iterator.at_status [OF bi(2)] by (cases skip) simp_all
  qed
qed

subsection \<open>Properties\<close>

text \<open>Building a table on a POSIX file.\<close>

definition posix_table_env :: "Snappy \<Rightarrow> addr \<Rightarrow> addr \<Rightarrow> PosixFile table_env" where
  "posix_table_env sn a b = \<lparr>te_Append = PosixWritableFile_Append, te_Flush = PosixWritableFile_Flush, te_snappy = sn,
     te_contents = a, te_trailer = b\<rparr>"

definition build_table :: "'f table_env \<Rightarrow> Options \<Rightarrow> entry list \<Rightarrow> 'f \<Rightarrow> (Status \<times> 'f TableBuilder) option" where
  "build_table env opts es f =
     TableBuilder_Finish env (fold (\<lambda>(key, val). TableBuilder_Add env key val) es (mkTableBuilder opts f))"

lemma build_table_ok:
  assumes "snappy_port sn" "posix_good f" "posix_written f = []" "ikey_options opts"
    and "sorted_entries icmp valid_ikey es" "table_size es + 8 < 2 ^ 32"
  obtains r bls hs hf hm hi off where "build_table (posix_table_env sn a b) opts es f = Some (OK, r)"
    "FileSize r = of_nat (length (posix_written (tb_file r)))" "concat bls = es"
    "opt_filter_policy opts = None \<longrightarrow> length (posix_written (tb_file r)) \<le> 2 * table_size es + 74"
    "length (posix_written (tb_file r)) < 2 ^ 32 \<longrightarrow>
      table_ok valid_ikey sn opts bls hs hf hm hi off (posix_written (tb_file r))"
proof -
  let ?env = "posix_table_env sn a b"
  have env: "te_Append ?env = PosixWritableFile_Append" "te_Flush ?env = PosixWritableFile_Flush" "te_snappy ?env = sn"
    by (simp_all add: posix_table_env_def)
  have R: "0 < opt_block_restart_interval opts" using assms(4) by (simp add: ikey_options_def)
  have "snappy_port (te_snappy ?env)" using assms(1) env(3) by simp
  from posix_writable.new_builder_ok [OF env(1,2) this assms(2,3), of opts]
  obtain bls cur hs where s: "posix_writable.tb_state ?env opts bls cur hs
      (fold (\<lambda>(key, val). TableBuilder_Add ?env key val) es (mkTableBuilder opts f))" "concat bls @ cur = es"
    using posix_writable.add_all_ok [OF _ R, of ?env "[]" "[]" "[]" "mkTableBuilder opts f" es] by auto
  from posix_writable.Finish_ok [OF s(1) R] obtain bls' hs' hf hm hi off r where
    fin: "build_table ?env opts es f = Some (OK, r)" "concat bls' = es" "FileSize r = of_nat (length (posix_written (tb_file r)))"
      "table_file sn opts bls' hs' hf hm hi off (posix_written (tb_file r))"
    unfolding build_table_def env(3) s(2) by blast
  show thesis
  proof (rule that [OF fin(1,3,2)]; intro impI)
    show "length (posix_written (tb_file r)) \<le> 2 * table_size es + 74" if "opt_filter_policy opts = None"
      using table_file_length [OF assms(4) fin(4) that] assms(5) fin(2) by (auto simp: sorted_entries_def)
    show "table_ok valid_ikey sn opts bls' hs' hf hm hi off (posix_written (tb_file r))" if "length (posix_written (tb_file r)) < 2 ^ 32"
      using table_ok_size [OF assms(4) fin(4) that] assms(5,6) fin(2) by simp
  qed
qed

lemma built_readable:
  assumes "table_ok valid_ikey sn opts bls hs hf hm hi off D" "ikey_options opts" "random_access_file Read D"
  shows "readable Read sn opts bls hs hf hm hi off D cache_id"
  using assms ikey_options_methods(1) [OF assms(2)] by (simp add: readable_def)

text \<open>
  C35: What goes into a table comes out of it. For internal keys in order and any block size, restart
  interval, compression and filter policy, building on a POSIX file without faults succeeds and
  \<open>FileSize\<close> is the size of the file; without a filter that is at most 74 bytes more than twice the
  size of the entries (39 bytes of overhead counted for each). When the file is below 4 GB, opening it
  succeeds for every file class that reads its bytes, and the iterator of the table delivers exactly
  the entries that were added: forwards, backwards, and from \<open>Seek\<close> on.
\<close>

theorem table_roundtrip:
  assumes "snappy_port sn" "posix_good f" "posix_written f = []" "ikey_options opts"
    and "sorted_entries icmp valid_ikey es" "table_size es + 8 < 2 ^ 32"
  shows "\<exists>r. build_table (posix_table_env sn a b) opts es f = Some (OK, r) \<and>
    FileSize r = of_nat (length (posix_written (tb_file r))) \<and>
    (opt_filter_policy opts = None \<longrightarrow> length (posix_written (tb_file r)) \<le> 2 * table_size es + 74) \<and>
    (length (posix_written (tb_file r)) < 2 ^ 32 \<longrightarrow>
      (\<forall>Read. random_access_file Read (posix_written (tb_file r)) \<longrightarrow>
        (\<exists>t. Table_Open Read sn c cache_id opts (FileSize r) = Some (OK, Some t) \<and>
           delivers (Table_iterator Read sn d verify t) icmp valid_ikey es (Table_NewIterator t))))"
proof -
  obtain r bls hs hf hm hi off where r: "build_table (posix_table_env sn a b) opts es f = Some (OK, r)"
      "FileSize r = of_nat (length (posix_written (tb_file r)))" "concat bls = es"
    and small: "opt_filter_policy opts = None \<longrightarrow> length (posix_written (tb_file r)) \<le> 2 * table_size es + 74"
    and ok: "length (posix_written (tb_file r)) < 2 ^ 32 \<longrightarrow>
      table_ok valid_ikey sn opts bls hs hf hm hi off (posix_written (tb_file r))"
    using build_table_ok [OF assms, of a b] by blast
  show ?thesis
    using r(1,2) small random_access_file.Open_ok [OF _ mp [OF ok]] readable_iterator [OF built_readable [OF mp [OF ok] assms(4)] refl] r(3)
    by (intro exI [of _ r]) auto
qed

text \<open>A table of two versions of one key and another key, in blocks of at most a few bytes.\<close>

definition ex_table_file :: PosixFile where
  "ex_table_file = \<lparr>pfilename = lit ''000005.ldb'', pfile = \<lparr>fdata = [], fpos = 0, feof = False, fault = None, strerror = []\<rparr>\<rparr>"

definition ex_table_options :: Options where
  "ex_table_options = (mkOptions 1 2)\<lparr>opt_comparator := InternalKeyComparator 3 (BytewiseComparator 1), opt_block_size := 20\<rparr>"

definition ex_table_entries :: "entry list" where
  "ex_table_entries = [(mkInternalKey [1] 5 kTypeValue, [7]), (mkInternalKey [1] 4 kTypeValue, [8]), (mkInternalKey [2] 6 kTypeDeletion, [])]"

lemma icmp_mkInternalKey:
  "icmp (mkInternalKey u s t) (mkInternalKey u' s' t') =
    (if u = u' then (if PackSequenceAndType s t > PackSequenceAndType s' t' then -1
                     else if PackSequenceAndType s t < PackSequenceAndType s' t' then 1 else 0)
     else slice_compare u u')"
  "valid_ikey (mkInternalKey u s t)" "ExtractUserKey (mkInternalKey u s t) = u" "length (mkInternalKey u s t) = length u + 8"
  by (simp_all only: icmp_def mkInternalKey_eq ikey_compare slice_compare_eq_0 valid_ikey_Append ExtractUserKey_Append) simp

lemma ex_table:
  "posix_good ex_table_file" "posix_written ex_table_file = []" "ikey_options ex_table_options" "good_filter ex_table_options"
  "opt_filter_policy ex_table_options = None" "sorted_entries icmp valid_ikey ex_table_entries" "table_size ex_table_entries = 146"
  by (auto simp: posix_good_def posix_written_def ex_table_file_def ikey_options_def good_filter_def ex_table_options_def mkOptions_def
      sorted_entries_def ex_table_entries_def icmp_mkInternalKey PackSequenceAndType_def type_code_def slice_compare_def)

theorem table_roundtrip_witness:
  "\<exists>r t mf. build_table (posix_table_env port_snappy 5 6) ex_table_options ex_table_entries ex_table_file = Some (OK, r) \<and>
    mmapped_region mf = posix_written (tb_file r) \<and>
    Table_Open (PosixMmapReadableFile_Read [] mf) port_snappy 7 1 ex_table_options (FileSize r) = Some (OK, Some t) \<and>
    delivers (Table_iterator (PosixMmapReadableFile_Read [] mf) port_snappy 7 True t) icmp valid_ikey ex_table_entries (Table_NewIterator t)"
proof -
  obtain r where r: "build_table (posix_table_env port_snappy 5 6) ex_table_options ex_table_entries ex_table_file = Some (OK, r)"
      "length (posix_written (tb_file r)) \<le> 366"
    and get: "length (posix_written (tb_file r)) < 2 ^ 32 \<longrightarrow>
      (\<forall>Read. random_access_file Read (posix_written (tb_file r)) \<longrightarrow>
        (\<exists>t. Table_Open Read port_snappy 7 1 ex_table_options (FileSize r) = Some (OK, Some t) \<and>
           delivers (Table_iterator Read port_snappy 7 True t) icmp valid_ikey ex_table_entries (Table_NewIterator t)))"
    using table_roundtrip [OF port.snappy_port_axioms ex_table(1-3,6), of 5 6 7 1 7 True] ex_table(5,7) by auto
  define mf where "mf = \<lparr>mmap_filename = lit ''000005.ldb'', mmapped_region = posix_written (tb_file r)\<rparr>"
  have "random_access_file (PosixMmapReadableFile_Read [] mf) (posix_written (tb_file r))"
    using mmap_file.random_access_file_axioms [of "[]" mf] by (simp add: mf_def)
  moreover have "mmapped_region mf = posix_written (tb_file r)" by (simp add: mf_def)
  ultimately show ?thesis using r get by fastforce
qed

text \<open>
  C36: Point lookups in such a table. \<open>InternalGet\<close> of a target returns without error and hands to its
  saver nothing but the first entry at or behind the target, and it does hand over that entry when it
  is a version of the user key of the target: neither the filter nor the index hides it.
\<close>

theorem table_get:
  assumes "snappy_port sn" "posix_good f" "posix_written f = []" "ikey_options opts" "good_filter opts"
    and "sorted_entries icmp valid_ikey es" "table_size es + 8 < 2 ^ 32" "valid_ikey k"
  shows "\<exists>r. build_table (posix_table_env sn a b) opts es f = Some (OK, r) \<and>
    (length (posix_written (tb_file r)) < 2 ^ 32 \<longrightarrow>
      (\<forall>Read. random_access_file Read (posix_written (tb_file r)) \<longrightarrow>
        (\<exists>t s saved. Table_Open Read sn c cache_id opts (FileSize r) = Some (OK, Some t) \<and>
           InternalGet no_cache Read sn d verify fill t k None = Some (s, saved, None) \<and> status_ok s \<and>
           lookup_result es k saved)))"
proof -
  obtain r bls hs hf hm hi off where r: "build_table (posix_table_env sn a b) opts es f = Some (OK, r)"
      "FileSize r = of_nat (length (posix_written (tb_file r)))" "concat bls = es"
    and "opt_filter_policy opts = None \<longrightarrow> length (posix_written (tb_file r)) \<le> 2 * table_size es + 74"
    and ok: "length (posix_written (tb_file r)) < 2 ^ 32 \<longrightarrow>
      table_ok valid_ikey sn opts bls hs hf hm hi off (posix_written (tb_file r))"
    using build_table_ok [OF assms(1-4,6,7), of a b] by blast
  have "39 * length es \<le> table_size es" by (induction es) simp_all
  then have n: "length (concat bls) < 2 ^ 31" using assms(7) r(3) by simp
  show ?thesis
    using r(1,2) random_access_file.Open_ok [OF _ mp [OF ok]] readable_get [OF assms(4,5) built_readable [OF mp [OF ok] assms(4)] assms(8) n refl] r(3)
    by (intro exI [of _ r]) (simp, blast)
qed

theorem table_get_witness:
  "\<exists>r t mf s. build_table (posix_table_env port_snappy 5 6) ex_table_options ex_table_entries ex_table_file = Some (OK, r) \<and>
    mmapped_region mf = posix_written (tb_file r) \<and>
    Table_Open (PosixMmapReadableFile_Read [] mf) port_snappy 7 1 ex_table_options (FileSize r) = Some (OK, Some t) \<and>
    InternalGet no_cache (PosixMmapReadableFile_Read [] mf) port_snappy 7 True True t (mkInternalKey [1] 4 kTypeValue) None =
      Some (s, Some (mkInternalKey [1] 4 kTypeValue, [8]), None) \<and> status_ok s"
proof -
  let ?k = "mkInternalKey [1] 4 kTypeValue"
  have k: "valid_ikey ?k" by (rule icmp_mkInternalKey)
  obtain r where r: "build_table (posix_table_env port_snappy 5 6) ex_table_options ex_table_entries ex_table_file = Some (OK, r)"
    and get: "length (posix_written (tb_file r)) < 2 ^ 32 \<longrightarrow>
      (\<forall>Read. random_access_file Read (posix_written (tb_file r)) \<longrightarrow>
        (\<exists>t s saved. Table_Open Read port_snappy 7 1 ex_table_options (FileSize r) = Some (OK, Some t) \<and>
           InternalGet no_cache Read port_snappy 7 True True t ?k None = Some (s, saved, None) \<and> status_ok s \<and>
           lookup_result ex_table_entries ?k saved))"
    using table_get [OF port.snappy_port_axioms ex_table(1-4,6) _ k, of 5 6 7 1 7 True True] ex_table(7) by auto
  have "length (posix_written (tb_file r)) \<le> 366"
    using build_table_ok [OF port.snappy_port_axioms ex_table(1-3,6), of 5 6] ex_table(5,7) r by force
  define mf where "mf = \<lparr>mmap_filename = lit ''000005.ldb'', mmapped_region = posix_written (tb_file r)\<rparr>"
  have "random_access_file (PosixMmapReadableFile_Read [] mf) (posix_written (tb_file r))"
    using mmap_file.random_access_file_axioms [of "[]" mf] by (simp add: mf_def)
  moreover have "mmapped_region mf = posix_written (tb_file r)" by (simp add: mf_def)
  moreover have "lookup_result ex_table_entries ?k saved \<Longrightarrow> saved = Some (?k, [8])" for saved
    by (auto simp: lookup_result_def ex_table_entries_def icmp_mkInternalKey PackSequenceAndType_def type_code_def)
  ultimately show ?thesis using r get \<open>length _ \<le> 366\<close> by fastforce
qed

end
