(* ===== verification/LdbMerger.thy ===== *)
theory LdbMerger
  imports LdbTableGet
begin

text \<open>
  \<^verbatim>\<open>table/merger.cc\<close>: the iterator over the entries of several iterators in order. The children are
  objects of one type \<open>'s\<close>; children of different classes are a sum type with the methods of
  \<open>sum_iterator\<close>.

  The locale \<open>merging\<close> states what the children have to satisfy: each keeps the contract \<open>iterator_over\<close>
  for a sorted list, and no key is in two of them (the internal keys of a database differ in their
  sequence numbers). From this the theory derives that the merging iterator keeps the contract for
  the merged list, through every change of direction.
\<close>

subsection \<open>The code\<close>

datatype Direction = kForward | kReverse

text \<open>\<open>current_\<close> is the index of a child, \<open>None\<close> for NULL.\<close>

record 's MergingIterator =
  mi_children :: "'s IteratorWrapper list"
  mi_current :: "nat option"
  mi_direction :: Direction

definition mkMergingIterator :: "'s Iterator \<Rightarrow> 's list \<Rightarrow> 's MergingIterator" where
  "mkMergingIterator vt children =
     \<lparr>mi_children = map (\<lambda>c. Wrapper_Set vt (Some c) mkIteratorWrapper) children, mi_current = None, mi_direction = kForward\<rparr>"

text \<open>A loop over the children that moves each of them.\<close>

fun each_child ::
  "(nat \<Rightarrow> 's IteratorWrapper \<Rightarrow> 's IteratorWrapper option) \<Rightarrow> nat \<Rightarrow> 's IteratorWrapper list \<Rightarrow> 's IteratorWrapper list option" where
  "each_child move i [] = Some []"
| "each_child move i (w # ws) =
     Option.bind (move i w) (\<lambda>w'. Option.bind (each_child move (Suc i) ws) (\<lambda>ws'. Some (w' # ws')))"

definition FindSmallest :: "(bytes \<Rightarrow> bytes \<Rightarrow> int) \<Rightarrow> 's MergingIterator \<Rightarrow> 's MergingIterator" where
  "FindSmallest cmp m =
     m\<lparr>mi_current := fold (\<lambda>i smallest.
        let child = mi_children m ! i
        in if iw_valid child
           then case smallest of
                  None \<Rightarrow> Some i
                | Some s \<Rightarrow> if cmp (iw_key child) (iw_key (mi_children m ! s)) < 0 then Some i else smallest
           else smallest) [0..<length (mi_children m)] None\<rparr>"

definition FindLargest :: "(bytes \<Rightarrow> bytes \<Rightarrow> int) \<Rightarrow> 's MergingIterator \<Rightarrow> 's MergingIterator" where
  "FindLargest cmp m =
     m\<lparr>mi_current := fold (\<lambda>i largest.
        let child = mi_children m ! i
        in if iw_valid child
           then case largest of
                  None \<Rightarrow> Some i
                | Some l \<Rightarrow> if cmp (iw_key child) (iw_key (mi_children m ! l)) > 0 then Some i else largest
           else largest) (rev [0..<length (mi_children m)]) None\<rparr>"

definition Merging_SeekToFirst where
  "Merging_SeekToFirst cmp vt m =
     map_option (\<lambda>ws. (FindSmallest cmp (m\<lparr>mi_children := ws\<rparr>))\<lparr>mi_direction := kForward\<rparr>)
       (each_child (\<lambda>i. Wrapper_SeekToFirst vt) 0 (mi_children m))"

definition Merging_SeekToLast where
  "Merging_SeekToLast cmp vt m =
     map_option (\<lambda>ws. (FindLargest cmp (m\<lparr>mi_children := ws\<rparr>))\<lparr>mi_direction := kReverse\<rparr>)
       (each_child (\<lambda>i. Wrapper_SeekToLast vt) 0 (mi_children m))"

definition Merging_Seek where
  "Merging_Seek cmp vt target m =
     map_option (\<lambda>ws. (FindSmallest cmp (m\<lparr>mi_children := ws\<rparr>))\<lparr>mi_direction := kForward\<rparr>)
       (each_child (\<lambda>i. Wrapper_Seek vt target) 0 (mi_children m))"

text \<open>The repositioning of the children other than the current one, with its key.\<close>

definition position_after where
  "position_after cmp vt current k i w =
     (if i = current then Some w
      else
        Option.bind (Wrapper_Seek vt k w) (\<lambda>w.
          if iw_valid w \<and> cmp k (iw_key w) = 0 then Wrapper_Next vt w else Some w))"

definition position_before where
  "position_before vt current k i w =
     (if i = current then Some w
      else
        Option.bind (Wrapper_Seek vt k w) (\<lambda>w.
          if iw_valid w then Wrapper_Prev vt w else Wrapper_SeekToLast vt w))"

definition Merging_Next where
  "Merging_Next cmp vt m =
     (case mi_current m of
        None \<Rightarrow> None
      | Some c \<Rightarrow>
          Option.bind
            (if mi_direction m \<noteq> kForward
             then each_child (position_after cmp vt c (iw_key (mi_children m ! c))) 0 (mi_children m)
             else Some (mi_children m)) (\<lambda>ws.
          map_option (\<lambda>w. FindSmallest cmp (m\<lparr>mi_children := ws[c := w], mi_direction := kForward\<rparr>)) (Wrapper_Next vt (ws ! c))))"

definition Merging_Prev where
  "Merging_Prev cmp vt m =
     (case mi_current m of
        None \<Rightarrow> None
      | Some c \<Rightarrow>
          Option.bind
            (if mi_direction m \<noteq> kReverse
             then each_child (position_before vt c (iw_key (mi_children m ! c))) 0 (mi_children m)
             else Some (mi_children m)) (\<lambda>ws.
          map_option (\<lambda>w. FindLargest cmp (m\<lparr>mi_children := ws[c := w], mi_direction := kReverse\<rparr>)) (Wrapper_Prev vt (ws ! c))))"

definition Merging_key :: "'s MergingIterator \<Rightarrow> bytes" where
  "Merging_key m = iw_key (mi_children m ! the (mi_current m))"

definition Merging_value :: "'s Iterator \<Rightarrow> 's MergingIterator \<Rightarrow> bytes" where
  "Merging_value vt m = Wrapper_value vt (mi_children m ! the (mi_current m))"

fun first_error :: "'s Iterator \<Rightarrow> 's IteratorWrapper list \<Rightarrow> Status \<Rightarrow> Status" where
  "first_error vt [] status = status"
| "first_error vt (w # ws) status =
     (let status = Wrapper_status vt w in if \<not> status_ok status then status else first_error vt ws status)"

definition Merging_vt :: "(bytes \<Rightarrow> bytes \<Rightarrow> int) \<Rightarrow> 's Iterator \<Rightarrow> 's MergingIterator Iterator" where
  "Merging_vt cmp vt =
     \<lparr>it_Valid = (\<lambda>m. mi_current m \<noteq> None), it_SeekToFirst = Merging_SeekToFirst cmp vt,
      it_SeekToLast = Merging_SeekToLast cmp vt, it_Seek = Merging_Seek cmp vt, it_Next = Merging_Next cmp vt,
      it_Prev = Merging_Prev cmp vt, it_key = Merging_key, it_value = Merging_value vt,
      it_status = (\<lambda>m. first_error vt (mi_children m) OK)\<rparr>"

text \<open>The pointer that \<open>NewMergingIterator\<close> returns, and its methods.\<close>

definition NewMergingIterator :: "'s Iterator \<Rightarrow> 's list \<Rightarrow> Status + 's + 's MergingIterator" where
  "NewMergingIterator vt children =
     (case children of
        [] \<Rightarrow> Inl NewEmptyIterator
      | [c] \<Rightarrow> Inr (Inl c)
      | _ \<Rightarrow> Inr (Inr (mkMergingIterator vt children)))"

definition NewMergingIterator_vt :: "(bytes \<Rightarrow> bytes \<Rightarrow> int) \<Rightarrow> 's Iterator \<Rightarrow> (Status + 's + 's MergingIterator) Iterator" where
  "NewMergingIterator_vt cmp vt = sum_iterator EmptyIterator (sum_iterator vt (Merging_vt cmp vt))"

subsection \<open>Merged lists\<close>

fun merge :: "(bytes \<Rightarrow> bytes \<Rightarrow> int) \<Rightarrow> entry list \<Rightarrow> entry list \<Rightarrow> entry list" where
  "merge cmp [] ys = ys"
| "merge cmp xs [] = xs"
| "merge cmp (x # xs) (y # ys) =
     (if cmp (fst x) (fst y) < 0 then x # merge cmp xs (y # ys) else y # merge cmp (x # xs) ys)"

definition merged :: "(bytes \<Rightarrow> bytes \<Rightarrow> int) \<Rightarrow> entry list list \<Rightarrow> entry list" where
  "merged cmp ess = foldr (merge cmp) ess []"

lemma merge_Nil: "merge cmp xs [] = xs"
  by (cases xs) simp_all

lemma set_merge: "set (merge cmp xs ys) = set xs \<union> set ys"
  by (induction cmp xs ys rule: merge.induct) auto

lemma set_merged: "set (merged cmp ess) = \<Union> (set ` set ess)"
  by (induction ess) (auto simp: merged_def set_merge)

lemma sorted_merge:
  assumes "comparator cmp ok" "sorted_entries cmp ok xs" "sorted_entries cmp ok ys"
    and "\<And>x y. x \<in> set xs \<Longrightarrow> y \<in> set ys \<Longrightarrow> cmp (fst x) (fst y) \<noteq> 0"
  shows "sorted_entries cmp ok (merge cmp xs ys)"
  using assms
proof (induction cmp xs ys rule: merge.induct)
  case (3 cmp x xs y ys)
  have ok: "ok (fst e)" if "e \<in> set (x # xs) \<union> set (y # ys)" for e using "3.prems" that by (auto simp: sorted_entries_def)
  note less = comparator.less_trans [OF "3.prems"(1)] and flip = comparator.flip [OF "3.prems"(1)]
  show ?case
  proof (cases "cmp (fst x) (fst y) < 0")
    case True
    have "sorted_entries cmp ok xs" using "3.prems"(2) by (simp add: sorted_entries_def)
    from "3.IH"(1) [OF True "3.prems"(1) this "3.prems"(3)] have "sorted_entries cmp ok (merge cmp xs (y # ys))"
      using "3.prems"(4) by simp
    moreover have "cmp (fst x) (fst e) < 0" if "e \<in> set xs \<union> set (y # ys)" for e
      using that "3.prems"(2,3) True less [of "fst x" "fst y" "fst e"] ok [of x] ok [of y] ok [of e] by (auto simp: sorted_entries_def)
    ultimately show ?thesis using True ok [of x] by (auto simp: sorted_entries_def set_merge)
  next
    case False
    then have yx: "cmp (fst y) (fst x) < 0" using flip [of "fst y" "fst x"] ok [of x] ok [of y] "3.prems"(4) [of x y] by force
    have "sorted_entries cmp ok ys" using "3.prems"(3) by (simp add: sorted_entries_def)
    from "3.IH"(2) [OF False "3.prems"(1,2) this] have "sorted_entries cmp ok (merge cmp (x # xs) ys)"
      using "3.prems"(4) by simp
    moreover have "cmp (fst y) (fst e) < 0" if "e \<in> set (x # xs) \<union> set ys" for e
      using that "3.prems"(2,3) yx less [of "fst y" "fst x" "fst e"] ok [of x] ok [of y] ok [of e] by (auto simp: sorted_entries_def)
    ultimately show ?thesis using False ok [of y] by (auto simp: sorted_entries_def set_merge)
  qed
qed simp_all

definition disjoint_keys :: "(bytes \<Rightarrow> bytes \<Rightarrow> int) \<Rightarrow> entry list \<Rightarrow> entry list \<Rightarrow> bool" where
  "disjoint_keys cmp xs ys \<longleftrightarrow> (\<forall>x \<in> set xs. \<forall>y \<in> set ys. cmp (fst x) (fst y) \<noteq> 0)"

lemma sorted_merged:
  "comparator cmp ok \<Longrightarrow> \<forall>es \<in> set ess. sorted_entries cmp ok es \<Longrightarrow> sorted_wrt (disjoint_keys cmp) ess \<Longrightarrow>
    sorted_entries cmp ok (merged cmp ess)"
proof (induction ess)
  case (Cons es ess)
  then have "sorted_entries cmp ok (merge cmp es (merged cmp ess))"
    by (intro sorted_merge) (auto simp: set_merged disjoint_keys_def)
  then show ?case by (simp add: merged_def)
qed (simp add: merged_def sorted_entries_def)

lemma sorted_entries_unique:
  assumes "comparator cmp ok"
  shows "sorted_entries cmp ok xs \<Longrightarrow> sorted_entries cmp ok ys \<Longrightarrow> set xs = set ys \<Longrightarrow> xs = ys"
proof (induction xs arbitrary: ys)
  case (Cons x xs)
  obtain y ys' where ys: "ys = y # ys'" using Cons.prems(3) by (cases ys) auto
  have irr: "\<not> (cmp (fst a) (fst b) < 0 \<and> cmp (fst b) (fst a) < 0)" "\<not> cmp (fst a) (fst a) < 0"
    if "a \<in> set ys" "b \<in> set ys" for a b
    using comparator.flip [OF assms, of "fst a" "fst b"] comparator.cmp_self [OF assms, of "fst a"] Cons.prems(2) that
    by (auto simp: sorted_entries_def)
  have xy: "x = y"
  proof (rule ccontr)
    assume "x \<noteq> y"
    then have "x \<in> set ys'" "y \<in> set xs" using Cons.prems(3) by (auto simp: ys)
    then show False using Cons.prems(1,2) irr(1) [of x y] by (auto simp: ys sorted_entries_def)
  qed
  have "x \<notin> set xs" "x \<notin> set ys'"
    using Cons.prems(1,2) irr(2) [of x x] Cons.prems(3) by (auto simp: ys xy sorted_entries_def)
  then have "set xs = set ys'" using Cons.prems(3) by (auto simp: ys xy)
  then show ?case using Cons.IH [of ys'] Cons.prems(1,2) by (simp add: ys xy sorted_entries_def)
qed simp

lemma takeWhile_sorted:
  assumes "comparator cmp ok" "ok t"
  shows "sorted_entries cmp ok es \<Longrightarrow> takeWhile (\<lambda>e. cmp (fst e) t < 0) es = filter (\<lambda>e. cmp (fst e) t < 0) es"
proof (induction es)
  case (Cons e es)
  have "\<not> cmp (fst x) t < 0" if "\<not> cmp (fst e) t < 0" "x \<in> set es" for x
    using comparator.less_trans [OF assms(1), of "fst e" "fst x" t] assms(2) Cons.prems that by (auto simp: sorted_entries_def)
  then show ?case using Cons by (auto simp: sorted_entries_def filter_empty_conv)
qed simp

subsection \<open>Choosing a child\<close>

text \<open>The loop of \<open>FindSmallest\<close> and \<open>FindLargest\<close> for any relation.\<close>

definition pick :: "(nat \<Rightarrow> bool) \<Rightarrow> (nat \<Rightarrow> nat \<Rightarrow> bool) \<Rightarrow> nat \<Rightarrow> nat option \<Rightarrow> nat option" where
  "pick valid better i best =
     (if valid i then case best of None \<Rightarrow> Some i | Some s \<Rightarrow> if better i s then Some i else best else best)"

lemma pick_best:
  assumes "\<not> better b b" "valid b" "\<And>i. valid i \<Longrightarrow> i \<noteq> b \<Longrightarrow> i \<in> set is \<union> set_option init \<Longrightarrow> better b i \<and> \<not> better i b"
    and "b \<in> set is \<or> init = Some b" "\<And>s. init = Some s \<Longrightarrow> valid s"
  shows "fold (pick valid better) is init = Some b"
  using assms(3-)
proof (induction "is" arbitrary: init)
  case (Cons i "is")
  let ?init = "pick valid better i init"
  have "?init \<in> {init, Some i}" "?init = Some i \<longrightarrow> valid i \<or> init = Some i" by (auto simp: pick_def split: option.splits)
  then have sub: "set_option ?init \<subseteq> insert i (set_option init)" "\<And>s. ?init = Some s \<Longrightarrow> valid s"
    using Cons.prems(3) by (auto simp: pick_def split: if_splits option.splits)
  have "b \<in> set is \<or> ?init = Some b"
    using Cons.prems assms(1,2) by (auto simp: pick_def split: option.splits)
  then show ?case using Cons.IH [of ?init] Cons.prems(1) sub by auto
qed auto

lemma pick_none: "(\<And>i. i \<in> set is \<Longrightarrow> \<not> valid i) \<Longrightarrow> fold (pick valid better) is init = init"
  by (induction "is" arbitrary: init) (auto simp: pick_def)

lemma FindSmallest_pick:
  "FindSmallest cmp m = m\<lparr>mi_current := fold (pick (\<lambda>i. iw_valid (mi_children m ! i))
     (\<lambda>i s. cmp (iw_key (mi_children m ! i)) (iw_key (mi_children m ! s)) < 0)) [0..<length (mi_children m)] None\<rparr>"
  unfolding FindSmallest_def pick_def Let_def ..

lemma FindLargest_pick:
  "FindLargest cmp m = m\<lparr>mi_current := fold (pick (\<lambda>i. iw_valid (mi_children m ! i))
     (\<lambda>i s. cmp (iw_key (mi_children m ! i)) (iw_key (mi_children m ! s)) > 0)) (rev [0..<length (mi_children m)]) None\<rparr>"
  unfolding FindLargest_def pick_def Let_def ..

lemma Find_direction:
  "(FindSmallest cmp (m\<lparr>mi_direction := d\<rparr>))\<lparr>mi_direction := d\<rparr> = FindSmallest cmp (m\<lparr>mi_direction := d\<rparr>)"
  "(FindLargest cmp (m\<lparr>mi_direction := d\<rparr>))\<lparr>mi_direction := d\<rparr> = FindLargest cmp (m\<lparr>mi_direction := d\<rparr>)"
  by (simp_all only: FindSmallest_def FindLargest_def) simp_all

lemma each_child_ok:
  assumes "\<And>i. i < length ws \<Longrightarrow> \<exists>w. move (k + i) (ws ! i) = Some w \<and> Q (k + i) w"
  shows "\<exists>ws'. each_child move k ws = Some ws' \<and> length ws' = length ws \<and> (\<forall>i < length ws. Q (k + i) (ws' ! i))"
  using assms
proof (induction ws arbitrary: k)
  case (Cons w ws)
  obtain w' where w': "move k w = Some w'" "Q k w'" using Cons.prems [of 0] by auto
  obtain ws' where ws': "each_child move (Suc k) ws = Some ws'" "length ws' = length ws" "\<forall>i < length ws. Q (Suc k + i) (ws' ! i)"
    using Cons.IH [of "Suc k"] Cons.prems [of "Suc _"] by auto
  have "Q (k + i) ((w' # ws') ! i)" if "i < length (w # ws)" for i using that w' ws' by (cases i) auto
  then show ?case using w' ws' by auto
qed simp

subsection \<open>The contract\<close>

locale merging = comparator cmp ok
  for cmp :: "bytes \<Rightarrow> bytes \<Rightarrow> int" and ok :: "bytes \<Rightarrow> bool" +
  fixes vt :: "'s Iterator" and ess :: "entry list list" and at :: "nat \<Rightarrow> 's \<Rightarrow> nat \<Rightarrow> bool"
  assumes children: "i < length ess \<Longrightarrow> iterator_over vt cmp ok (ess ! i) (at i)"
    and sorted_children: "\<forall>es \<in> set ess. sorted_entries cmp ok es"
    and disjoint: "sorted_wrt (disjoint_keys cmp) ess"
begin

abbreviation M :: "entry list" where
  "M \<equiv> merged cmp ess"

definition mem :: "nat \<Rightarrow> entry \<Rightarrow> bool" where
  "mem i e \<longleftrightarrow> e \<in> set (ess ! i)"

text \<open>How many of the first \<open>k\<close> merged entries child \<open>i\<close> has, and which child has entry \<open>k\<close>.\<close>

definition cnt :: "nat \<Rightarrow> nat \<Rightarrow> nat" where
  "cnt i k = length (filter (mem i) (take k M))"

definition owner :: "nat \<Rightarrow> nat" where
  "owner k = (LEAST i. i < length ess \<and> mem i (M ! k))"

lemma sorted_M: "sorted_entries cmp ok M"
  by (rule sorted_merged [OF comparator_axioms sorted_children disjoint])

lemma ok_M: "e \<in> set M \<Longrightarrow> ok (fst e)"
  using sorted_M by (simp add: sorted_entries_def)

lemma child_list:
  assumes "i < length ess"
  shows "ess ! i = filter (mem i) M"
proof (rule sorted_entries_unique [OF comparator_axioms])
  show "sorted_entries cmp ok (ess ! i)" using sorted_children assms by simp
  show "sorted_entries cmp ok (filter (mem i) M)" using sorted_M by (simp add: sorted_entries_def sorted_wrt_filter)
  show "set (ess ! i) = set (filter (mem i) M)" using assms by (auto simp: mem_def set_merged)
qed

lemma child_split:
  assumes "i < length ess"
  shows "take (cnt i k) (ess ! i) = filter (mem i) (take k M)" "drop (cnt i k) (ess ! i) = filter (mem i) (drop k M)"
    and "cnt i k \<le> length (ess ! i)"
proof -
  have e: "ess ! i = filter (mem i) (take k M) @ filter (mem i) (drop k M)"
    unfolding child_list [OF assms] filter_append [symmetric] by simp
  show "take (cnt i k) (ess ! i) = filter (mem i) (take k M)" "drop (cnt i k) (ess ! i) = filter (mem i) (drop k M)"
    unfolding cnt_def by (subst e, simp)+
  show "cnt i k \<le> length (ess ! i)" using arg_cong [OF e, of length] by (simp add: cnt_def)
qed

lemma mem_unique:
  assumes "i < length ess" "j < length ess" "mem i e" "mem j e"
  shows "i = j"
proof (rule ccontr)
  assume "i \<noteq> j"
  then obtain a b where ab: "a < b" "b < length ess" "mem a e" "mem b e" using assms by (metis linorder_neqE_nat)
  have "ess ! a \<in> set ess" using ab(1,2) by simp
  then have "ok (fst e)" using ab(3) sorted_children by (auto simp: mem_def sorted_entries_def)
  then show False using sorted_wrt_nth_less [OF disjoint ab(1,2)] ab(3,4) cmp_self by (auto simp: disjoint_keys_def mem_def)
qed

lemma owner:
  assumes "k < length M"
  shows "owner k < length ess" "mem (owner k) (M ! k)" "i < length ess \<Longrightarrow> mem i (M ! k) \<longleftrightarrow> i = owner k"
proof -
  have "M ! k \<in> set M" using assms by simp
  then obtain es where "es \<in> set ess" "M ! k \<in> set es" by (auto simp: set_merged)
  then obtain j where "j < length ess \<and> mem j (M ! k)" unfolding mem_def by (metis in_set_conv_nth)
  from LeastI [of "\<lambda>i. i < length ess \<and> mem i (M ! k)", OF this] have o: "owner k < length ess \<and> mem (owner k) (M ! k)"
    by (simp only: owner_def)
  from o show "owner k < length ess" "mem (owner k) (M ! k)" "i < length ess \<Longrightarrow> mem i (M ! k) \<longleftrightarrow> i = owner k"
    using mem_unique [of i "owner k" "M ! k"] by auto
qed

lemma cnt_Suc:
  assumes "k < length M" "i < length ess"
  shows "cnt i (Suc k) = (if i = owner k then cnt i k + 1 else cnt i k)"
  using owner [OF assms(1)] assms by (simp add: cnt_def take_Suc_conv_app_nth)

lemma cnt_0: "cnt i 0 = 0"
  by (simp add: cnt_def)

lemma cnt_end: "i < length ess \<Longrightarrow> cnt i (length M) = length (ess ! i)"
  by (simp add: cnt_def child_list [symmetric])

lemma before_M: "k < length M \<Longrightarrow> e \<in> set (take k M) \<Longrightarrow> cmp (fst e) (fst (M ! k)) < 0"
  using sorted_entries_less [OF sorted_M] by (auto simp: in_set_conv_nth)

lemma after_M: "k < length M \<Longrightarrow> e \<in> set (drop (Suc k) M) \<Longrightarrow> cmp (fst (M ! k)) (fst e) < 0"
  using sorted_entries_less [OF sorted_M] by (fastforce simp: in_set_conv_nth)

lemma next_of_child:
  assumes "k < length M" "i < length ess" "cnt i k < length (ess ! i)"
  shows "i = owner k \<Longrightarrow> ess ! i ! cnt i k = M ! k" "i \<noteq> owner k \<Longrightarrow> ess ! i ! cnt i k \<in> set (drop (Suc k) M)"
proof -
  have h: "ess ! i ! cnt i k = hd (filter (mem i) (M ! k # drop (Suc k) M))"
    using child_split(2) [OF assms(2), of k] assms by (metis Cons_nth_drop_Suc hd_drop_conv_nth)
  have ne: "filter (mem i) (M ! k # drop (Suc k) M) \<noteq> []"
    using child_split(2) [OF assms(2), of k] assms by (metis Cons_nth_drop_Suc drop_eq_Nil leD)
  show "i = owner k \<Longrightarrow> ess ! i ! cnt i k = M ! k" using h owner(2) [OF assms(1)] by simp
  assume "i \<noteq> owner k"
  then have "\<not> mem i (M ! k)" using owner(3) [OF assms(1,2)] by simp
  then have "ess ! i ! cnt i k \<in> set (filter (mem i) (drop (Suc k) M))" using h ne by (metis filter.simps(2) hd_in_set)
  then show "ess ! i ! cnt i k \<in> set (drop (Suc k) M)" by (simp del: set_drop_subset)
qed

lemma last_of_child:
  assumes "k < length M" "i < length ess" "0 < cnt i (Suc k)"
  shows "i = owner k \<Longrightarrow> ess ! i ! (cnt i (Suc k) - 1) = M ! k" "i \<noteq> owner k \<Longrightarrow> ess ! i ! (cnt i (Suc k) - 1) \<in> set (take k M)"
proof -
  have c: "cnt i (Suc k) \<le> length (ess ! i)" by (rule child_split(3) [OF assms(2)])
  have "ess ! i ! (cnt i (Suc k) - 1) = last (take (cnt i (Suc k)) (ess ! i))" using assms(3) c by (subst last_conv_nth) auto
  then have l: "ess ! i ! (cnt i (Suc k) - 1) = last (filter (mem i) (take k M) @ filter (mem i) [M ! k])"
    unfolding child_split(1) [OF assms(2)] using assms(1) by (simp add: take_Suc_conv_app_nth)
  show "i = owner k \<Longrightarrow> ess ! i ! (cnt i (Suc k) - 1) = M ! k" using l owner(2) [OF assms(1)] by simp
  assume i: "i \<noteq> owner k"
  then have n: "\<not> mem i (M ! k)" using owner(3) [OF assms(1,2)] by simp
  have "filter (mem i) (take k M) \<noteq> []" using assms cnt_Suc [OF assms(1,2)] i by (auto simp: cnt_def)
  then have "ess ! i ! (cnt i (Suc k) - 1) \<in> set (filter (mem i) (take k M))" using l n by (metis append_Nil2 filter.simps last_in_set)
  then show "ess ! i ! (cnt i (Suc k) - 1) \<in> set (take k M)" by simp
qed

lemma first_ge_child:
  assumes "i < length ess" "ok t"
  shows "first_ge cmp t (ess ! i) = cnt i (first_ge cmp t M)"
proof -
  let ?P = "\<lambda>e. cmp (fst e) t < 0"
  have "sorted_entries cmp ok (ess ! i)" using sorted_children assms(1) by simp
  from takeWhile_sorted [OF comparator_axioms assms(2) this] have "takeWhile ?P (ess ! i) = filter ?P (filter (mem i) M)"
    by (subst child_list [OF assms(1), symmetric])
  also have "\<dots> = filter (mem i) (filter ?P M)" by (simp add: conj_commute)
  also have "filter ?P M = take (first_ge cmp t M) M"
    unfolding takeWhile_sorted [OF comparator_axioms assms(2) sorted_M, symmetric] first_ge_def by (rule takeWhile_eq_take)
  finally show ?thesis by (simp add: first_ge_def cnt_def)
qed

lemma first_ge_nth: "k < length M \<Longrightarrow> first_ge cmp (fst (M ! k)) M = k"
  using cmp_self [of "fst (M ! k)"] ok_M [of "M ! k"] by (intro first_ge_eqI) (auto simp: sorted_entries_less [OF sorted_M])

text \<open>The children of an iterator that moves forwards or backwards.\<close>

definition wat :: "nat \<Rightarrow> 's IteratorWrapper \<Rightarrow> nat \<Rightarrow> bool" where
  "wat i w p \<longleftrightarrow> iterator_over.at_wrapped vt (at i) w p"

definition fwd :: "'s IteratorWrapper list \<Rightarrow> nat \<Rightarrow> bool" where
  "fwd ws k \<longleftrightarrow> length ws = length ess \<and> (\<forall>i < length ess. wat i (ws ! i) (cnt i k))"

definition rpos :: "nat \<Rightarrow> nat \<Rightarrow> nat" where
  "rpos i k = (if cnt i k = 0 then length (ess ! i) else cnt i k - 1)"

definition bwd :: "'s IteratorWrapper list \<Rightarrow> nat \<Rightarrow> bool" where
  "bwd ws k \<longleftrightarrow> length ws = length ess \<and> (\<forall>i < length ess. wat i (ws ! i) (rpos i k))"

definition merge_at :: "'s MergingIterator \<Rightarrow> nat \<Rightarrow> bool" where
  "merge_at m k \<longleftrightarrow> k \<le> length M \<and> length (mi_children m) = length ess \<and>
     (if k < length M
      then mi_current m = Some (owner k) \<and>
        (case mi_direction m of kForward \<Rightarrow> fwd (mi_children m) k | kReverse \<Rightarrow> bwd (mi_children m) (Suc k))
      else mi_current m = None \<and> (\<forall>i < length ess. \<exists>p. wat i (mi_children m ! i) p))"

lemma wat_facts:
  assumes "i < length ess" "wat i w p"
  shows "p \<le> length (ess ! i)" "iw_valid w \<longleftrightarrow> p < length (ess ! i)" "status_ok (Wrapper_status vt w)"
    and "p < length (ess ! i) \<Longrightarrow> iw_key w = fst (ess ! i ! p)" "p < length (ess ! i) \<Longrightarrow> Wrapper_value vt w = snd (ess ! i ! p)"
  using iterator_over.at_wrapped_facts [OF children [OF assms(1)] assms(2) [unfolded wat_def]] by (metis fst_conv snd_conv)+

lemma wat_moves:
  assumes "i < length ess" "wat i w p"
  shows "\<exists>w'. Wrapper_SeekToFirst vt w = Some w' \<and> wat i w' 0"
    and "\<exists>w'. Wrapper_SeekToLast vt w = Some w' \<and> wat i w' (length (ess ! i) - 1)"
    and "ok t \<Longrightarrow> \<exists>w'. Wrapper_Seek vt t w = Some w' \<and> wat i w' (first_ge cmp t (ess ! i))"
    and "p < length (ess ! i) \<Longrightarrow> \<exists>w'. Wrapper_Next vt w = Some w' \<and> wat i w' (p + 1)"
    and "p < length (ess ! i) \<Longrightarrow> \<exists>w'. Wrapper_Prev vt w = Some w' \<and> wat i w' (if p = 0 then length (ess ! i) else p - 1)"
  using iterator_over.wrapped_moves [OF children [OF assms(1)] assms(2) [unfolded wat_def]] unfolding wat_def by blast+

lemma FindSmallest_fwd:
  assumes "fwd (mi_children m) k" "k \<le> length M"
  shows "merge_at ((FindSmallest cmp m)\<lparr>mi_direction := kForward\<rparr>) k"
proof (cases "k < length M")
  case True
  let ?w = "\<lambda>i. mi_children m ! i" and ?o = "owner k"
  have len: "length (mi_children m) = length ess" and at: "\<And>i. i < length ess \<Longrightarrow> wat i (?w i) (cnt i k)" using assms(1) by (simp_all add: fwd_def)
  have o: "?o < length ess" by (rule owner(1) [OF True])
  have co: "cnt ?o k < length (ess ! ?o)" using child_split(3) [OF o, of "Suc k"] cnt_Suc [OF True o] by simp
  have valid: "iw_valid (?w i) \<longleftrightarrow> cnt i k < length (ess ! i)" if "i < length ess" for i using wat_facts(2) [OF that at [OF that]] .
  have key: "iw_key (?w i) = fst (ess ! i ! cnt i k)" if "i < length ess" "iw_valid (?w i)" for i
    using wat_facts(4) [OF that(1) at [OF that(1)]] valid that by simp
  have ko: "iw_key (?w ?o) = fst (M ! k)" using key [OF o] valid [OF o] co next_of_child(1) [OF True o co] by simp
  have okk: "ok (fst (M ! k))" using True by (intro ok_M) simp
  have less: "cmp (iw_key (?w ?o)) (iw_key (?w i)) < 0 \<and> \<not> cmp (iw_key (?w i)) (iw_key (?w ?o)) < 0"
    if i: "i < length ess" "iw_valid (?w i)" "i \<noteq> ?o" for i
  proof -
    have "ess ! i ! cnt i k \<in> set (drop (Suc k) M)" using next_of_child(2) [OF True i(1)] valid i by simp
    then have "cmp (fst (M ! k)) (iw_key (?w i)) < 0" "ok (iw_key (?w i))"
      using after_M [OF True] ok_M [OF in_set_dropD] key [OF i(1,2)] by simp_all
    then show ?thesis using flip [OF okk] ko by force
  qed
  have "fold (pick (\<lambda>i. iw_valid (?w i)) (\<lambda>i s. cmp (iw_key (?w i)) (iw_key (?w s)) < 0)) [0..<length (mi_children m)] None = Some ?o"
    using o valid [OF o] co less len cmp_self [OF okk] ko by (intro pick_best) auto
  then show ?thesis using True assms(1) len by (simp add: merge_at_def FindSmallest_pick)
next
  case False
  then have k: "k = length M" using assms(2) by simp
  have "\<not> iw_valid (mi_children m ! i)" if "i < length ess" for i
    using assms(1) wat_facts(2) [OF that] that by (auto simp: fwd_def k cnt_end)
  then have "fold (pick (\<lambda>i. iw_valid (mi_children m ! i)) b) [0..<length (mi_children m)] None = None" for b
    using assms(1) by (intro pick_none) (auto simp: fwd_def)
  then show ?thesis using k assms(1) by (auto simp: merge_at_def FindSmallest_pick fwd_def)
qed

lemma FindLargest_bwd:
  assumes "bwd (mi_children m) k" "k \<le> length M"
  shows "merge_at ((FindLargest cmp m)\<lparr>mi_direction := kReverse\<rparr>) (if k = 0 then length M else k - 1)"
proof (cases k)
  case 0
  have "\<not> iw_valid (mi_children m ! i)" if "i < length ess" for i
    using assms(1) wat_facts(2) [OF that] that by (auto simp: bwd_def rpos_def 0 cnt_0)
  then have "fold (pick (\<lambda>i. iw_valid (mi_children m ! i)) b) (rev [0..<length (mi_children m)]) None = None" for b
    using assms(1) by (intro pick_none) (auto simp: bwd_def)
  then show ?thesis using 0 assms(1) by (auto simp: merge_at_def FindLargest_pick bwd_def)
next
  case (Suc j)
  have j: "j < length M" using assms(2) Suc by simp
  let ?w = "\<lambda>i. mi_children m ! i" and ?o = "owner j" and ?c = "\<lambda>i. cnt i (Suc j)"
  have len: "length (mi_children m) = length ess" and at: "\<And>i. i < length ess \<Longrightarrow> wat i (?w i) (rpos i (Suc j))"
    using assms(1) Suc by (simp_all add: bwd_def)
  have o: "?o < length ess" by (rule owner(1) [OF j])
  have co: "0 < ?c ?o" using cnt_Suc [OF j o] by simp
  have valid: "iw_valid (?w i) \<longleftrightarrow> 0 < ?c i" if "i < length ess" for i
    using wat_facts(2) [OF that at [OF that]] child_split(3) [OF that, of "Suc j"] by (auto simp: rpos_def)
  have key: "iw_key (?w i) = fst (ess ! i ! (?c i - 1))" if "i < length ess" "iw_valid (?w i)" for i
    using wat_facts(2,4) [OF that(1) at [OF that(1)]] valid that by (simp add: rpos_def)
  have ko: "iw_key (?w ?o) = fst (M ! j)" using key [OF o] valid [OF o] co last_of_child(1) [OF j o co] by simp
  have okk: "ok (fst (M ! j))" using j by (intro ok_M) simp
  have less: "cmp (iw_key (?w ?o)) (iw_key (?w i)) > 0 \<and> \<not> cmp (iw_key (?w i)) (iw_key (?w ?o)) > 0"
    if i: "i < length ess" "iw_valid (?w i)" "i \<noteq> ?o" for i
  proof -
    have "ess ! i ! (?c i - 1) \<in> set (take j M)" using last_of_child(2) [OF j i(1)] valid i by simp
    then have "cmp (iw_key (?w i)) (fst (M ! j)) < 0" "ok (iw_key (?w i))"
      using before_M [OF j] ok_M [OF in_set_takeD] key [OF i(1,2)] by simp_all
    then show ?thesis using flip [OF _ okk] ko by force
  qed
  have "fold (pick (\<lambda>i. iw_valid (?w i)) (\<lambda>i s. cmp (iw_key (?w i)) (iw_key (?w s)) > 0)) (rev [0..<length (mi_children m)]) None = Some ?o"
    using o valid [OF o] co less len cmp_self [OF okk] ko by (intro pick_best) auto
  then show ?thesis using j Suc assms(1) len by (simp add: merge_at_def FindLargest_pick)
qed

lemma children_at:
  assumes "merge_at m k"
  shows "length (mi_children m) = length ess" "i < length ess \<Longrightarrow> \<exists>p. wat i (mi_children m ! i) p"
  using assms by (auto simp: merge_at_def fwd_def bwd_def split: if_splits Direction.splits)

lemma each_child_fwd:
  assumes "merge_at m k" "\<And>i w p. i < length ess \<Longrightarrow> wat i w p \<Longrightarrow> \<exists>w'. move i w = Some w' \<and> wat i w' (q i)"
  shows "\<exists>ws. each_child move 0 (mi_children m) = Some ws \<and> length ws = length ess \<and> (\<forall>i < length ess. wat i (ws ! i) (q i))"
  using each_child_ok [of "mi_children m" move 0 "\<lambda>i w. wat i w (q i)"] children_at [OF assms(1)] assms(2) by (metis add_0)

lemma Merging_seeks:
  assumes "merge_at m k"
  shows "\<exists>m'. Merging_SeekToFirst cmp vt m = Some m' \<and> merge_at m' 0"
    and "\<exists>m'. Merging_SeekToLast cmp vt m = Some m' \<and> merge_at m' (length M - 1)"
    and "ok t \<Longrightarrow> \<exists>m'. Merging_Seek cmp vt t m = Some m' \<and> merge_at m' (first_ge cmp t M)"
proof -
  obtain ws where ws: "each_child (\<lambda>i. Wrapper_SeekToFirst vt) 0 (mi_children m) = Some ws" "length ws = length ess"
      "\<forall>i < length ess. wat i (ws ! i) 0"
    using each_child_fwd [OF assms, of "\<lambda>i. Wrapper_SeekToFirst vt" "\<lambda>i. 0"] wat_moves(1) by blast
  then have "fwd (mi_children (m\<lparr>mi_children := ws\<rparr>)) 0" by (simp add: fwd_def cnt_0)
  from FindSmallest_fwd [OF this] show "\<exists>m'. Merging_SeekToFirst cmp vt m = Some m' \<and> merge_at m' 0"
    using ws(1) by (simp add: Merging_SeekToFirst_def)
  obtain ws where ws: "each_child (\<lambda>i. Wrapper_SeekToLast vt) 0 (mi_children m) = Some ws" "length ws = length ess"
      "\<forall>i < length ess. wat i (ws ! i) (length (ess ! i) - 1)"
    using each_child_fwd [OF assms, of "\<lambda>i. Wrapper_SeekToLast vt" "\<lambda>i. length (ess ! i) - 1"] wat_moves(2) by blast
  then have "bwd (mi_children (m\<lparr>mi_children := ws\<rparr>)) (length M)" by (auto simp: bwd_def rpos_def cnt_end)
  from FindLargest_bwd [OF this] show "\<exists>m'. Merging_SeekToLast cmp vt m = Some m' \<and> merge_at m' (length M - 1)"
    using ws(1) by (simp add: Merging_SeekToLast_def split: if_splits)
  assume t: "ok t"
  obtain ws where ws: "each_child (\<lambda>i. Wrapper_Seek vt t) 0 (mi_children m) = Some ws" "length ws = length ess"
      "\<forall>i < length ess. wat i (ws ! i) (first_ge cmp t (ess ! i))"
    using each_child_fwd [OF assms, of "\<lambda>i. Wrapper_Seek vt t" "\<lambda>i. first_ge cmp t (ess ! i)"] wat_moves(3) t by blast
  then have "fwd (mi_children (m\<lparr>mi_children := ws\<rparr>)) (first_ge cmp t M)" by (simp add: fwd_def first_ge_child t)
  from FindSmallest_fwd [OF this first_ge_le] show "\<exists>m'. Merging_Seek cmp vt t m = Some m' \<and> merge_at m' (first_ge cmp t M)"
    using ws(1) by (simp add: Merging_Seek_def)
qed

text \<open>The current child, and the change of direction.\<close>

lemma current_at:
  assumes "merge_at m k" "k < length M"
  shows "mi_current m = Some (owner k)" "wat (owner k) (mi_children m ! owner k) (cnt (owner k) k)"
    and "iw_key (mi_children m ! owner k) = fst (M ! k)" "Wrapper_value vt (mi_children m ! owner k) = snd (M ! k)"
    and "cnt (owner k) k < length (ess ! owner k)"
proof -
  note o = owner(1) [OF assms(2)] and s = cnt_Suc [OF assms(2) owner(1) [OF assms(2)]]
  show "mi_current m = Some (owner k)" using assms by (simp add: merge_at_def)
  show c: "cnt (owner k) k < length (ess ! owner k)" using child_split(3) [OF o, of "Suc k"] s by simp
  show w: "wat (owner k) (mi_children m ! owner k) (cnt (owner k) k)"
    using assms o s by (cases "mi_direction m") (auto simp: merge_at_def fwd_def bwd_def rpos_def)
  show "iw_key (mi_children m ! owner k) = fst (M ! k)" "Wrapper_value vt (mi_children m ! owner k) = snd (M ! k)"
    using wat_facts(4,5) [OF o w c] next_of_child(1) [OF assms(2) o c] by simp_all
qed

lemma position_after_ok:
  assumes "k < length M" "i < length ess" "wat i w p" "i = owner k \<longrightarrow> p = cnt i k"
  shows "\<exists>w'. position_after cmp vt (owner k) (fst (M ! k)) i w = Some w' \<and> wat i w' (cnt i k)"
proof (cases "i = owner k")
  case False
  have okk: "ok (fst (M ! k))" using assms(1) by (intro ok_M) simp
  obtain w' where w': "Wrapper_Seek vt (fst (M ! k)) w = Some w'" "wat i w' (cnt i k)"
    using wat_moves(3) [OF assms(2,3) okk] first_ge_child [OF assms(2) okk] first_ge_nth [OF assms(1)] by auto
  have "cmp (fst (M ! k)) (iw_key w') \<noteq> 0" if "iw_valid w'"
  proof -
    have c: "cnt i k < length (ess ! i)" using wat_facts(2) [OF assms(2) w'(2)] that by simp
    then show ?thesis using after_M [OF assms(1) next_of_child(2) [OF assms(1,2) c False]] wat_facts(4) [OF assms(2) w'(2) c] by simp
  qed
  then show ?thesis using w' False by (auto simp: position_after_def)
qed (use assms in \<open>auto simp: position_after_def\<close>)

lemma position_before_ok:
  assumes "k < length M" "i < length ess" "wat i w p" "i = owner k \<longrightarrow> p = cnt i k"
  shows "\<exists>w'. position_before vt (owner k) (fst (M ! k)) i w = Some w' \<and> wat i w' (rpos i (Suc k))"
proof (cases "i = owner k")
  case True
  then show ?thesis using assms cnt_Suc [OF assms(1,2)] by (auto simp: position_before_def rpos_def)
next
  case False
  have okk: "ok (fst (M ! k))" using assms(1) by (intro ok_M) simp
  have c: "cnt i (Suc k) = cnt i k" using cnt_Suc [OF assms(1,2)] False by simp
  obtain w' where w': "Wrapper_Seek vt (fst (M ! k)) w = Some w'" "wat i w' (cnt i k)"
    using wat_moves(3) [OF assms(2,3) okk] first_ge_child [OF assms(2) okk] first_ge_nth [OF assms(1)] by auto
  show ?thesis
  proof (cases "iw_valid w'")
    case True
    then have "cnt i k < length (ess ! i)" using wat_facts(2) [OF assms(2) w'(2)] by simp
    from wat_moves(5) [OF assms(2) w'(2) this] show ?thesis using w'(1) False True c by (auto simp: position_before_def rpos_def split: if_splits)
  next
    case inv: False
    then have "cnt i k = length (ess ! i)" using wat_facts(1,2) [OF assms(2) w'(2)] by simp
    then have "rpos i (Suc k) = length (ess ! i) - 1" using c by (simp add: rpos_def)
    then show ?thesis using wat_moves(2) [OF assms(2) w'(2)] w'(1) False inv by (simp add: position_before_def)
  qed
qed

lemma child_at:
  assumes "merge_at m k" "k < length M" "i < length ess"
  shows "\<exists>p. wat i (mi_children m ! i) p \<and> (i = owner k \<longrightarrow> p = cnt i k)"
  using children_at(2) [OF assms(1,3)] current_at(2) [OF assms(1,2)] by (cases "i = owner k") auto

lemma Merging_Next_ok:
  assumes "merge_at m k" "k < length M"
  shows "\<exists>m'. Merging_Next cmp vt m = Some m' \<and> merge_at m' (k + 1)"
proof -
  let ?o = "owner k" and ?ws0 = "mi_children m"
  note cur = current_at [OF assms] and o = owner(1) [OF assms(2)] and len = children_at(1) [OF assms(1)]
  have "\<exists>ws. (if mi_direction m \<noteq> kForward then each_child (position_after cmp vt ?o (iw_key (?ws0 ! ?o))) 0 ?ws0 else Some ?ws0) = Some ws \<and>
      fwd ws k"
  proof (cases "mi_direction m")
    case kForward
    then show ?thesis using assms by (auto simp: merge_at_def)
  next
    case kReverse
    have "\<exists>w'. position_after cmp vt ?o (fst (M ! k)) (0 + i) (?ws0 ! i) = Some w' \<and> wat (0 + i) w' (cnt (0 + i) k)" if "i < length ?ws0" for i
    proof -
      obtain p where "wat i (?ws0 ! i) p" "i = ?o \<longrightarrow> p = cnt i k" using child_at [OF assms] len \<open>i < length ?ws0\<close> by auto
      then show ?thesis using position_after_ok [OF assms(2)] len that by simp
    qed
    then have "\<exists>ws. each_child (position_after cmp vt ?o (fst (M ! k))) 0 ?ws0 = Some ws \<and> length ws = length ?ws0 \<and> (\<forall>i < length ?ws0. wat (0 + i) (ws ! i) (cnt (0 + i) k))"
      by (rule each_child_ok)
    then show ?thesis using kReverse cur(3) len by (auto simp: fwd_def)
  qed
  then obtain ws where ws: "(if mi_direction m \<noteq> kForward then each_child (position_after cmp vt ?o (iw_key (?ws0 ! ?o))) 0 ?ws0 else Some ?ws0) = Some ws"
    "fwd ws k" by blast
  have w: "wat ?o (ws ! ?o) (cnt ?o k)" using ws(2) o by (simp add: fwd_def)
  obtain w' where w': "Wrapper_Next vt (ws ! ?o) = Some w'" "wat ?o w' (cnt ?o k + 1)" using wat_moves(4) [OF o w cur(5)] by blast
  have "fwd (mi_children (m\<lparr>mi_children := ws[?o := w'], mi_direction := kForward\<rparr>)) (k + 1)"
    using ws(2) w'(2) o cnt_Suc [OF assms(2)] by (auto simp: fwd_def nth_list_update)
  from FindSmallest_fwd [OF this] have "merge_at (FindSmallest cmp (m\<lparr>mi_children := ws[?o := w'], mi_direction := kForward\<rparr>)) (k + 1)"
    using assms(2) by (simp add: Find_direction)
  then show ?thesis using ws(1) w'(1) cur(1) by (simp add: Merging_Next_def)
qed

lemma Merging_Prev_ok:
  assumes "merge_at m k" "k < length M"
  shows "\<exists>m'. Merging_Prev cmp vt m = Some m' \<and> merge_at m' (if k = 0 then length M else k - 1)"
proof -
  let ?o = "owner k" and ?ws0 = "mi_children m"
  note cur = current_at [OF assms] and o = owner(1) [OF assms(2)] and len = children_at(1) [OF assms(1)]
  have "\<exists>ws. (if mi_direction m \<noteq> kReverse then each_child (position_before vt ?o (iw_key (?ws0 ! ?o))) 0 ?ws0 else Some ?ws0) = Some ws \<and>
      bwd ws (Suc k)"
  proof (cases "mi_direction m")
    case kReverse
    then show ?thesis using assms by (auto simp: merge_at_def)
  next
    case kForward
    have "\<exists>w'. position_before vt ?o (fst (M ! k)) (0 + i) (?ws0 ! i) = Some w' \<and> wat (0 + i) w' (rpos (0 + i) (Suc k))" if "i < length ?ws0" for i
    proof -
      obtain p where "wat i (?ws0 ! i) p" "i = ?o \<longrightarrow> p = cnt i k" using child_at [OF assms] len \<open>i < length ?ws0\<close> by auto
      then show ?thesis using position_before_ok [OF assms(2)] len that by simp
    qed
    then have "\<exists>ws. each_child (position_before vt ?o (fst (M ! k))) 0 ?ws0 = Some ws \<and> length ws = length ?ws0 \<and> (\<forall>i < length ?ws0. wat (0 + i) (ws ! i) (rpos (0 + i) (Suc k)))"
      by (rule each_child_ok)
    then show ?thesis using kForward cur(3) len by (auto simp: bwd_def)
  qed
  then obtain ws where ws: "(if mi_direction m \<noteq> kReverse then each_child (position_before vt ?o (iw_key (?ws0 ! ?o))) 0 ?ws0 else Some ?ws0) = Some ws"
    "bwd ws (Suc k)" by blast
  have w: "wat ?o (ws ! ?o) (cnt ?o k)" using ws(2) o cnt_Suc [OF assms(2) o] by (auto simp: bwd_def rpos_def)
  obtain w' where w': "Wrapper_Prev vt (ws ! ?o) = Some w'" "wat ?o w' (rpos ?o k)"
    using wat_moves(5) [OF o w cur(5)] by (auto simp: rpos_def)
  have "bwd (mi_children (m\<lparr>mi_children := ws[?o := w'], mi_direction := kReverse\<rparr>)) k"
    using ws(2) w'(2) o cnt_Suc [OF assms(2)] by (auto simp: bwd_def nth_list_update rpos_def)
  from FindLargest_bwd [OF this] have "merge_at (FindLargest cmp (m\<lparr>mi_children := ws[?o := w'], mi_direction := kReverse\<rparr>)) (if k = 0 then length M else k - 1)"
    using assms(2) by (simp add: Find_direction split: if_splits)
  then show ?thesis using ws(1) w'(1) cur(1) by (simp add: Merging_Prev_def)
qed

lemma first_error_ok: "(\<And>w. w \<in> set ws \<Longrightarrow> status_ok (Wrapper_status vt w)) \<Longrightarrow> status_ok s \<Longrightarrow> status_ok (first_error vt ws s)"
  by (induction ws arbitrary: s) (simp_all add: Let_def)

end

sublocale merging \<subseteq> whole: iterator_over "Merging_vt cmp vt" cmp ok "merged cmp ess" merge_at
proof
  fix m k assume at: "merge_at m k"
  show "k \<le> length M" using at by (simp add: merge_at_def)
  show "it_Valid (Merging_vt cmp vt) m \<longleftrightarrow> k < length M" using at by (auto simp: Merging_vt_def merge_at_def split: if_splits)
  have "status_ok (Wrapper_status vt w)" if "w \<in> set (mi_children m)" for w
    using that children_at [OF at] wat_facts(3) by (metis in_set_conv_nth)
  then show "status_ok (it_status (Merging_vt cmp vt) m)" by (simp add: Merging_vt_def first_error_ok)
  show "\<exists>m'. it_SeekToFirst (Merging_vt cmp vt) m = Some m' \<and> merge_at m' 0"
    "\<exists>m'. it_SeekToLast (Merging_vt cmp vt) m = Some m' \<and> merge_at m' (length M - 1)"
    "\<And>t. ok t \<Longrightarrow> \<exists>m'. it_Seek (Merging_vt cmp vt) t m = Some m' \<and> merge_at m' (first_ge cmp t M)"
    using Merging_seeks [OF at] by (simp_all add: Merging_vt_def)
  assume k: "k < length M"
  then show "(it_key (Merging_vt cmp vt) m, it_value (Merging_vt cmp vt) m) = M ! k"
    using current_at(1,3,4) [OF at] by (simp add: Merging_vt_def Merging_key_def Merging_value_def)
  show "\<exists>m'. it_Next (Merging_vt cmp vt) m = Some m' \<and> merge_at m' (k + 1)"
    "\<exists>m'. it_Prev (Merging_vt cmp vt) m = Some m' \<and> merge_at m' (if k = 0 then length M else k - 1)"
    using Merging_Next_ok [OF at k] Merging_Prev_ok [OF at k] by (simp_all add: Merging_vt_def)
qed

context merging
begin

text \<open>A new merging iterator is behind the last entry.\<close>

lemma merging_new_at:
  assumes "length cs = length ess" "\<And>i. i < length ess \<Longrightarrow> \<exists>p. at i (cs ! i) p"
  shows "merge_at (mkMergingIterator vt cs) (length M)"
proof -
  have "wat i (Wrapper_Set vt (Some (cs ! i)) mkIteratorWrapper) p" if "i < length ess" "at i (cs ! i) p" for i p
    using that wraps_Set [of vt "cs ! i" mkIteratorWrapper] iterator_over.at_wrapped_def [OF children [OF that(1)]] by (auto simp: wat_def)
  then show ?thesis using assms by (fastforce simp: merge_at_def mkMergingIterator_def)
qed

end

text \<open>
  The contract on the library's own iterators: the children are any new iterators over internal keys,
  each with its methods and the entries it is over.
\<close>

text \<open>Clients may restrict the keys further, for instance in their length.\<close>

definition ikeys :: "(bytes \<Rightarrow> bool) \<Rightarrow> bytes \<Rightarrow> bool" where
  "ikeys ok k \<longleftrightarrow> valid_ikey k \<and> ok k"

lemma ikeys_True: "ikeys (\<lambda>_. True) = valid_ikey"
  by (auto simp: ikeys_def fun_eq_iff)

lemma comparator_ikeys: "comparator icmp (ikeys ok)"
proof
  show "icmp a b < 0 \<longleftrightarrow> 0 < icmp b a" if "ikeys ok a" "ikeys ok b" for a b
    using ikey_order.flip [of a b] that by (simp add: ikeys_def)
  show "icmp a c \<le> 0" if "ikeys ok a" "ikeys ok b" "ikeys ok c" "icmp a b \<le> 0" "icmp b c \<le> 0" for a b c
    using ikey_order.trans_le [of a b c] that by (simp add: ikeys_def)
qed

type_synonym 's child = "'s Iterator \<times> 's \<times> entry list"

definition child_entries :: "'s child \<Rightarrow> entry list" where
  "child_entries c = snd (snd c)"

definition child_object :: "'s child \<Rightarrow> 's Iterator \<times> 's" where
  "child_object c = (fst c, fst (snd c))"

definition good_children :: "(bytes \<Rightarrow> bool) \<Rightarrow> 's child list \<Rightarrow> bool" where
  "good_children ok cs \<longleftrightarrow>
     (\<forall>(v, s, es) \<in> set cs. iterates v icmp (ikeys ok) es s \<and> sorted_entries icmp (ikeys ok) es) \<and>
     sorted_wrt (disjoint_keys icmp) (map child_entries cs)"

definition at_of_child :: "(bytes \<Rightarrow> bool) \<Rightarrow> 's child \<Rightarrow> 's \<Rightarrow> nat \<Rightarrow> bool" where
  "at_of_child ok c = (SOME at. iterator_over (fst c) icmp (ikeys ok) (child_entries c) at \<and> at (fst (snd c)) (length (child_entries c)))"

lemma at_of_child_laws:
  assumes "good_children ok cs" "i < length cs"
  shows "iterator_over (fst (cs ! i)) icmp (ikeys ok) (child_entries (cs ! i)) (at_of_child ok (cs ! i))"
    and "at_of_child ok (cs ! i) (fst (snd (cs ! i))) (length (child_entries (cs ! i)))"
proof -
  obtain v s es where c: "cs ! i = (v, s, es)" by (cases "cs ! i")
  have "cs ! i \<in> set cs" using assms(2) by simp
  then have "iterates v icmp (ikeys ok) es s" using assms(1) unfolding good_children_def c by blast
  then have "\<exists>at. iterator_over (fst (cs ! i)) icmp (ikeys ok) (child_entries (cs ! i)) at \<and> at (fst (snd (cs ! i))) (length (child_entries (cs ! i)))"
    by (simp add: c iterates_def child_entries_def)
  from someI_ex [OF this] show "iterator_over (fst (cs ! i)) icmp (ikeys ok) (child_entries (cs ! i)) (at_of_child ok (cs ! i))"
    and "at_of_child ok (cs ! i) (fst (snd (cs ! i))) (length (child_entries (cs ! i)))"
    by (simp_all only: at_of_child_def)
qed

definition inputs :: "(bytes \<Rightarrow> bool) \<Rightarrow> 's child list \<Rightarrow> entry list list" where
  "inputs ok cs = (if good_children ok cs then map child_entries cs else [])"

interpretation internal_merge: merging icmp "ikeys ok" dyn_iterator "inputs ok cs" "\<lambda>i. dyn_at (fst (cs ! i)) (at_of_child ok (cs ! i))"
  for ok :: "bytes \<Rightarrow> bool" and cs :: "'s child list"
proof (intro merging.intro merging_axioms.intro comparator_ikeys)
  show "iterator_over dyn_iterator icmp (ikeys ok) (inputs ok cs ! i) (dyn_at (fst (cs ! i)) (at_of_child ok (cs ! i)))" if "i < length (inputs ok cs)" for i
    using that iterator_over_dyn [OF at_of_child_laws(1)] by (simp add: inputs_def split: if_splits)
  show "\<forall>es \<in> set (inputs ok cs). sorted_entries icmp (ikeys ok) es" by (auto simp: inputs_def good_children_def child_entries_def)
  show "sorted_wrt (disjoint_keys icmp) (inputs ok cs)" by (simp add: inputs_def good_children_def)
qed

lemma iterates_dyn: "iterates v cmp ok es s \<Longrightarrow> iterates dyn_iterator cmp ok es (v, s)"
  unfolding iterates_def by (metis dyn_at_def fst_conv iterator_over_dyn snd_conv)

lemma NewMergingIterator_iterates:
  assumes "good_children ok cs"
  shows "iterates (NewMergingIterator_vt icmp dyn_iterator) icmp (ikeys ok) (merged icmp (map child_entries cs))
    (NewMergingIterator dyn_iterator (map child_object cs))"
proof -
  consider "cs = []" | v s es where "cs = [(v, s, es)]" | c c' cs' where "cs = c # c' # cs'" by (metis list.exhaust prod.exhaust)
  then show ?thesis
  proof cases
    case 1
    have "iterates EmptyIterator icmp (ikeys ok) [] OK"
      by (rule iteratesI [OF empty_iterator.iterator_over_axioms]) simp
    then show ?thesis by (simp add: 1 NewMergingIterator_def NewMergingIterator_vt_def NewEmptyIterator_def merged_def iterates_Inl)
  next
    case 2
    then have "iterates v icmp (ikeys ok) es s" using assms by (simp add: good_children_def)
    then show ?thesis
      by (simp add: 2 NewMergingIterator_def NewMergingIterator_vt_def merged_def merge_Nil iterates_Inl iterates_Inr iterates_dyn child_object_def child_entries_def)
  next
    case 3
    have "dyn_at (fst (cs ! i)) (at_of_child ok (cs ! i)) (map child_object cs ! i) (length (child_entries (cs ! i)))" if "i < length cs" for i
      using at_of_child_laws(2) [OF assms that] that by (simp add: dyn_at_def child_object_def)
    then have "iterates (Merging_vt icmp dyn_iterator) icmp (ikeys ok) (merged icmp (inputs ok cs)) (mkMergingIterator dyn_iterator (map child_object cs))"
      using assms by (intro iteratesI [OF internal_merge.whole.iterator_over_axioms] internal_merge.merging_new_at) (auto simp: inputs_def)
    then show ?thesis using assms by (simp add: NewMergingIterator_def NewMergingIterator_vt_def iterates_Inr inputs_def 3)
  qed
qed

subsection \<open>Properties\<close>

text \<open>A table that was built from the entries and opened.\<close>

definition opened_from :: "Snappy \<Rightarrow> read_op \<Rightarrow> Table \<Rightarrow> entry list \<Rightarrow> bool" where
  "opened_from sn Read t es \<longleftrightarrow>
     (\<exists>opts f r a b c cache_id.
        posix_good f \<and> posix_written f = [] \<and> ikey_options opts \<and> sorted_entries icmp valid_ikey es \<and> table_size es + 8 < 2 ^ 32 \<and>
        build_table (posix_table_env sn a b) opts es f = Some (OK, r) \<and> length (posix_written (tb_file r)) < 2 ^ 32 \<and>
        random_access_file Read (posix_written (tb_file r)) \<and> Table_Open Read sn c cache_id opts (FileSize r) = Some (OK, Some t))"

lemma opened_iterates:
  assumes "snappy_port sn" "opened_from sn Read t es"
  shows "iterates (Table_iterator Read sn d verify t) icmp valid_ikey es (Table_NewIterator t)" "sorted_entries icmp valid_ikey es"
proof -
  obtain opts f r a b c cache_id where o: "posix_good f" "posix_written f = []" "ikey_options opts" "sorted_entries icmp valid_ikey es"
      "table_size es + 8 < 2 ^ 32" "build_table (posix_table_env sn a b) opts es f = Some (OK, r)" "length (posix_written (tb_file r)) < 2 ^ 32"
      "random_access_file Read (posix_written (tb_file r))" "Table_Open Read sn c cache_id opts (FileSize r) = Some (OK, Some t)"
    using assms(2) unfolding opened_from_def by blast
  obtain r' bls hs hf hm hi off where r: "build_table (posix_table_env sn a b) opts es f = Some (OK, r')"
      "FileSize r' = of_nat (length (posix_written (tb_file r')))" "concat bls = es"
    and "opt_filter_policy opts = None \<longrightarrow> length (posix_written (tb_file r')) \<le> 2 * table_size es + 74"
    and ok: "length (posix_written (tb_file r')) < 2 ^ 32 \<longrightarrow>
      table_ok valid_ikey sn opts bls hs hf hm hi off (posix_written (tb_file r'))"
    using build_table_ok [OF assms(1) o(1-5), of a b] by blast
  have [simp]: "r' = r" using r(1) o(6) by simp
  have tok: "table_ok valid_ikey sn opts bls hs hf hm hi off (posix_written (tb_file r))" using ok o(7) by simp
  have "t = opened_table cache_id opts bls hs hm off"
    using random_access_file.Open_ok [OF o(8) tok, of c cache_id] o(9) r(2) by simp
  from readable_iterates [OF built_readable [OF tok o(3,8)] this] r(3)
  show "iterates (Table_iterator Read sn d verify t) icmp valid_ikey es (Table_NewIterator t)" by simp
  show "sorted_entries icmp valid_ikey es" by (rule o(4))
qed

text \<open>
  C39: Merging is the refinement of one sorted list. Take the iterators of any number of opened tables
  no two of which have an internal key in common. Every sequence of \<open>SeekToFirst\<close>, \<open>SeekToLast\<close>,
  \<open>Seek\<close>, \<open>Next\<close> and \<open>Prev\<close> that is defined on a cursor into the merged list of all their entries
  returns on the iterator of \<open>NewMergingIterator\<close>, and shows the entry of that cursor: through all
  changes of direction, and for no table and one table too.
\<close>

theorem merging_iterator:
  assumes "snappy_port sn" "\<forall>(Read, t, es) \<in> set ts. opened_from sn Read t es"
    and "sorted_wrt (disjoint_keys icmp) (map (\<lambda>(Read, t, es). es) ts)"
    and "its = map (\<lambda>(Read, t, es). (Table_iterator Read sn d verify t, Table_NewIterator t)) ts"
  shows "simulates (NewMergingIterator_vt icmp dyn_iterator) icmp valid_ikey (merged icmp (map (\<lambda>(Read, t, es). es) ts))
    (NewMergingIterator dyn_iterator its)"
proof -
  let ?cs = "map (\<lambda>(Read, t, es). (Table_iterator Read sn d verify t, Table_NewIterator t, es)) ts"
  have m: "map child_entries ?cs = map (\<lambda>(Read, t, es). es) ts" "map child_object ?cs = its"
    by (auto simp: child_entries_def child_object_def assms(4))
  have "good_children (\<lambda>_. True) ?cs" unfolding good_children_def m(1) ikeys_True using opened_iterates [OF assms(1)] assms(2,3) by fastforce
  from iterates_simulates [OF NewMergingIterator_iterates [OF this]] show ?thesis unfolding m ikeys_True .
qed

text \<open>Two tables: the second has a newer version of a key of the first.\<close>

definition ex_older :: "entry list" where
  "ex_older = [(mkInternalKey [1] 2 kTypeValue, [20]), (mkInternalKey [3] 1 kTypeValue, [30])]"

definition ex_newer :: "entry list" where
  "ex_newer = [(mkInternalKey [1] 5 kTypeDeletion, []), (mkInternalKey [2] 4 kTypeValue, [40])]"

lemma opened_from_exists:
  assumes "snappy_port sn" "ikey_options opts" "opt_filter_policy opts = None" "sorted_entries icmp valid_ikey es" "table_size es < 2 ^ 30"
  shows "\<exists>mf t. opened_from sn (PosixMmapReadableFile_Read [] mf) t es"
proof -
  have small: "table_size es + 8 < 2 ^ 32" using assms(5) by simp
  obtain r bls hs hf hm hi off where r: "build_table (posix_table_env sn 5 6) opts es ex_table_file = Some (OK, r)"
      "FileSize r = of_nat (length (posix_written (tb_file r)))" "concat bls = es"
    and len: "opt_filter_policy opts = None \<longrightarrow> length (posix_written (tb_file r)) \<le> 2 * table_size es + 74"
    and ok: "length (posix_written (tb_file r)) < 2 ^ 32 \<longrightarrow>
      table_ok valid_ikey sn opts bls hs hf hm hi off (posix_written (tb_file r))"
    using build_table_ok [OF assms(1) ex_table(1,2) assms(2,4) small, of 5 6] by blast
  define mf where "mf = \<lparr>mmap_filename = lit ''000005.ldb'', mmapped_region = posix_written (tb_file r)\<rparr>"
  have l: "length (posix_written (tb_file r)) < 2 ^ 32" using len assms(3,5) by simp
  have f: "random_access_file (PosixMmapReadableFile_Read [] mf) (posix_written (tb_file r))"
    using mmap_file.random_access_file_axioms [of "[]" mf] by (simp add: mf_def)
  from random_access_file.Open_ok [OF f mp [OF ok l], of 7 1] r(2) show ?thesis
    unfolding opened_from_def using ex_table(1,2) assms(2,4) small r(1) l f by (metis (no_types, lifting))
qed

theorem merging_iterator_witness:
  "\<exists>r1 t1 r2 t2 s. opened_from port_snappy r1 t1 ex_older \<and> opened_from port_snappy r2 t2 ex_newer \<and>
    make_moves (NewMergingIterator_vt icmp dyn_iterator) [To_First, Forth, Forth, Back, To_Last, Back]
      (NewMergingIterator dyn_iterator
        [(Table_iterator r1 port_snappy 9 True t1, Table_NewIterator t1), (Table_iterator r2 port_snappy 9 True t2, Table_NewIterator t2)]) = Some s \<and>
    shown (NewMergingIterator_vt icmp dyn_iterator) s = Some (mkInternalKey [2] 4 kTypeValue, [40])"
proof -
  note ev = sorted_entries_def ex_older_def ex_newer_def icmp_mkInternalKey PackSequenceAndType_def type_code_def slice_compare_def
    disjoint_keys_def merged_def
  have sorted: "sorted_entries icmp valid_ikey ex_older" "sorted_entries icmp valid_ikey ex_newer" by (simp_all add: ev)
  have sz: "table_size ex_older < 2 ^ 30" "table_size ex_newer < 2 ^ 30" by (simp_all add: ev)
  note o = opened_from_exists [OF port.snappy_port_axioms ex_table(3,5)]
  obtain m1 t1 where t1: "opened_from port_snappy (PosixMmapReadableFile_Read [] m1) t1 ex_older" using o [OF sorted(1) sz(1)] by blast
  obtain m2 t2 where t2: "opened_from port_snappy (PosixMmapReadableFile_Read [] m2) t2 ex_newer" using o [OF sorted(2) sz(2)] by blast
  let ?ts = "[(PosixMmapReadableFile_Read [] m1, t1, ex_older), (PosixMmapReadableFile_Read [] m2, t2, ex_newer)]"
  have d: "disjoint_keys icmp ex_older ex_newer" by (simp add: ev)
  have m: "merged icmp [ex_older, ex_newer] = [(mkInternalKey [1] 5 kTypeDeletion, []), (mkInternalKey [1] 2 kTypeValue, [20]),
      (mkInternalKey [2] 4 kTypeValue, [40]), (mkInternalKey [3] 1 kTypeValue, [30])]"
    by (simp add: ev)
  have sim: "simulates (NewMergingIterator_vt icmp dyn_iterator) icmp valid_ikey (merged icmp [ex_older, ex_newer])
      (NewMergingIterator dyn_iterator [(Table_iterator (PosixMmapReadableFile_Read [] m1) port_snappy 9 True t1, Table_NewIterator t1),
        (Table_iterator (PosixMmapReadableFile_Read [] m2) port_snappy 9 True t2, Table_NewIterator t2)])"
    using merging_iterator [OF port.snappy_port_axioms, of ?ts _ 9 True] t1 t2 d by simp
  let ?ms = "[To_First, Forth, Forth, Back, To_Last, Back]"
  have "make_moves (list_iterator icmp (merged icmp [ex_older, ex_newer])) ?ms (length (merged icmp [ex_older, ex_newer])) = Some 2"
    by (simp add: m make_move_def list_iterator_def)
  from sim [unfolded simulates_def, rule_format, OF _ this] obtain s where
    "make_moves (NewMergingIterator_vt icmp dyn_iterator) ?ms
      (NewMergingIterator dyn_iterator [(Table_iterator (PosixMmapReadableFile_Read [] m1) port_snappy 9 True t1, Table_NewIterator t1),
        (Table_iterator (PosixMmapReadableFile_Read [] m2) port_snappy 9 True t2, Table_NewIterator t2)]) = Some s"
    "shown (NewMergingIterator_vt icmp dyn_iterator) s = shown (list_iterator icmp (merged icmp [ex_older, ex_newer])) 2"
    by auto
  moreover have "shown (list_iterator icmp (merged icmp [ex_older, ex_newer])) 2 = Some (mkInternalKey [2] 4 kTypeValue, [40])"
    by (simp add: shown_def list_iterator_def m)
  ultimately show ?thesis using t1 t2 by metis
qed

end
