(* ===== verification/LdbMemIter.thy ===== *)
theory LdbMemIter
  imports LdbMemTable LdbTableGet
begin

text \<open>
  The class \<open>MemTableIterator\<close> of \<^verbatim>\<open>db/memtable.cc\<close> as an implementation of the iterator interface.
  The object is its member \<open>iter_\<close>, a node of the skip list (0 for NULL); it keeps the contract
  \<open>iterator_over\<close> for the entries of the memtable in internal key order.
\<close>

definition MemTableIterator_vt :: "(bytes \<Rightarrow> bytes \<Rightarrow> int) \<Rightarrow> memtable \<Rightarrow> node Iterator" where
  "MemTableIterator_vt ucmp m =
     \<lparr>it_Valid = Iterator_Valid, it_SeekToFirst = (\<lambda>it. Iterator_SeekToFirst (table m)),
      it_SeekToLast = (\<lambda>it. Iterator_SeekToLast (table m)), it_Seek = (\<lambda>k it. MemTableIterator_Seek ucmp m k),
      it_Next = Iterator_Next (table m), it_Prev = Iterator_Prev (KeyComparator ucmp) (table m),
      it_key = (\<lambda>it. case MemTableIterator_key m it of Some k \<Rightarrow> k | None \<Rightarrow> []),
      it_value = (\<lambda>it. case MemTableIterator_value m it of Some v \<Rightarrow> v | None \<Rightarrow> []), it_status = (\<lambda>it. OK)\<rparr>"

definition MemTable_NewIterator :: "memtable \<Rightarrow> node" where
  "MemTable_NewIterator m = 0"

text \<open>The entries of a memtable.\<close>

definition op_entry :: "mem_op \<Rightarrow> entry" where
  "op_entry p = (case p of (s, t, k, v) \<Rightarrow> (mkInternalKey k s t, v))"

definition decode_entry :: "bytes \<Rightarrow> entry" where
  "decode_entry e =
     (case mem_slice e of
        Some (k, rest) \<Rightarrow> (k, case mem_slice rest of Some (v, _) \<Rightarrow> v | None \<Rightarrow> [])
      | None \<Rightarrow> ([], []))"

definition mem_entries :: "memtable \<Rightarrow> entry list" where
  "mem_entries m = map decode_entry (contents (table m))"

lemma decode_encode_entry: "valid_op p \<Longrightarrow> decode_entry (entry_of p) = op_entry p"
  using entry_simps [of "fst p" "fst (snd p)" "fst (snd (snd p))" "snd (snd (snd p))"]
    mem_slice_Put [of "snd (snd (snd p))" "[]"]
  by (cases p) (simp add: decode_entry_def entry_of_def op_entry_def encode_entry_eq mem_slice_Put)

definition mem_ikey :: "bytes \<Rightarrow> bool" where
  "mem_ikey k \<longleftrightarrow> valid_ikey k \<and> short_string k"

lemma mem_entries_of:
  assumes "mem_rep slice_compare ops m"
  shows "set (mem_entries m) = op_entry ` set ops" "sorted_entries icmp mem_ikey (mem_entries m)"
proof -
  let ?c = "contents (table m)"
  have inv: "sl_inv (KeyComparator slice_compare) mem_ok (table m)" and c: "set ?c = entry_of ` set ops"
    and v: "\<And>p. p \<in> set ops \<Longrightarrow> valid_op p" using assms by (simp_all add: mem_rep_def)
  show "set (mem_entries m) = op_entry ` set ops"
    using c v by (auto simp: mem_entries_def decode_encode_entry image_image)
  have cmp: "KeyComparator slice_compare a b = icmp (fst (decode_entry a)) (fst (decode_entry b)) \<and> mem_ikey (fst (decode_entry a))"
    if "a \<in> set ?c" "b \<in> set ?c" for a b
  proof -
    from that c have "a \<in> entry_of ` set ops" "b \<in> entry_of ` set ops" by simp_all
    then obtain p q where pq: "a = entry_of p" "b = entry_of q" "valid_op p" "valid_op q" using v by blast
    obtain s t k x s' t' k' x' where "p = (s, t, k, x)" "q = (s', t', k', x')" by (cases p, cases q)
    then show ?thesis
      using pq entry_simps [of s t k x] entry_simps [of s' t' k' x']
      by (simp add: decode_encode_entry op_entry_def mem_ikey_def)
         (simp add: entry_of_def encode_entry_eq KeyComparator_Put icmp_def, simp add: mkInternalKey_eq)
  qed
  have "sorted_wrt (\<lambda>a b. KeyComparator slice_compare a b < 0) ?c"
    by (rule comparator.contents_sorted(1) [OF comparator_mem [OF slice_order.comparator_axioms] inv])
  then have "sorted_wrt (\<lambda>a b. icmp (fst (decode_entry a)) (fst (decode_entry b)) < 0) ?c"
    using cmp by (metis (no_types, lifting) sorted_wrt_mono_rel)
  then show "sorted_entries icmp mem_ikey (mem_entries m)"
    using cmp by (auto simp: sorted_entries_def mem_entries_def sorted_wrt_map)
qed

text \<open>The iterator is at a node of the lowest level.\<close>

definition mem_at :: "mem_op list \<Rightarrow> memtable \<Rightarrow> node \<Rightarrow> nat \<Rightarrow> bool" where
  "mem_at ops m it i \<longleftrightarrow> mem_rep slice_compare ops m \<and> i \<le> length (nodes (table m)) \<and>
     it = (if i < length (nodes (table m)) then nodes (table m) ! i else 0)"

lemma first_drop: "first (drop i ns) = (if i < length ns then ns ! i else 0)"
  by (cases "i < length ns") (simp_all add: first_def Cons_nth_drop_Suc [symmetric])

lemma last_take: "i \<le> length ns \<Longrightarrow> last_or_null (take i ns) = (if i = 0 then 0 else ns ! (i - 1))"
  by (cases "i = 0 \<or> ns = []") (auto simp: last_or_null_def last_conv_nth)

lemma first_filter: "first (filter P ns) = first (drop (length (takeWhile (\<lambda>n. \<not> P n) ns)) ns)"
  by (induction ns) (simp_all add: first_def)

interpretation mem_iterator: iterator_over "MemTableIterator_vt slice_compare m" icmp mem_ikey "mem_entries m" "mem_at ops m"
proof
  fix it i
  assume a: "mem_at ops m it i"
  let ?ns = "nodes (table m)"
  have inv: "sl_inv (KeyComparator slice_compare) mem_ok (table m)" and rep: "mem_rep slice_compare ops m" and i: "i \<le> length ?ns"
    and it: "it = (if i < length ?ns then ?ns ! i else 0)" using a by (simp_all add: mem_at_def mem_rep_def)
  note C = comparator_mem [OF slice_order.comparator_axioms]
  obtain L where L: "rep (KeyComparator slice_compare) mem_ok (table m) L" using inv by (auto simp: sl_inv_def)
  have ns: "?ns = L 0" using comparator.rep_nodes [OF C L] by simp
  note sp = comparator.Iterator_specs [OF C L]
  have nz: "?ns ! j \<noteq> 0" if "j < length ?ns" for j using rep_node [OF L, of "?ns ! j"] that by (auto simp: ns)
  have len: "length (mem_entries m) = length ?ns" by (simp add: mem_entries_def contents_def)
  have at: "mem_at ops m (if j < length ?ns then ?ns ! j else 0) j" if "j \<le> length ?ns" for j using rep that by (simp add: mem_at_def)
  show "i \<le> length (mem_entries m)" using i by (simp add: len)
  show "it_Valid (MemTableIterator_vt slice_compare m) it \<longleftrightarrow> i < length (mem_entries m)"
    using nz it by (auto simp: MemTableIterator_vt_def Iterator_Valid_def len)
  show "status_ok (it_status (MemTableIterator_vt slice_compare m) it)" by (simp add: MemTableIterator_vt_def status_ok_def OK_def)
  show "\<exists>s'. it_SeekToFirst (MemTableIterator_vt slice_compare m) it = Some s' \<and> mem_at ops m s' 0"
    using sp(1) at [of 0] first_drop [of 0 ?ns] by (simp add: MemTableIterator_vt_def ns)
  show "\<exists>s'. it_SeekToLast (MemTableIterator_vt slice_compare m) it = Some s' \<and> mem_at ops m s' (length (mem_entries m) - 1)"
    using sp(2) at [of "length ?ns - 1"] last_take [of "length ?ns" ?ns] by (cases "?ns = []") (simp_all add: MemTableIterator_vt_def ns len)
  show "\<exists>s'. it_Seek (MemTableIterator_vt slice_compare m) t it = Some s' \<and> mem_at ops m s' (first_ge icmp t (mem_entries m))"
    if "mem_ikey t" for t
  proof -
    have t: "short_string t" "valid_ikey t" "EncodeKey t = PutLengthPrefixedSlice [] t"
      using that by (simp_all add: mem_ikey_def EncodeKey_def PutLengthPrefixedSlice_def)
    then have ok: "mem_ok (EncodeKey t)" unfolding mem_ok_def by (metis append_Nil2)
    have "KeyComparator slice_compare (keys (table m) n) (EncodeKey t) = icmp (fst (decode_entry (keys (table m) n))) t" if "n \<in> set ?ns" for n
    proof -
      have "keys (table m) n \<in> entry_of ` set ops" using that rep by (auto simp: mem_rep_def contents_def)
      then obtain p where p: "keys (table m) n = entry_of p" "valid_op p" using rep by (auto simp: mem_rep_def)
      obtain s ty k x where "p = (s, ty, k, x)" by (cases p)
      then show ?thesis
        using p entry_simps [of s ty k x] t KeyComparator_Put [of "mkInternalKey k s ty" t slice_compare _ "[]"]
        by (simp add: decode_encode_entry op_entry_def) (simp add: entry_of_def encode_entry_eq icmp_def)
    qed
    then have "takeWhile (\<lambda>n. \<not> 0 \<le> KeyComparator slice_compare (keys (table m) n) (EncodeKey t)) ?ns =
        takeWhile (\<lambda>n. icmp (fst (decode_entry (keys (table m) n))) t < 0) ?ns"
      by (intro takeWhile_cong) auto
    then have "length (takeWhile (\<lambda>n. \<not> 0 \<le> KeyComparator slice_compare (keys (table m) n) (EncodeKey t)) ?ns) = first_ge icmp t (mem_entries m)"
      by (simp add: first_ge_def mem_entries_def contents_def takeWhile_map o_def)
    then have "MemTableIterator_Seek slice_compare m t = Some (first (drop (first_ge icmp t (mem_entries m)) ?ns))"
      using sp(3) [OF ok] first_filter [of _ ?ns] by (simp add: MemTableIterator_Seek_def ns)
    then show ?thesis using at [of "first_ge icmp t (mem_entries m)"] first_ge_le [of icmp t "mem_entries m"] first_drop
      by (simp add: MemTableIterator_vt_def len)
  qed
  assume "i < length (mem_entries m)"
  then have lt: "i < length ?ns" by (simp add: len)
  have split: "L 0 = take i ?ns @ it # drop (Suc i) ?ns" using id_take_nth_drop [OF lt] it lt ns by simp
  show "\<exists>s'. it_Next (MemTableIterator_vt slice_compare m) it = Some s' \<and> mem_at ops m s' (i + 1)"
    using sp(4) [OF split] at [of "i + 1"] first_drop [of "i + 1" ?ns] lt by (simp add: MemTableIterator_vt_def)
  show "\<exists>s'. it_Prev (MemTableIterator_vt slice_compare m) it = Some s' \<and> mem_at ops m s' (if i = 0 then length (mem_entries m) else i - 1)"
    using sp(5) [OF split] at [of "length ?ns"] at [of "i - 1"] last_take [of i ?ns] lt by (cases i) (simp_all add: MemTableIterator_vt_def len)
  show "(it_key (MemTableIterator_vt slice_compare m) it, it_value (MemTableIterator_vt slice_compare m) it) = mem_entries m ! i"
    using lt it by (auto simp: MemTableIterator_vt_def MemTableIterator_key_def MemTableIterator_value_def Iterator_key_def
        mem_entries_def contents_def decode_entry_def split: option.splits prod.splits)
qed

lemma mem_iterates: "mem_rep slice_compare ops m \<Longrightarrow> iterates (MemTableIterator_vt slice_compare m) icmp mem_ikey (mem_entries m) (MemTable_NewIterator m)"
  by (rule iteratesI [OF mem_iterator.iterator_over_axioms [of m ops]])
    (simp add: mem_at_def MemTable_NewIterator_def mem_entries_def contents_def)

end
