(* ===== verification/LdbDBIter.thy ===== *)
theory LdbDBIter
  imports LdbMerger LdbMemIter
begin

text \<open>
  \<^verbatim>\<open>db/db_iter.cc\<close>: the iterator that users of a database see. It walks over the internal entries
  (user key, sequence number, type) and shows, for each user key, the newest version that is not newer
  than its snapshot, unless that version is a deletion.

  The locale \<open>snapshot\<close> states what the internal iterator has to satisfy; it is interpreted on the
  merged iterators of tables. The main result is that the iterator keeps the contract
  \<open>iterator_over\<close> for the list \<open>user_view\<close>, in both directions and through changes of direction.
\<close>

subsection \<open>The code\<close>

definition kReadBytesPeriod :: u32 where
  "kReadBytesPeriod = 1048576"

text \<open>
  \<open>di_samples\<close> lists the keys that were passed to \<^verbatim>\<open>db_->RecordReadSample\<close>, the only use of \<open>db_\<close>.
  The capacity of \<open>saved_value_\<close> is not part of the model.
\<close>

record 's DBIter =
  di_iter :: 's
  di_sequence :: u64
  di_status :: Status
  di_saved_key :: bytes
  di_saved_value :: bytes
  di_direction :: Direction
  di_valid :: bool
  di_rnd :: u32
  di_bytes_counter :: int
  di_samples :: "bytes list"

definition RandomPeriod :: "u32 \<Rightarrow> int \<times> u32" where
  "RandomPeriod gen = (case Random_Uniform (2 * kReadBytesPeriod) gen of (r, gen) \<Rightarrow> (uint r, gen))"

definition mkDBIter :: "'s \<Rightarrow> u64 \<Rightarrow> u32 \<Rightarrow> 's DBIter" where
  "mkDBIter iter s seed =
     (case RandomPeriod (mkRandom seed) of (p, gen) \<Rightarrow>
        \<lparr>di_iter = iter, di_sequence = s, di_status = OK, di_saved_key = [], di_saved_value = [], di_direction = kForward,
         di_valid = False, di_rnd = gen, di_bytes_counter = p, di_samples = []\<rparr>)"

definition DBIter_key :: "'s Iterator \<Rightarrow> 's DBIter \<Rightarrow> bytes" where
  "DBIter_key vt d = (if di_direction d = kForward then ExtractUserKey (it_key vt (di_iter d)) else di_saved_key d)"

definition DBIter_value :: "'s Iterator \<Rightarrow> 's DBIter \<Rightarrow> bytes" where
  "DBIter_value vt d = (if di_direction d = kForward then it_value vt (di_iter d) else di_saved_value d)"

definition DBIter_status :: "'s Iterator \<Rightarrow> 's DBIter \<Rightarrow> Status" where
  "DBIter_status vt d = (if status_ok (di_status d) then it_status vt (di_iter d) else di_status d)"

definition ClearSavedValue :: "'s DBIter \<Rightarrow> 's DBIter" where
  "ClearSavedValue d = d\<lparr>di_saved_value := []\<rparr>"

text \<open>The loop of \<open>ParseKey\<close> that takes samples.\<close>

partial_function (option) take_samples :: "bytes \<Rightarrow> 's DBIter \<Rightarrow> 's DBIter option" where
  "take_samples k d =
     (if di_bytes_counter d < 0
      then
        (case RandomPeriod (di_rnd d) of (p, gen) \<Rightarrow>
           take_samples k (d\<lparr>di_rnd := gen, di_bytes_counter := di_bytes_counter d + p, di_samples := di_samples d @ [k]\<rparr>))
      else Some d)"

definition ParseKey :: "'s Iterator \<Rightarrow> 's DBIter \<Rightarrow> (ParsedInternalKey option \<times> 's DBIter) option" where
  "ParseKey vt d =
     (let k = it_key vt (di_iter d); n = int (length k + length (it_value vt (di_iter d)))
      in Option.bind (take_samples k (d\<lparr>di_bytes_counter := di_bytes_counter d - n\<rparr>)) (\<lambda>d.
           case ParseInternalKey k of
             None \<Rightarrow> Some (None, d\<lparr>di_status := Corruption (lit ''corrupted internal key in DBIter'') []\<rparr>)
           | Some ikey \<Rightarrow> Some (Some ikey, d)))"

text \<open>
  The body of the loop of \<open>FindNextUserEntry\<close>: it returns (\<open>Inl\<close>), or goes on with a new \<open>skipping\<close>.
  All callers pass \<^verbatim>\<open>&saved_key_\<close> as \<open>skip\<close>.
\<close>

definition next_entry :: "(bytes \<Rightarrow> bytes \<Rightarrow> int) \<Rightarrow> ParsedInternalKey option \<Rightarrow> bool \<Rightarrow> 's DBIter \<Rightarrow> 's DBIter + bool \<times> 's DBIter" where
  "next_entry ucmp r skipping d =
     (case r of
        None \<Rightarrow> Inr (skipping, d)
      | Some ikey \<Rightarrow>
          if sequence ikey \<le> di_sequence d
          then (case vtype ikey of
                  kTypeDeletion \<Rightarrow> Inr (True, d\<lparr>di_saved_key := user_key ikey\<rparr>)
                | kTypeValue \<Rightarrow>
                    if skipping \<and> ucmp (user_key ikey) (di_saved_key d) \<le> 0 then Inr (skipping, d)
                    else Inl (d\<lparr>di_valid := True, di_saved_key := []\<rparr>))
          else Inr (skipping, d))"

partial_function (option) FindNextUserEntry ::
  "(bytes \<Rightarrow> bytes \<Rightarrow> int) \<Rightarrow> 's Iterator \<Rightarrow> bool \<Rightarrow> 's DBIter \<Rightarrow> 's DBIter option" where
  "FindNextUserEntry ucmp vt skipping d =
     Option.bind (ParseKey vt d) (\<lambda>(r, d).
       case next_entry ucmp r skipping d of
         Inl d \<Rightarrow> Some d
       | Inr (skipping, d) \<Rightarrow>
           Option.bind (it_Next vt (di_iter d)) (\<lambda>s.
             if it_Valid vt s then FindNextUserEntry ucmp vt skipping (d\<lparr>di_iter := s\<rparr>)
             else Some (d\<lparr>di_iter := s, di_saved_key := [], di_valid := False\<rparr>)))"

definition DBIter_Next :: "(bytes \<Rightarrow> bytes \<Rightarrow> int) \<Rightarrow> 's Iterator \<Rightarrow> 's DBIter \<Rightarrow> 's DBIter option" where
  "DBIter_Next ucmp vt d =
     (if \<not> di_valid d then None
      else if di_direction d = kReverse
      then
        let d = d\<lparr>di_direction := kForward\<rparr>
        in Option.bind (if \<not> it_Valid vt (di_iter d) then it_SeekToFirst vt (di_iter d) else it_Next vt (di_iter d)) (\<lambda>s.
             let d = d\<lparr>di_iter := s\<rparr>
             in if \<not> it_Valid vt s then Some (d\<lparr>di_valid := False, di_saved_key := []\<rparr>)
                else FindNextUserEntry ucmp vt True d)
      else FindNextUserEntry ucmp vt True (d\<lparr>di_saved_key := ExtractUserKey (it_key vt (di_iter d))\<rparr>))"

text \<open>
  The body of the loop of \<open>FindPrevUserEntry\<close>: \<open>None\<close> for its \<open>break\<close>, or the new \<open>value_type\<close>.
\<close>

definition prev_entry ::
  "(bytes \<Rightarrow> bytes \<Rightarrow> int) \<Rightarrow> 's Iterator \<Rightarrow> ParsedInternalKey option \<Rightarrow> ValueType \<Rightarrow> 's DBIter \<Rightarrow> (ValueType \<times> 's DBIter) option" where
  "prev_entry ucmp vt r value_type d =
     (case r of
        None \<Rightarrow> Some (value_type, d)
      | Some ikey \<Rightarrow>
          if sequence ikey \<le> di_sequence d
          then if value_type \<noteq> kTypeDeletion \<and> ucmp (user_key ikey) (di_saved_key d) < 0 then None
               else if vtype ikey = kTypeDeletion then Some (vtype ikey, ClearSavedValue (d\<lparr>di_saved_key := []\<rparr>))
               else Some (vtype ikey, d\<lparr>di_saved_key := ExtractUserKey (it_key vt (di_iter d)), di_saved_value := it_value vt (di_iter d)\<rparr>)
          else Some (value_type, d))"

partial_function (option) scan_prev ::
  "(bytes \<Rightarrow> bytes \<Rightarrow> int) \<Rightarrow> 's Iterator \<Rightarrow> ValueType \<Rightarrow> 's DBIter \<Rightarrow> (ValueType \<times> 's DBIter) option" where
  "scan_prev ucmp vt value_type d =
     Option.bind (ParseKey vt d) (\<lambda>(r, d).
       case prev_entry ucmp vt r value_type d of
         None \<Rightarrow> Some (value_type, d)
       | Some (value_type, d) \<Rightarrow>
           Option.bind (it_Prev vt (di_iter d)) (\<lambda>s.
             if it_Valid vt s then scan_prev ucmp vt value_type (d\<lparr>di_iter := s\<rparr>)
             else Some (value_type, d\<lparr>di_iter := s\<rparr>)))"

definition FindPrevUserEntry :: "(bytes \<Rightarrow> bytes \<Rightarrow> int) \<Rightarrow> 's Iterator \<Rightarrow> 's DBIter \<Rightarrow> 's DBIter option" where
  "FindPrevUserEntry ucmp vt d =
     Option.bind (if it_Valid vt (di_iter d) then scan_prev ucmp vt kTypeDeletion d else Some (kTypeDeletion, d)) (\<lambda>(value_type, d).
       Some (if value_type = kTypeDeletion
             then (ClearSavedValue (d\<lparr>di_valid := False, di_saved_key := []\<rparr>))\<lparr>di_direction := kForward\<rparr>
             else d\<lparr>di_valid := True\<rparr>))"

text \<open>The loop of \<open>Prev\<close> that changes the direction; False: the first entry was passed.\<close>

partial_function (option) scan_back ::
  "(bytes \<Rightarrow> bytes \<Rightarrow> int) \<Rightarrow> 's Iterator \<Rightarrow> 's DBIter \<Rightarrow> (bool \<times> 's DBIter) option" where
  "scan_back ucmp vt d =
     Option.bind (it_Prev vt (di_iter d)) (\<lambda>s.
       if \<not> it_Valid vt s then Some (False, ClearSavedValue (d\<lparr>di_iter := s, di_valid := False, di_saved_key := []\<rparr>))
       else if ucmp (ExtractUserKey (it_key vt s)) (di_saved_key d) < 0 then Some (True, d\<lparr>di_iter := s\<rparr>)
       else scan_back ucmp vt (d\<lparr>di_iter := s\<rparr>))"

definition DBIter_Prev :: "(bytes \<Rightarrow> bytes \<Rightarrow> int) \<Rightarrow> 's Iterator \<Rightarrow> 's DBIter \<Rightarrow> 's DBIter option" where
  "DBIter_Prev ucmp vt d =
     (if \<not> di_valid d then None
      else if di_direction d = kForward
      then
        Option.bind (scan_back ucmp vt (d\<lparr>di_saved_key := ExtractUserKey (it_key vt (di_iter d))\<rparr>)) (\<lambda>(found, d).
          if found then FindPrevUserEntry ucmp vt (d\<lparr>di_direction := kReverse\<rparr>) else Some d)
      else FindPrevUserEntry ucmp vt d)"

definition DBIter_Seek :: "(bytes \<Rightarrow> bytes \<Rightarrow> int) \<Rightarrow> 's Iterator \<Rightarrow> bytes \<Rightarrow> 's DBIter \<Rightarrow> 's DBIter option" where
  "DBIter_Seek ucmp vt target d =
     (let d = (ClearSavedValue (d\<lparr>di_direction := kForward\<rparr>))
            \<lparr>di_saved_key := AppendInternalKey [] \<lparr>user_key = target, sequence = di_sequence d, vtype = kValueTypeForSeek\<rparr>\<rparr>
      in Option.bind (it_Seek vt (di_saved_key d) (di_iter d)) (\<lambda>s.
           let d = d\<lparr>di_iter := s\<rparr>
           in if it_Valid vt s then FindNextUserEntry ucmp vt False d else Some (d\<lparr>di_valid := False\<rparr>)))"

definition DBIter_SeekToFirst :: "(bytes \<Rightarrow> bytes \<Rightarrow> int) \<Rightarrow> 's Iterator \<Rightarrow> 's DBIter \<Rightarrow> 's DBIter option" where
  "DBIter_SeekToFirst ucmp vt d =
     (let d = ClearSavedValue (d\<lparr>di_direction := kForward\<rparr>)
      in Option.bind (it_SeekToFirst vt (di_iter d)) (\<lambda>s.
           let d = d\<lparr>di_iter := s\<rparr>
           in if it_Valid vt s then FindNextUserEntry ucmp vt False d else Some (d\<lparr>di_valid := False\<rparr>)))"

definition DBIter_SeekToLast :: "(bytes \<Rightarrow> bytes \<Rightarrow> int) \<Rightarrow> 's Iterator \<Rightarrow> 's DBIter \<Rightarrow> 's DBIter option" where
  "DBIter_SeekToLast ucmp vt d =
     (let d = ClearSavedValue (d\<lparr>di_direction := kReverse\<rparr>)
      in Option.bind (it_SeekToLast vt (di_iter d)) (\<lambda>s. FindPrevUserEntry ucmp vt (d\<lparr>di_iter := s\<rparr>)))"

definition DBIter_vt :: "(bytes \<Rightarrow> bytes \<Rightarrow> int) \<Rightarrow> 's Iterator \<Rightarrow> 's DBIter Iterator" where
  "DBIter_vt ucmp vt =
     \<lparr>it_Valid = di_valid, it_SeekToFirst = DBIter_SeekToFirst ucmp vt, it_SeekToLast = DBIter_SeekToLast ucmp vt,
      it_Seek = DBIter_Seek ucmp vt, it_Next = DBIter_Next ucmp vt, it_Prev = DBIter_Prev ucmp vt,
      it_key = DBIter_key vt, it_value = DBIter_value vt, it_status = DBIter_status vt\<rparr>"

definition NewDBIterator :: "'s \<Rightarrow> u64 \<Rightarrow> u32 \<Rightarrow> 's DBIter" where
  "NewDBIterator internal_iter s seed = mkDBIter internal_iter s seed"

subsection \<open>Samples\<close>

text \<open>
  A period can be zero, but not twice in a row, so the loop ends: after a multiple \<open>2\<^sup>21 k\<close> the
  generator returns \<open>16807 k div 1024\<close> modulo \<open>2\<^sup>21\<close>.
\<close>

lemma RandomPeriod_spec:
  assumes "good_seed s" "RandomPeriod s = (p, s')"
  shows "good_seed s'" "p = int (unat s' mod 2 ^ 21)" "unat s' = unat s * 16807 mod 2147483647"
proof -
  obtain r where r: "Random_Next s = (r, s')" "p = uint (r mod (2 * kReadBytesPeriod))"
    using assms(2) by (auto simp: RandomPeriod_def Random_Uniform_def split: prod.splits)
  note n = Random_Next_spec [OF assms(1) r(1)]
  have "p = uint (s' mod 2097152)" using n by (simp add: r(2) kReadBytesPeriod_def)
  also have "\<dots> = int (unat s' mod 2 ^ 21)" by (simp add: uint_mod zmod_int)
  finally show "p = int (unat s' mod 2 ^ 21)" .
  show "good_seed s'" "unat s' = unat s * 16807 mod 2147483647" using n by auto
qed

lemma period_after_zero:
  assumes "good_seed s" "unat s mod 2 ^ 21 = 0" "RandomPeriod s = (p, s')"
  shows "0 < p"
proof -
  define k where "k = unat s div 2 ^ 21"
  have s: "unat s = 2 ^ 21 * k" "0 < k" "k < 2 ^ 10" using assms(1,2) by (auto simp: k_def good_seed_def)
  define q r where "q = k * 16807 div 1024" and "r = k * 16807 mod 1024"
  have qr: "k * 16807 = 1024 * q + r" "r < 1024" "0 < q" "q < 16807" using s by (auto simp: q_def r_def div_greater_zero_iff less_mult_imp_div_less)
  have "unat s * 16807 = 2 ^ 21 * (1024 * q + r)" using s(1) qr(1) by simp
  also have "\<dots> = 2147483647 * q + (q + 2 ^ 21 * r)" by simp
  finally have "unat s * 16807 mod 2147483647 = (q + 2 ^ 21 * r) mod 2147483647" by (metis mod_mult_self4)
  also have "\<dots> = q + 2 ^ 21 * r" using qr by (intro mod_less) simp
  finally have "unat s' mod 2 ^ 21 = q" using RandomPeriod_spec(3) [OF assms(1,3)] qr by simp
  then show ?thesis using RandomPeriod_spec(2) [OF assms(1,3)] qr(3) by simp
qed

text \<open>Two objects that differ at most in the state of the sampling.\<close>

definition resampled :: "'s DBIter \<Rightarrow> 's DBIter \<Rightarrow> bool" where
  "resampled d d' \<longleftrightarrow>
     (\<exists>gen n ss. good_seed gen \<and> d' = d\<lparr>di_rnd := gen, di_bytes_counter := n, di_samples := ss\<rparr>)"

lemma resampledI: "good_seed gen \<Longrightarrow> resampled d (d\<lparr>di_rnd := gen, di_bytes_counter := n, di_samples := ss\<rparr>)"
  unfolding resampled_def by blast

lemma take_samples_returns: "good_seed (di_rnd d) \<Longrightarrow> \<exists>d'. take_samples k d = Some d' \<and> resampled d d'"
proof (induction "(nat (- di_bytes_counter d), if unat (di_rnd d) mod 2 ^ 21 = 0 then 0 else 1 :: nat)" arbitrary: d
    rule: wf_induct_rule [OF wf_lex_prod [OF wf_less_than wf_less_than]])
  case 1
  show ?case
  proof (cases "di_bytes_counter d < 0")
    case True
    obtain p gen where p: "RandomPeriod (di_rnd d) = (p, gen)" by (cases "RandomPeriod (di_rnd d)")
    note sp = RandomPeriod_spec [OF 1(2) p]
    let ?d = "d\<lparr>di_rnd := gen, di_bytes_counter := di_bytes_counter d + p, di_samples := di_samples d @ [k]\<rparr>"
    have "unat (di_rnd d) mod 2 ^ 21 = 0 \<longrightarrow> 0 < p" using period_after_zero [OF 1(2) _ p] by blast
    moreover have "p = 0 \<longrightarrow> unat gen mod 2 ^ 21 = 0" "0 \<le> p" using sp(2) by simp_all
    ultimately have "((nat (- di_bytes_counter ?d), if unat (di_rnd ?d) mod 2 ^ 21 = 0 then 0 else 1 :: nat),
        (nat (- di_bytes_counter d), if unat (di_rnd d) mod 2 ^ 21 = 0 then 0 else 1 :: nat)) \<in> less_than <*lex*> less_than"
      using True by auto
    from 1(1) [OF this] sp(1) obtain d' where d': "take_samples k ?d = Some d'" "resampled ?d d'" by auto
    then obtain g n ss where "good_seed g" "d' = ?d\<lparr>di_rnd := g, di_bytes_counter := n, di_samples := ss\<rparr>" by (auto simp: resampled_def)
    then have "resampled d d'" using resampledI [of g d ss n] by simp
    then show ?thesis using True p d'(1) by (simp add: take_samples.simps [of k d])
  next
    case False
    then show ?thesis
      using 1(2) resampledI [of "di_rnd d" d "di_samples d" "di_bytes_counter d"] by (simp add: take_samples.simps [of k d])
  qed
qed

subsection \<open>What a snapshot shows\<close>

definition entry_user :: "entry \<Rightarrow> bytes" where
  "entry_user e = ExtractUserKey (fst e)"

definition in_snapshot :: "u64 \<Rightarrow> entry \<Rightarrow> bool" where
  "in_snapshot s e = (case ParseInternalKey (fst e) of Some k \<Rightarrow> sequence k \<le> s | None \<Rightarrow> False)"

definition is_value :: "entry \<Rightarrow> bool" where
  "is_value e = (case ParseInternalKey (fst e) of Some k \<Rightarrow> vtype k = kTypeValue | None \<Rightarrow> False)"

text \<open>An entry is shown when it is the first (newest) version in the snapshot, and a value.\<close>

definition yields :: "u64 \<Rightarrow> entry list \<Rightarrow> nat \<Rightarrow> bool" where
  "yields s E i \<longleftrightarrow>
     in_snapshot s (E ! i) \<and> is_value (E ! i) \<and>
     (\<forall>j < i. in_snapshot s (E ! j) \<longrightarrow> entry_user (E ! j) \<noteq> entry_user (E ! i))"

definition user_view :: "u64 \<Rightarrow> entry list \<Rightarrow> entry list" where
  "user_view s E = map (\<lambda>i. (entry_user (E ! i), snd (E ! i))) (filter (yields s E) [0..<length E])"

definition parseable :: "entry \<Rightarrow> bool" where
  "parseable e \<longleftrightarrow> ParseInternalKey (fst e) \<noteq> None"

lemma parsed_entry:
  assumes "parseable e"
  obtains q t where "ParseInternalKey (fst e) = Some \<lparr>user_key = entry_user e, sequence = q, vtype = t\<rparr>"
    "in_snapshot s e \<longleftrightarrow> q \<le> s" "is_value e \<longleftrightarrow> t = kTypeValue"
    "fst e = entry_user e @ EncodeFixed64 (PackSequenceAndType q t)" "q \<le> kMaxSequenceNumber"
proof -
  obtain k where k: "ParseInternalKey (fst e) = Some k" using assms by (auto simp: parseable_def)
  then have a: "fst e = user_key k @ EncodeFixed64 (PackSequenceAndType (sequence k) (vtype k))" "sequence k \<le> kMaxSequenceNumber"
    using AppendInternalKey_Parse [OF k] by (simp_all add: AppendInternalKey_eq)
  then have u: "entry_user e = user_key k" by (simp add: entry_user_def)
  show thesis by (rule that [of "sequence k" "vtype k"]) (use a k in \<open>simp_all add: u in_snapshot_def is_value_def\<close>)
qed

subsection \<open>The contract\<close>

locale snapshot = inner: iterator_over vt icmp ok E at
  for vt :: "'s Iterator" and ok :: "bytes \<Rightarrow> bool" and E :: "entry list" and at :: "'s \<Rightarrow> nat \<Rightarrow> bool" +
  fixes s :: u64
  assumes sorted: "sorted_entries icmp valid_ikey E"
    and parses: "\<forall>e \<in> set E. parseable e"
    and number_ok: "s \<le> kMaxSequenceNumber"
begin

abbreviation "uk i \<equiv> entry_user (E ! i)"
abbreviation "vis i \<equiv> in_snapshot s (E ! i)"
abbreviation "val i \<equiv> is_value (E ! i)"
abbreviation "yld i \<equiv> yields s E i"
abbreviation "n \<equiv> length E"
abbreviation "Y \<equiv> filter yld [0..<n]"

lemma uk_mono:
  assumes "i \<le> j" "j < n"
  shows "slice_compare (uk i) (uk j) \<le> 0"
proof (cases "i = j")
  case False
  have p: "parseable (E ! i)" "parseable (E ! j)" using parses assms by simp_all
  obtain v v' where "fst (E ! i) = uk i @ EncodeFixed64 v" "fst (E ! j) = uk j @ EncodeFixed64 v'"
    using parsed_entry [OF p(1)] parsed_entry [OF p(2)] by metis
  moreover from sorted_entries_less [OF sorted, of i j] False assms have "icmp (fst (E ! i)) (fst (E ! j)) < 0" by simp
  ultimately show ?thesis by (auto simp: icmp_def ikey_compare split: if_splits)
qed (simp add: slice_order.cmp_self)

text \<open>How many entries are shown before a position.\<close>

definition pos :: "nat \<Rightarrow> nat" where
  "pos t = length (filter yld [0..<t])"

lemma pos_Suc: "pos (Suc t) = (if yld t then pos t + 1 else pos t)"
  by (simp add: pos_def)

lemma pos_0: "pos 0 = 0"
  by (simp add: pos_def)

lemma pos_same:
  assumes "t \<le> u" "\<And>j. t \<le> j \<Longrightarrow> j < u \<Longrightarrow> \<not> yld j"
  shows "pos u = pos t"
  using assms by (induction u rule: dec_induct) (simp_all add: pos_Suc)

lemma pos_mono: "t \<le> u \<Longrightarrow> pos t \<le> pos u"
  by (induction u rule: dec_induct) (simp_all add: pos_Suc)

lemma Y_split: "t \<le> n \<Longrightarrow> Y = filter yld [0..<t] @ filter yld [t..<n]"
  by (metis filter_append le_add_diff_inverse upt_add_eq_append zero_le)

lemma nth_pos:
  assumes "yld t" "t < n"
  shows "Y ! pos t = t" "pos t < length Y"
proof -
  have "[t..<n] = t # [Suc t..<n]" using assms(2) by (simp add: upt_conv_Cons)
  then have "Y = filter yld [0..<t] @ t # filter yld [Suc t..<n]" using Y_split [of t] assms by simp
  then show "Y ! pos t = t" "pos t < length Y" unfolding pos_def by (metis nth_append_length, simp)
qed

lemma pos_le: "t \<le> n \<Longrightarrow> pos t \<le> length Y"
  using Y_split [of t] by (simp add: pos_def)

lemma Y_nth:
  assumes "k < length Y"
  shows "Y ! k < n" "yld (Y ! k)" "pos (Y ! k) = k"
proof -
  have "Y ! k \<in> set Y" using assms by (rule nth_mem)
  then show a: "Y ! k < n" "yld (Y ! k)" by simp_all
  show "pos (Y ! k) = k" using nth_pos [OF a(2,1)] assms by (simp add: nth_eq_iff_index_eq)
qed

lemma yldD: "yld i \<Longrightarrow> vis i \<and> val i" "yld i \<Longrightarrow> j < i \<Longrightarrow> vis j \<Longrightarrow> uk j \<noteq> uk i"
  by (simp_all add: yields_def)

text \<open>Moving forwards. The state of the loop: shown entries from \<open>t\<close> on are not hidden, all others are or will be.\<close>

definition skips :: "nat \<Rightarrow> nat \<Rightarrow> bool \<Rightarrow> bytes \<Rightarrow> bool" where
  "skips t i skipping skip \<longleftrightarrow>
     (\<forall>j. i \<le> j \<and> j < n \<and> yld j \<and> t \<le> j \<longrightarrow> \<not> (skipping \<and> slice_compare (uk j) skip \<le> 0)) \<and>
     (\<forall>j. i \<le> j \<and> j < n \<and> vis j \<and> val j \<and> \<not> (yld j \<and> t \<le> j) \<longrightarrow>
        (skipping \<and> slice_compare (uk j) skip \<le> 0) \<or>
        (\<exists>j'. i \<le> j' \<and> j' < j \<and> vis j' \<and> uk j' = uk j \<and> (\<not> val j' \<or> (yld j' \<and> t \<le> j')))) \<and>
     (skipping \<longrightarrow> (\<forall>j. i \<le> j \<and> j < n \<and> vis j \<longrightarrow> slice_compare skip (uk j) \<le> 0)) \<and>
     (\<forall>j. t \<le> j \<and> j < i \<longrightarrow> \<not> yld j)"

text \<open>The newest visible version of the user key of a visible entry.\<close>

lemma newest_version:
  assumes "vis j"
  obtains j' where "j' \<le> j" "vis j'" "uk j' = uk j" "\<not> val j' \<or> yld j'"
proof -
  define j' where "j' = (LEAST i. vis i \<and> uk i = uk j)"
  have j': "vis j' \<and> uk j' = uk j" unfolding j'_def by (rule LeastI [of _ j]) (simp add: assms)
  have "\<not> (vis i \<and> uk i = uk j)" if "i < j'" for i using that unfolding j'_def by (rule not_less_Least)
  then have "\<not> val j' \<or> yld j'" using j' by (auto simp: yields_def)
  moreover have "j' \<le> j" unfolding j'_def by (rule Least_le) (simp add: assms)
  ultimately show thesis using that j' by blast
qed

lemma skips_start:
  assumes "\<And>j j'. j' < i \<Longrightarrow> i \<le> j \<Longrightarrow> j < n \<Longrightarrow> vis j \<Longrightarrow> vis j' \<Longrightarrow> uk j' \<noteq> uk j"
  shows "skips i i False skip"
proof -
  have "\<exists>j'. i \<le> j' \<and> j' < j \<and> vis j' \<and> uk j' = uk j \<and> (\<not> val j' \<or> (yld j' \<and> i \<le> j'))"
    if j: "i \<le> j" "j < n" "vis j" "val j" "\<not> (yld j \<and> i \<le> j)" for j
  proof -
    obtain j' where j': "j' \<le> j" "vis j'" "uk j' = uk j" "\<not> val j' \<or> yld j'" by (rule newest_version [OF j(3)])
    have "i \<le> j'" using assms [of j' j] j j' by (metis not_less)
    moreover have "j' \<noteq> j" using j j' by auto
    ultimately show ?thesis using j' by (intro exI [of _ j']) auto
  qed
  then show ?thesis unfolding skips_def by auto
qed

lemma skips_next:
  assumes "y < n" "yld y" "i \<le> y" "\<And>j. i \<le> j \<Longrightarrow> j < y \<Longrightarrow> \<not> vis j"
  shows "skips (Suc y) i True (uk y)"
proof -
  have first: "y \<le> j" if "i \<le> j" "vis j" for j using that assms(4) [of j] by (meson not_less)
  have A: "\<not> slice_compare (uk j) (uk y) \<le> 0" if "j < n" "y < j" "uk y \<noteq> uk j" for j
    using uk_mono [of y j] that slice_order.flip [of "uk y" "uk j"] slice_compare_eq_0 [of "uk y" "uk j"] by force
  have ne: "uk y \<noteq> uk j" if "yld j" "y < j" for j using yldD(2) [OF that] yldD(1) [OF assms(2)] by simp
  have B: "slice_compare (uk j) (uk y) \<le> 0 \<or>
      (\<exists>j'. i \<le> j' \<and> j' < j \<and> vis j' \<and> uk j' = uk j \<and> (\<not> val j' \<or> (yld j' \<and> Suc y \<le> j')))"
    if j: "i \<le> j" "j < n" "vis j" "val j" "\<not> (yld j \<and> Suc y \<le> j)" for j
  proof (cases "uk j = uk y")
    case False
    then have yj: "y < j" using first [OF j(1,3)] by (metis le_neq_implies_less)
    obtain j' where j': "j' \<le> j" "vis j'" "uk j' = uk j" "\<not> val j' \<or> yld j'" by (rule newest_version [OF j(3)])
    have "y < j'"
    proof (rule ccontr)
      assume "\<not> y < j'"
      then have "slice_compare (uk j) (uk y) \<le> 0" using uk_mono [of j' y] assms(1) j'(3) by simp
      then show False using A [OF j(2) yj] False by simp
    qed
    moreover have "j' \<noteq> j" using j j' yj by auto
    ultimately show ?thesis using j' assms(3) by (intro disjI2 exI [of _ j']) auto
  qed (simp add: slice_order.cmp_self)
  have C: "slice_compare (uk y) (uk j) \<le> 0" if "i \<le> j" "j < n" "vis j" for j using uk_mono [OF first [OF that(1,3)] that(2)] .
  show ?thesis unfolding skips_def using A ne B C assms(3) by (auto simp: Suc_le_eq)
qed

lemma skips_return:
  assumes "skips t i skipping skip" "i < n" "vis i" "val i" "\<not> (skipping \<and> slice_compare (uk i) skip \<le> 0)"
  shows "yld i" "pos t = pos i"
proof -
  have "(skipping \<and> slice_compare (uk i) skip \<le> 0) \<or> (\<exists>j'. i \<le> j' \<and> j' < i \<and> vis j' \<and> uk j' = uk i \<and> (\<not> val j' \<or> (yld j' \<and> t \<le> j')))"
    if "\<not> (yld i \<and> t \<le> i)" using assms(1-4) that unfolding skips_def by blast
  then have "yld i \<and> t \<le> i" using assms(5) by (meson leD)
  then show "yld i" "pos t = pos i" using assms(1) pos_same [of t i] by (auto simp: skips_def)
qed

lemma skips_pass:
  assumes "skips t i skipping skip" "\<not> vis i \<or> (val i \<and> skipping \<and> slice_compare (uk i) skip \<le> 0)" "i < n"
  shows "skips t (Suc i) skipping skip"
proof -
  have ni: "\<not> (yld i \<and> t \<le> i)" using assms yldD(1) [of i] unfolding skips_def by blast
  have "(skipping \<and> slice_compare (uk j) skip \<le> 0) \<or>
      (\<exists>j'. Suc i \<le> j' \<and> j' < j \<and> vis j' \<and> uk j' = uk j \<and> (\<not> val j' \<or> (yld j' \<and> t \<le> j')))"
    if j: "Suc i \<le> j" "j < n" "vis j" "val j" "\<not> (yld j \<and> t \<le> j)" for j
  proof -
    consider "skipping \<and> slice_compare (uk j) skip \<le> 0"
      | j' where "i \<le> j'" "j' < j" "vis j'" "uk j' = uk j" "\<not> val j' \<or> (yld j' \<and> t \<le> j')"
      using assms(1) j unfolding skips_def by (metis Suc_leD)
    then show ?thesis
    proof cases
      case 2
      then have "j' \<noteq> i" using assms(2) ni by auto
      then show ?thesis using 2 by (intro disjI2 exI [of _ j']) auto
    qed blast
  qed
  moreover have "\<not> yld j" if "t \<le> j" "j < Suc i" for j using assms(1) that ni unfolding skips_def by (metis less_antisym)
  moreover have "\<not> (skipping \<and> slice_compare (uk j) skip \<le> 0)" if "Suc i \<le> j" "j < n" "yld j" "t \<le> j" for j
    using assms(1) that unfolding skips_def by (metis Suc_leD)
  moreover have "slice_compare skip (uk j) \<le> 0" if "skipping" "Suc i \<le> j" "j < n" "vis j" for j
    using assms(1) that unfolding skips_def by (metis Suc_leD)
  ultimately show ?thesis unfolding skips_def by blast
qed

lemma skips_deletion:
  assumes "skips t i skipping skip" "vis i" "\<not> val i" "i < n"
  shows "skips t (Suc i) True (uk i)"
proof -
  have ni: "\<not> yld i" using assms(3) yldD(1) by blast
  have less: "\<not> slice_compare (uk j) (uk i) \<le> 0" if "Suc i \<le> j" "j < n" "yld j" for j
  proof -
    have "uk i \<noteq> uk j" using yldD(2) [OF that(3), of i] that(1) assms(2) by simp
    then show ?thesis using uk_mono [of i j] that slice_order.flip [of "uk i" "uk j"] slice_compare_eq_0 [of "uk i" "uk j"] by force
  qed
  have "slice_compare (uk j) (uk i) \<le> 0 \<or>
      (\<exists>j'. Suc i \<le> j' \<and> j' < j \<and> vis j' \<and> uk j' = uk j \<and> (\<not> val j' \<or> (yld j' \<and> t \<le> j')))"
    if j: "Suc i \<le> j" "j < n" "vis j" "val j" "\<not> (yld j \<and> t \<le> j)" for j
  proof -
    consider "skipping" "slice_compare (uk j) skip \<le> 0"
      | j' where "i \<le> j'" "j' < j" "vis j'" "uk j' = uk j" "\<not> val j' \<or> (yld j' \<and> t \<le> j')"
      using assms(1) j unfolding skips_def by (metis Suc_leD)
    then show ?thesis
    proof cases
      case 1
      then have "slice_compare skip (uk i) \<le> 0" using assms unfolding skips_def by blast
      then show ?thesis using slice_order.trans_le [of "uk j" skip "uk i"] 1 by simp
    next
      case 2
      then show ?thesis using slice_order.cmp_self [of "uk i"] by (cases "j' = i") (auto intro: exI [of _ j'])
    qed
  qed
  moreover have "\<not> yld j" if "t \<le> j" "j < Suc i" for j using assms(1) that ni unfolding skips_def by (metis less_antisym)
  moreover have "slice_compare (uk i) (uk j) \<le> 0" if "Suc i \<le> j" "j < n" for j using uk_mono [of i j] that by simp
  ultimately show ?thesis using less unfolding skips_def by blast
qed

definition core :: "'s DBIter \<Rightarrow> bool" where
  "core d \<longleftrightarrow> good_seed (di_rnd d) \<and> di_sequence d = s \<and> status_ok (di_status d)"

lemma core_update [simp]:
  "core (d\<lparr>di_iter := i\<rparr>) = core d" "core (d\<lparr>di_saved_key := k\<rparr>) = core d" "core (d\<lparr>di_saved_value := v\<rparr>) = core d"
  "core (d\<lparr>di_direction := r\<rparr>) = core d" "core (d\<lparr>di_valid := b\<rparr>) = core d" "core (ClearSavedValue d) = core d"
  by (simp_all add: core_def ClearSavedValue_def)

text \<open>A reverse iterator is at the last visible entry before the shown one, or before all entries.\<close>

definition left_of :: "nat \<Rightarrow> 's \<Rightarrow> bool" where
  "left_of y i \<longleftrightarrow> (\<exists>p. at i p \<and> (if p < n then p < y \<and> vis p \<and> (\<forall>j. p < j \<and> j < y \<longrightarrow> \<not> vis j) else \<forall>j < y. \<not> vis j))"

definition shows_entry :: "nat \<Rightarrow> 's DBIter \<Rightarrow> bool" where
  "shows_entry y d \<longleftrightarrow>
     (case di_direction d of
        kForward \<Rightarrow> at (di_iter d) y
      | kReverse \<Rightarrow> di_saved_key d = uk y \<and> di_saved_value d = snd (E ! y) \<and> left_of y (di_iter d))"

definition db_at :: "'s DBIter \<Rightarrow> nat \<Rightarrow> bool" where
  "db_at d k \<longleftrightarrow> core d \<and> k \<le> length Y \<and> (\<exists>p. at (di_iter d) p) \<and>
     (if k < length Y then di_valid d \<and> shows_entry (Y ! k) d else \<not> di_valid d)"

lemma ParseKey_at:
  assumes "at (di_iter d) i" "i < n" "core d"
  obtains q t d' where "ParseKey vt d = Some (Some \<lparr>user_key = uk i, sequence = q, vtype = t\<rparr>, d')"
    "vis i \<longleftrightarrow> q \<le> s" "val i \<longleftrightarrow> t = kTypeValue" "core d'" "di_iter d' = di_iter d" "di_saved_key d' = di_saved_key d"
    "di_saved_value d' = di_saved_value d" "di_direction d' = di_direction d" "di_valid d' = di_valid d"
proof -
  have "parseable (E ! i)" using parses assms(2) by simp
  then obtain q t where k: "ParseInternalKey (fst (E ! i)) = Some \<lparr>user_key = uk i, sequence = q, vtype = t\<rparr>"
    "vis i \<longleftrightarrow> q \<le> s" "val i \<longleftrightarrow> t = kTypeValue" by (rule parsed_entry)
  have key: "it_key vt (di_iter d) = fst (E ! i)" using inner.at_entry [OF assms(1,2)] by (metis fst_conv)
  obtain d' where d': "take_samples (fst (E ! i)) (d\<lparr>di_bytes_counter := di_bytes_counter d - int (length (fst (E ! i)) + length (it_value vt (di_iter d)))\<rparr>) = Some d'"
    "resampled (d\<lparr>di_bytes_counter := di_bytes_counter d - int (length (fst (E ! i)) + length (it_value vt (di_iter d)))\<rparr>) d'"
    using take_samples_returns [of "d\<lparr>di_bytes_counter := di_bytes_counter d - int (length (fst (E ! i)) + length (it_value vt (di_iter d)))\<rparr>" "fst (E ! i)"]
      assms(3) by (auto simp: core_def)
  show thesis
    by (rule that [of q t d']) (use assms(3) k d' in \<open>auto simp: ParseKey_def key Let_def resampled_def core_def\<close>)
qed

lemma FindNext_ok:
  "skips t i skipping (di_saved_key d) \<Longrightarrow> t \<le> n \<Longrightarrow> i < n \<Longrightarrow> at (di_iter d) i \<Longrightarrow> core d \<Longrightarrow> di_direction d = kForward \<Longrightarrow>
    \<exists>d'. FindNextUserEntry slice_compare vt skipping d = Some d' \<and> db_at d' (pos t)"
proof (induction "n - i" arbitrary: i skipping d)
  case (Suc m)
  obtain q ty d1 where p: "ParseKey vt d = Some (Some \<lparr>user_key = uk i, sequence = q, vtype = ty\<rparr>, d1)"
    "vis i \<longleftrightarrow> q \<le> s" "val i \<longleftrightarrow> ty = kTypeValue" "core d1" "di_iter d1 = di_iter d" "di_saved_key d1 = di_saved_key d"
    "di_saved_value d1 = di_saved_value d" "di_direction d1 = di_direction d" "di_valid d1 = di_valid d"
    using ParseKey_at [OF Suc.prems(4,3,5)] by metis
  have q: "di_sequence d1 = s" using p(4) by (simp add: core_def)
  show ?case
  proof (cases "vis i \<and> val i \<and> \<not> (skipping \<and> slice_compare (uk i) (di_saved_key d) \<le> 0)")
    case True
    note r = skips_return [OF Suc.prems(1,3)]
    have "db_at (d1\<lparr>di_valid := True, di_saved_key := []\<rparr>) (pos t)"
      using True r Suc.prems(4,6) p nth_pos [of i] Suc.prems(3) by (auto simp: db_at_def core_def shows_entry_def)
    then show ?thesis using True p q by (auto simp: FindNextUserEntry.simps [of _ _ _ d] next_entry_def)
  next
    case False
    have "\<exists>sk d2. next_entry slice_compare (Some \<lparr>user_key = uk i, sequence = q, vtype = ty\<rparr>) skipping d1 = Inr (sk, d2) \<and>
        skips t (Suc i) sk (di_saved_key d2) \<and> core d2 \<and> di_iter d2 = di_iter d \<and> di_direction d2 = kForward"
      using False skips_pass [OF Suc.prems(1) _ Suc.prems(3)] skips_deletion [OF Suc.prems(1) _ _ Suc.prems(3)] p q Suc.prems(6)
      by (cases ty) (auto simp: next_entry_def core_def)
    then obtain sk d2 where d2: "next_entry slice_compare (Some \<lparr>user_key = uk i, sequence = q, vtype = ty\<rparr>) skipping d1 = Inr (sk, d2)"
        "skips t (Suc i) sk (di_saved_key d2)" "core d2" "di_iter d2 = di_iter d" "di_direction d2 = kForward" by blast
    obtain i' where i': "it_Next vt (di_iter d) = Some i'" "at i' (Suc i)" using inner.Next [OF Suc.prems(4,3)] by auto
    note step = FindNextUserEntry.simps [of slice_compare vt skipping d] p(1) d2(1,4) i'(1)
    show ?thesis
    proof (cases "Suc i < n")
      case True
      then have "it_Valid vt i'" using inner.at_Valid [OF i'(2)] by simp
      moreover have "\<exists>d'. FindNextUserEntry slice_compare vt sk (d2\<lparr>di_iter := i'\<rparr>) = Some d' \<and> db_at d' (pos t)"
        using Suc.hyps(1) [of "Suc i" sk "d2\<lparr>di_iter := i'\<rparr>"] Suc.hyps(2) True d2 i'(2) Suc.prems(2) by (simp add: core_def)
      ultimately show ?thesis by (simp add: step)
    next
      case False
      then have e: "Suc i = n" using Suc.prems(3) by simp
      then have "\<not> it_Valid vt i'" using inner.at_Valid [OF i'(2)] by simp
      moreover have "pos t = length Y" using pos_same [of t n] d2(2) Suc.prems(2) e by (simp add: skips_def pos_def)
      then have "db_at (d2\<lparr>di_iter := i', di_saved_key := [], di_valid := False\<rparr>) (pos t)"
        using d2(3) i'(2) by (auto simp: db_at_def core_def)
      ultimately show ?thesis by (simp add: step)
    qed
  qed
qed simp

text \<open>
  Moving backwards: \<open>m\<close> entries are left to be visited and \<open>k\<close> entries are shown before the place the
  scan started from; the candidate is the entry that was saved last.
\<close>

definition candidate :: "nat \<Rightarrow> nat \<Rightarrow> ValueType \<Rightarrow> 's DBIter \<Rightarrow> bool" where
  "candidate m k value_type d \<longleftrightarrow>
     (if value_type = kTypeDeletion then k = pos m
      else \<exists>c. m \<le> c \<and> c < n \<and> k = pos (Suc c) \<and> vis c \<and> val c \<and> (\<forall>j. m \<le> j \<and> j < c \<longrightarrow> \<not> vis j) \<and>
        di_saved_key d = uk c \<and> di_saved_value d = snd (E ! c))"

lemma candidate_iter: "candidate m k value_type (d\<lparr>di_iter := i\<rparr>) = candidate m k value_type d"
  by (simp add: candidate_def)

definition found :: "nat \<Rightarrow> ValueType \<Rightarrow> 's DBIter \<Rightarrow> bool" where
  "found k value_type d \<longleftrightarrow> core d \<and> di_direction d = kReverse \<and> (\<exists>p. at (di_iter d) p) \<and>
     (if k = 0 then value_type = kTypeDeletion else value_type \<noteq> kTypeDeletion \<and> shows_entry (Y ! (k - 1)) d)"

lemma found_candidate:
  assumes "c < n" "k = pos (Suc c)" "vis c" "val c" "di_saved_key d = uk c" "di_saved_value d = snd (E ! c)"
    and "\<And>j. j < c \<Longrightarrow> vis j \<Longrightarrow> uk j \<noteq> uk c" "core d" "di_direction d = kReverse" "left_of c (di_iter d)"
  shows "found k kTypeValue d"
proof -
  have y: "yld c" using assms(3,4,7) by (auto simp: yields_def)
  then show ?thesis
    using assms nth_pos [OF y assms(1)] by (auto simp: found_def shows_entry_def pos_Suc left_of_def)
qed

lemma candidate_end:
  assumes "candidate 0 k value_type d" "core d" "di_direction d = kReverse" "at (di_iter d) n"
  shows "found k value_type d"
proof (cases "value_type = kTypeDeletion")
  case True
  then show ?thesis using assms by (auto simp: candidate_def found_def pos_0)
next
  case False
  then have v: "value_type = kTypeValue" by (cases value_type) auto
  obtain c where c: "c < n" "k = pos (Suc c)" "vis c" "val c" "\<forall>j < c. \<not> vis j" "di_saved_key d = uk c" "di_saved_value d = snd (E ! c)"
    using assms(1) False by (auto simp: candidate_def)
  have "left_of c (di_iter d)" using c(5) assms(4) by (auto simp: left_of_def)
  then show ?thesis using found_candidate [of c k d] c assms(2,3) v by simp
qed

lemma candidate_break:
  assumes "candidate (Suc i) k value_type d" "value_type \<noteq> kTypeDeletion" "vis i" "slice_compare (uk i) (di_saved_key d) < 0"
    and "core d" "di_direction d = kReverse" "at (di_iter d) i" "i < n"
  shows "found k value_type d"
proof -
  have v: "value_type = kTypeValue" using assms(2) by (cases value_type) auto
  obtain c where c: "i < c" "c < n" "k = pos (Suc c)" "vis c" "val c" "\<forall>j. Suc i \<le> j \<and> j < c \<longrightarrow> \<not> vis j"
      "di_saved_key d = uk c" "di_saved_value d = snd (E ! c)"
    using assms(1,2) unfolding candidate_def by (metis Suc_le_lessD)
  have "uk j \<noteq> uk c" if "j < c" "vis j" for j
  proof -
    have "j \<le> i" using that c(6) by (meson not_less_eq_eq)
    then have "slice_compare (uk j) (uk i) \<le> 0" by (rule uk_mono [OF _ assms(8)])
    then have "slice_compare (uk j) (uk c) < 0" using slice_order.le_less_trans [of "uk j" "uk i" "uk c"] assms(4) c(7) by simp
    then show ?thesis using slice_order.cmp_self [of "uk c"] by auto
  qed
  moreover have "left_of c (di_iter d)" using assms(3,7,8) c(1,6) by (auto simp: left_of_def Suc_le_eq intro!: exI [of _ i])
  ultimately show ?thesis using found_candidate [of c k d] c assms(5,6) v by simp
qed

lemma candidate_skip:
  assumes "candidate (Suc i) k value_type d" "\<not> vis i"
  shows "candidate i k value_type d"
proof -
  have "\<not> yld i" using assms(2) yldD(1) by blast
  then show ?thesis using assms unfolding candidate_def by (metis Suc_leD Suc_leI le_neq_implies_less pos_Suc)
qed

lemma candidate_replaced:
  assumes "candidate (Suc i) k value_type d" "vis i" "\<not> (value_type \<noteq> kTypeDeletion \<and> slice_compare (uk i) (di_saved_key d) < 0)"
  shows "k = pos (Suc i)"
proof (cases "value_type = kTypeDeletion")
  case False
  obtain c where c: "i < c" "c < n" "k = pos (Suc c)" "\<forall>j. Suc i \<le> j \<and> j < c \<longrightarrow> \<not> vis j" "di_saved_key d = uk c"
    using assms(1) False unfolding candidate_def by (metis Suc_le_lessD)
  have "slice_compare (uk i) (uk c) = 0" using uk_mono [of i c] c assms(3) False by simp
  then have "uk i = uk c" by (simp add: slice_compare_eq_0)
  then have "\<not> yld c" using yldD(2) [of c i] c(1) assms(2) by auto
  then have "\<not> yld j" if "Suc i \<le> j" "j < Suc c" for j using that c(4) yldD(1) [of j] by (cases "j = c") auto
  then show ?thesis using pos_same [of "Suc i" "Suc c"] c(1,3) by simp
qed (use assms(1) in \<open>simp add: candidate_def\<close>)

lemma prev_entry_ok:
  assumes "candidate (Suc i) k value_type d" "core d" "di_direction d = kReverse" "at (di_iter d) i" "i < n"
    and "vis i \<longleftrightarrow> q \<le> s" "val i \<longleftrightarrow> ty = kTypeValue"
    and "prev_entry slice_compare vt (Some \<lparr>user_key = uk i, sequence = q, vtype = ty\<rparr>) value_type d = r"
  shows "case r of None \<Rightarrow> found k value_type d
    | Some (value_type', d') \<Rightarrow> candidate i k value_type' d' \<and> core d' \<and> di_direction d' = kReverse \<and> di_iter d' = di_iter d"
proof -
  have sq: "di_sequence d = s" using assms(2) by (simp add: core_def)
  consider (invisible) "\<not> vis i" | (break) "vis i" "value_type \<noteq> kTypeDeletion \<and> slice_compare (uk i) (di_saved_key d) < 0"
    | (replace) "vis i" "\<not> (value_type \<noteq> kTypeDeletion \<and> slice_compare (uk i) (di_saved_key d) < 0)" by blast
  then show ?thesis
  proof cases
    case invisible
    then show ?thesis using candidate_skip [OF assms(1)] assms(2,3,6,8) sq by (auto simp: prev_entry_def)
  next
    case break
    then show ?thesis using candidate_break [OF assms(1)] assms sq by (auto simp: prev_entry_def)
  next
    case replace
    note k = candidate_replaced [OF assms(1) replace]
    have e: "it_key vt (di_iter d) = fst (E ! i)" "it_value vt (di_iter d) = snd (E ! i)"
      using inner.at_entry [OF assms(4,5)] by (metis fst_conv, metis snd_conv)
    show ?thesis
    proof (cases ty)
      case kTypeDeletion
      then have "\<not> yld i" using assms(7) yldD(1) [of i] by auto
      then have k': "k = pos i" using k by (simp add: pos_Suc)
      have "prev_entry slice_compare vt (Some \<lparr>user_key = uk i, sequence = q, vtype = ty\<rparr>) value_type d =
          Some (kTypeDeletion, ClearSavedValue (d\<lparr>di_saved_key := []\<rparr>))"
        using kTypeDeletion replace assms(6) sq by (simp add: prev_entry_def)
      then have "r = Some (kTypeDeletion, ClearSavedValue (d\<lparr>di_saved_key := []\<rparr>))" using assms(8) by simp
      then show ?thesis using k' assms(2,3) by (simp add: candidate_def) (simp add: ClearSavedValue_def)
    next
      case kTypeValue
      then have "prev_entry slice_compare vt (Some \<lparr>user_key = uk i, sequence = q, vtype = ty\<rparr>) value_type d =
          Some (kTypeValue, d\<lparr>di_saved_key := uk i, di_saved_value := snd (E ! i)\<rparr>)"
        using replace assms(6) sq e by (simp add: prev_entry_def entry_user_def)
      then have "r = Some (kTypeValue, d\<lparr>di_saved_key := uk i, di_saved_value := snd (E ! i)\<rparr>)" using assms(8) by simp
      then show ?thesis using k assms(2,3,5,7) kTypeValue replace(1) by (auto simp: candidate_def)
    qed
  qed
qed

lemma scan_prev_ok:
  "candidate (Suc i) k value_type d \<Longrightarrow> core d \<Longrightarrow> di_direction d = kReverse \<Longrightarrow> at (di_iter d) i \<Longrightarrow> i < n \<Longrightarrow>
    \<exists>vt' d'. scan_prev slice_compare vt value_type d = Some (vt', d') \<and> found k vt' d'"
proof (induction i arbitrary: value_type d)
  case (0 value_type d)
  obtain q ty d1 where p: "ParseKey vt d = Some (Some \<lparr>user_key = uk 0, sequence = q, vtype = ty\<rparr>, d1)"
    "vis 0 \<longleftrightarrow> q \<le> s" "val 0 \<longleftrightarrow> ty = kTypeValue" "core d1" "di_iter d1 = di_iter d" "di_saved_key d1 = di_saved_key d"
    "di_saved_value d1 = di_saved_value d" "di_direction d1 = di_direction d" "di_valid d1 = di_valid d"
    using ParseKey_at [OF "0.prems"(4,5,2)] by metis
  have c: "candidate (Suc 0) k value_type d1" using "0.prems"(1) p by (simp add: candidate_def)
  note e = prev_entry_ok [OF c p(4) _ _ "0.prems"(5) p(2,3)] 
  obtain i' where i': "it_Prev vt (di_iter d) = Some i'" "at i' n" using inner.Prev [OF "0.prems"(4,5)] by auto
  have nv: "\<not> it_Valid vt i'" using inner.at_Valid [OF i'(2)] by simp
  show ?case
  proof (cases "prev_entry slice_compare vt (Some \<lparr>user_key = uk 0, sequence = q, vtype = ty\<rparr>) value_type d1")
    case None
    then show ?thesis using e [OF _ _ None] "0.prems" p by (simp add: scan_prev.simps [of _ _ _ d])
  next
    case (Some r)
    obtain vt' d2 where r: "r = (vt', d2)" by (cases r)
    have d2: "candidate 0 k vt' d2" "core d2" "di_direction d2 = kReverse" "di_iter d2 = di_iter d"
      using e [OF _ _ Some] "0.prems" p by (simp_all add: r)
    have "found k vt' (d2\<lparr>di_iter := i'\<rparr>)"
      using d2 i'(2) by (intro candidate_end) (simp_all add: candidate_iter)
    then show ?thesis using p(1) Some r d2(4) i'(1) nv by (simp add: scan_prev.simps [of _ _ _ d])
  qed
next
  case (Suc i value_type d)
  obtain q ty d1 where p: "ParseKey vt d = Some (Some \<lparr>user_key = uk (Suc i), sequence = q, vtype = ty\<rparr>, d1)"
    "vis (Suc i) \<longleftrightarrow> q \<le> s" "val (Suc i) \<longleftrightarrow> ty = kTypeValue" "core d1" "di_iter d1 = di_iter d" "di_saved_key d1 = di_saved_key d"
    "di_saved_value d1 = di_saved_value d" "di_direction d1 = di_direction d" "di_valid d1 = di_valid d"
    using ParseKey_at [OF Suc.prems(4,5,2)] by metis
  have c: "candidate (Suc (Suc i)) k value_type d1" using Suc.prems(1) p by (simp add: candidate_def)
  note e = prev_entry_ok [OF c p(4) _ _ Suc.prems(5) p(2,3)]
  obtain i' where i': "it_Prev vt (di_iter d) = Some i'" "at i' i" using inner.Prev [OF Suc.prems(4,5)] by auto
  have v: "it_Valid vt i'" using inner.at_Valid [OF i'(2)] Suc.prems(5) by simp
  show ?case
  proof (cases "prev_entry slice_compare vt (Some \<lparr>user_key = uk (Suc i), sequence = q, vtype = ty\<rparr>) value_type d1")
    case None
    then show ?thesis using e [OF _ _ None] Suc.prems p by (simp add: scan_prev.simps [of _ _ _ d])
  next
    case (Some r)
    obtain vt' d2 where r: "r = (vt', d2)" by (cases r)
    have d2: "candidate (Suc i) k vt' d2" "core d2" "di_direction d2 = kReverse" "di_iter d2 = di_iter d"
      using e [OF _ _ Some] Suc.prems p by (simp_all add: r)
    have "\<exists>vt'' d'. scan_prev slice_compare vt vt' (d2\<lparr>di_iter := i'\<rparr>) = Some (vt'', d') \<and> found k vt'' d'"
      using d2 i'(2) Suc.prems(5) by (intro Suc.IH) (simp_all add: candidate_iter)
    then show ?thesis using p(1) Some r d2(4) i'(1) v by (simp add: scan_prev.simps [of _ _ _ d])
  qed
qed

lemma FindPrev_ok:
  assumes "core d" "di_direction d = kReverse" "at (di_iter d) p" "m = (if p < n then Suc p else 0)"
  shows "\<exists>d'. FindPrevUserEntry slice_compare vt d = Some d' \<and> db_at d' (if pos m = 0 then length Y else pos m - 1)"
proof -
  have "\<exists>vt' d'. (if it_Valid vt (di_iter d) then scan_prev slice_compare vt kTypeDeletion d else Some (kTypeDeletion, d)) = Some (vt', d') \<and>
      found (pos m) vt' d'"
  proof (cases "p < n")
    case True
    then show ?thesis using scan_prev_ok [of p "pos m" kTypeDeletion d] assms inner.at_Valid [OF assms(3)] by (simp add: candidate_def)
  next
    case False
    then show ?thesis using assms inner.at_Valid [OF assms(3)] by (auto simp: found_def pos_0)
  qed
  then obtain vt' d' where f: "(if it_Valid vt (di_iter d) then scan_prev slice_compare vt kTypeDeletion d else Some (kTypeDeletion, d)) = Some (vt', d')"
    "found (pos m) vt' d'" by blast
  have "pos m \<le> length Y" using assms(4) by (intro pos_le) (auto split: if_splits)
  then show ?thesis
    using f(2) unfolding FindPrevUserEntry_def f(1)
    by (auto simp: found_def db_at_def core_def ClearSavedValue_def shows_entry_def split: if_splits)
qed

definition same_user :: "nat \<Rightarrow> nat \<Rightarrow> bool" where
  "same_user i y \<longleftrightarrow> (\<forall>j. i \<le> j \<and> j \<le> y \<longrightarrow> uk j = uk y)"

lemma same_user_refl: "same_user y y"
  by (auto simp: same_user_def)

lemma scan_back_ok:
  "core d \<Longrightarrow> at (di_iter d) i \<Longrightarrow> i \<le> y \<Longrightarrow> y < n \<Longrightarrow> di_saved_key d = uk y \<Longrightarrow> same_user i y \<Longrightarrow>
    \<exists>b d' p. scan_back slice_compare vt d = Some (b, d') \<and> core d' \<and> at (di_iter d') p \<and>
      (if b then p < y \<and> same_user (Suc p) y else \<not> di_valid d' \<and> same_user 0 y)"
proof (induction i arbitrary: d)
  case 0
  have "0 < n" using "0.prems"(4) by (rule le_less_trans [OF zero_le])
  then obtain i' where i': "it_Prev vt (di_iter d) = Some i'" "at i' n" using inner.Prev [OF "0.prems"(2)] by auto
  have "\<not> it_Valid vt i'" using inner.at_Valid [OF i'(2)] by simp
  then have "scan_back slice_compare vt d = Some (False, ClearSavedValue (d\<lparr>di_iter := i', di_valid := False, di_saved_key := []\<rparr>))"
    using i'(1) by (simp add: scan_back.simps [of _ _ d])
  then show ?case using 0 i'(2)
    by (intro exI [of _ False] exI [of _ "ClearSavedValue (d\<lparr>di_iter := i', di_valid := False, di_saved_key := []\<rparr>)"] exI [of _ n])
      (simp add: ClearSavedValue_def)
next
  case (Suc i)
  have i: "i < n" "Suc i < n" using Suc.prems(3,4) by simp_all
  obtain i' where i': "it_Prev vt (di_iter d) = Some i'" "at i' i" using inner.Prev [OF Suc.prems(2) i(2)] by auto
  have v: "it_Valid vt i'" using inner.at_Valid [OF i'(2)] i(1) by simp
  have key: "ExtractUserKey (it_key vt i') = uk i" using inner.at_entry [OF i'(2) i(1)] by (metis entry_user_def fst_conv)
  show ?case
  proof (cases "slice_compare (uk i) (uk y) < 0")
    case True
    then have "scan_back slice_compare vt d = Some (True, d\<lparr>di_iter := i'\<rparr>)"
      using i'(1) v key Suc.prems(5) by (simp add: scan_back.simps [of _ _ d])
    then show ?thesis using Suc.prems(1,3,6) i'(2) by (intro exI [of _ True] exI [of _ "d\<lparr>di_iter := i'\<rparr>"] exI [of _ i]) simp
  next
    case False
    then have "scan_back slice_compare vt d = scan_back slice_compare vt (d\<lparr>di_iter := i'\<rparr>)"
      using i'(1) v key Suc.prems(5) by (simp add: scan_back.simps [of _ _ d])
    moreover have "slice_compare (uk i) (uk y) = 0" using False uk_mono [of i y] Suc.prems(3,4) by simp
    then have "uk i = uk y" by (simp add: slice_compare_eq_0)
    then have "same_user i y" using Suc.prems(6) unfolding same_user_def by (metis Suc_leI le_neq_implies_less)
    ultimately show ?thesis using Suc.IH [of "d\<lparr>di_iter := i'\<rparr>"] Suc.prems i'(2) by simp
  qed
qed

text \<open>The operations.\<close>

lemma db_at_end: "core d \<Longrightarrow> at (di_iter d) p \<Longrightarrow> \<not> di_valid d \<Longrightarrow> db_at d (length Y)"
  by (auto simp: db_at_def)

lemma no_entries: "n = 0 \<Longrightarrow> length Y = 0"
  by simp

lemma SeekToFirst_ok:
  assumes "db_at d k"
  shows "\<exists>d'. DBIter_SeekToFirst slice_compare vt d = Some d' \<and> db_at d' 0"
proof -
  obtain p where "at (di_iter d) p" and c: "core d" using assms(1) by (auto simp: db_at_def)
  then obtain i where i: "it_SeekToFirst vt (di_iter d) = Some i" "at i 0" using inner.SeekToFirst by blast
  let ?d = "(ClearSavedValue (d\<lparr>di_direction := kForward\<rparr>))\<lparr>di_iter := i\<rparr>"
  have dir: "di_direction ?d = kForward" by (simp add: ClearSavedValue_def)
  have eq: "DBIter_SeekToFirst slice_compare vt d =
      (if it_Valid vt i then FindNextUserEntry slice_compare vt False ?d else Some (?d\<lparr>di_valid := False\<rparr>))"
    using i(1) by (simp add: DBIter_SeekToFirst_def ClearSavedValue_def Let_def)
  show ?thesis
  proof (cases "0 < n")
    case True
    have "skips 0 0 False (di_saved_key ?d)" by (rule skips_start) simp
    from FindNext_ok [OF this] True i(2) c dir show ?thesis using eq inner.at_Valid [OF i(2)] by (simp add: pos_0)
  next
    case False
    then show ?thesis using eq inner.at_Valid [OF i(2)] db_at_end [of "?d\<lparr>di_valid := False\<rparr>" 0] i(2) c by simp
  qed
qed

lemma SeekToLast_ok:
  assumes "db_at d k"
  shows "\<exists>d'. DBIter_SeekToLast slice_compare vt d = Some d' \<and> db_at d' (length Y - 1)"
proof -
  obtain p where "at (di_iter d) p" and c: "core d" using assms by (auto simp: db_at_def)
  then obtain i where i: "it_SeekToLast vt (di_iter d) = Some i" "at i (n - 1)" using inner.SeekToLast by blast
  let ?d = "(ClearSavedValue (d\<lparr>di_direction := kReverse\<rparr>))\<lparr>di_iter := i\<rparr>"
  have "di_direction ?d = kReverse" by (simp add: ClearSavedValue_def)
  with FindPrev_ok [of ?d "n - 1", OF _ _ _ refl] i(2) c
  have "\<exists>d'. FindPrevUserEntry slice_compare vt ?d = Some d' \<and>
      db_at d' (if pos (if n - 1 < n then Suc (n - 1) else 0) = 0 then length Y else pos (if n - 1 < n then Suc (n - 1) else 0) - 1)"
    by simp
  moreover have "(if n - 1 < n then Suc (n - 1) else 0) = n" by (cases E) simp_all
  moreover have "pos n = length Y" by (simp add: pos_def)
  ultimately have "\<exists>d'. FindPrevUserEntry slice_compare vt ?d = Some d' \<and> db_at d' (length Y - 1)" by (simp split: if_splits)
  then show ?thesis using i(1) by (simp add: DBIter_SeekToLast_def Let_def ClearSavedValue_def)
qed

text \<open>The key that \<open>Seek\<close> looks for is behind all entries that are visible for smaller user keys, and before those of the target.\<close>

lemma seek_key_order:
  assumes "j < n" "vis j"
  shows "icmp (fst (E ! j)) (mkInternalKey t s kTypeValue) < 0 \<longleftrightarrow> slice_compare (uk j) t < 0"
proof -
  have "parseable (E ! j)" using parses assms(1) by simp
  then obtain q ty where e: "vis j \<longleftrightarrow> q \<le> s" "fst (E ! j) = uk j @ EncodeFixed64 (PackSequenceAndType q ty)" "q \<le> kMaxSequenceNumber"
    by (rule parsed_entry)
  then have "\<not> PackSequenceAndType s kTypeValue < PackSequenceAndType q ty"
    using Pack_le_iff(1) [OF e(3) number_ok] assms(2) by (simp add: not_less)
  then show ?thesis unfolding e(2) mkInternalKey_eq icmp_def ikey_compare by auto
qed

lemma Seek_ok:
  assumes "db_at d k" "ok (mkInternalKey t s kTypeValue)"
  shows "\<exists>d'. DBIter_Seek slice_compare vt t d = Some d' \<and> db_at d' (first_ge slice_compare t (user_view s E))"
proof -
  let ?k = "mkInternalKey t s kTypeValue" and ?p = "first_ge icmp (mkInternalKey t s kTypeValue) E"
  obtain p0 where a: "at (di_iter d) p0" and c: "core d" using assms by (auto simp: db_at_def)
  then obtain i where i: "it_Seek vt ?k (di_iter d) = Some i" "at i ?p"
    using inner.Seek [OF a assms(2)] by blast
  let ?d = "(ClearSavedValue (d\<lparr>di_direction := kForward\<rparr>))\<lparr>di_saved_key := ?k, di_iter := i\<rparr>"
  have dir: "di_direction ?d = kForward" by (simp add: ClearSavedValue_def)
  have eq: "DBIter_Seek slice_compare vt t d =
      (if it_Valid vt i then FindNextUserEntry slice_compare vt False ?d else Some (?d\<lparr>di_valid := False\<rparr>))"
    using i(1) c by (simp add: DBIter_Seek_def ClearSavedValue_def Let_def core_def mkInternalKey_def kValueTypeForSeek_def)
  have split: "j < ?p \<longleftrightarrow> slice_compare (uk j) t < 0" if "j < n" "vis j" for j
  proof -
    have vk: "valid_ikey (fst (E ! j))" "valid_ikey ?k" using sorted that(1) by (auto simp: sorted_entries_def mkInternalKey_eq)
    have "icmp (fst (E ! j)) ?k < 0" if "j < ?p" using first_ge_before [OF that] .
    moreover have "\<not> icmp (fst (E ! j)) ?k < 0" if nj: "\<not> j < ?p"
    proof
      assume less: "icmp (fst (E ! j)) ?k < 0"
      have p: "?p < n" using nj \<open>j < n\<close> by simp
      have "valid_ikey (fst (E ! ?p))" by (rule sorted_entries_ok [OF sorted p])
      moreover have "icmp (fst (E ! ?p)) (fst (E ! j)) < 0" if "?p \<noteq> j" using sorted_entries_less [OF sorted, of ?p j] nj that \<open>j < n\<close> by simp
      ultimately have "icmp (fst (E ! ?p)) ?k < 0" using less ikey_order.less_trans [of "fst (E ! ?p)" "fst (E ! j)" ?k] vk by (cases "?p = j") auto
      then show False using first_ge_at [OF p] by simp
    qed
    ultimately show ?thesis using seek_key_order [OF that] by blast
  qed
  have pos: "first_ge slice_compare t (user_view s E) = pos ?p"
  proof (rule first_ge_eqI)
    have p: "?p \<le> n" by (rule first_ge_le)
    show "pos ?p \<le> length (user_view s E)" using pos_le [OF p] by (simp add: user_view_def)
    show "slice_compare (fst (user_view s E ! k)) t < 0" if k: "k < pos ?p" for k
    proof -
      have y: "k < length Y" using k pos_le [OF p] by simp
      have "Y ! k < ?p" using pos_mono [of ?p "Y ! k"] Y_nth(3) [OF y] k by (cases "?p \<le> Y ! k") auto
      then show ?thesis using split [of "Y ! k"] Y_nth [OF y] yldD(1) y by (simp add: user_view_def)
    qed
    assume "pos ?p < length (user_view s E)"
    then have y: "pos ?p < length Y" by (simp add: user_view_def)
    have "\<not> Y ! pos ?p < ?p" using pos_mono [of "Suc (Y ! pos ?p)" ?p] pos_Suc [of "Y ! pos ?p"] Y_nth(2,3) [OF y] by (auto simp: Suc_le_eq)
    then show "0 \<le> slice_compare (fst (user_view s E ! pos ?p)) t"
      using split [of "Y ! pos ?p"] Y_nth [OF y] yldD(1) y by (simp add: user_view_def)
  qed
  show ?thesis
  proof (cases "?p < n")
    case True
    have "uk j' \<noteq> uk j" if "j' < ?p" "?p \<le> j" "j < n" "vis j" "vis j'" for j j'
      using split [of j] split [of j'] that by auto
    then have "skips ?p ?p False (di_saved_key ?d)" by (rule skips_start)
    from FindNext_ok [OF this _ True] True i(2) c dir show ?thesis using eq inner.at_Valid [OF i(2)] pos by simp
  next
    case False
    then have "?p = n" using first_ge_le [of icmp ?k E] by simp
    then have "pos ?p = length Y" by (simp add: pos_def)
    then show ?thesis using False eq inner.at_Valid [OF i(2)] db_at_end [of "?d\<lparr>di_valid := False\<rparr>" ?p] i(2) c pos by simp
  qed
qed

lemma Next_ok:
  assumes "db_at d k" "k < length Y"
  shows "\<exists>d'. DBIter_Next slice_compare vt d = Some d' \<and> db_at d' (k + 1)"
proof -
  let ?y = "Y ! k"
  note y = Y_nth [OF assms(2)]
  have k: "pos (Suc ?y) = k + 1" using y by (simp add: pos_Suc)
  have c: "core d" and v: "di_valid d" and sh: "shows_entry ?y d" using assms by (auto simp: db_at_def)
  show ?thesis
  proof (cases "di_direction d")
    case kForward
    then have at: "at (di_iter d) ?y" using sh by (simp add: shows_entry_def)
    have "ExtractUserKey (it_key vt (di_iter d)) = uk ?y" using inner.at_entry [OF at y(1)] by (metis entry_user_def fst_conv)
    then have "DBIter_Next slice_compare vt d = FindNextUserEntry slice_compare vt True (d\<lparr>di_saved_key := uk ?y\<rparr>)"
      using v kForward by (simp add: DBIter_Next_def)
    moreover have "skips (Suc ?y) ?y True (uk ?y)" using y by (intro skips_next) auto
    ultimately show ?thesis
      using FindNext_ok [of "Suc ?y" ?y True "d\<lparr>di_saved_key := uk ?y\<rparr>"] y(1) at c kForward k by simp
  next
    case kReverse
    then have key: "di_saved_key d = uk ?y" and b: "left_of ?y (di_iter d)" using sh by (simp_all add: shows_entry_def)
    have "\<exists>i p. (if \<not> it_Valid vt (di_iter d) then it_SeekToFirst vt (di_iter d) else it_Next vt (di_iter d)) = Some i \<and>
        at i p \<and> p \<le> ?y \<and> (\<forall>j. p \<le> j \<and> j < ?y \<longrightarrow> \<not> vis j)"
    proof -
      obtain p where p: "at (di_iter d) p" "if p < n then p < ?y \<and> vis p \<and> (\<forall>j. p < j \<and> j < ?y \<longrightarrow> \<not> vis j) else \<forall>j < ?y. \<not> vis j"
        using b by (auto simp: left_of_def)
      show ?thesis
      proof (cases "p < n")
        case True
        then obtain i where "it_Next vt (di_iter d) = Some i" "at i (Suc p)" using inner.Next [OF p(1)] by auto
        then show ?thesis using p(2) True inner.at_Valid [OF p(1)] by (intro exI [of _ i] exI [of _ "Suc p"]) (simp add: Suc_le_eq)
      next
        case False
        obtain i where "it_SeekToFirst vt (di_iter d) = Some i" "at i 0" using inner.SeekToFirst [OF p(1)] by blast
        then show ?thesis using p(2) False inner.at_Valid [OF p(1)] by (intro exI [of _ i] exI [of _ 0]) simp
      qed
    qed
    then obtain i p where i: "(if \<not> it_Valid vt (di_iter d) then it_SeekToFirst vt (di_iter d) else it_Next vt (di_iter d)) = Some i"
      "at i p" "p \<le> ?y" "\<And>j. p \<le> j \<Longrightarrow> j < ?y \<Longrightarrow> \<not> vis j" by blast
    let ?d = "d\<lparr>di_direction := kForward, di_iter := i\<rparr>"
    have p: "p < n" using i(3) y(1) by simp
    then have "DBIter_Next slice_compare vt d = FindNextUserEntry slice_compare vt True ?d"
      using v kReverse i(1) inner.at_Valid [OF i(2)] by (auto simp: DBIter_Next_def Let_def split: if_splits)
    moreover have "skips (Suc ?y) p True (di_saved_key ?d)" using skips_next [OF y(1,2) i(3,4)] key by simp
    ultimately show ?thesis using FindNext_ok [of "Suc ?y" p True ?d] y(1) i(2) p c k by simp
  qed
qed

lemma Prev_ok:
  assumes "db_at d k" "k < length Y"
  shows "\<exists>d'. DBIter_Prev slice_compare vt d = Some d' \<and> db_at d' (if k = 0 then length Y else k - 1)"
proof -
  let ?y = "Y ! k"
  note y = Y_nth [OF assms(2)]
  have c: "core d" and v: "di_valid d" and sh: "shows_entry ?y d" using assms by (auto simp: db_at_def)
  show ?thesis
  proof (cases "di_direction d")
    case kForward
    then have at: "at (di_iter d) ?y" using sh by (simp add: shows_entry_def)
    let ?d = "d\<lparr>di_saved_key := uk ?y\<rparr>"
    have key: "ExtractUserKey (it_key vt (di_iter d)) = uk ?y" using inner.at_entry [OF at y(1)] by (metis entry_user_def fst_conv)
    have dd: "core ?d" "at (di_iter ?d) ?y" "di_saved_key ?d = uk ?y" using at c by simp_all
    from scan_back_ok [OF dd(1,2) order_refl y(1) dd(3) same_user_refl]
    obtain b d' p where s: "scan_back slice_compare vt ?d = Some (b, d')" "core d'" "at (di_iter d') p"
      "if b then p < ?y \<and> same_user (Suc p) ?y else \<not> di_valid d' \<and> same_user 0 ?y"
      by blast
    have same: "pos ?y = pos m" if "m \<le> ?y" "same_user m ?y" for m
    proof (rule pos_same [OF that(1)])
      fix j assume j: "m \<le> j" "j < ?y"
      then have "uk j = uk ?y" using that(2) unfolding same_user_def by (meson less_imp_le)
      then show "\<not> yld j" using yldD(1) [of j] yldD(2) [OF y(2) j(2)] by blast
    qed
    show ?thesis
    proof (cases b)
      case True
      then have p: "p < ?y" "p < n" "k = pos (Suc p)" using s(4) same [of "Suc p"] y(1,3) by auto
      have "di_direction (d'\<lparr>di_direction := kReverse\<rparr>) = kReverse" by simp
      from FindPrev_ok [OF _ this, of p "Suc p"] s(2,3) p
      show ?thesis using v kForward key s(1) True by (simp add: DBIter_Prev_def split: if_splits)
    next
      case False
      then have "k = 0" using s(4) same [of 0] y(3) by (simp add: pos_0)
      then show ?thesis using v kForward key s False db_at_end [of d' p] by (simp add: DBIter_Prev_def)
    qed
  next
    case kReverse
    then obtain p where p: "at (di_iter d) p" "if p < n then p < ?y \<and> vis p \<and> (\<forall>j. p < j \<and> j < ?y \<longrightarrow> \<not> vis j) else \<forall>j < ?y. \<not> vis j"
      using sh by (auto simp: shows_entry_def left_of_def)
    define m where "m = (if p < n then Suc p else 0)"
    have "pos ?y = pos m" using p(2) unfolding m_def by (intro pos_same) (auto simp: Suc_le_eq dest: yldD(1) split: if_splits)
    then have "k = pos m" using y(3) by simp
    then show ?thesis using FindPrev_ok [OF c kReverse p(1) m_def] v kReverse by (simp add: DBIter_Prev_def split: if_splits)
  qed
qed

end

sublocale snapshot \<subseteq> users: iterator_over "DBIter_vt slice_compare vt" slice_compare "\<lambda>t. ok (mkInternalKey t s kTypeValue)" "user_view s E" db_at
proof
  have len: "length (user_view s E) = length Y" by (simp add: user_view_def)
  fix d k
  assume at: "db_at d k"
  then obtain p where p: "at (di_iter d) p" "core d" by (auto simp: db_at_def)
  show "k \<le> length (user_view s E)" using at by (simp add: db_at_def len)
  show "it_Valid (DBIter_vt slice_compare vt) d \<longleftrightarrow> k < length (user_view s E)" using at by (simp add: db_at_def len DBIter_vt_def split: if_splits)
  show "status_ok (it_status (DBIter_vt slice_compare vt) d)"
    using p inner.at_status [OF p(1)] by (simp add: DBIter_vt_def DBIter_status_def core_def)
  show "\<exists>d'. it_SeekToFirst (DBIter_vt slice_compare vt) d = Some d' \<and> db_at d' 0"
    "\<exists>d'. it_SeekToLast (DBIter_vt slice_compare vt) d = Some d' \<and> db_at d' (length (user_view s E) - 1)"
    "ok (mkInternalKey t s kTypeValue) \<Longrightarrow>
      \<exists>d'. it_Seek (DBIter_vt slice_compare vt) t d = Some d' \<and> db_at d' (first_ge slice_compare t (user_view s E))" for t
    unfolding len using SeekToFirst_ok [OF at] SeekToLast_ok [OF at] Seek_ok [OF at] by (simp_all add: DBIter_vt_def)
  assume "k < length (user_view s E)"
  then have k: "k < length Y" by (simp add: len)
  have sh: "shows_entry (Y ! k) d" using at k by (simp add: db_at_def)
  have "(DBIter_key vt d, DBIter_value vt d) = (uk (Y ! k), snd (E ! (Y ! k)))"
  proof (cases "di_direction d")
    case kForward
    then have "at (di_iter d) (Y ! k)" using sh by (simp add: shows_entry_def)
    from inner.at_entry [OF this Y_nth(1) [OF k]] show ?thesis
      using kForward by (simp add: DBIter_key_def DBIter_value_def entry_user_def) (metis fst_conv snd_conv)
  qed (use sh in \<open>simp add: DBIter_key_def DBIter_value_def shows_entry_def\<close>)
  then show "(it_key (DBIter_vt slice_compare vt) d, it_value (DBIter_vt slice_compare vt) d) = user_view s E ! k"
    using k by (simp add: DBIter_vt_def user_view_def)
  show "\<exists>d'. it_Next (DBIter_vt slice_compare vt) d = Some d' \<and> db_at d' (k + 1)"
    "\<exists>d'. it_Prev (DBIter_vt slice_compare vt) d = Some d' \<and> db_at d' (if k = 0 then length (user_view s E) else k - 1)"
    unfolding len using Next_ok [OF at k] Prev_ok [OF at k] by (simp_all add: DBIter_vt_def)
qed

context snapshot
begin

lemmas users_contract = users.iterator_over_axioms

lemma new_db_at: "at i n \<Longrightarrow> db_at (NewDBIterator i s seed) (length (user_view s E))"
  using RandomPeriod_spec(1) [OF good_seed_mkRandom]
  by (auto simp: db_at_def NewDBIterator_def mkDBIter_def core_def status_ok_def OK_def user_view_def split: prod.splits)

text \<open>The view has every user key once, in order, and with it the newest visible version.\<close>

lemma view_sorted: "sorted_entries slice_compare (\<lambda>_. True) (user_view s E)"
proof -
  have "slice_compare (uk (Y ! k)) (uk (Y ! l)) < 0" if "k < l" "l < length Y" for k l
  proof -
    have kl: "k < length Y" using that by simp
    have "sorted_wrt (<) Y" by (rule sorted_wrt_filter) simp
    then have less: "Y ! k < Y ! l" using that by (rule sorted_wrt_nth_less)
    have "uk (Y ! k) \<noteq> uk (Y ! l)" using yldD(2) [OF Y_nth(2) [OF that(2)] less] yldD(1) [OF Y_nth(2) [OF kl]] by blast
    then show ?thesis using uk_mono [of "Y ! k" "Y ! l"] less Y_nth(1) [OF that(2)] slice_compare_eq_0 by (metis le_neq_trans less_imp_le)
  qed
  then show ?thesis by (simp add: sorted_entries_def user_view_def sorted_wrt_iff_nth_less)
qed

lemma version_of:
  assumes "i < n"
  obtains q t where "E ! i = (mkInternalKey (uk i) q t, snd (E ! i))" "vis i \<longleftrightarrow> q \<le> s" "val i \<longleftrightarrow> t = kTypeValue" "q \<le> kMaxSequenceNumber"
proof -
  have "parseable (E ! i)" using parses assms by simp
  then obtain q t where "vis i \<longleftrightarrow> q \<le> s" "val i \<longleftrightarrow> t = kTypeValue" "fst (E ! i) = uk i @ EncodeFixed64 (PackSequenceAndType q t)"
    "q \<le> kMaxSequenceNumber" by (rule parsed_entry)
  then show thesis using that [of q t] by (simp add: mkInternalKey_eq prod_eq_iff)
qed

lemma newer_first:
  assumes "i < n" "j < n" "E ! i = (mkInternalKey u q t, v)" "E ! j = (mkInternalKey u q' t', v')" "q \<le> kMaxSequenceNumber" "q' \<le> kMaxSequenceNumber"
    and "q' < q"
  shows "i < j"
proof (rule ccontr)
  assume nij: "\<not> i < j"
  have "\<not> PackSequenceAndType q t \<le> PackSequenceAndType q' t'" using Pack_le_iff(2) [OF assms(5,6)] assms(7) by (meson leD)
  then have less: "icmp (fst (E ! i)) (fst (E ! j)) < 0" using assms(3,4) by (simp add: icmp_mkInternalKey not_le)
  have "valid_ikey (fst (E ! i))" "valid_ikey (fst (E ! j))" using sorted_entries_ok [OF sorted] assms(1,2) by simp_all
  then show False
    using less ikey_order.flip [of "fst (E ! i)" "fst (E ! j)"] ikey_order.cmp_self [of "fst (E ! i)"] sorted_entries_less [OF sorted, of j i] nij assms(1)
    by (cases "i = j") auto
qed

lemma view_newest:
  "(u, v) \<in> set (user_view s E) \<longleftrightarrow>
    (\<exists>q \<le> s. (mkInternalKey u q kTypeValue, v) \<in> set E \<and> (\<forall>q' t' v'. q' \<le> s \<longrightarrow> (mkInternalKey u q' t', v') \<in> set E \<longrightarrow> q' \<le> q))"
proof
  assume "(u, v) \<in> set (user_view s E)"
  then obtain i where i: "i < n" "yld i" "u = uk i" "v = snd (E ! i)" by (auto simp: user_view_def)
  obtain q t where e: "E ! i = (mkInternalKey (uk i) q t, snd (E ! i))" "vis i \<longleftrightarrow> q \<le> s" "val i \<longleftrightarrow> t = kTypeValue" "q \<le> kMaxSequenceNumber"
    by (rule version_of [OF i(1)])
  have q: "q \<le> s" "t = kTypeValue" using e(2,3) yldD(1) [OF i(2)] by auto
  have "q' \<le> q" if v': "q' \<le> s" "(mkInternalKey u q' t', v') \<in> set E" for q' t' v'
  proof (rule ccontr)
    assume nq: "\<not> q' \<le> q"
    obtain j where j: "j < n" "E ! j = (mkInternalKey u q' t', v')" using v'(2) by (metis in_set_conv_nth)
    have q': "q' \<le> kMaxSequenceNumber" using v'(1) number_ok by simp
    have "j < i" using newer_first [OF j(1) i(1) j(2) e(1) [folded i(3)] q' e(4)] nq by simp
    moreover have "vis j" "uk j = u" using j(2) v'(1) q' ParseInternalKey_Append [of "\<lparr>user_key = u, sequence = q', vtype = t'\<rparr>"]
      by (simp_all add: in_snapshot_def mkInternalKey_def entry_user_def) (simp add: AppendInternalKey_eq)
    ultimately show False using yldD(2) [OF i(2)] i(3) by simp
  qed
  moreover have "(mkInternalKey u q kTypeValue, v) \<in> set E" using i e(1) q(2) by (metis nth_mem)
  ultimately show "\<exists>q \<le> s. (mkInternalKey u q kTypeValue, v) \<in> set E \<and> (\<forall>q' t' v'. q' \<le> s \<longrightarrow> (mkInternalKey u q' t', v') \<in> set E \<longrightarrow> q' \<le> q)"
    using q(1) by blast
next
  assume "\<exists>q \<le> s. (mkInternalKey u q kTypeValue, v) \<in> set E \<and> (\<forall>q' t' v'. q' \<le> s \<longrightarrow> (mkInternalKey u q' t', v') \<in> set E \<longrightarrow> q' \<le> q)"
  then obtain q where q: "q \<le> s" "(mkInternalKey u q kTypeValue, v) \<in> set E"
    and max: "\<And>q' t' v'. q' \<le> s \<Longrightarrow> (mkInternalKey u q' t', v') \<in> set E \<Longrightarrow> q' \<le> q" by blast
  obtain i where i: "i < n" "E ! i = (mkInternalKey u q kTypeValue, v)" using q(2) by (metis in_set_conv_nth)
  have qm: "q \<le> kMaxSequenceNumber" using q(1) number_ok by simp
  have ui: "uk i = u" "vis i" "val i"
    using i(2) q(1) qm ParseInternalKey_Append [of "\<lparr>user_key = u, sequence = q, vtype = kTypeValue\<rparr>"]
    by (simp_all add: in_snapshot_def is_value_def mkInternalKey_def entry_user_def) (simp add: AppendInternalKey_eq)
  have "uk j \<noteq> uk i" if j: "j < i" "vis j" for j
  proof
    assume same: "uk j = uk i"
    have jn: "j < n" using j(1) i(1) by simp
    obtain q' t' where e: "E ! j = (mkInternalKey (uk j) q' t', snd (E ! j))" "vis j \<longleftrightarrow> q' \<le> s" "val j \<longleftrightarrow> t' = kTypeValue" "q' \<le> kMaxSequenceNumber"
      by (rule version_of [OF jn])
    have "q' \<le> q" using max [of q' t' "snd (E ! j)"] e j(2) same ui(1) jn by (metis nth_mem)
    then have "PackSequenceAndType q' t' \<le> PackSequenceAndType q kTypeValue" using Pack_le_iff(1) [OF e(4) qm] by simp
    moreover have "icmp (fst (E ! j)) (fst (E ! i)) < 0" by (rule sorted_entries_less [OF sorted j(1) i(1)])
    moreover have "fst (E ! j) = mkInternalKey u q' t'" using e(1) same ui(1) by (metis fst_conv)
    ultimately show False using i(2) by (simp add: icmp_mkInternalKey split: if_splits)
  qed
  then have "yld i" using ui by (simp add: yields_def)
  then show "(u, v) \<in> set (user_view s E)" using i ui(1) by (auto simp: user_view_def intro!: image_eqI [of _ _ i])
qed

end

text \<open>The contract on the merged iterators of the library.\<close>

definition checked :: "'s child list \<Rightarrow> 's child list" where
  "checked cs = (if \<forall>c \<in> set cs. \<forall>e \<in> set (child_entries c). parseable e then cs else [])"

lemma sorted_ikeys: "sorted_entries icmp (ikeys ok) es \<Longrightarrow> sorted_entries icmp valid_ikey es"
  by (auto simp: sorted_entries_def ikeys_def)

interpretation merged_snapshot: snapshot "Merging_vt icmp dyn_iterator" "ikeys ok" "merged icmp (inputs ok (checked cs))"
  "merging.merge_at icmp dyn_iterator (inputs ok (checked cs)) (\<lambda>i. dyn_at (fst (checked cs ! i)) (at_of_child ok (checked cs ! i)))"
  "min s kMaxSequenceNumber" for ok :: "bytes \<Rightarrow> bool" and cs :: "'s child list" and s :: u64
proof (intro snapshot.intro snapshot_axioms.intro internal_merge.whole.iterator_over_axioms)
  show "sorted_entries icmp valid_ikey (merged icmp (inputs ok (checked cs)))" by (rule sorted_ikeys [OF internal_merge.sorted_M])
  show "\<forall>e \<in> set (merged icmp (inputs ok (checked cs))). parseable e" by (auto simp: set_merged inputs_def checked_def split: if_splits)
qed simp

lemma snapshotI:
  "iterator_over vt icmp ok E at \<Longrightarrow> sorted_entries icmp valid_ikey E \<Longrightarrow> \<forall>e \<in> set E. parseable e \<Longrightarrow> s \<le> kMaxSequenceNumber \<Longrightarrow>
    snapshot vt ok E at s"
  by (intro snapshot.intro snapshot_axioms.intro)

lemma NewDBIterator_iterates:
  assumes "iterates vt icmp ok E i" "sorted_entries icmp valid_ikey E" "\<forall>e \<in> set E. parseable e" "s \<le> kMaxSequenceNumber"
  shows "iterates (DBIter_vt slice_compare vt) slice_compare (\<lambda>t. ok (mkInternalKey t s kTypeValue)) (user_view s E) (NewDBIterator i s seed)"
proof -
  obtain at where at: "iterator_over vt icmp ok E at" "at i (length E)" using assms(1) by (auto simp: iterates_def)
  note sn = snapshotI [OF at(1) assms(2-4)]
  show ?thesis by (rule iteratesI [OF snapshot.users_contract [OF sn] snapshot.new_db_at [OF sn at(2)]])
qed

subsection \<open>Properties\<close>

text \<open>
  Iterators of the two classes that a database merges: those of memtables and those of tables. Each
  object is one of a sum, whose other half is not used.
\<close>

definition null_iterator :: "'s Iterator" where
  "null_iterator = \<lparr>it_Valid = (\<lambda>s. False), it_SeekToFirst = (\<lambda>s. None), it_SeekToLast = (\<lambda>s. None), it_Seek = (\<lambda>t s. None),
     it_Next = (\<lambda>s. None), it_Prev = (\<lambda>s. None), it_key = (\<lambda>s. []), it_value = (\<lambda>s. []), it_status = (\<lambda>s. OK)\<rparr>"

type_synonym db_object = "node + (BlockIterator, BlockIterator) TwoLevelIterator"

definition mem_object :: "memtable \<Rightarrow> db_object Iterator \<times> db_object" where
  "mem_object m = (sum_iterator (MemTableIterator_vt slice_compare m) null_iterator, Inl (MemTable_NewIterator m))"

definition table_object :: "read_op \<Rightarrow> Snappy \<Rightarrow> addr \<Rightarrow> bool \<Rightarrow> Table \<Rightarrow> db_object Iterator \<times> db_object" where
  "table_object Read sn a verify t = (sum_iterator null_iterator (Table_iterator Read sn a verify t), Inr (Table_NewIterator t))"

text \<open>A memtable that was filled by \<open>Add\<close> with versions of different sequence numbers.\<close>

definition filled :: "memtable \<Rightarrow> mem_op list \<Rightarrow> bool" where
  "filled m ops \<longleftrightarrow> (\<forall>p \<in> set ops. valid_op p) \<and> distinct (map fst ops) \<and> add_all slice_compare ops mkMemTable = Some m"

lemma filled_rep: "filled m ops \<Longrightarrow> mem_rep slice_compare (rev ops) m"
  using add_all_spec [OF slice_order.comparator_axioms mem_rep_empty, of ops] by (auto simp: filled_def rev_map [symmetric])

lemma iterates_ok:
  assumes "iterates vt cmp ok es i" "\<And>k. ok' k \<Longrightarrow> ok k"
  shows "iterates vt cmp ok' es i"
proof -
  obtain at where at: "iterator_over vt cmp ok es at" "at i (length es)" using assms(1) unfolding iterates_def by blast
  have "iterator_over vt cmp ok' es at" using at(1) assms(2) unfolding iterator_over_def by simp
  from iteratesI [of vt cmp ok' es at, OF this at(2)] show ?thesis .
qed

lemma mem_ikey_eq: "mem_ikey = ikeys short_string"
  by (simp add: fun_eq_iff mem_ikey_def ikeys_def)

lemma mem_child:
  assumes "filled m ops"
  shows "iterates (fst (mem_object m)) icmp (ikeys short_string) (mem_entries m) (snd (mem_object m))"
    and "sorted_entries icmp (ikeys short_string) (mem_entries m)" "e \<in> set (mem_entries m) \<Longrightarrow> parseable e"
    and "set (mem_entries m) = op_entry ` set ops"
proof -
  note rep = filled_rep [OF assms] and e = mem_entries_of [OF filled_rep [OF assms]]
  show "iterates (fst (mem_object m)) icmp (ikeys short_string) (mem_entries m) (snd (mem_object m))"
    using iterates_Inl [OF mem_iterates [OF rep]] by (simp add: mem_object_def mem_ikey_eq)
  show "sorted_entries icmp (ikeys short_string) (mem_entries m)" using e(2) by (simp add: mem_ikey_eq)
  show s: "set (mem_entries m) = op_entry ` set ops" using e(1) by simp
  show "parseable e" if e: "e \<in> set (mem_entries m)"
  proof -
    obtain p where "p \<in> set ops" "e = op_entry p" using e unfolding s by blast
    moreover obtain q t k v where "p = (q, t, k, v)" by (cases p)
    ultimately have "(q, t, k, v) \<in> set ops" "e = (mkInternalKey k q t, v)" by (simp_all add: op_entry_def)
    then show ?thesis
      using assms ParseInternalKey_Append [of "\<lparr>user_key = k, sequence = q, vtype = t\<rparr>"]
      by (auto simp: parseable_def mkInternalKey_def filled_def valid_op_def)
  qed
qed

lemma short_table_keys: "table_size es < 2 ^ 32 \<Longrightarrow> e \<in> set es \<Longrightarrow> short_string (fst e)"
  by (induction es) (auto simp: short_string_def)

lemma table_child:
  assumes "snappy_port sn" "opened_from sn Read t es"
  shows "iterates (fst (table_object Read sn d verify t)) icmp (ikeys short_string) es (snd (table_object Read sn d verify t))"
    and "sorted_entries icmp (ikeys short_string) es"
proof -
  note it = opened_iterates [OF assms]
  have "iterates (fst (table_object Read sn d verify t)) icmp valid_ikey es (snd (table_object Read sn d verify t))"
    using iterates_Inr [OF it(1)] by (simp add: table_object_def)
  then show "iterates (fst (table_object Read sn d verify t)) icmp (ikeys short_string) es (snd (table_object Read sn d verify t))"
    by (rule iterates_ok) (simp add: ikeys_def)
  have "table_size es < 2 ^ 32" using assms(2) by (auto simp: opened_from_def)
  then show "sorted_entries icmp (ikeys short_string) es" using it(2) short_table_keys [of es] by (auto simp: sorted_entries_def ikeys_def)
qed

text \<open>
  C40: What an iterator of the database shows. Take memtables that were filled by \<open>Add\<close> and opened
  tables, no two with an internal key in common, and a sequence number. The iterator of
  \<open>NewDBIterator\<close> over the merged iterators of all of them refines the list \<open>user_view\<close>: every sequence
  of \<open>SeekToFirst\<close>, \<open>SeekToLast\<close>, \<open>Seek\<close>, \<open>Next\<close> and \<open>Prev\<close> that is defined on a cursor into the list
  returns and shows the entry of the cursor, through all changes of direction and for every state of
  the random read sampling. The list has each user key once, in order, with the value of its newest
  version up to the sequence number, and it omits the keys whose newest version is a deletion.
\<close>

theorem db_iterator:
  assumes "snappy_port sn" "\<forall>(m, ops) \<in> set ms. filled m ops"
    and "\<forall>(Read, t, es) \<in> set ts. opened_from sn Read t es \<and> (\<forall>e \<in> set es. parseable e)"
    and "sorted_wrt (disjoint_keys icmp) (map (\<lambda>(m, ops). mem_entries m) ms @ map (\<lambda>(Read, t, es). es) ts)"
    and "s \<le> kMaxSequenceNumber"
    and "its = map (\<lambda>(m, ops). mem_object m) ms @ map (\<lambda>(Read, t, es). table_object Read sn d verify t) ts"
    and "E = merged icmp (map (\<lambda>(m, ops). mem_entries m) ms @ map (\<lambda>(Read, t, es). es) ts)"
  shows "simulates (DBIter_vt slice_compare (NewMergingIterator_vt icmp dyn_iterator)) slice_compare (\<lambda>t. length t + 8 < 2 ^ 32)
      (user_view s E) (NewDBIterator (NewMergingIterator dyn_iterator its) s seed) \<and>
    sorted_entries slice_compare (\<lambda>_. True) (user_view s E) \<and>
    set E = (\<Union>(m, ops) \<in> set ms. op_entry ` set ops) \<union> (\<Union>(Read, t, es) \<in> set ts. set es) \<and>
    (\<forall>u v. (u, v) \<in> set (user_view s E) \<longleftrightarrow>
      (\<exists>q \<le> s. (mkInternalKey u q kTypeValue, v) \<in> set E \<and>
        (\<forall>q' t' v'. q' \<le> s \<longrightarrow> (mkInternalKey u q' t', v') \<in> set E \<longrightarrow> q' \<le> q)))"
proof -
  define cs where "cs = map (\<lambda>(m, ops). (fst (mem_object m), snd (mem_object m), mem_entries m)) ms @
    map (\<lambda>(Read, t, es). (fst (table_object Read sn d verify t), snd (table_object Read sn d verify t), es)) ts"
  have m: "map child_entries cs = map (\<lambda>(m, ops). mem_entries m) ms @ map (\<lambda>(Read, t, es). es) ts" "map child_object cs = its"
    by (auto simp: cs_def child_entries_def child_object_def assms(6))
  have good: "good_children short_string cs"
  proof -
    have "iterates (fst (mem_object m)) icmp (ikeys short_string) (mem_entries m) (snd (mem_object m)) \<and>
        sorted_entries icmp (ikeys short_string) (mem_entries m)" if "(m, ops) \<in> set ms" for m ops
      using assms(2) that mem_child(1,2) [of m ops] by blast
    moreover have "iterates (fst (table_object Read sn d verify t)) icmp (ikeys short_string) es (snd (table_object Read sn d verify t)) \<and>
        sorted_entries icmp (ikeys short_string) es" if "(Read, t, es) \<in> set ts" for Read t es
      using assms(3) that table_child [OF assms(1), of Read t es] by blast
    ultimately show ?thesis unfolding good_children_def m(1) using assms(4) by (auto simp: cs_def)
  qed
  have E: "E = merged icmp (map child_entries cs)" by (simp add: m assms(7))
  have p: "\<forall>e \<in> set E. parseable e" using assms(2,3) mem_child(3) by (fastforce simp: assms(7) set_merged)
  have "sorted_entries icmp (ikeys short_string) E"
    unfolding E using good by (intro sorted_merged [OF comparator_ikeys]) (auto simp: good_children_def child_entries_def)
  note so = sorted_ikeys [OF this]
  have it: "iterates (NewMergingIterator_vt icmp dyn_iterator) icmp (ikeys short_string) E (NewMergingIterator dyn_iterator its)"
    using NewMergingIterator_iterates [OF good] by (simp add: E m(2))
  have "ikeys short_string (mkInternalKey t s kTypeValue) \<longleftrightarrow> length t + 8 < 2 ^ 32" for t
    by (simp add: ikeys_def short_string_def icmp_mkInternalKey(2))
  then have 1: "simulates (DBIter_vt slice_compare (NewMergingIterator_vt icmp dyn_iterator)) slice_compare (\<lambda>t. length t + 8 < 2 ^ 32)
      (user_view s E) (NewDBIterator (NewMergingIterator dyn_iterator its) s seed)"
    using iterates_simulates [OF NewDBIterator_iterates [OF it so p assms(5)], of seed] by simp
  obtain at where at: "iterator_over (NewMergingIterator_vt icmp dyn_iterator) icmp (ikeys short_string) E at"
      "at (NewMergingIterator dyn_iterator its) (length E)"
    using it unfolding iterates_def by blast
  note sn = snapshotI [OF at(1) so p assms(5)]
  have "set E = (\<Union>(m, ops) \<in> set ms. set (mem_entries m)) \<union> (\<Union>(Read, t, es) \<in> set ts. set es)"
    unfolding assms(7) set_merged by (fastforce split: prod.splits)
  also have "(\<Union>(m, ops) \<in> set ms. set (mem_entries m)) = (\<Union>(m, ops) \<in> set ms. op_entry ` set ops)"
    using assms(2) mem_child(4) by (intro SUP_cong) auto
  finally show ?thesis using 1 snapshot.view_sorted [OF sn] snapshot.view_newest [OF sn] by blast
qed

text \<open>A memtable with newer versions of a key of a table, seen before and after the deletion of that key.\<close>

definition ex_mem_ops :: "mem_op list" where
  "ex_mem_ops = [(4, kTypeValue, [2], [40]), (5, kTypeDeletion, [1], [])]"

lemma ex_filled: "\<exists>m. filled m ex_mem_ops \<and> mem_entries m = ex_newer"
proof -
  have v: "\<forall>p \<in> set ex_mem_ops. valid_op p" by (simp add: ex_mem_ops_def valid_op_def kMaxSequenceNumber_eq)
  then obtain m where m: "filled m ex_mem_ops"
    using add_all_spec [OF slice_order.comparator_axioms mem_rep_empty, of ex_mem_ops] by (auto simp: filled_def ex_mem_ops_def)
  have "sorted_entries icmp (ikeys short_string) ex_newer"
    by (simp add: sorted_entries_def ex_newer_def icmp_mkInternalKey ikeys_def short_string_def slice_compare_def)
  moreover have "set (mem_entries m) = set ex_newer" using mem_child(4) [OF m] by (auto simp: ex_mem_ops_def ex_newer_def op_entry_def)
  ultimately have "mem_entries m = ex_newer" using sorted_entries_unique [OF comparator_ikeys mem_child(2) [OF m]] by blast
  then show ?thesis using m by blast
qed

lemma entry_mkInternalKey:
  assumes "q \<le> kMaxSequenceNumber"
  shows "in_snapshot s (mkInternalKey u q t, v) \<longleftrightarrow> q \<le> s" "is_value (mkInternalKey u q t, v) \<longleftrightarrow> t = kTypeValue"
    "entry_user (mkInternalKey u q t, v) = u" "parseable (mkInternalKey u q t, v)"
  using ParseInternalKey_Append [of "\<lparr>user_key = u, sequence = q, vtype = t\<rparr>"] assms
  by (simp_all add: in_snapshot_def is_value_def entry_user_def parseable_def mkInternalKey_def) (simp add: AppendInternalKey_eq)

lemma ex_view:
  assumes "E = [(mkInternalKey [1] 5 kTypeDeletion, []), (mkInternalKey [1] 2 kTypeValue, [20]),
      (mkInternalKey [2] 4 kTypeValue, [40]), (mkInternalKey [3] 1 kTypeValue, [30])]"
  shows "user_view 4 E = [([1], [20]), ([2], [40]), ([3], [30])]" "user_view 5 E = [([2], [40]), ([3], [30])]"
proof -
  have q: "(5 :: u64) \<le> kMaxSequenceNumber" "(2 :: u64) \<le> kMaxSequenceNumber" "(4 :: u64) \<le> kMaxSequenceNumber" "(1 :: u64) \<le> kMaxSequenceNumber"
    by (simp_all add: kMaxSequenceNumber_eq)
  note e = q [THEN entry_mkInternalKey(1)] q [THEN entry_mkInternalKey(2)] q [THEN entry_mkInternalKey(3)]
  have all: "(\<forall>j < Suc k. P j) \<longleftrightarrow> P k \<and> (\<forall>j < k. P j)" for k and P :: "nat \<Rightarrow> bool" by (auto simp: less_Suc_eq)
  have n: "[0..<length E] = [0, Suc 0, Suc (Suc 0), Suc (Suc (Suc 0))]" by (simp add: assms upt_rec)
  show "user_view 4 E = [([1], [20]), ([2], [40]), ([3], [30])]" "user_view 5 E = [([2], [40]), ([3], [30])]"
    unfolding user_view_def n by (simp_all add: assms yields_def all e)
qed

theorem db_iterator_witness:
  "\<exists>m r1 t1 d d'. filled m ex_mem_ops \<and> opened_from port_snappy r1 t1 ex_older \<and>
    make_moves (DBIter_vt slice_compare (NewMergingIterator_vt icmp dyn_iterator)) [To_Last, Back, Back, Forth, To [1], Forth]
      (NewDBIterator (NewMergingIterator dyn_iterator [mem_object m, table_object r1 port_snappy 9 True t1]) 4 301) = Some d \<and>
    shown (DBIter_vt slice_compare (NewMergingIterator_vt icmp dyn_iterator)) d = Some ([2], [40]) \<and>
    make_moves (DBIter_vt slice_compare (NewMergingIterator_vt icmp dyn_iterator)) [To [1]]
      (NewDBIterator (NewMergingIterator dyn_iterator [mem_object m, table_object r1 port_snappy 9 True t1]) 5 301) = Some d' \<and>
    shown (DBIter_vt slice_compare (NewMergingIterator_vt icmp dyn_iterator)) d' = Some ([2], [40])"
proof -
  note ev = sorted_entries_def ex_older_def ex_newer_def icmp_mkInternalKey PackSequenceAndType_def type_code_def slice_compare_def
    disjoint_keys_def merged_def
  obtain m where m: "filled m ex_mem_ops" "mem_entries m = ex_newer" using ex_filled by blast
  have so: "sorted_entries icmp valid_ikey ex_older" "table_size ex_older < 2 ^ 30" by (simp_all add: ev)
  obtain mf t1 where t1: "opened_from port_snappy (PosixMmapReadableFile_Read [] mf) t1 ex_older"
    using opened_from_exists [OF port.snappy_port_axioms ex_table(3,5) so] by blast
  let ?ts = "[(PosixMmapReadableFile_Read [] mf, t1, ex_older)]"
  have d: "disjoint_keys icmp ex_newer ex_older" by (simp add: ev)
  have p: "\<forall>e \<in> set ex_older. parseable e" by (simp add: ex_older_def entry_mkInternalKey kMaxSequenceNumber_eq)
  have E: "merged icmp [ex_newer, ex_older] = [(mkInternalKey [1] 5 kTypeDeletion, []), (mkInternalKey [1] 2 kTypeValue, [20]),
      (mkInternalKey [2] 4 kTypeValue, [40]), (mkInternalKey [3] 1 kTypeValue, [30])]"
    by (simp add: ev)
  let ?vt = "DBIter_vt slice_compare (NewMergingIterator_vt icmp dyn_iterator)"
    and ?it = "\<lambda>s. NewDBIterator (NewMergingIterator dyn_iterator [mem_object m, table_object (PosixMmapReadableFile_Read [] mf) port_snappy 9 True t1]) s 301"
  have sim: "simulates ?vt slice_compare (\<lambda>t. length t + 8 < 2 ^ 32) (user_view s (merged icmp [ex_newer, ex_older])) (?it s)"
    if "s \<le> kMaxSequenceNumber" for s
    using db_iterator [OF port.snappy_port_axioms, of "[(m, ex_mem_ops)]" ?ts s "[mem_object m, table_object (PosixMmapReadableFile_Read [] mf) port_snappy 9 True t1]"
        9 True "merged icmp [ex_newer, ex_older]" 301] m t1 d p that by simp
  have sh: "shown (list_iterator slice_compare [([1], [20]), ([2], [40]), ([3], [30])]) 1 = Some ([2], [40])"
    "shown (list_iterator slice_compare [([2], [40]), ([3], [30])]) 0 = Some ([2], [40])"
    by (simp_all add: shown_def list_iterator_def)
  have m4: "make_moves (list_iterator slice_compare [([1], [20]), ([2], [40]), ([3], [30])]) [To_Last, Back, Back, Forth, To [1], Forth]
      (length [([1] :: bytes, [20] :: bytes), ([2], [40]), ([3], [30])]) = Some 1"
    by (simp add: make_move_def list_iterator_def first_ge_def slice_compare_def)
  have m5: "make_moves (list_iterator slice_compare [([2], [40]), ([3], [30])]) [To [1]] (length [([2] :: bytes, [40] :: bytes), ([3], [30])]) = Some 0"
    by (simp add: make_move_def list_iterator_def first_ge_def slice_compare_def)
  obtain d1 where "make_moves ?vt [To_Last, Back, Back, Forth, To [1], Forth] (?it 4) = Some d1" "shown ?vt d1 = Some ([2], [40])"
    using sim [of 4, unfolded ex_view [OF E] simulates_def, rule_format, OF _ _ m4] sh(1) by (auto simp: kMaxSequenceNumber_eq)
  moreover obtain d2 where "make_moves ?vt [To [1]] (?it 5) = Some d2" "shown ?vt d2 = Some ([2], [40])"
    using sim [of 5, unfolded ex_view [OF E] simulates_def, rule_format, OF _ _ m5] sh(2) by (auto simp: kMaxSequenceNumber_eq)
  ultimately show ?thesis using m(1) t1 by blast
qed

end
