(* ===== verification/Spec2Isabelle.thy ===== *)
theory Spec2Isabelle
  imports PbExamples PbRequired PbSubstream Base64 LdbFilename LdbWriteBatch LdbLogProof LdbFilterBlock LdbBlockSafe LdbVersionEdit LdbDBIter
begin

text \<open>
  Verification of the C and C++ code that the FinalWork iOS app is built from. The app itself is a
  Swift user interface over Firebase; its own logic in C and C++ is in the pods under
  \<^verbatim>\<open>src/FinalWork_JanyErtveldt/Pods\<close>: the protocol buffer codec \<^verbatim>\<open>nanopb\<close>, the Base64 codec of the
  websocket client in \<^verbatim>\<open>FirebaseDatabase\<close>, and the storage library \<^verbatim>\<open>leveldb-library\<close>. All paths below
  are relative to that directory.

  \<^bold>\<open>How programs are modelled.\<close> Pure functions are HOL functions; functions that change an object take
  the object (a record with the members of the class) and return the changed one. Machine integers are
  words of their width, so arithmetic wraps as in C; lengths that the code keeps in \<^verbatim>\<open>size_t\<close> are
  natural numbers where the code relies on objects being smaller than the address space, and words
  where a wrap-around matters. Errors of the code are values (a status, a Boolean with an error
  message); \<open>None\<close> as a result of a model is behaviour that C leaves undefined (an access outside an
  object, a null pointer) or a loop that does not end, so a theorem that gives \<open>Some\<close> also shows
  that these do not happen. Loops are structural recursion where there is a bound in the code, and
  \<^theory_text>\<open>partial_function (option)\<close> where there is none; their termination is then proved with the result.
  Recursion over message structure in nanopb takes a depth as fuel: \<open>msg_depth fds \<le> n\<close> is enough, since
  every submessage has a smaller depth. Virtual methods are records of functions
  (\<open>Iterator\<close>, \<open>Comparator\<close>, \<open>FilterPolicy\<close>, \<open>Handler\<close>) or arguments; what clients rely on is stated as a locale
  and every locale is interpreted on the classes of the library.

  \<^bold>\<open>Shared theories.\<close> \<open>Prelude\<close> (little-endian bytes, results that can fail, generic lemmas), \<open>CMem\<close> (memory
  as a map from addresses to bytes, regions and frames), \<open>Varint\<close> (base-128 numbers, shared by
  nanopb and LevelDB).

  \<^bold>\<open>nanopb\<close> (\<^verbatim>\<open>nanopb/pb.h\<close>, \<^verbatim>\<open>pb_common.c\<close>, \<^verbatim>\<open>pb_encode.c\<close>, \<^verbatim>\<open>pb_decode.c\<close>).
  \<^item> \<open>Pb\<close>: type codes, field descriptors and extension structs. \<open>PbCommon\<close>: the field iterator; it finds a
    tag whenever a field has it.
  \<^item> \<open>PbOStream\<close>, \<open>PbEncPrim\<close>, \<open>PbEncode\<close>: output streams, primitive encoders, the message encoder.
    \<open>PbWire\<close> gives a reference serializer and shows that \<open>pb_encode\<close> is a refinement of it, for buffer,
    sizing and custom streams; an \<open>emitter\<close> is a piece of code that writes fixed bytes or fails.
  \<^item> \<open>PbIStream\<close>, \<open>PbDecPrim\<close>, \<open>PbDecode\<close>: input streams, primitive decoders, the message decoder.
    \<open>PbRoundtrip\<close>: varints, zig-zag numbers, tags and skipped fields. \<open>PbDecodeSafe\<close>: on any input the decoder
    ends and writes inside the message struct. \<open>PbRequired\<close>: the bookkeeping of required fields.
    \<open>PbSubstream\<close>: length-delimited messages. \<open>PbExamples\<close>: messages for the witnesses.

  \<^bold>\<open>Base64\<close> (\<^verbatim>\<open>FirebaseDatabase/Firebase/Database/third_party/SocketRocket/fbase64.c\<close>), theory \<open>Base64\<close>: encoder and decoder on a target array of
  an announced size; round trip, exact lengths, no write outside.

  \<^bold>\<open>LevelDB\<close> (\<^verbatim>\<open>leveldb-library\<close>), from the bytes upwards.
  \<^item> \<open>LdbCoding\<close> (\<^verbatim>\<open>util/coding\<close>), \<open>LdbCompare\<close> (\<^verbatim>\<open>slice.h\<close>, \<^verbatim>\<open>util/comparator.cc\<close>; locales \<open>comparator\<close> and
    \<open>key_comparator\<close>), \<open>LdbFormat\<close> (\<^verbatim>\<open>db/dbformat\<close>: internal keys), \<open>LdbRandom\<close>, \<open>LdbLogging\<close>, \<open>LdbStatus\<close>,
    \<open>LdbFilename\<close>, \<open>LdbCrc\<close> (\<^verbatim>\<open>util/crc32c.cc\<close> against the bit-serial polynomial division), \<open>LdbBloom\<close>
    (\<^verbatim>\<open>util/hash.cc\<close>, \<^verbatim>\<open>util/bloom.cc\<close>; locale \<open>filter_policy\<close>).
  \<^item> \<open>LdbSkipList\<close> (\<^verbatim>\<open>db/skiplist.h\<close>: nodes in a store, every intermediate state of an insertion),
    \<open>LdbMemTable\<close> (\<^verbatim>\<open>db/memtable\<close>: a refinement of a multi-version map), \<open>LdbWriteBatch\<close> (\<^verbatim>\<open>db/write_batch\<close>).
  \<^item> \<open>LdbFile\<close> (\<^verbatim>\<open>util/env_posix.cc\<close>: the file classes; locales \<open>sequential_file\<close>, \<open>writable_file\<close>,
    \<open>random_access_file\<close>), \<open>LdbLog\<close> and \<open>LdbLogProof\<close> (\<^verbatim>\<open>db/log_writer.cc\<close>, \<^verbatim>\<open>db/log_reader.cc\<close>: round trip, crashes,
    damaged records).
  \<^item> \<open>LdbIterator\<close> (\<^verbatim>\<open>iterator.h\<close>, \<^verbatim>\<open>table/iterator.cc\<close>, \<^verbatim>\<open>iterator_wrapper.h\<close>; locale \<open>iterator_over\<close>, the contract of
    every iterator over a sorted list of entries), \<open>LdbBlock\<close>, \<open>LdbBlockProof\<close>, \<open>LdbBlockSafe\<close>
    (\<^verbatim>\<open>table/block_builder.cc\<close>, \<^verbatim>\<open>table/block.cc\<close>), \<open>LdbFilterBlock\<close> (\<^verbatim>\<open>table/filter_block.cc\<close>), \<open>LdbTableFormat\<close>
    (\<^verbatim>\<open>table/format.cc\<close>; locale \<open>snappy_port\<close> for the compression library, which is not part of the
    repository), \<open>LdbTwoLevel\<close> (\<^verbatim>\<open>table/two_level_iterator.cc\<close>; locale \<open>two_level\<close>), \<open>LdbTableBuilder\<close> and
    \<open>LdbTableBuildProof\<close> (\<^verbatim>\<open>table/table_builder.cc\<close>), \<open>LdbTable\<close>, \<open>LdbTableProof\<close>, \<open>LdbTableGet\<close> (\<^verbatim>\<open>table/table.cc\<close>): a
    table gives back what was put into it, by iteration and by lookup.
  \<^item> \<open>LdbMerger\<close> (\<^verbatim>\<open>table/merger.cc\<close>; locale \<open>merging\<close>: children with the contract and different keys),
    \<open>LdbMemIter\<close> (the iterator of \<^verbatim>\<open>db/memtable.cc\<close>), \<open>LdbDBIter\<close> (\<^verbatim>\<open>db/db_iter.cc\<close>; locale \<open>snapshot\<close>): the
    iterator that users of a database see refines the list of the newest visible versions of all
    user keys, over any memtables and tables. \<open>simulates\<close> in \<open>LdbIterator\<close> is the refinement relation: any
    sequence of moves on an object shows what a cursor into a list shows.
  \<^item> \<open>LdbVersionEdit\<close> (\<^verbatim>\<open>db/version_edit\<close>: the records of the manifest, their encoding and decoding).

  \<^bold>\<open>Bounds.\<close> Streams and files are below \<open>2 ^ 63\<close> bytes, blocks and tables below \<open>2 ^ 32\<close> bytes (offsets in a block
  are 32-bit numbers in the code), sequence numbers below \<open>2 ^ 56\<close>; each theorem states the bounds it needs.

  \<^bold>\<open>Not modelled.\<close> The Swift code of the app and the Objective-C headers of Firebase and Google Toolbox
  (declarations only). Of LevelDB the parts listed as not modelled in the manifest: the database
  object with its background compactions, versions and recovery, whose behaviour is an interplay of
  threads, locks and file system calls, and the printing and C wrappers around it. Memory barriers
  and data races: every step is sequentially consistent, and the states that a reader of the skip
  list can see are enumerated explicitly.
\<close>

section \<open>Encoding\<close>

text \<open>
  C1: For every message struct that the reference serializer accepts, \<open>pb_encode\<close> into a memory
  buffer that is large enough returns true, puts exactly the reference bytes at the start of the
  buffer, leaves the rest of the buffer alone and counts the bytes.
\<close>

theorem pb_encode_writes_wire:
  assumes "wire_message m fds src = Some bs" "length bs < 2 ^ 62" "msg_depth fds \<le> n"
    and "length bs \<le> unat bufsize" "unat bufsize \<le> length buf" "unat bufsize < 2 ^ 63"
  shows "pb_encode n env m fds src (pb_ostream_from_buffer buf bufsize) =
    Some (True, \<lparr>sink = BufWrite (bs @ drop (length bs) buf) (length bs), max_size = bufsize,
      bytes_written = of_nat (length bs), os_errmsg = None\<rparr>)"
  using assms by (intro emitter.buffer_ok emitter_pb_encode)

theorem pb_encode_writes_wire_witness:
  "wire_message ex_mem ex_fields 100 = Some [8, 150, 1, 18, 1, 65] \<and> msg_depth ex_fields \<le> 2 \<and>
   pb_encode 2 ex_enc_env ex_mem ex_fields 100 (pb_ostream_from_buffer [7, 7, 7, 7, 7, 7, 7, 7] 7) =
    Some (True, \<lparr>sink = BufWrite [8, 150, 1, 18, 1, 65, 7, 7] 6, max_size = 7,
      bytes_written = 6, os_errmsg = None\<rparr>)"
proof -
  have "msg_depth ex_fields \<le> 2" by (simp add: pb_eval)
  with ex_wire pb_encode_writes_wire [of ex_mem ex_fields 100 "[8, 150, 1, 18, 1, 65]" 2 7
      "[7, 7, 7, 7, 7, 7, 7, 7]" ex_enc_env]
  show ?thesis by simp
qed

text \<open>
  C2: If the reference bytes do not fit, \<open>pb_encode\<close> returns false with an error message and
  no byte of the buffer past the announced size is changed.
\<close>

theorem pb_encode_stream_full:
  assumes "wire_message m fds src = Some bs" "length bs < 2 ^ 62" "msg_depth fds \<le> n"
    and "unat bufsize < length bs" "unat bufsize \<le> length buf" "unat bufsize < 2 ^ 63"
  shows "\<exists>s' buf' p. pb_encode n env m fds src (pb_ostream_from_buffer buf bufsize) = Some (False, s') \<and>
    sink s' = BufWrite buf' p \<and> length buf' = length buf \<and>
    drop (unat bufsize) buf' = drop (unat bufsize) buf \<and> os_errmsg s' \<noteq> None"
  using assms by (intro emitter.buffer_full emitter_pb_encode)

theorem pb_encode_stream_full_witness:
  "\<exists>s' buf' p. pb_encode 2 ex_enc_env ex_mem ex_fields 100 (pb_ostream_from_buffer [7, 7, 7, 7] 3) =
      Some (False, s') \<and> sink s' = BufWrite buf' p \<and> length buf' = length [7, 7, 7, 7 :: byte] \<and> drop 3 buf' = [7] \<and>
      os_errmsg s' \<noteq> None"
proof -
  have "msg_depth ex_fields \<le> 2" by (simp add: pb_eval)
  with ex_wire pb_encode_stream_full [of ex_mem ex_fields 100 "[8, 150, 1, 18, 1, 65]" 2 3
      "[7, 7, 7, 7]" ex_enc_env]
  show ?thesis by simp
qed

text \<open>
  C3: \<open>pb_get_encoded_size\<close> returns the exact number of bytes \<open>pb_encode\<close> will write.
\<close>

theorem pb_get_encoded_size_exact:
  assumes "wire_message m fds src = Some bs" "length bs < 2 ^ 62" "msg_depth fds \<le> n"
  shows "pb_get_encoded_size n env m fds src = Some (Some (of_nat (length bs)))"
  using emitter.sizing [OF emitter_pb_encode [OF assms, of env]]
  by (simp add: pb_get_encoded_size_def PB_OSTREAM_SIZING_def)

theorem pb_get_encoded_size_exact_witness:
  "pb_get_encoded_size 2 ex_enc_env ex_mem ex_fields 100 = Some (Some 6)"
proof -
  have "msg_depth ex_fields \<le> 2" by (simp add: pb_eval)
  with ex_wire pb_get_encoded_size_exact [of ex_mem ex_fields 100 "[8, 150, 1, 18, 1, 65]" 2 ex_enc_env]
  show ?thesis by simp
qed

text \<open>
  C4: \<open>pb_encode_delimited\<close> writes the length of the message as a varint and then the message.
  The size pass and the writing pass of \<open>pb_encode_submessage\<close> agree for every struct.
\<close>

theorem pb_encode_delimited_writes_wire:
  assumes "wire_message m fds src = Some bs" "length bs < 2 ^ 62" "msg_depth fds \<le> n"
    and "length (wire_string bs) \<le> unat bufsize" "unat bufsize \<le> length buf" "unat bufsize < 2 ^ 63"
  shows "pb_encode_delimited n env m fds src (pb_ostream_from_buffer buf bufsize) =
    Some (True, \<lparr>sink = BufWrite (wire_string bs @ drop (length (wire_string bs)) buf)
        (length (wire_string bs)),
      max_size = bufsize, bytes_written = of_nat (length (wire_string bs)), os_errmsg = None\<rparr>)"
  unfolding pb_encode_delimited_def
  using assms by (intro emitter.buffer_ok emitter_pb_encode_submessage emitter_pb_encode)

theorem pb_encode_delimited_writes_wire_witness:
  "pb_encode_delimited 2 ex_enc_env ex_mem ex_fields 100 (pb_ostream_from_buffer [7, 7, 7, 7, 7, 7, 7] 7) =
    Some (True, \<lparr>sink = BufWrite [6, 8, 150, 1, 18, 1, 65] 7, max_size = 7,
      bytes_written = 7, os_errmsg = None\<rparr>)"
proof -
  have "msg_depth ex_fields \<le> 2" by (simp add: pb_eval)
  moreover have "wire_string [8, 150, 1, 18, 1, 65] = [6, 8, 150, 1, 18, 1, 65]"
    by (simp add: wire_string_def uvarint.simps)
  ultimately show ?thesis
    using ex_wire pb_encode_delimited_writes_wire [of ex_mem ex_fields 100 "[8, 150, 1, 18, 1, 65]" 2 7
      "[7, 7, 7, 7, 7, 7, 7]" ex_enc_env] by simp
qed

section \<open>Decoding\<close>

text \<open>
  C5: On every input buffer, however malformed, \<open>pb_decode\<close> for a message type without
  callbacks and extensions returns; it reads no byte past the announced end of the buffer, and
  it writes no byte of memory outside the fields of the destination struct.
\<close>

theorem pb_decode_safe:
  fixes env :: "'s dec_env"
  assumes "plain_message fds" "msg_depth fds \<le> n" "unat k \<le> length bs"
  shows "\<exists>ok s' m' bs'. pb_decode n env fds dest (pb_istream_from_buffer bs k, m) = Some (ok, s', m') \<and>
    source s' = BufRead bs' \<and> unat (bytes_left s') \<le> length bs' \<and>
    (\<forall>x. \<not> covers (footprint fds dest) x \<longrightarrow> m' x = m x)"
proof -
  let ?s = "pb_istream_from_buffer bs k :: 's pb_istream"
  have src: "source ?s = BufRead bs" "bytes_left ?s = k" "src_ok (source ?s)"
    by (simp_all add: pb_istream_from_buffer_def src_ok_def)
  then obtain ok s' m' where r: "pb_decode n env fds dest (?s, m) = Some (ok, s', m')" "moved ok ?s s'"
    "\<forall>x. \<not> covers (footprint fds dest) x \<longrightarrow> m' x = m x"
    using confined.runs [OF confined_pb_decode [OF assms(1,2)]] by blast
  then obtain bs' where "source s' = BufRead bs'" "unat (bytes_left s') \<le> length bs'"
    using within_in_bounds [OF moved_within, of ok ?s s' bs] src assms(3) by auto
  with r show ?thesis by blast
qed

theorem pb_decode_safe_witness:
  "plain_message ex_fields \<and>
   (\<exists>ok s' m' bs'. pb_decode 2 ex_dec_env ex_fields 100 (pb_istream_from_buffer [18, 255, 255, 3] 3, ex_mem) =
      Some (ok, s', m') \<and> source s' = BufRead bs' \<and> unat (bytes_left s') \<le> length bs' \<and>
      (\<forall>x. \<not> covers (footprint ex_fields 100) x \<longrightarrow> m' x = ex_mem x))"
proof -
  have "plain_message ex_fields" "msg_depth ex_fields \<le> 2"
    by (simp_all add: pb_eval plain_message_def plain_field.simps nfields_def PB_LTYPES_COUNT_def)
  then show ?thesis
    using pb_decode_safe [of ex_fields 2 3 "[18, 255, 255, 3]" ex_dec_env 100 ex_mem] by simp
qed

text \<open>
  C6: \<open>pb_decode_delimited\<close> on a stream that starts with a length-prefixed body succeeds exactly
  when \<open>pb_decode\<close> succeeds on the body alone, with the same memory, and it leaves the stream at
  the first byte behind the body: neither the body's contents nor a decoder that stops early can
  shift where the next message is read.
\<close>

theorem pb_decode_delimited_exact:
  assumes "plain_message fds" "msg_depth fds \<le> n"
    and "length body < 2 ^ 32" "length (wire_string body) \<le> unat k"
  shows "pb_decode_delimited n env fds dest (buf_stream (wire_string body @ rest) k e, m) =
      Some (True, s', m') \<longleftrightarrow>
    (\<exists>sub. pb_decode n env fds dest (buf_stream (body @ rest) (of_nat (length body)) e, m) =
       Some (True, sub, m') \<and>
     s' = buf_stream rest (k - of_nat (length (wire_string body))) (is_errmsg sub))"
  unfolding pb_decode_delimited_def
  by (rule on_substream_wire [OF confined_pb_decode [OF assms(1,2)] assms(3,4)])

theorem pb_decode_delimited_exact_witness:
  "\<forall>m e s' m'. pb_decode_delimited 2 ex_dec_env ex_fields 100 (buf_stream [2, 8, 1, 9, 9] 5 e, m) =
      Some (True, s', m') \<longleftrightarrow>
    (\<exists>sub. pb_decode 2 ex_dec_env ex_fields 100 (buf_stream [8, 1, 9, 9] 2 e, m) = Some (True, sub, m') \<and>
       s' = buf_stream [9, 9] 2 (is_errmsg sub))"
proof -
  have "wire_string [8, 1] = [2, 8, 1]" by (simp add: wire_string_def uvarint.simps)
  then show ?thesis
    using pb_decode_delimited_exact [of ex_fields 2 "[8, 1]" 5 ex_dec_env 100 "[9, 9]"] ex_plain by simp
qed

text \<open>
  C7: When the main loop of \<open>pb_decode_noinit\<close> ends without an error, the message is accepted
  exactly if every required field was decoded in one of the rounds; this holds for message types
  with fewer than 64 required fields whose number is not a multiple of 32.
\<close>

theorem pb_decode_noinit_required:
  assumes c: "req_before fds (nfields fds) < 64" "req_before fds (nfields fds) mod 32 \<noteq> 0"
    and l: "decode_loop (Suc (unat (bytes_left (fst d)))) n env (pb_decode_noinit n env)
      (init_locals fds dest) d = Some (True, l, d1)"
  shows "\<exists>its d2. rounds n env (pb_decode_noinit n env) (init_locals fds dest) d its l d2 \<and>
    pb_decode_noinit (Suc n) env fds dest d =
      (if \<forall>i < nfields fds. is_required (fds ! i) \<longrightarrow> iter_at fds dest i \<in> set its
       then Some (True, d1) else is_fail ''missing required field'' d1)"
proof -
  obtain its d2 where r: "rounds n env (pb_decode_noinit n env) (init_locals fds dest) d its l d2"
    using decode_loop_rounds [OF l] by blast
  from required_fields_iff [OF c this, of env] l show ?thesis
    by (intro exI [of _ its] exI [of _ d2] conjI r) (simp del: decode_loop.simps)
qed

theorem pb_decode_noinit_required_witness:
  "\<exists>its d2. rounds 1 ex_dec_env (pb_decode_noinit 1 ex_dec_env) (init_locals ex_fields 100)
      (buf_stream [] 0 None, ex_mem) its (init_locals ex_fields 100) d2 \<and>
    pb_decode_noinit 2 ex_dec_env ex_fields 100 (buf_stream [] 0 None, ex_mem) =
      (if \<forall>i < 2. is_required (ex_fields ! i) \<longrightarrow> iter_at ex_fields 100 i \<in> set its
       then Some (True, buf_stream [] 0 None, ex_mem)
       else is_fail ''missing required field'' (buf_stream [] 0 None, ex_mem))"
proof -
  have "req_before ex_fields (nfields ex_fields) = 1" "nfields ex_fields = 2"
    by (simp_all add: pb_eval nfields_def req_before_def is_required_def)
  then show ?thesis
    using pb_decode_noinit_required [of ex_fields "(buf_stream [] 0 None, ex_mem)" 1 ex_dec_env 100
        "init_locals ex_fields 100" "(buf_stream [] 0 None, ex_mem)"]
    by (simp add: numeral_2_eq_2)
qed

text \<open>
  C8: The same for message types with exactly 32 or exactly 64 required fields. An incomplete message
  is rejected, but a complete one is accepted only if a shift of a 32-bit value by 32 bits, which the
  C standard leaves undefined, happens to give 0, or, with 64 required fields, what is stored behind
  the array \<open>fields_seen\<close>. Where such a shift leaves the value as it is, no message of a type with 32
  required fields can be decoded.
\<close>

theorem pb_decode_noinit_full_words:
  assumes c: "req_before fds (nfields fds) = 32 * q" "q = 1 \<or> q = 2"
    and l: "decode_loop (Suc (unat (bytes_left (fst d)))) n env (pb_decode_noinit n env)
      (init_locals fds dest) d = Some (True, l, d1)"
  shows "(\<exists>its d2. rounds n env (pb_decode_noinit n env) (init_locals fds dest) d its l d2 \<and>
      pb_decode_noinit (Suc n) env fds dest d =
        (if (\<forall>i < nfields fds. is_required (fds ! i) \<longrightarrow> iter_at fds dest i \<in> set its) \<and>
            (if q = 1 then 0 else stack_word env 2) = shift32 env
         then Some (True, d1) else is_fail ''missing required field'' d1)) \<and>
    (q = 1 \<and> shift32 env = -1 \<longrightarrow> pb_decode_noinit (Suc n) env fds dest d = is_fail ''missing required field'' d1)"
proof -
  obtain its d2 where r: "rounds n env (pb_decode_noinit n env) (init_locals fds dest) d its l d2"
    using decode_loop_rounds [OF l] by blast
  note ok = required_full_words [OF c r, of env]
  have e: "pb_decode_noinit (Suc n) env fds dest d =
      (if (\<forall>i < nfields fds. is_required (fds ! i) \<longrightarrow> iter_at fds dest i \<in> set its) \<and>
          (if q = 1 then 0 else stack_word env 2) = shift32 env
       then Some (True, d1) else is_fail ''missing required field'' d1)"
    using l by (simp add: ok del: decode_loop.simps)
  have "pb_decode_noinit (Suc n) env fds dest d = is_fail ''missing required field'' d1" if "q = 1 \<and> shift32 env = -1"
    unfolding e using that by simp
  with r e show ?thesis by blast
qed

text \<open>32 required integers, on a machine that shifts by the count modulo 32.\<close>

definition ex_many_fields :: "pb_field list" where
  "ex_many_fields = map (\<lambda>i. PB_REQUIRED_STATIC (of_nat (Suc i)) 4 0 PB_LTYPE_UVARINT Ptr_null) [0..<32] @ [PB_LAST_FIELD]"

theorem pb_decode_noinit_full_words_witness:
  "pb_decode_noinit 2 (ex_dec_env\<lparr>shift32 := -1\<rparr>) ex_many_fields 100 (buf_stream [] 0 None, ex_mem) =
     is_fail ''missing required field'' (buf_stream [] 0 None, ex_mem)"
proof -
  have "req_before ex_many_fields (nfields ex_many_fields) = 32 * 1"
    by (simp add: pb_eval nfields_def req_before_def is_required_def ex_many_fields_def upt_rec)
  then show ?thesis
    using pb_decode_noinit_full_words [of ex_many_fields 1 "(buf_stream [] 0 None, ex_mem)" 1 "ex_dec_env\<lparr>shift32 := -1\<rparr>" 100
        "init_locals ex_many_fields 100" "(buf_stream [] 0 None, ex_mem)"]
    by (simp add: numeral_2_eq_2)
qed

text \<open>
  C9: \<open>pb_field_iter_find\<close>, started at any field, finds a field with the wanted tag whenever
  the message type has one that is not an extension range, and otherwise reports failure with the
  iterator unchanged, its data pointers included.
\<close>

theorem pb_field_iter_find_complete:
  assumes "i < nfields fds"
  shows "(\<exists>j < nfields fds. tag (fds ! j) = tg \<and> PB_LTYPE (type (fds ! j)) \<noteq> PB_LTYPE_EXTENSION \<and>
        pb_field_iter_find (iter_at fds dest i) tg = (True, iter_at fds dest j)) \<or>
    (\<forall>j < nfields fds. tag (fds ! j) = tg \<longrightarrow> PB_LTYPE (type (fds ! j)) = PB_LTYPE_EXTENSION) \<and>
        pb_field_iter_find (iter_at fds dest i) tg = (False, iter_at fds dest i)"
  using assms unfolding pb_field_iter_find_def
  by (cases rule: iter_search_cases [of i fds "\<lambda>f. tag f = tg \<and> PB_LTYPE (type f) \<noteq> PB_LTYPE_EXTENSION" dest])
     auto

theorem pb_field_iter_find_complete_witness:
  "pb_field_iter_find (iter_at ex_fields 100 1) 7 = (False, iter_at ex_fields 100 1)"
proof -
  have "nfields ex_fields = 2" "tag (ex_fields ! 0) = 1" "tag (ex_fields ! 1) = 2"
    by (simp_all add: pb_eval nfields_def)
  then show ?thesis
    using pb_field_iter_find_complete [of 1 ex_fields 7 100] by (auto simp: less_2_cases_iff)
qed

section \<open>Scalar formats\<close>

text \<open>
  C10: Whatever 64-bit value \<open>pb_encode_varint\<close> puts into a buffer, \<open>pb_decode_varint\<close> takes
  out of it, consuming exactly the bytes written (at most ten); the rest of the buffer is kept.
\<close>

theorem varint_roundtrip:
  assumes "10 \<le> unat n" "unat n \<le> length buf" "unat n < 2 ^ 63"
  shows "\<exists>out p. pb_encode_varint v (pb_ostream_from_buffer buf n) =
      Some (True, \<lparr>sink = BufWrite out p, max_size = n, bytes_written = of_nat p, os_errmsg = None\<rparr>) \<and>
    p \<le> 10 \<and> drop p out = drop p buf \<and>
    pb_decode_varint (pb_istream_from_buffer out (of_nat p)) = (Some v, pb_istream_from_buffer (drop p buf) 0)"
  using varint64_stream.roundtrip [of v n buf] length_uvarint_u64 [of v] assms by auto

theorem varint_roundtrip_witness:
  "\<exists>out p. pb_encode_varint 300 (pb_ostream_from_buffer (replicate 12 7) 11) =
      Some (True, \<lparr>sink = BufWrite out p, max_size = 11, bytes_written = of_nat p, os_errmsg = None\<rparr>) \<and>
    p \<le> 10 \<and> drop p out = drop p (replicate 12 7) \<and>
    pb_decode_varint (pb_istream_from_buffer out (of_nat p)) =
      (Some 300, pb_istream_from_buffer (drop p (replicate 12 7)) 0)"
  using varint_roundtrip [of 11 "replicate 12 7" 300] by simp

text \<open>
  The same for zig-zag varints, for every signed 64-bit value.
\<close>

theorem svarint_roundtrip:
  assumes "10 \<le> unat n" "unat n \<le> length buf" "unat n < 2 ^ 63"
  shows "\<exists>out p. pb_encode_svarint v (pb_ostream_from_buffer buf n) =
      Some (True, \<lparr>sink = BufWrite out p, max_size = n, bytes_written = of_nat p, os_errmsg = None\<rparr>) \<and>
    p \<le> 10 \<and> drop p out = drop p buf \<and>
    pb_decode_svarint (pb_istream_from_buffer out (of_nat p)) = (Some v, pb_istream_from_buffer (drop p buf) 0)"
  using svarint_stream.roundtrip [of v n buf] length_uvarint_u64 [of "zigzag v"] assms by auto

theorem svarint_roundtrip_witness:
  "\<exists>out p. pb_encode_svarint (- 3) (pb_ostream_from_buffer (replicate 12 7) 11) =
      Some (True, \<lparr>sink = BufWrite out p, max_size = 11, bytes_written = of_nat p, os_errmsg = None\<rparr>) \<and>
    p \<le> 10 \<and> drop p out = drop p (replicate 12 7) \<and>
    pb_decode_svarint (pb_istream_from_buffer out (of_nat p)) =
      (Some (- 3), pb_istream_from_buffer (drop p (replicate 12 7)) 0)"
  using svarint_roundtrip [of 11 "replicate 12 7" "- 3"] by simp

text \<open>
  \<open>pb_encode_tag\<close> and \<open>pb_decode_tag\<close> are inverse for every wire type below 8 and every
  field number below \<open>2\<^sup>29\<close>.
\<close>

theorem tag_roundtrip:
  assumes "wt < 8" "0 < tg" "tg < 2 ^ 29" "10 \<le> unat n" "unat n \<le> length buf" "unat n < 2 ^ 63"
  shows "\<exists>out p. pb_encode_tag wt tg (pb_ostream_from_buffer buf n) =
      Some (True, \<lparr>sink = BufWrite out p, max_size = n, bytes_written = of_nat p, os_errmsg = None\<rparr>) \<and>
    drop p out = drop p buf \<and>
    pb_decode_tag (pb_istream_from_buffer out (of_nat p)) =
      ((True, wt, tg, False), pb_istream_from_buffer (drop p buf) 0)"
proof -
  have "valid_tag (wt, tg)" using assms(1-3) by (simp add: valid_tag_def)
  then show ?thesis
    using tag_stream.roundtrip [of "(wt, tg)" n buf] length_wire_tag [of wt tg] assms
    by (fastforce intro: decode_tag_pair_Some)
qed

theorem tag_roundtrip_witness:
  "\<exists>out p. pb_encode_tag 2 1000 (pb_ostream_from_buffer (replicate 12 7) 11) =
      Some (True, \<lparr>sink = BufWrite out p, max_size = 11, bytes_written = of_nat p, os_errmsg = None\<rparr>) \<and>
    drop p out = drop p (replicate 12 7) \<and>
    pb_decode_tag (pb_istream_from_buffer out (of_nat p)) =
      ((True, 2, 1000, False), pb_istream_from_buffer (drop p (replicate 12 7)) 0)"
  using tag_roundtrip [of 2 1000 11 "replicate 12 7"] by simp

text \<open>
  C11: \<open>pb_skip_field\<close> skips exactly one field: every payload of the given wire type, varints of
  any length included, is consumed completely and nothing behind it is.
\<close>

theorem pb_skip_field_exact:
  assumes "payload wt bs" "length bs \<le> unat k"
  shows "pb_skip_field wt (buf_stream (bs @ rest) k e) =
    (True, buf_stream rest (k - of_nat (length bs)) e)"
  using assms by (rule pb_skip_field_payload)

theorem pb_skip_field_exact_witness:
  "pb_skip_field PB_WT_STRING (buf_stream [2, 65, 66, 9] 4 None) = (True, buf_stream [9] 1 None)"
proof -
  have "payload PB_WT_STRING (wire_string [65, 66])" by (rule payload_string) simp
  moreover have "wire_string [65, 66] = [2, 65, 66]" by (simp add: wire_string_def uvarint.simps)
  ultimately show ?thesis
    using pb_skip_field_exact [of PB_WT_STRING "[2, 65, 66]" 4 "[9]" None] by simp
qed

section \<open>Base64\<close>

text \<open>
  C12: Decoding with \<open>f_b64_pton\<close> what \<open>f_b64_ntop\<close> encoded gives the original bytes back, for
  buffers with room for the text and its NUL, and for the data (one byte more where the text is
  padded); both return the exact lengths.
\<close>

theorem b64_roundtrip:
  assumes "length (b64_text src) < ts1" "ts1 \<le> length t1" "length (b64_text src) < 2 ^ 31"
    and "pton_room src \<le> ts2" "ts2 \<le> length t2" "pton_room src < 2 ^ 31"
  shows "\<exists>text data. f_b64_ntop src t1 ts1 = (int (4 * ((length src + 2) div 3)), text) \<and>
    f_b64_pton text (Some t2) ts2 = (int (length src), Some data) \<and> take (length src) data = src"
proof -
  have "sint (of_nat (length (b64_text src)) :: u32) = int (length (b64_text src))"
    using assms(3) by (simp add: signed_of_nat signed_take_bit_int_eq_self)
  then show ?thesis
    using f_b64_ntop_fits [OF assms(1,2)] f_b64_pton_text [OF assms(6,4,5)]
    by (auto simp: f_b64_pton_nul length_b64_text)
qed

theorem b64_roundtrip_witness:
  "\<exists>text data. f_b64_ntop [1, 2, 3, 4] (replicate 9 7) 9 = (8, text) \<and>
    f_b64_pton text (Some (replicate 5 7)) 5 = (4, Some data) \<and> take (length [1, 2, 3, 4 :: byte]) data = [1, 2, 3, 4]"
  using b64_roundtrip [of "[1, 2, 3, 4]" 9 "replicate 9 7" 5 "replicate 5 7"]
  by (simp add: length_b64_text pton_room_def)

text \<open>
  \<open>f_b64_ntop\<close> never writes past the announced size of the target; where the text and its
  NUL do not fit it returns -1.
\<close>

theorem b64_ntop_overflow:
  assumes "targsize \<le> length (b64_text src)" "targsize \<le> length t"
  shows "\<exists>t'. f_b64_ntop src t targsize = (-1, t') \<and> length t' = length t \<and>
    drop targsize t' = drop targsize t"
  using assms by (rule f_b64_ntop_full)

theorem b64_ntop_overflow_witness:
  "\<exists>t'. f_b64_ntop [1, 2, 3] (replicate 6 7) 4 = (-1, t') \<and> length t' = 6 \<and> drop 4 t' = [7, 7]"
  using b64_ntop_overflow [of 4 "[1, 2, 3]" "replicate 6 7"]
  by (simp add: length_b64_text numeral_eq_Suc)

text \<open>
  C13: On any text at all, \<open>f_b64_pton\<close> writes only inside the announced size of the target.
\<close>

theorem b64_pton_bounded:
  assumes "f_b64_pton text (Some t) targsize = (r, t')"
  shows "\<exists>u. t' = Some u \<and> length u = length t \<and> drop targsize u = drop targsize t"
  using assms by (rule f_b64_pton_frame)

theorem b64_pton_bounded_witness:
  "\<exists>u. snd (f_b64_pton [65, 66, 67] (Some [7, 7, 7]) 1) = Some u \<and> length u = 3 \<and> drop 1 u = [7, 7]"
  using b64_pton_bounded [of "[65, 66, 67]" "[7, 7, 7]" 1, OF prod.collapse [symmetric]]
  by (simp add: numeral_3_eq_3)

end
